(* ===== verification/Prelude.thy ===== *)
theory Prelude
  imports Main "HOL-Library.Word"
begin

text \<open>
  Shared vocabulary of the development: the machine-integer types of the kernel, the outcome
  type and the state monad in which every kernel routine is written, Rust's checked integer
  arithmetic, the weakest-precondition calculus used by the component proofs, and generic
  facts on page alignment of 64-bit words.

  A kernel routine returns a value or leaves the routine for good: it panics, it powers the
  machine off, it hands control to a user process through \<open>trap_exit_restore\<close>, it takes an
  S-mode exception, or it polls a device that never answers. The second kind is the
  constructor \<open>Exit\<close>; the routines after it are not executed.
\<close>

unbundle bit_operations_syntax

named_theorems wp_simps "symbolic execution of the kernel monad"
named_theorems keeps_intros "routines that leave a part of the state alone"

text \<open>Loops run over literal ranges such as \<open>[0..<512]\<close>, which must not be unrolled.\<close>

declare upt_rec_numeral [simp del]

type_synonym usize = "64 word"
type_synonym u64 = "64 word"
type_synonym u32 = "32 word"
type_synonym u8 = "8 word"
type_synonym PhysAddr = usize
type_synonym VirtAddr = usize

section \<open>Outcomes and the kernel monad\<close>

datatype stop =
    Panic string
  | Shutdown
  | Resume usize usize
  | Kernel_trap usize usize
  | Device_wait

datatype 'a outcome = Val 'a | Exit stop

type_synonym ('s, 'a) kernel = "'s \<Rightarrow> 'a outcome \<times> 's"

definition ret :: "'a \<Rightarrow> ('s, 'a) kernel" where
  "ret x = (\<lambda>s. (Val x, s))"

definition halt :: "stop \<Rightarrow> ('s, 'a) kernel" where
  "halt e = (\<lambda>s. (Exit e, s))"

definition kbind :: "('s, 'a) kernel \<Rightarrow> ('a \<Rightarrow> ('s, 'b) kernel) \<Rightarrow> ('s, 'b) kernel" where
  "kbind m f = (\<lambda>s. case m s of (Val x, s') \<Rightarrow> f x s' | (Exit e, s') \<Rightarrow> (Exit e, s'))"

definition kseq :: "('s, unit) kernel \<Rightarrow> ('s, 'b) kernel \<Rightarrow> ('s, 'b) kernel" where
  "kseq m f = kbind m (\<lambda>_. f)"

definition gets :: "('s \<Rightarrow> 'a) \<Rightarrow> ('s, 'a) kernel" where
  "gets f = (\<lambda>s. (Val (f s), s))"

definition modify :: "('s \<Rightarrow> 's) \<Rightarrow> ('s, unit) kernel" where
  "modify f = (\<lambda>s. (Val (), f s))"

text \<open>A \<open>for\<close> loop over a range runs its body once per element, in order.\<close>

primrec for_each :: "'i list \<Rightarrow> ('i \<Rightarrow> ('s, unit) kernel) \<Rightarrow> ('s, unit) kernel" where
  "for_each [] f = ret ()"
| "for_each (i # is) f = kseq (f i) (for_each is f)"

text \<open>\<open>Option::expect\<close>: the value, or a panic with the given message.\<close>

definition expect :: "string \<Rightarrow> 'a option \<Rightarrow> ('s, 'a) kernel" where
  "expect msg v = (case v of Some x \<Rightarrow> ret x | None \<Rightarrow> halt (Panic msg))"

section \<open>Rust integer arithmetic\<close>

text \<open>
  The build of the repository is the debug profile (\<open>MODE ?= debug\<close> in the Makefile), in
  which \<open>+\<close> and \<open>-\<close> on machine integers panic on overflow. \<open>checked_add\<close> and
  \<open>checked_mul\<close> return an option instead.
\<close>

definition add_overflows :: "'a::len word \<Rightarrow> 'a word \<Rightarrow> bool" where
  "add_overflows a b \<longleftrightarrow> 2 ^ LENGTH('a) \<le> unat a + unat b"

definition checked_add :: "usize \<Rightarrow> usize \<Rightarrow> usize option" where
  "checked_add a b = (if add_overflows a b then None else Some (a + b))"

definition checked_mul :: "usize \<Rightarrow> usize \<Rightarrow> usize option" where
  "checked_mul a b = (if 2 ^ 64 \<le> unat a * unat b then None else Some (a * b))"

definition add_panic :: string where
  "add_panic = ''attempt to add with overflow''"

definition sub_panic :: string where
  "sub_panic = ''attempt to subtract with overflow''"

definition mul_panic :: string where
  "mul_panic = ''attempt to multiply with overflow''"

definition bounds_panic :: string where
  "bounds_panic = ''index out of bounds''"

definition uadd :: "'a::len word \<Rightarrow> 'a word \<Rightarrow> ('s, 'a word) kernel" where
  "uadd a b = (if add_overflows a b then halt (Panic add_panic) else ret (a + b))"

definition umul :: "'a::len word \<Rightarrow> 'a word \<Rightarrow> ('s, 'a word) kernel" where
  "umul a b = (if 2 ^ LENGTH('a) \<le> unat a * unat b then halt (Panic mul_panic) else ret (a * b))"

definition usub :: "'a::len word \<Rightarrow> 'a word \<Rightarrow> ('s, 'a word) kernel" where
  "usub a b = (if a < b then halt (Panic sub_panic) else ret (a - b))"

lemma unat_usize_less: "unat (a :: usize) < 2 ^ 64"
proof -
  have "unat a < 2 ^ LENGTH(64)" by (rule unsigned_less)
  then show ?thesis by simp
qed

lemma unat_add_no_overflow: "\<not> add_overflows a b \<Longrightarrow> unat (a + b) = unat a + unat b"
  by (simp add: add_overflows_def unat_word_ariths not_le)

lemma checked_add_Some_iff:
  "checked_add a b = Some c \<longleftrightarrow> unat a + unat b < 2 ^ 64 \<and> c = a + b"
  by (auto simp: checked_add_def add_overflows_def not_le)

lemma checked_add_unat: "checked_add a b = Some c \<Longrightarrow> unat c = unat a + unat b"
  by (auto simp: checked_add_def unat_add_no_overflow split: if_splits)

lemma checked_mul_unat: "checked_mul a b = Some c \<Longrightarrow> unat c = unat a * unat b"
  by (auto simp: checked_mul_def unat_word_ariths not_le split: if_splits)

section \<open>Weakest preconditions\<close>

text \<open>
  \<open>wp m Q R s\<close>: run from \<open>s\<close>, the routine either returns and its value and final state
  satisfy \<open>Q\<close>, or it exits and the exit and final state satisfy \<open>R\<close>. Every routine is
  total, so this is total correctness.
\<close>

definition wp ::
  "('s, 'a) kernel \<Rightarrow> ('a \<Rightarrow> 's \<Rightarrow> bool) \<Rightarrow> (stop \<Rightarrow> 's \<Rightarrow> bool) \<Rightarrow> 's \<Rightarrow> bool" where
  "wp m Q R s = (case m s of (Val x, s') \<Rightarrow> Q x s' | (Exit e, s') \<Rightarrow> R e s')"

lemma wp_ret [wp_simps]: "wp (ret x) Q R s = Q x s"
  by (simp add: wp_def ret_def)

lemma wp_halt [wp_simps]: "wp (halt e) Q R s = R e s"
  by (simp add: wp_def halt_def)

lemma wp_gets [wp_simps]: "wp (gets f) Q R s = Q (f s) s"
  by (simp add: wp_def gets_def)

lemma wp_modify [wp_simps]: "wp (modify f) Q R s = Q () (f s)"
  by (simp add: wp_def modify_def)

lemma wp_kbind [wp_simps]: "wp (kbind m f) Q R s = wp m (\<lambda>x. wp (f x) Q R) R s"
  by (auto simp: wp_def kbind_def split: prod.splits outcome.splits)

lemma wp_kseq [wp_simps]: "wp (kseq m f) Q R s = wp m (\<lambda>_. wp f Q R) R s"
  by (simp add: kseq_def wp_kbind)

lemma wp_if [wp_simps]: "wp (if b then m else n) Q R s = (if b then wp m Q R s else wp n Q R s)"
  by simp

lemma wp_expect [wp_simps]:
  "wp (expect msg v) Q R s = (case v of Some x \<Rightarrow> Q x s | None \<Rightarrow> R (Panic msg) s)"
  by (simp add: expect_def wp_ret wp_halt split: option.splits)

lemma wp_uadd [wp_simps]:
  "wp (uadd a b) Q R s = (if add_overflows a b then R (Panic add_panic) s else Q (a + b) s)"
  by (simp add: uadd_def wp_ret wp_halt)

lemma wp_usub [wp_simps]:
  "wp (usub a b) Q R s = (if a < b then R (Panic sub_panic) s else Q (a - b) s)"
  by (simp add: usub_def wp_ret wp_halt)

lemma wp_umul [wp_simps]:
  "wp (umul a b) Q R s =
    (if 2 ^ LENGTH('a) \<le> unat a * unat b then R (Panic mul_panic) s else Q (a * b) s)"
  for a b :: "'a::len word"
  by (simp add: umul_def wp_ret wp_halt)

text \<open>The same equations for routines whose initial state is not at hand, below a binder.\<close>

lemma wp_fun:
  "wp (ret x) Q R = Q x" "wp (halt e) Q R = R e"
  "wp (kseq m f) Q R = wp m (\<lambda>_. wp f Q R) R" "wp (kbind m' g) Q R = wp m' (\<lambda>x. wp (g x) Q R) R"
  by (simp_all add: fun_eq_iff wp_simps)

lemma wp_mono:
  assumes "wp m Q R s"
    and "\<And>x s'. Q x s' \<Longrightarrow> Q' x s'"
    and "\<And>e s'. R e s' \<Longrightarrow> R' e s'"
  shows "wp m Q' R' s"
  using assms by (auto simp: wp_def split: prod.splits outcome.splits)

lemma wp_conj: "wp m Q R s \<Longrightarrow> wp m Q' R' s \<Longrightarrow>
    wp m (\<lambda>x t. Q x t \<and> Q' x t) (\<lambda>e t. R e t \<and> R' e t) s"
  by (auto simp: wp_def split: prod.splits outcome.splits)

lemma wp_Val: "wp m Q R s \<Longrightarrow> m s = (Val x, s') \<Longrightarrow> Q x s'"
  by (simp add: wp_def)

lemma wp_Exit: "wp m Q R s \<Longrightarrow> m s = (Exit e, s') \<Longrightarrow> R e s'"
  by (simp add: wp_def)

lemma wp_returns: "wp m Q (\<lambda>_ _. False) s \<Longrightarrow> \<exists>x s'. m s = (Val x, s') \<and> Q x s'"
  by (auto simp: wp_def split: prod.splits outcome.splits)

lemma wpI:
  assumes "\<And>x s'. m s = (Val x, s') \<Longrightarrow> Q x s'"
    and "\<And>e s'. m s = (Exit e, s') \<Longrightarrow> R e s'"
  shows "wp m Q R s"
  using assms by (auto simp: wp_def split: prod.splits outcome.splits)

text \<open>The loop rule: an invariant indexed by the part of the range still to run.\<close>

lemma wp_for_each:
  assumes "I is s"
    and "\<And>i rest s. I (i # rest) s \<Longrightarrow> set (i # rest) \<subseteq> set is \<Longrightarrow> wp (f i) (\<lambda>_. I rest) R s"
  shows "wp (for_each is f) (\<lambda>_. I []) R s"
  using assms
proof (induction "is" arbitrary: s)
  case Nil
  then show ?case by (simp add: wp_simps)
next
  case (Cons i is')
  have "wp (f i) (\<lambda>_. I is') R s"
    by (rule Cons.prems(2)) (use Cons.prems(1) in auto)
  moreover have "wp (for_each is' f) (\<lambda>_. I []) R t" if "I is' t" for t
    by (rule Cons.IH) (use that Cons.prems(2) in auto)
  ultimately show ?case
    by (auto simp: wp_simps elim: wp_mono)
qed

text \<open>The same rule for an invariant that does not mention the position.\<close>

lemma wp_for_each_inv:
  assumes "I s" and "\<And>i s. I s \<Longrightarrow> i \<in> set is \<Longrightarrow> wp (f i) (\<lambda>_. I) R s"
  shows "wp (for_each is f) (\<lambda>_. I) R s"
  by (rule wp_for_each [where I = "\<lambda>_. I"]) (use assms in auto)

text \<open>Counting loops: the invariant is indexed by the loop variable.\<close>

lemma wp_for_upt:
  assumes "a \<le> b" and "I a s"
    and "\<And>i t. a \<le> i \<Longrightarrow> i < b \<Longrightarrow> I i t \<Longrightarrow> wp (f i) (\<lambda>_. I (Suc i)) R t"
  shows "wp (for_each [a..<b] f) (\<lambda>_. I b) R s"
  using assms
proof (induction "b - a" arbitrary: a s)
  case 0
  then show ?case by (simp add: wp_simps)
next
  case (Suc n)
  then have ab: "a < b" by simp
  have rest: "wp (for_each [Suc a..<b] f) (\<lambda>_. I b) R t" if "I (Suc a) t" for t
    by (rule Suc.hyps(1)) (use Suc that in auto)
  have "wp (f a) (\<lambda>_. I (Suc a)) R s"
    using Suc.prems ab by blast
  then have "wp (f a) (\<lambda>_. wp (for_each [Suc a..<b] f) (\<lambda>_. I b) R) R s"
    by (rule wp_mono) (simp_all add: rest)
  then show ?case
    using ab by (simp add: wp_simps upt_rec [of a b])
qed

lemma for_each_append: "for_each (xs @ ys) f = kseq (for_each xs f) (for_each ys f)"
  by (induction xs) (auto simp: kseq_def kbind_def ret_def fun_eq_iff split: prod.splits outcome.splits)

section \<open>Parts of the state a routine leaves alone\<close>

text \<open>A routine keeps \<open>rest\<close> when that part of the state is the same afterwards, however the routine
  ends, and it ends by returning or getting stuck, not through the scheduler.\<close>

definition resumes :: "stop \<Rightarrow> bool" where
  "resumes e \<longleftrightarrow> (case e of Resume sp addr \<Rightarrow> True | _ \<Rightarrow> False)"

text \<open>A stop inside a routine: a panic, a fault or a wait, as opposed to the two ways in which the
  scheduler ends.\<close>

definition stuck :: "stop \<Rightarrow> bool" where
  "stuck e \<longleftrightarrow> \<not> resumes e \<and> e \<noteq> Shutdown"

lemma resumes_simps [simp]:
  "resumes (Resume sp addr)" "\<not> resumes (Panic msg)" "\<not> resumes Shutdown" "\<not> resumes (Kernel_trap c a)"
  "\<not> resumes Device_wait"
  by (simp_all add: resumes_def)

lemma stuck_simps [simp]: "stuck (Panic msg)" "stuck (Kernel_trap c a)" "stuck Device_wait" "\<not> stuck (Resume sp addr)" "\<not> stuck Shutdown"
  by (simp_all add: stuck_def)

lemma stuck_not_resumes [simp]: "stuck e \<Longrightarrow> \<not> resumes e"
  by (simp add: stuck_def)

definition keeps :: "('s \<Rightarrow> 'r) \<Rightarrow> ('s, 'a) kernel \<Rightarrow> bool" where
  "keeps rest m \<longleftrightarrow> (\<forall>s. wp m (\<lambda>_ s'. rest s' = rest s) (\<lambda>e s'. rest s' = rest s \<and> stuck e) s)"

lemma keepsI:
  assumes "\<And>s. wp m (\<lambda>_ s'. rest s' = rest s) (\<lambda>e s'. rest s' = rest s \<and> stuck e) s"
  shows "keeps rest m"
  using assms by (simp add: keeps_def)

lemma keeps_wp: "keeps rest m \<Longrightarrow> wp m (\<lambda>_ s'. rest s' = rest s) (\<lambda>e s'. rest s' = rest s \<and> stuck e) s"
  by (simp add: keeps_def)

lemma keeps_weaken: "keeps rest m \<Longrightarrow> (\<And>s s'. rest s' = rest s \<Longrightarrow> part s' = part s) \<Longrightarrow> keeps part m"
proof (rule keepsI)
  fix s assume m: "keeps rest m" and part: "\<And>s s'. rest s' = rest s \<Longrightarrow> part s' = part s"
  show "wp m (\<lambda>_ s'. part s' = part s) (\<lambda>e s'. part s' = part s \<and> stuck e) s"
    by (rule wp_mono [OF keeps_wp [OF m]]) (blast intro: part)+
qed

lemma keeps_step:
  assumes "keeps rest m" and "\<And>x t. rest t = rest s \<Longrightarrow> wp (f x) Q R t"
    and "\<And>e t. rest t = rest s \<Longrightarrow> stuck e \<Longrightarrow> R e t"
  shows "wp (kbind m f) Q R s"
  unfolding wp_kbind by (rule wp_mono [OF keeps_wp [OF assms(1)]]) (use assms(2,3) in auto)

lemma keeps_kbind [keeps_intros]: "keeps rest m \<Longrightarrow> (\<And>x. keeps rest (f x)) \<Longrightarrow> keeps rest (kbind m f)"
proof (rule keepsI, erule keeps_step)
  fix s t x assume f: "\<And>x. keeps rest (f x)" and t: "rest t = rest s"
  show "wp (f x) (\<lambda>_ s'. rest s' = rest s) (\<lambda>e s'. rest s' = rest s \<and> stuck e) t"
    by (rule wp_mono [OF keeps_wp [OF f]]) (use t in auto)
qed simp

lemma keeps_kseq [keeps_intros]: "keeps rest m \<Longrightarrow> keeps rest n \<Longrightarrow> keeps rest (kseq m n)"
  unfolding kseq_def by (rule keeps_kbind)

lemma keeps_ret [keeps_intros]: "keeps rest (ret x)"
  by (simp add: keeps_def wp_simps)

lemma keeps_gets [keeps_intros]: "keeps rest (gets f)"
  by (simp add: keeps_def wp_simps)

lemma keeps_halt [keeps_intros]: "stuck e \<Longrightarrow> keeps rest (halt e)"
  by (simp add: keeps_def wp_simps)

lemma keeps_modify [keeps_intros]: "(\<And>s. rest (f s) = rest s) \<Longrightarrow> keeps rest (modify f)"
  by (simp add: keeps_def wp_simps)

lemma keeps_expect [keeps_intros]: "keeps rest (expect msg v)"
  by (cases v) (simp_all add: keeps_def wp_simps)

lemma keeps_arith [keeps_intros]: "keeps rest (uadd a b)" "keeps rest (usub a b)" "keeps rest (umul a b)"
  by (simp_all add: keeps_def wp_simps)

lemma keeps_if [keeps_intros]: "keeps rest m \<Longrightarrow> keeps rest n \<Longrightarrow> keeps rest (if b then m else n)"
  by simp

lemma keeps_option [keeps_intros]:
  "keeps rest m \<Longrightarrow> (\<And>x. keeps rest (f x)) \<Longrightarrow> keeps rest (case v of None \<Rightarrow> m | Some x \<Rightarrow> f x)"
  by (cases v) simp_all

lemma keeps_sum [keeps_intros]:
  "(\<And>x. keeps rest (f x)) \<Longrightarrow> (\<And>y. keeps rest (g y)) \<Longrightarrow> keeps rest (case v of Inl x \<Rightarrow> f x | Inr y \<Rightarrow> g y)"
  by (cases v) simp_all

lemma keeps_prod [keeps_intros]: "(\<And>x y. keeps rest (f x y)) \<Longrightarrow> keeps rest (case v of (x, y) \<Rightarrow> f x y)"
  by (cases v) simp

lemma keeps_let [keeps_intros]: "(\<And>x. keeps rest (f x)) \<Longrightarrow> keeps rest (let x = v in f x)"
  by (simp add: Let_def)

lemma keeps_for_each [keeps_intros]: "(\<And>i. keeps rest (f i)) \<Longrightarrow> keeps rest (for_each is f)"
  by (induction "is") (simp_all add: keeps_intros)

text \<open>Induction along a loop that steps by a page.\<close>

lemma page_loop_induct:
  assumes "\<And>va. (\<not> add_overflows va 4096 \<Longrightarrow> P (va + 4096)) \<Longrightarrow> P va"
  shows "P (va :: usize)"
proof (induction "2 ^ 64 - unat va" arbitrary: va rule: less_induct)
  case less
  show ?case
  proof (rule assms)
    assume n: "\<not> add_overflows va 4096"
    show "P (va + 4096)"
      by (rule less) (use unat_add_no_overflow [OF n] unat_usize_less [of "va + 4096"] in simp)
  qed
qed

lemma keeps_next_page:
  "(\<not> add_overflows va 4096 \<Longrightarrow> keeps rest (f (va + 4096))) \<Longrightarrow> keeps rest (kbind (uadd va 4096) f)"
  for va :: usize
  by (cases "add_overflows va 4096") (simp_all add: keeps_def wp_simps)

section \<open>Running the primitives\<close>

text \<open>For the evaluation of concrete executions.\<close>

lemma run_simps:
  "ret x s = (Val x, s)" "halt e s = (Exit e, s)" "gets f s = (Val (f s), s)"
  "modify g s = (Val (), g s)"
  by (simp_all add: ret_def halt_def gets_def modify_def)

lemma kbind_Val: "m s = (Val x, s') \<Longrightarrow> kbind m f s = f x s'"
  by (simp add: kbind_def)

lemma kbind_uadd: "\<not> add_overflows a b \<Longrightarrow> kbind (uadd a b) f = f (a + b)"
  by (simp add: fun_eq_iff kbind_def uadd_def ret_def)

lemma kbind_Exit: "m s = (Exit e, s') \<Longrightarrow> kbind m f s = (Exit e, s')"
  by (simp add: kbind_def)

lemma kseq_Val: "m s = (Val x, s') \<Longrightarrow> kseq m f s = f s'"
  by (simp add: kseq_def kbind_def)

lemma kseq_Exit: "m s = (Exit e, s') \<Longrightarrow> kseq m f s = (Exit e, s')"
  by (simp add: kseq_def kbind_def)

section \<open>Pages\<close>

text \<open>\<open>page_of\<close> is the \<open>& !0xfff\<close> of the source; an address is page aligned when it is its own page.\<close>

definition page_of :: "usize \<Rightarrow> usize" where
  "page_of a = a AND NOT 0xFFF"

definition page_aligned :: "usize \<Rightarrow> bool" where
  "page_aligned a \<longleftrightarrow> a AND 0xFFF = 0"

lemma mask_4095: "(0xFFF :: usize) = mask 12"
  by (simp add: mask_eq_exp_minus_1)

lemma bit_page_of [simp]: "bit (page_of a) n \<longleftrightarrow> 12 \<le> n \<and> n < 64 \<and> bit a n"
  by (auto simp: page_of_def mask_4095 bit_simps dest: bit_imp_le_length)

lemma page_aligned_take_bit: "page_aligned a \<longleftrightarrow> take_bit 12 a = 0"
  by (simp add: page_aligned_def mask_4095 take_bit_eq_mask)

lemma page_aligned_iff_bits: "page_aligned a \<longleftrightarrow> (\<forall>n<12. \<not> bit a n)"
  by (auto simp: page_aligned_take_bit bit_eq_iff bit_take_bit_iff)

lemma page_aligned_iff_dvd: "page_aligned a \<longleftrightarrow> 4096 dvd unat a"
  using and_mask_dvd_nat [of 12 a] by (simp add: page_aligned_def mask_4095)

lemma page_aligned_0 [simp]: "page_aligned 0"
  by (simp add: page_aligned_def)

lemma page_aligned_page_of [simp]: "page_aligned (page_of a)"
  by (simp add: page_aligned_iff_bits)

lemma page_of_id: "page_aligned a \<Longrightarrow> page_of a = a"
  by (rule bit_word_eqI) (auto simp: page_aligned_iff_bits simp flip: not_less)

lemma unat_page_of: "unat (page_of a) = unat a div 4096 * 4096"
proof -
  have "page_of a = push_bit 12 (drop_bit 12 a)"
    by (rule bit_word_eqI) (auto simp: bit_simps)
  then have "unat (page_of a) = take_bit 64 (push_bit 12 (drop_bit 12 (take_bit 64 (unat a))))"
    by (simp add: unsigned_push_bit_eq unsigned_drop_bit_eq)
  moreover have "unat a div 4096 * 4096 < 2 ^ 64"
    using unat_usize_less [of a] by (simp add: order.strict_trans1 [OF div_times_less_eq_dividend])
  moreover have "take_bit 64 (unat a) = unat a"
    using unat_usize_less [of a] by (simp add: take_bit_eq_mod)
  ultimately show ?thesis
    by (simp add: push_bit_eq_mult drop_bit_eq_div take_bit_eq_mod)
qed

lemma page_of_le: "page_of a \<le> a"
  by (simp add: word_le_nat_alt unat_page_of)

lemma page_of_eq_iff: "page_of a = page_of b \<longleftrightarrow> unat a div 4096 = unat b div 4096"
  by (simp add: word_unat_eq_iff unat_page_of)

lemma page_of_plus_offset:
  assumes "page_aligned p" and "unat d < 4096"
  shows "page_of (p + d) = p" and "unat (p + d) = unat p + unat d"
proof -
  obtain k where k: "unat p = 4096 * k"
    using assms(1) by (auto simp: page_aligned_iff_dvd)
  have "4096 * k < 2 ^ 64"
    using unat_usize_less [of p] k by simp
  then have "k < 2 ^ 52"
    by simp
  then have "unat p + unat d < 2 ^ 64"
    using assms(2) k by simp
  then show "unat (p + d) = unat p + unat d"
    by (simp add: unat_word_ariths)
  then show "page_of (p + d) = p"
    using assms(2) k by (simp add: word_unat_eq_iff unat_page_of)
qed

lemma page_of_offset_less: "unat (a - page_of a) < 4096"
proof -
  have "unat (a - page_of a) = unat a - unat (page_of a)"
    by (simp add: unat_sub page_of_le)
  then show ?thesis
    by (simp add: unat_page_of minus_div_mult_eq_mod)
qed

lemma page_split: "a = page_of a + (a - page_of a)"
  by simp

end
