(* ===== verification/Memory.thy ===== *)
theory Memory
  imports Prelude
begin

text \<open>
  Physical memory as the kernel sees it: a function from 64-bit addresses to bytes, with the
  operations of \<open>core::ptr\<close> the sources use (\<open>read\<close> and \<open>write\<close> of a \<open>u64\<close>,
  \<open>write_bytes\<close>, \<open>copy_nonoverlapping\<close>), little-endian as on RISC-V. The locale
  \<open>dword_store\<close> states what the free list and the page tables rely on, and is interpreted
  on the byte memory.
\<close>

type_synonym memory = "usize \<Rightarrow> u8"

primrec load_le :: "memory \<Rightarrow> usize \<Rightarrow> nat \<Rightarrow> u64" where
  "load_le m a 0 = 0"
| "load_le m a (Suc n) = ucast (m a) OR push_bit 8 (load_le m (a + 1) n)"

definition read_u64 :: "memory \<Rightarrow> usize \<Rightarrow> u64" where
  "read_u64 m a = load_le m a 8"

definition write_u64 :: "memory \<Rightarrow> usize \<Rightarrow> u64 \<Rightarrow> memory" where
  "write_u64 m a v = (\<lambda>x. if x - a < 8 then ucast (drop_bit (8 * unat (x - a)) v) else m x)"

definition write_bytes :: "memory \<Rightarrow> usize \<Rightarrow> u8 \<Rightarrow> usize \<Rightarrow> memory" where
  "write_bytes m a b n = (\<lambda>x. if x - a < n then b else m x)"

definition copy_nonoverlapping :: "memory \<Rightarrow> usize \<Rightarrow> usize \<Rightarrow> usize \<Rightarrow> memory" where
  "copy_nonoverlapping m src dst n = (\<lambda>x. if x - dst < n then m (src + (x - dst)) else m x)"

definition dword_aligned :: "usize \<Rightarrow> bool" where
  "dword_aligned a \<longleftrightarrow> a AND 7 = 0"

section \<open>Alignment\<close>

lemma dword_aligned_iff_dvd: "dword_aligned a \<longleftrightarrow> 8 dvd unat a"
proof -
  have "(7 :: usize) = mask 3" by (simp add: mask_eq_exp_minus_1)
  then show ?thesis
    using and_mask_dvd_nat [of 3 a] by (simp add: dword_aligned_def)
qed

lemma page_aligned_dword [simp]: "page_aligned a \<Longrightarrow> dword_aligned a"
  by (auto simp: page_aligned_iff_dvd dword_aligned_iff_dvd elim: dvd_trans [rotated])

lemma dword_aligned_diff:
  assumes "dword_aligned a" and "dword_aligned b"
  shows "8 dvd unat (b - a)"
proof (cases "a \<le> b")
  case True
  then show ?thesis
    using assms by (simp add: unat_sub dword_aligned_iff_dvd word_le_nat_alt dvd_diff_nat)
next
  case False
  then have "unat (b - a) = unat b + 2 ^ 64 - unat a"
    by (simp add: unat_sub_if' word_le_nat_alt)
  moreover have "8 dvd unat b + 2 ^ 64"
    using assms(2) by (simp add: dword_aligned_iff_dvd)
  ultimately show ?thesis
    using assms(1) by (simp add: dword_aligned_iff_dvd dvd_diff_nat)
qed

lemma dword_disjoint:
  assumes "dword_aligned a" and "dword_aligned b" and "a \<noteq> b" and "i < 8"
  shows "\<not> b + of_nat i - a < 8"
proof -
  have "8 dvd unat (b - a)"
    using assms by (intro dword_aligned_diff)
  moreover have "unat (b - a) \<noteq> 0"
    using assms(3) by (simp add: unat_eq_0)
  ultimately obtain k where k: "unat (b - a) = 8 * k" "k \<noteq> 0"
    by (auto elim!: dvdE)
  have "8 * k < 2 ^ 64"
    using unat_usize_less [of "b - a"] k by simp
  then have "8 * k + i < 2 ^ 64"
    using assms(4) by simp
  moreover have "unat (of_nat i :: usize) = i"
    using assms(4) by (simp add: unat_of_nat take_bit_eq_mod)
  ultimately have "unat ((b - a) + of_nat i) = 8 * k + i"
    using k by (simp add: unat_word_ariths)
  moreover have "(b - a) + of_nat i = b + of_nat i - a" by simp
  ultimately show ?thesis
    using k by (simp add: word_less_nat_alt)
qed

lemma in_page_iff:
  assumes "page_aligned p"
  shows "x - p < 4096 \<longleftrightarrow> page_of x = p"
proof
  assume "x - p < 4096"
  then have "page_of (p + (x - p)) = p"
    using assms by (intro page_of_plus_offset) (simp_all add: word_less_nat_alt)
  then show "page_of x = p" by simp
next
  assume "page_of x = p"
  then show "x - p < 4096"
    using page_of_offset_less [of x] by (simp add: word_less_nat_alt)
qed

lemma dword_page:
  assumes "dword_aligned a" and "i < 8"
  shows "page_of (a + of_nat i) = page_of a"
proof -
  obtain k where k: "unat a = 8 * k"
    using assms(1) by (auto simp: dword_aligned_iff_dvd)
  have "8 * k < 2 ^ 64"
    using unat_usize_less [of a] k by simp
  moreover have i: "unat (of_nat i :: usize) = i"
    using assms(2) by (simp add: unat_of_nat take_bit_eq_mod)
  ultimately have "unat (a + of_nat i) = 8 * k + i"
    using assms(2) k by (simp add: unat_word_ariths)
  moreover have "(8 * k + i) div 4096 = 8 * k div 4096"
  proof -
    have "(8 * k + i) div 4096 = (8 * k + i) div 8 div 512"
      by (simp add: div_mult2_eq [symmetric])
    also have "(8 * k + i) div 8 = k"
      using assms(2) by simp
    also have "k div 512 = 8 * k div 8 div 512" by simp
    also have "8 * k div 8 div 512 = 8 * k div 4096"
      by (simp only: div_mult2_eq [symmetric]) simp
    finally show ?thesis .
  qed
  ultimately show ?thesis
    using k by (simp add: page_of_eq_iff)
qed

section \<open>Reads after writes\<close>

lemma bit_load_le:
  "bit (load_le m a n) k \<longleftrightarrow> k < 64 \<and> k < 8 * n \<and> bit (m (a + of_nat (k div 8))) (k mod 8)"
proof (induction n arbitrary: a k)
  case 0
  then show ?case by simp
next
  case (Suc n)
  show ?case
  proof (cases "k < 8")
    case True
    then show ?thesis by (simp add: bit_simps)
  next
    case False
    then obtain j where j: "k = 8 + j"
      by (metis le_Suc_ex not_less)
    have addr: "a + of_nat (k div 8) = a + 1 + of_nat (j div 8)"
    proof -
      have "k div 8 = Suc (j div 8)" using j by arith
      then show ?thesis by (simp only: of_nat_Suc add.assoc)
    qed
    have "\<not> bit (m a) k"
      using False by (auto dest: bit_imp_le_length)
    then have "bit (load_le m a (Suc n)) k \<longleftrightarrow> k < 64 \<and> bit (load_le m (a + 1) n) j"
      using False by (auto simp: bit_simps j)
    then show ?thesis
      unfolding addr by (auto simp: Suc.IH j)
  qed
qed

lemma bit_read_u64:
  "bit (read_u64 m a) k \<longleftrightarrow> k < 64 \<and> bit (m (a + of_nat (k div 8))) (k mod 8)"
  by (auto simp: read_u64_def bit_load_le)

lemma read_u64_cong:
  assumes "\<And>i. i < 8 \<Longrightarrow> m (a + of_nat i) = m' (a' + of_nat i)"
  shows "read_u64 m a = read_u64 m' a'"
  by (rule bit_word_eqI) (simp add: bit_read_u64 assms)

lemma read_write_u64_same: "read_u64 (write_u64 m a v) a = v"
proof (rule bit_word_eqI)
  fix n assume "n < LENGTH(64)"
  then have n: "n < 64" by simp
  then have i: "n div 8 < 8" by simp
  have u: "unat (of_nat (n div 8) :: usize) = n div 8"
    using i by (simp add: unat_of_nat take_bit_eq_mod)
  moreover have "(of_nat (n div 8) :: usize) < 8"
    using i u by (simp add: word_less_nat_alt)
  ultimately show "bit (read_u64 (write_u64 m a v) a) n \<longleftrightarrow> bit v n"
    using n by (simp add: bit_read_u64 write_u64_def bit_simps)
qed

lemma read_write_u64_other:
  assumes "dword_aligned a" and "dword_aligned b" and "a \<noteq> b"
  shows "read_u64 (write_u64 m a v) b = read_u64 m b"
  by (rule read_u64_cong) (simp add: write_u64_def dword_disjoint [OF assms])

lemma write_u64_twice: "write_u64 (write_u64 m a v) a w = write_u64 m a w"
  by (auto simp: write_u64_def fun_eq_iff)

lemma write_u64_outside:
  assumes "dword_aligned a" and "page_of x \<noteq> page_of a"
  shows "write_u64 m a v x = m x"
proof -
  have "\<not> x - a < 8"
  proof
    assume "x - a < 8"
    then have "unat (x - a) < 8" by (simp add: word_less_nat_alt)
    from dword_page [OF assms(1) this] have "page_of x = page_of a" by simp
    with assms(2) show False by simp
  qed
  then show ?thesis by (simp add: write_u64_def)
qed

definition zero_page :: "memory \<Rightarrow> usize \<Rightarrow> memory" where
  "zero_page m p = write_bytes m p 0 4096"

lemma write_bytes_page:
  "page_aligned p \<Longrightarrow> write_bytes m p b 4096 x = (if page_of x = p then b else m x)"
  by (simp add: write_bytes_def in_page_iff)

lemma read_zero_page:
  assumes "page_aligned p" and "dword_aligned b"
  shows "read_u64 (zero_page m p) b = (if page_of b = p then 0 else read_u64 m b)"
proof (cases "page_of b = p")
  case True
  then show ?thesis
    by (intro bit_word_eqI)
      (simp add: bit_read_u64 zero_page_def write_bytes_page assms dword_page)
next
  case False
  have "read_u64 (zero_page m p) b = read_u64 m b"
    by (rule read_u64_cong) (simp add: zero_page_def write_bytes_page assms dword_page False)
  with False show ?thesis by simp
qed

lemma copy_page:
  assumes "page_aligned dst"
  shows "copy_nonoverlapping m src dst 4096 x
    = (if page_of x = dst then m (src + (x - dst)) else m x)"
  using in_page_iff [OF assms, of x] by (simp add: copy_nonoverlapping_def)

section \<open>The interface of aligned double words\<close>

text \<open>
  What a client of memory relies on when it keeps data in aligned double words: a read
  returns the last value written at that very address, and clearing a page clears the
  double words of that page and no other.
\<close>

locale dword_store =
  fixes rd :: "'m \<Rightarrow> usize \<Rightarrow> u64"
    and wr :: "'m \<Rightarrow> usize \<Rightarrow> u64 \<Rightarrow> 'm"
    and clear :: "'m \<Rightarrow> usize \<Rightarrow> 'm"
  assumes rd_wr_same: "rd (wr m a v) a = v"
    and rd_wr_other: "dword_aligned a \<Longrightarrow> dword_aligned b \<Longrightarrow> a \<noteq> b \<Longrightarrow> rd (wr m a v) b = rd m b"
    and rd_clear: "page_aligned p \<Longrightarrow> dword_aligned b \<Longrightarrow>
      rd (clear m p) b = (if page_of b = p then 0 else rd m b)"
begin

lemma rd_wr:
  "dword_aligned a \<Longrightarrow> dword_aligned b \<Longrightarrow> rd (wr m a v) b = (if a = b then v else rd m b)"
  by (simp add: rd_wr_same rd_wr_other)

lemma rd_wr_other_page:
  "dword_aligned a \<Longrightarrow> dword_aligned b \<Longrightarrow> page_of a \<noteq> page_of b \<Longrightarrow> rd (wr m a v) b = rd m b"
  by (rule rd_wr_other) auto

lemma rd_clear_wr:
  assumes "page_aligned p" and "dword_aligned a" and "dword_aligned b" and "page_of a \<noteq> p"
  shows "rd (wr (clear m p) a v) b = (if a = b then v else if page_of b = p then 0 else rd m b)"
  using assms by (auto simp: rd_wr rd_clear)

end

interpretation ram: dword_store read_u64 write_u64 zero_page
  by unfold_locales (simp_all add: read_write_u64_same read_write_u64_other read_zero_page)

end
