(* ===== verification/PTE.thy ===== *)
theory PTE
  imports Memory
begin

text \<open>
  Page-table entries and their flags (\<open>PTEntry\<close>, \<open>PTEFlags\<close> of \<open>mm/page_table.rs\<close>),
  bit by bit: the constructors, the permission tests, the copy-on-write mark in bit 62 and
  the physical address stored in bits 10 to 57.
\<close>

type_synonym PTEntry = u64
type_synonym PTEFlags = u8

definition V_BIT :: nat where "V_BIT = 0"
definition R_BIT :: nat where "R_BIT = 1"
definition W_BIT :: nat where "W_BIT = 2"
definition X_BIT :: nat where "X_BIT = 3"
definition U_BIT :: nat where "U_BIT = 4"

definition BIT_V :: u64 where "BIT_V = push_bit 0 1"
definition BIT_R :: u64 where "BIT_R = push_bit 1 1"
definition BIT_W :: u64 where "BIT_W = push_bit 2 1"
definition BIT_X :: u64 where "BIT_X = push_bit 3 1"
definition BIT_U :: u64 where "BIT_U = push_bit 4 1"
definition BIT_COW :: u64 where "BIT_COW = push_bit 62 1"

lemmas pte_bit_defs = BIT_V_def BIT_R_def BIT_W_def BIT_X_def BIT_U_def BIT_COW_def
lemmas flag_bit_defs = V_BIT_def R_BIT_def W_BIT_def X_BIT_def U_BIT_def

section \<open>PTEntry\<close>

definition is_cow :: "PTEntry \<Rightarrow> bool" where "is_cow e \<longleftrightarrow> e AND BIT_COW \<noteq> 0"
definition set_cow :: "PTEntry \<Rightarrow> PTEntry" where "set_cow e = e OR BIT_COW"
definition clear_cow :: "PTEntry \<Rightarrow> PTEntry" where "clear_cow e = e AND NOT BIT_COW"

definition is_r :: "PTEntry \<Rightarrow> bool" where "is_r e \<longleftrightarrow> e AND BIT_R \<noteq> 0"
definition is_w :: "PTEntry \<Rightarrow> bool" where "is_w e \<longleftrightarrow> e AND BIT_W \<noteq> 0"
definition is_x :: "PTEntry \<Rightarrow> bool" where "is_x e \<longleftrightarrow> e AND BIT_X \<noteq> 0"
definition is_u :: "PTEntry \<Rightarrow> bool" where "is_u e \<longleftrightarrow> e AND BIT_U \<noteq> 0"
definition is_valid :: "PTEntry \<Rightarrow> bool" where "is_valid e \<longleftrightarrow> e AND BIT_V \<noteq> 0"

definition set_w :: "PTEntry \<Rightarrow> bool \<Rightarrow> PTEntry" where
  "set_w e w = (if w then e OR BIT_W else e AND NOT BIT_W)"

definition clear_w :: "PTEntry \<Rightarrow> PTEntry" where "clear_w e = e AND NOT BIT_W"

definition pte_flags :: "PTEntry \<Rightarrow> PTEFlags" where
  "pte_flags e = ucast (e AND 0x1F)"

definition pte_empty :: PTEntry where "pte_empty = 0"

section \<open>PTEFlags\<close>

definition PTEFlags_new :: "bool \<Rightarrow> bool \<Rightarrow> bool \<Rightarrow> bool \<Rightarrow> PTEFlags" where
  "PTEFlags_new r w x u =
     (let f = push_bit V_BIT 1;
          f = (if r then f OR push_bit R_BIT 1 else f);
          f = (if w then f OR push_bit W_BIT 1 else f);
          f = (if x then f OR push_bit X_BIT 1 else f);
          f = (if u then f OR push_bit U_BIT 1 else f)
      in f)"

definition flags_is_x :: "PTEFlags \<Rightarrow> bool" where "flags_is_x f \<longleftrightarrow> f AND push_bit X_BIT 1 \<noteq> 0"
definition flags_is_u :: "PTEFlags \<Rightarrow> bool" where "flags_is_u f \<longleftrightarrow> f AND push_bit U_BIT 1 \<noteq> 0"

definition into_u64 :: "PTEFlags \<Rightarrow> u64" where "into_u64 f = ucast f"

section \<open>Entries that hold an address\<close>

definition new_table :: "PhysAddr \<Rightarrow> PTEntry" where
  "new_table paddr = (let ppn = drop_bit 12 paddr in push_bit 10 ppn OR BIT_V)"

definition new_leaf :: "PhysAddr \<Rightarrow> PTEFlags \<Rightarrow> PTEntry" where
  "new_leaf paddr f = (let ppn = drop_bit 12 paddr in push_bit 10 ppn OR into_u64 f)"

definition ppn_to_addr :: "PTEntry \<Rightarrow> PhysAddr" where
  "ppn_to_addr e = push_bit 12 (drop_bit 10 e AND 0xFFFFFFFFFFFF)"

section \<open>Bits\<close>

lemma pte_bits:
  "is_cow e \<longleftrightarrow> bit e 62" "is_r e \<longleftrightarrow> bit e 1" "is_w e \<longleftrightarrow> bit e 2" "is_x e \<longleftrightarrow> bit e 3"
  "is_u e \<longleftrightarrow> bit e 4" "is_valid e \<longleftrightarrow> bit e 0"
  by (simp_all only: is_cow_def is_r_def is_w_def is_x_def is_u_def is_valid_def pte_bit_defs
      bit_iff_and_push_bit_not_eq_0)

lemma flags_bits: "flags_is_x f \<longleftrightarrow> bit f 3" "flags_is_u f \<longleftrightarrow> bit f 4"
  by (simp_all only: flags_is_x_def flags_is_u_def flag_bit_defs bit_iff_and_push_bit_not_eq_0)

lemma bit_cow_w:
  "bit (set_cow e) n \<longleftrightarrow> n = 62 \<or> bit e n" "bit (clear_cow e) n \<longleftrightarrow> n \<noteq> 62 \<and> bit e n"
  "bit (set_w e b) n \<longleftrightarrow> (if n = 2 then b else bit e n)" "bit (clear_w e) n \<longleftrightarrow> n \<noteq> 2 \<and> bit e n"
  by (auto simp: set_cow_def clear_cow_def set_w_def clear_w_def BIT_COW_def BIT_W_def bit_simps
      simp del: push_bit_of_1 dest: bit_imp_le_length)

lemma bit_flag: "k < 8 \<Longrightarrow> bit (push_bit k 1 :: u8) n \<longleftrightarrow> n = k"
  by (auto simp: bit_simps)

lemma bit_PTEFlags_new:
  "bit (PTEFlags_new r w x u) n \<longleftrightarrow> n = 0 \<or> n = 1 \<and> r \<or> n = 2 \<and> w \<or> n = 3 \<and> x \<or> n = 4 \<and> u"
proof -
  have k: "0 < (8 :: nat)" "1 < (8 :: nat)" "2 < (8 :: nat)" "3 < (8 :: nat)" "4 < (8 :: nat)" by simp_all
  show ?thesis
    unfolding PTEFlags_new_def Let_def flag_bit_defs
    by (cases r; cases w; cases x; cases u)
      (simp_all only: if_True if_False bit_or_iff k [THEN bit_flag] simp_thms disj_assoc)
qed

lemma bit_pte_flags: "bit (pte_flags e) n \<longleftrightarrow> n < 5 \<and> bit e n"
proof -
  have m: "(0x1F :: u64) = mask 5" by (simp add: mask_eq_exp_minus_1)
  show ?thesis
    unfolding pte_flags_def m by (auto simp: bit_simps)
qed

lemma bit_new_leaf: "bit (new_leaf p f) n \<longleftrightarrow> bit f n \<or> 10 \<le> n \<and> bit p (n + 2)"
  by (auto simp: new_leaf_def Let_def into_u64_def bit_simps dest: bit_imp_le_length)

lemma bit_new_table: "bit (new_table p) n \<longleftrightarrow> n = 0 \<or> 10 \<le> n \<and> bit p (n + 2)"
  by (auto simp: new_table_def Let_def BIT_V_def bit_simps simp del: push_bit_of_1 dest: bit_imp_le_length)

lemma bit_ppn_to_addr: "bit (ppn_to_addr e) n \<longleftrightarrow> 12 \<le> n \<and> n < 60 \<and> bit e (n - 2)"
proof -
  have m: "(0xFFFFFFFFFFFF :: u64) = mask 48" by (simp add: mask_eq_exp_minus_1)
  show ?thesis
    unfolding ppn_to_addr_def m by (auto simp: bit_simps)
qed

lemma ppn_to_addr_aligned [simp]: "page_aligned (ppn_to_addr e)"
  by (simp add: page_aligned_iff_bits bit_ppn_to_addr)

text \<open>Physical addresses that fit the entry: page aligned and below \<open>2 ^ 60\<close>.\<close>

lemma high_bits_zero: "unat (p :: usize) < 2 ^ k \<Longrightarrow> k \<le> n \<Longrightarrow> \<not> bit p n"
proof -
  assume a: "unat p < 2 ^ k" "k \<le> n"
  then have "unat p < 2 ^ n" by (meson order.strict_trans2 power_increasing one_le_numeral)
  then have "\<not> bit (unat p) n" by (simp add: bit_iff_odd)
  then show ?thesis by (simp add: bit_unsigned_iff)
qed

lemma ppn_roundtrip:
  assumes "page_aligned p" and "unat p < 2 ^ 60" and "\<And>n. 10 \<le> n \<Longrightarrow> n < 58 \<Longrightarrow> bit e n \<longleftrightarrow> bit p (n + 2)"
  shows "ppn_to_addr e = p"
proof (rule bit_word_eqI)
  fix n
  show "bit (ppn_to_addr e) n \<longleftrightarrow> bit p n"
  proof (cases "12 \<le> n \<and> n < 60")
    case True
    then have "n - 2 + 2 = n" "10 \<le> n - 2" "n - 2 < 58" by auto
    with True show ?thesis using assms(3) [of "n - 2"] by (simp only: bit_ppn_to_addr simp_thms)
  next
    case False
    then have "\<not> bit p n"
      using assms(1) high_bits_zero [OF assms(2)] by (auto simp: page_aligned_iff_bits)
    with False show ?thesis by (auto simp: bit_ppn_to_addr)
  qed
qed

lemma ppn_new_table: "page_aligned p \<Longrightarrow> unat p < 2 ^ 60 \<Longrightarrow> ppn_to_addr (new_table p) = p"
  by (rule ppn_roundtrip) (auto simp: bit_new_table)

lemma ppn_new_leaf: "page_aligned p \<Longrightarrow> unat p < 2 ^ 60 \<Longrightarrow> ppn_to_addr (new_leaf p f) = p"
  by (rule ppn_roundtrip) (auto simp: bit_new_leaf dest: bit_imp_le_length)

lemma ppn_cow_w [simp]:
  "ppn_to_addr (set_cow e) = ppn_to_addr e" "ppn_to_addr (clear_cow e) = ppn_to_addr e"
  "ppn_to_addr (set_w e b) = ppn_to_addr e" "ppn_to_addr (clear_w e) = ppn_to_addr e"
  by (auto intro!: bit_word_eqI simp: bit_ppn_to_addr bit_cow_w)

lemma is_valid_new_table [simp]: "is_valid (new_table p)"
  by (simp add: pte_bits bit_new_table)

lemma not_valid_0 [simp]: "\<not> is_valid 0"
  by (simp add: pte_bits)

lemma new_table_pointer: "\<not> is_r (new_table p) \<and> \<not> is_w (new_table p) \<and> \<not> is_x (new_table p)"
  by (simp add: pte_bits bit_new_table)

text \<open>A leaf entry reads back what it was made of.\<close>

lemma new_leaf_reads:
  assumes "page_aligned p" and "unat p < 2 ^ 60"
  shows "ppn_to_addr (new_leaf p (PTEFlags_new r w x u)) = p"
    "pte_flags (new_leaf p (PTEFlags_new r w x u)) = PTEFlags_new r w x u" "is_valid (new_leaf p (PTEFlags_new r w x u))"
    "is_r (new_leaf p (PTEFlags_new r w x u)) = r" "is_w (new_leaf p (PTEFlags_new r w x u)) = w"
    "is_x (new_leaf p (PTEFlags_new r w x u)) = x" "is_u (new_leaf p (PTEFlags_new r w x u)) = u"
    "\<not> is_cow (new_leaf p (PTEFlags_new r w x u))"
proof -
  have "\<not> bit p 64" by (auto dest: bit_imp_le_length)
  then show "ppn_to_addr (new_leaf p (PTEFlags_new r w x u)) = p"
    "pte_flags (new_leaf p (PTEFlags_new r w x u)) = PTEFlags_new r w x u" "is_valid (new_leaf p (PTEFlags_new r w x u))"
    "is_r (new_leaf p (PTEFlags_new r w x u)) = r" "is_w (new_leaf p (PTEFlags_new r w x u)) = w"
    "is_x (new_leaf p (PTEFlags_new r w x u)) = x" "is_u (new_leaf p (PTEFlags_new r w x u)) = u"
    "\<not> is_cow (new_leaf p (PTEFlags_new r w x u))"
    using assms ppn_new_leaf
    by (auto simp: pte_bits bit_new_leaf bit_PTEFlags_new intro!: bit_word_eqI
        simp: bit_pte_flags)
qed

section \<open>Properties of entries\<close>

text \<open>C31. An entry built from a page-aligned physical address and permissions reads back the
  same address and the same permissions, is valid, and is not marked copy-on-write.\<close>

theorem new_leaf_roundtrip:
  assumes "page_aligned p" and "unat p < 2 ^ 60"
  shows "ppn_to_addr (new_leaf p (PTEFlags_new r w x u)) = p \<and>
    pte_flags (new_leaf p (PTEFlags_new r w x u)) = PTEFlags_new r w x u \<and>
    is_valid (new_leaf p (PTEFlags_new r w x u)) \<and>
    is_r (new_leaf p (PTEFlags_new r w x u)) = r \<and> is_w (new_leaf p (PTEFlags_new r w x u)) = w \<and>
    is_x (new_leaf p (PTEFlags_new r w x u)) = x \<and> is_u (new_leaf p (PTEFlags_new r w x u)) = u \<and>
    \<not> is_cow (new_leaf p (PTEFlags_new r w x u))"
  by (simp add: new_leaf_reads [OF assms])

theorem new_leaf_roundtrip_witness:
  "ppn_to_addr (new_leaf 0x80300000 (PTEFlags_new True True False True)) = 0x80300000"
  using new_leaf_roundtrip [of "0x80300000" True True False True] by (simp add: page_aligned_def)

text \<open>The copy-on-write and write-permission updates change bit 62 and bit 2 and nothing
  else: the mapped address and the other permissions stay, and granting write access to an
  entry from which it was taken by \<open>clear_w\<close> and \<open>set_cow\<close> restores the entry.\<close>

lemma cow_marking_roundtrip:
  "ppn_to_addr (set_cow (clear_w e)) = ppn_to_addr e \<and>
   is_cow (set_cow (clear_w e)) \<and> \<not> is_w (set_cow (clear_w e)) \<and>
   is_r (set_cow (clear_w e)) = is_r e \<and> is_x (set_cow (clear_w e)) = is_x e \<and>
   is_u (set_cow (clear_w e)) = is_u e \<and> is_valid (set_cow (clear_w e)) = is_valid e \<and>
   clear_cow (set_w (set_cow (clear_w e)) True) = (if is_w e \<and> \<not> is_cow e then e
     else clear_cow (set_w e True))"
  by (auto simp: pte_bits bit_cow_w intro!: bit_word_eqI split: if_splits)

end
