(* ===== verification/Machine.thy ===== *)
theory Machine
  imports Memory
begin

text \<open>
  The hart and what is attached to it: memory, the control and status registers the kernel
  writes, the UART and the SBI firmware; with the drivers of \<open>console.rs\<close>, \<open>sbi.rs\<close> and
  \<open>timer.rs\<close> and the hexadecimal printer of \<open>trap.rs\<close>.

  A read of a UART register is a volatile read whose value the device chooses. The record
  keeps, per register address, the values the device will answer with (\<open>uart_in\<close>); polling
  past the last of them waits for the device for ever (\<open>Exit Device_wait\<close>). Every register
  write is logged (\<open>uart_out\<close>), and so is every SBI call (\<open>sbi_log\<close>); \<open>sbi_ret\<close>
  is what the firmware returns. \<open>svpbmt\<close> says whether the hart implements the page-based memory
  types, to which bits 62 and 61 of a page table entry belong.
\<close>

record hart =
  mem :: memory
  uart_in :: "usize \<Rightarrow> u8 list"
  uart_out :: "(usize \<times> u8) list"
  sbi_log :: "(usize \<times> usize \<times> usize \<times> usize) list"
  sbi_ret :: "usize \<times> usize"
  csr_time :: usize
  csr_satp :: usize
  csr_sstatus :: usize
  csr_sscratch :: usize
  csr_stvec :: usize
  csr_sie :: usize
  svpbmt :: bool

section \<open>Memory operations on the machine state\<close>

definition load64 :: "usize \<Rightarrow> ('a hart_scheme, u64) kernel" where
  "load64 a = gets (\<lambda>s. read_u64 (mem s) a)"

definition store64 :: "usize \<Rightarrow> u64 \<Rightarrow> ('a hart_scheme, unit) kernel" where
  "store64 a v = modify (\<lambda>s. s\<lparr>mem := write_u64 (mem s) a v\<rparr>)"

definition fill_bytes :: "usize \<Rightarrow> u8 \<Rightarrow> usize \<Rightarrow> ('a hart_scheme, unit) kernel" where
  "fill_bytes a b n = modify (\<lambda>s. s\<lparr>mem := write_bytes (mem s) a b n\<rparr>)"

definition copy_bytes :: "usize \<Rightarrow> usize \<Rightarrow> usize \<Rightarrow> ('a hart_scheme, unit) kernel" where
  "copy_bytes src dst n = modify (\<lambda>s. s\<lparr>mem := copy_nonoverlapping (mem s) src dst n\<rparr>)"

lemma wp_load64 [wp_simps]: "wp (load64 a) Q R s = Q (read_u64 (mem s) a) s"
  by (simp add: load64_def wp_simps)

lemma wp_store64 [wp_simps]:
  "wp (store64 a v) Q R s = Q () (s\<lparr>mem := write_u64 (mem s) a v\<rparr>)"
  by (simp add: store64_def wp_simps)

lemma wp_fill_bytes [wp_simps]:
  "wp (fill_bytes a b n) Q R s = Q () (s\<lparr>mem := write_bytes (mem s) a b n\<rparr>)"
  by (simp add: fill_bytes_def wp_simps)

lemma wp_copy_bytes [wp_simps]:
  "wp (copy_bytes src dst n) Q R s = Q () (s\<lparr>mem := copy_nonoverlapping (mem s) src dst n\<rparr>)"
  by (simp add: copy_bytes_def wp_simps)

section \<open>The UART (console.rs)\<close>

definition UART0 :: usize where
  "UART0 = 0x10000000"

record Uart16550 =
  base :: usize

definition read_reg :: "Uart16550 \<Rightarrow> usize \<Rightarrow> ('a hart_scheme, u8) kernel" where
  "read_reg self offset = (\<lambda>s. case uart_in s (base self + offset) of
       [] \<Rightarrow> (Exit Device_wait, s)
     | v # vs \<Rightarrow> (Val v, s\<lparr>uart_in := (uart_in s)(base self + offset := vs)\<rparr>))"

definition write_reg :: "Uart16550 \<Rightarrow> usize \<Rightarrow> u8 \<Rightarrow> ('a hart_scheme, unit) kernel" where
  "write_reg self offset val = modify (\<lambda>s. s\<lparr>uart_out := uart_out s @ [(base self + offset, val)]\<rparr>)"

lemma read_reg_shorter:
  "read_reg self offset s = (Val v, s') \<Longrightarrow>
    length (uart_in s' (base self + offset)) < length (uart_in s (base self + offset))"
  by (auto simp: read_reg_def split: list.splits)

text \<open>The loop \<open>while self.read_reg(5) & mask == 0 {}\<close>, as far as the device answers.\<close>

function poll_lsr :: "Uart16550 \<Rightarrow> u8 \<Rightarrow> ('a hart_scheme, unit) kernel" where
  "poll_lsr self bits s = (case read_reg self 5 s of
       (Exit e, s') \<Rightarrow> (Exit e, s')
     | (Val v, s') \<Rightarrow> if v AND bits = 0 then poll_lsr self bits s' else (Val (), s'))"
  by pat_completeness auto
termination
  by (relation "measure (\<lambda>(self, bits, s). length (uart_in s (base self + 5)))")
    (auto dest!: read_reg_shorter [OF sym])

declare poll_lsr.simps [simp del]

definition Uart_putchar :: "Uart16550 \<Rightarrow> u8 \<Rightarrow> ('a hart_scheme, unit) kernel" where
  "Uart_putchar self c = kseq (poll_lsr self (push_bit 5 1)) (write_reg self 0 c)"

primrec Uart_putstr :: "Uart16550 \<Rightarrow> u8 list \<Rightarrow> ('a hart_scheme, unit) kernel" where
  "Uart_putstr self [] = ret ()"
| "Uart_putstr self (c # cs) =
     kseq (if c = 10 then Uart_putchar self 13 else ret ())
     (kseq (Uart_putchar self c)
     (Uart_putstr self cs))"

definition Uart_read_char :: "Uart16550 \<Rightarrow> ('a hart_scheme, u8) kernel" where
  "Uart_read_char self = kbind (poll_lsr self (push_bit 0 1)) (\<lambda>_. read_reg self 0)"

definition UART :: Uart16550 where
  "UART = \<lparr>base = UART0\<rparr>"

definition bytes_of :: "string \<Rightarrow> u8 list" where
  "bytes_of str = List.map of_char str"

definition puts :: "string \<Rightarrow> ('a hart_scheme, unit) kernel" where
  "puts str = Uart_putstr UART (bytes_of str)"

definition putchar :: "u8 \<Rightarrow> ('a hart_scheme, unit) kernel" where
  "putchar c = Uart_putchar UART c"

definition read_char :: "('a hart_scheme, u8) kernel" where
  "read_char = Uart_read_char UART"

section \<open>SBI and the timer (sbi.rs, timer.rs)\<close>

definition SBI_EXT_SRST :: usize where "SBI_EXT_SRST = 0x53525354"
definition SBI_SRST_RESET :: usize where "SBI_SRST_RESET = 0"
definition SBI_RESET_SHUTDOWN :: usize where "SBI_RESET_SHUTDOWN = 0"
definition SBI_EXT_TIME :: usize where "SBI_EXT_TIME = 0x54494D45"
definition SBI_SET_TIMER :: usize where "SBI_SET_TIMER = 0"

definition sbi_call :: "usize \<Rightarrow> usize \<Rightarrow> usize \<Rightarrow> usize \<Rightarrow> ('a hart_scheme, usize \<times> usize) kernel" where
  "sbi_call ext func arg0 arg1 =
     kseq (modify (\<lambda>s. s\<lparr>sbi_log := sbi_log s @ [(ext, func, arg0, arg1)]\<rparr>)) (gets sbi_ret)"

definition shutdown :: "('a hart_scheme, 'b) kernel" where
  "shutdown = kbind (sbi_call SBI_EXT_SRST SBI_SRST_RESET SBI_RESET_SHUTDOWN 0) (\<lambda>_. halt Shutdown)"

text \<open>\<open>set_timer\<close> leaves register \<open>a1\<close> unset; the log entry records 0 there.\<close>

definition set_timer :: "usize \<Rightarrow> ('a hart_scheme, unit) kernel" where
  "set_timer stime_value =
     kbind (sbi_call SBI_EXT_TIME SBI_SET_TIMER stime_value 0) (\<lambda>_. ret ())"

definition read_time :: "('a hart_scheme, usize) kernel" where
  "read_time = gets csr_time"

section \<open>Hexadecimal output (trap.rs)\<close>

definition hex_digit :: "u8 \<Rightarrow> u8" where
  "hex_digit nibble = (if nibble < 10 then 48 + nibble else 97 + nibble - 10)"

primrec print_hex_loop :: "nat \<Rightarrow> usize \<Rightarrow> ('a hart_scheme, unit) kernel" where
  "print_hex_loop 0 val = ret ()"
| "print_hex_loop (Suc n) val =
     kseq (putchar (hex_digit (ucast (drop_bit 60 val AND 0xF))))
     (print_hex_loop n (push_bit 4 val))"

definition print_hex :: "usize \<Rightarrow> ('a hart_scheme, unit) kernel" where
  "print_hex val = print_hex_loop 16 val"

section \<open>What the drivers do\<close>

text \<open>Console code touches nothing but the UART.\<close>

definition uart_only :: "'a hart_scheme \<Rightarrow> 'a hart_scheme \<Rightarrow> bool" where
  "uart_only s s' \<longleftrightarrow> s' = s\<lparr>uart_in := uart_in s', uart_out := uart_out s'\<rparr>"

text \<open>The log of a run that transmitted the bytes \<open>bs\<close> through the transmit register.\<close>

definition sent :: "u8 list \<Rightarrow> 'a hart_scheme \<Rightarrow> 'a hart_scheme \<Rightarrow> bool" where
  "sent bs s s' \<longleftrightarrow> uart_only s s' \<and> uart_out s' = uart_out s @ List.map (Pair UART0) bs"

text \<open>A console routine that emits \<open>bs\<close> if it returns, and that can only fail to return by
  waiting for the device, having emitted a prefix of \<open>bs\<close>.\<close>

definition emits :: "('a hart_scheme, unit) kernel \<Rightarrow> u8 list \<Rightarrow> bool" where
  "emits m bs \<longleftrightarrow> (\<forall>s. wp m (\<lambda>_. sent bs s)
     (\<lambda>e s'. e = Device_wait \<and> (\<exists>k \<le> length bs. sent (take k bs) s s')) s)"

lemma uart_only_refl [simp]: "uart_only s s"
  by (simp add: uart_only_def)

lemma uart_only_trans: "uart_only s t \<Longrightarrow> uart_only t u \<Longrightarrow> uart_only s u"
  unfolding uart_only_def by (metis (no_types, lifting) hart.surjective hart.update_convs(2,3))

lemma sent_Nil: "sent [] s s' \<longleftrightarrow> uart_only s s' \<and> uart_out s' = uart_out s"
  by (simp add: sent_def)

lemma sent_trans: "sent xs s t \<Longrightarrow> sent ys t u \<Longrightarrow> sent (xs @ ys) s u"
  by (auto simp: sent_def intro: uart_only_trans)

lemma emits_ret: "emits (ret ()) []"
  by (simp add: emits_def wp_simps sent_Nil)

lemma emits_kseq:
  assumes "emits m xs" and "emits n ys"
  shows "emits (kseq m n) (xs @ ys)"
  unfolding emits_def
proof
  fix s
  have *: "wp n (\<lambda>_. sent (xs @ ys) s)
      (\<lambda>e s'. e = Device_wait \<and> (\<exists>k \<le> length (xs @ ys). sent (take k (xs @ ys)) s s')) t"
    if "sent xs s t" for t
  proof (rule wp_mono)
    show "wp n (\<lambda>_. sent ys t)
        (\<lambda>e s'. e = Device_wait \<and> (\<exists>k \<le> length ys. sent (take k ys) t s')) t"
      using assms(2) by (simp add: emits_def)
    fix e s' assume "e = Device_wait \<and> (\<exists>k \<le> length ys. sent (take k ys) t s')"
    then obtain k where "e = Device_wait" "k \<le> length ys" "sent (take k ys) t s'" by blast
    with that show "e = Device_wait \<and> (\<exists>k \<le> length (xs @ ys). sent (take k (xs @ ys)) s s')"
      by (auto intro!: exI [of _ "length xs + k"] intro: sent_trans)
  qed (auto intro: that sent_trans)
  have "wp m (\<lambda>_. sent xs s) (\<lambda>e s'. e = Device_wait \<and> (\<exists>k \<le> length xs. sent (take k xs) s s')) s"
    using assms(1) by (simp add: emits_def)
  then show "wp (kseq m n) (\<lambda>_. sent (xs @ ys) s)
      (\<lambda>e s'. e = Device_wait \<and> (\<exists>k \<le> length (xs @ ys). sent (take k (xs @ ys)) s s')) s"
    unfolding wp_kseq by (rule wp_mono) (use * in \<open>auto intro: trans_le_add1 exI\<close>)
qed

lemma poll_lsr_wp:
  "wp (poll_lsr self bits) (\<lambda>_. sent [] s) (\<lambda>e s'. e = Device_wait \<and> sent [] s s') s"
proof (induction self bits s rule: poll_lsr.induct)
  case (1 self bits s)
  show ?case
  proof (cases "uart_in s (base self + 5)")
    case Nil
    then show ?thesis
      by (simp add: wp_def poll_lsr.simps [of self bits s] read_reg_def sent_Nil)
  next
    case (Cons v vs)
    let ?t = "s\<lparr>uart_in := (uart_in s)(base self + 5 := vs)\<rparr>"
    have rd: "read_reg self 5 s = (Val v, ?t)"
      using Cons by (simp add: read_reg_def)
    have t: "sent [] s ?t" by (simp add: sent_def uart_only_def)
    show ?thesis
    proof (cases "v AND bits = 0")
      case True
      with rd have "wp (poll_lsr self bits) (\<lambda>_. sent [] ?t) (\<lambda>e s'. e = Device_wait \<and> sent [] ?t s') ?t"
        by (intro "1.IH") auto
      then have "wp (poll_lsr self bits) (\<lambda>_. sent [] s) (\<lambda>e s'. e = Device_wait \<and> sent [] s s') ?t"
        by (rule wp_mono) (use t sent_trans [of "[]" s ?t "[]"] in auto)
      then show ?thesis
        using True by (simp add: wp_def poll_lsr.simps [of self bits s] rd)
    next
      case False
      then show ?thesis
        using t by (simp add: wp_def poll_lsr.simps [of self bits s] rd)
    qed
  qed
qed

lemma emitsI:
  assumes "\<And>s. wp m (\<lambda>_. sent bs s) (\<lambda>e s'. e = Device_wait \<and> sent [] s s') s"
  shows "emits m bs"
  unfolding emits_def
proof
  fix s
  show "wp m (\<lambda>_. sent bs s) (\<lambda>e s'. e = Device_wait \<and> (\<exists>k \<le> length bs. sent (take k bs) s s')) s"
    by (rule wp_mono [OF assms]) (auto intro: exI [of _ 0])
qed

lemma emits_Uart_putchar: "emits (Uart_putchar UART c) [c]"
proof (rule emitsI)
  fix s :: "'a hart_scheme"
  show "wp (Uart_putchar UART c) (\<lambda>_. sent [c] s) (\<lambda>e s'. e = Device_wait \<and> sent [] s s') s"
    unfolding Uart_putchar_def wp_kseq
    by (rule wp_mono [OF poll_lsr_wp])
      (auto simp: write_reg_def wp_simps sent_def uart_only_def UART_def)
qed

lemma emits_putchar: "emits (putchar c) [c]"
  unfolding putchar_def by (rule emits_Uart_putchar)

text \<open>The bytes on the wire: a carriage return before every line feed.\<close>

fun crlf :: "u8 list \<Rightarrow> u8 list" where
  "crlf [] = []"
| "crlf (c # cs) = (if c = 10 then [13, 10] else [c]) @ crlf cs"

lemma emits_Uart_putstr: "emits (Uart_putstr UART cs) (crlf cs)"
proof (induction cs)
  case Nil
  then show ?case by (simp add: emits_ret)
next
  case (Cons c cs)
  have "emits (if c = 10 then Uart_putchar UART 13 else ret ()) (if c = 10 then [13] else [])"
    by (simp add: emits_Uart_putchar emits_ret)
  from emits_kseq [OF this emits_kseq [OF emits_Uart_putchar [of c] Cons.IH]] show ?case
    by (cases "c = 10") simp_all
qed

lemma emits_puts: "emits (puts str) (crlf (bytes_of str))"
  unfolding puts_def by (rule emits_Uart_putstr)

primrec hex_digits :: "nat \<Rightarrow> usize \<Rightarrow> u8 list" where
  "hex_digits 0 val = []"
| "hex_digits (Suc n) val = hex_digit (ucast (drop_bit 60 val AND 0xF)) # hex_digits n (push_bit 4 val)"

lemma emits_print_hex_loop: "emits (print_hex_loop n val) (hex_digits n val)"
proof (induction n arbitrary: val)
  case (Suc n)
  from emits_kseq [OF emits_putchar Suc.IH] show ?case by simp
qed (simp add: emits_ret)

lemma emits_print_hex: "emits (print_hex val) (hex_digits 16 val)"
  unfolding print_hex_def by (rule emits_print_hex_loop)

text \<open>Console output and the frame it keeps, as a rule for the callers.\<close>

lemma emits_uart_only: "emits m bs \<Longrightarrow> wp m (\<lambda>_. uart_only s) (\<lambda>e s'. e = Device_wait \<and> uart_only s s') s"
  unfolding emits_def by (erule allE [of _ s], erule wp_mono) (auto simp: sent_def)

lemmas puts_wp = emits_uart_only [OF emits_puts]
lemmas print_hex_wp = emits_uart_only [OF emits_print_hex]

lemma wp_uart_chain:
  assumes "emits m bs" and "\<And>t. uart_only s t \<Longrightarrow> wp n Q R t"
    and "\<And>t. uart_only s t \<Longrightarrow> R Device_wait t"
  shows "wp (kseq m n) Q R s"
  unfolding wp_kseq by (rule wp_mono [OF emits_uart_only [OF assms(1), of s]]) (use assms(2,3) in auto)

text \<open>The same along a chain of console calls, all compared with its start.\<close>

lemma wp_uart_from:
  assumes "emits m bs" and "uart_only s0 s" and "\<And>t. uart_only s0 t \<Longrightarrow> wp n Q R t"
    and "\<And>t. uart_only s0 t \<Longrightarrow> R Device_wait t"
  shows "wp (kseq m n) Q R s"
  by (rule wp_uart_chain [OF assms(1)]) (blast intro: uart_only_trans assms(2-4))+

section \<open>Properties of the console\<close>

text \<open>Reading the digits back, most significant first.\<close>

definition hex_value :: "u8 \<Rightarrow> nat" where
  "hex_value c = (if c < 58 then unat c - 48 else unat c - 87)"

definition hex_parse :: "u8 list \<Rightarrow> nat" where
  "hex_parse cs = fold (\<lambda>c acc. 16 * acc + hex_value c) cs 0"

lemma hex_value_digit:
  assumes "unat n < 16" shows "hex_value (hex_digit n) = unat n"
proof -
  have "97 + n - 10 = 87 + n" by simp
  then show ?thesis
    using assms by (simp add: hex_value_def hex_digit_def word_less_nat_alt unat_word_ariths)
qed

lemma nibble_value: "unat (ucast (drop_bit 60 (v :: usize) AND 0xF) :: u8) = unat v div 2 ^ 60"
proof -
  have m: "(0xF :: usize) = mask 4" by (simp add: mask_eq_exp_minus_1)
  have "drop_bit 60 v AND 0xF = drop_bit 60 v"
    unfolding m by (rule bit_word_eqI) (auto simp: bit_simps dest: bit_imp_le_length)
  moreover have d: "unat (drop_bit 60 v) = unat v div 2 ^ 60"
    by (subst unat_drop_bit_eq) (simp only: drop_bit_eq_div)
  moreover have "unat v div 2 ^ 60 < 16"
    using unat_usize_less [of v] by (simp add: less_mult_imp_div_less)
  ultimately show ?thesis
    by (simp only: unsigned_ucast_eq take_bit_eq_mod) simp
qed

lemma unat_push_bit_4: "unat (push_bit 4 (v :: usize)) = 16 * (unat v mod 2 ^ 60)"
proof -
  have "unat (push_bit 4 v) = (unat v * 16) mod 2 ^ 64"
    by (simp add: push_bit_eq_mult unat_word_ariths)
  also have "\<dots> = 16 * (unat v mod 2 ^ 60)"
    using mult_mod_right [of 16 "unat v" "2 ^ 60"] by (simp add: mult.commute)
  finally show ?thesis .
qed

lemma shift_nibble:
  fixes v :: nat
  assumes "n \<le> 15"
  shows "2 ^ (4 * n) * (v div 2 ^ 60) + (16 * (v mod 2 ^ 60)) div 2 ^ (64 - 4 * n) = v div 2 ^ (60 - 4 * n)"
proof -
  have "64 - 4 * n = 4 + (60 - 4 * n)" using assms by simp
  then have e: "(2 :: nat) ^ (64 - 4 * n) = 16 * 2 ^ (60 - 4 * n)"
    by (simp only: power_add) simp
  have f: "(2 :: nat) ^ 60 = 2 ^ (4 * n) * 2 ^ (60 - 4 * n)"
    using assms by (simp only: power_add [symmetric]) simp
  have "v = v mod 2 ^ 60 + (2 ^ (4 * n) * (v div 2 ^ 60)) * 2 ^ (60 - 4 * n)"
    using mod_mult_div_eq [of v "2 ^ 60"] f by (simp only: ac_simps)
  then have "v div 2 ^ (60 - 4 * n)
      = (v mod 2 ^ 60 + (2 ^ (4 * n) * (v div 2 ^ 60)) * 2 ^ (60 - 4 * n)) div 2 ^ (60 - 4 * n)"
    by simp
  also have "\<dots> = 2 ^ (4 * n) * (v div 2 ^ 60) + (v mod 2 ^ 60) div 2 ^ (60 - 4 * n)"
    by (rule div_mult_self1) simp
  finally show ?thesis by (simp add: e)
qed

lemma hex_digits_fold:
  "n \<le> 16 \<Longrightarrow> fold (\<lambda>c acc. 16 * acc + hex_value c) (hex_digits n v) acc
    = 2 ^ (4 * n) * acc + unat v div 2 ^ (64 - 4 * n)"
proof (induction n arbitrary: v acc)
  case 0
  then show ?case using unat_usize_less [of v] by simp
next
  case (Suc n)
  have "unat v div 2 ^ 60 < 16"
    using unat_usize_less [of v] by (simp add: less_mult_imp_div_less)
  then have d: "hex_value (hex_digit (ucast (drop_bit 60 v AND 0xF))) = unat v div 2 ^ 60"
    using hex_value_digit [of "ucast (drop_bit 60 v AND 0xF)"] by (simp only: nibble_value)
  have "fold (\<lambda>c acc. 16 * acc + hex_value c) (hex_digits (Suc n) v) acc
      = 2 ^ (4 * n) * (16 * acc + unat v div 2 ^ 60) + 16 * (unat v mod 2 ^ 60) div 2 ^ (64 - 4 * n)"
    using Suc by (simp only: hex_digits.simps fold_simps d unat_push_bit_4)
  also have "\<dots> = 2 ^ (4 * Suc n) * acc + unat v div 2 ^ (60 - 4 * n)"
    using Suc.prems by (simp only: shift_nibble [symmetric, of n]) (simp add: algebra_simps power_add)
  finally show ?case by (simp add: diff_Suc_eq_diff_pred)
qed

lemma hex_digits_roundtrip: "hex_parse (hex_digits 16 v) = unat v"
  using hex_digits_fold [of 16 v 0] by (simp add: hex_parse_def)

section \<open>Progress of the console\<close>

lemma emitsD: "emits m bs \<Longrightarrow> wp m (\<lambda>_. sent bs s)
    (\<lambda>e s'. e = Device_wait \<and> (\<exists>k \<le> length bs. sent (take k bs) s s')) s"
  by (simp add: emits_def)

text \<open>How many more bytes the device will take: the answers with the transmitter-empty bit set.\<close>

definition tx_ready :: "'a hart_scheme \<Rightarrow> nat" where
  "tx_ready s = length (filter (\<lambda>v. v AND push_bit 5 1 \<noteq> 0) (uart_in s (UART0 + 5)))"

definition delivers :: "('a hart_scheme, unit) kernel \<Rightarrow> nat \<Rightarrow> bool" where
  "delivers m n \<longleftrightarrow> (\<forall>s. n \<le> tx_ready s \<longrightarrow> wp m (\<lambda>_ s'. tx_ready s = n + tx_ready s') (\<lambda>_ _. False) s)"

lemma delivers_ret: "delivers (ret ()) 0"
  by (simp add: delivers_def wp_simps)

lemma deliversD: "delivers m n \<Longrightarrow> n \<le> tx_ready s \<Longrightarrow> wp m (\<lambda>_ s'. tx_ready s = n + tx_ready s') (\<lambda>_ _. False) s"
  by (simp add: delivers_def)

lemma delivers_kseq:
  assumes "delivers m k" and "delivers n l"
  shows "delivers (kseq m n) (k + l)"
  unfolding delivers_def wp_kseq
proof (intro allI impI)
  fix s :: "'a hart_scheme" assume le: "k + l \<le> tx_ready s"
  show "wp m (\<lambda>_. wp n (\<lambda>_ s'. tx_ready s = k + l + tx_ready s') (\<lambda>_ _. False)) (\<lambda>_ _. False) s"
  proof (rule wp_mono [OF deliversD [OF assms(1)]])
    fix t :: "'a hart_scheme" assume t: "tx_ready s = k + tx_ready t"
    show "wp n (\<lambda>_ s'. tx_ready s = k + l + tx_ready s') (\<lambda>_ _. False) t"
      by (rule wp_mono [OF deliversD [OF assms(2)]]) (use le t in simp_all)
  qed (use le in simp_all)
qed

lemma poll_delivers:
  "self = UART \<Longrightarrow> bits = push_bit 5 1 \<Longrightarrow> 1 \<le> tx_ready s \<Longrightarrow>
    wp (poll_lsr self bits) (\<lambda>_ s'. tx_ready s = 1 + tx_ready s') (\<lambda>_ _. False) s"
proof (induction self bits s rule: poll_lsr.induct)
  case (1 self bits s)
  then obtain v vs where Cons: "uart_in s (UART0 + 5) = v # vs" by (cases "uart_in s (UART0 + 5)") (auto simp: tx_ready_def)
  let ?t = "s\<lparr>uart_in := (uart_in s)(UART0 + 5 := vs)\<rparr>"
  have rd: "read_reg self 5 s = (Val v, ?t)" using Cons 1(2) by (simp add: read_reg_def UART_def)
  have rdy: "tx_ready s = (if v AND bits = 0 then 0 else 1) + tx_ready ?t" using Cons 1(3) by (simp add: tx_ready_def)
  show ?case
  proof (cases "v AND bits = 0")
    case True
    with 1 rd rdy have "wp (poll_lsr self bits) (\<lambda>_ s'. tx_ready ?t = 1 + tx_ready s') (\<lambda>_ _. False) ?t" by (intro "1.IH") auto
    then show ?thesis using True rdy by (simp add: wp_def poll_lsr.simps [of self bits s] rd)
  next
    case False
    then show ?thesis using rdy by (simp add: wp_def poll_lsr.simps [of self bits s] rd)
  qed
qed

lemma delivers_putchar: "delivers (Uart_putchar UART c) 1"
  unfolding delivers_def Uart_putchar_def wp_kseq
proof (intro allI impI)
  fix s :: "'a hart_scheme" assume "1 \<le> tx_ready s"
  from poll_delivers [OF refl refl this]
  show "wp (poll_lsr UART (push_bit 5 1)) (\<lambda>_. wp (write_reg UART 0 c) (\<lambda>_ s'. tx_ready s = 1 + tx_ready s') (\<lambda>_ _. False)) (\<lambda>_ _. False) s"
    by (rule wp_mono) (simp_all add: write_reg_def wp_simps tx_ready_def)
qed

lemma delivers_puts: "delivers (puts str) (length (crlf (bytes_of str)))"
proof -
  have "delivers (Uart_putstr UART cs) (length (crlf cs))" for cs
  proof (induction cs)
    case (Cons c cs)
    have "delivers (if c = 10 then Uart_putchar UART 13 else ret ()) (if c = 10 then 1 else 0)"
      using delivers_putchar [of 13] delivers_ret by (cases "c = 10") simp_all
    from delivers_kseq [OF this delivers_kseq [OF delivers_putchar [of c] Cons.IH]] show ?case by (cases "c = 10") simp_all
  qed (simp add: delivers_ret)
  then show ?thesis by (simp add: puts_def)
qed

lemma delivers_print_hex: "delivers (print_hex v) 16"
proof -
  have "delivers (print_hex_loop n v) n" for n
  proof (induction n arbitrary: v)
    case (Suc n)
    from delivers_kseq [OF delivers_putchar [folded putchar_def] Suc.IH] show ?case by simp
  qed (simp add: delivers_ret)
  then show ?thesis by (simp add: print_hex_def)
qed

text \<open>C36. Console output. A string is transmitted byte by byte with a carriage return before every line
  feed, and nothing but the console changes. When the device has room for all the bytes the call
  returns; otherwise it waits for the device, having sent a prefix.\<close>

theorem puts_transmits:
  "(case puts str s of
      (Val _, s') \<Rightarrow> uart_only s s' \<and> uart_out s' = uart_out s @ List.map (Pair UART0) (crlf (bytes_of str))
    | (Exit e, s') \<Rightarrow> uart_only s s' \<and> e = Device_wait \<and>
        (\<exists>k. uart_out s' = uart_out s @ List.map (Pair UART0) (take k (crlf (bytes_of str))))) \<and>
   (length (crlf (bytes_of str)) \<le> tx_ready s \<longrightarrow> (\<exists>s'. puts str s = (Val (), s')))"
proof
  have "wp (puts str) (\<lambda>_ s'. uart_only s s' \<and> uart_out s' = uart_out s @ List.map (Pair UART0) (crlf (bytes_of str)))
      (\<lambda>e s'. uart_only s s' \<and> e = Device_wait \<and> (\<exists>k. uart_out s' = uart_out s @ List.map (Pair UART0) (take k (crlf (bytes_of str))))) s"
    by (rule wp_mono [OF emitsD [OF emits_puts]]) (auto simp: sent_def)
  then show "case puts str s of
      (Val _, s') \<Rightarrow> uart_only s s' \<and> uart_out s' = uart_out s @ List.map (Pair UART0) (crlf (bytes_of str))
    | (Exit e, s') \<Rightarrow> uart_only s s' \<and> e = Device_wait \<and>
        (\<exists>k. uart_out s' = uart_out s @ List.map (Pair UART0) (take k (crlf (bytes_of str))))"
    by (simp add: wp_def)
  show "length (crlf (bytes_of str)) \<le> tx_ready s \<longrightarrow> (\<exists>s'. puts str s = (Val (), s'))"
    using wp_returns [OF deliversD [OF delivers_puts], of str s] by auto
qed

text \<open>The hexadecimal printer. When the device has room for sixteen bytes, \<open>print_hex\<close> returns and the
  sixteen digits it has sent, read back as a hexadecimal number, are the value printed.\<close>

lemma print_hex_roundtrip:
  assumes "16 \<le> tx_ready s"
  shows "\<exists>s' ds. print_hex val s = (Val (), s') \<and> uart_out s' = uart_out s @ List.map (Pair UART0) ds \<and>
    length ds = 16 \<and> hex_parse ds = unat val"
proof -
  have len: "length (hex_digits n v) = n" for n v by (induction n arbitrary: v) simp_all
  have "wp (print_hex val) (\<lambda>_ s'. uart_out s' = uart_out s @ List.map (Pair UART0) (hex_digits 16 val)) (\<lambda>_ _. True) s"
    by (rule wp_mono [OF emitsD [OF emits_print_hex]]) (auto simp: sent_def)
  moreover obtain s' where run: "print_hex val s = (Val (), s')"
    using wp_returns [OF deliversD [OF delivers_print_hex assms], of val] by auto
  ultimately have "uart_out s' = uart_out s @ List.map (Pair UART0) (hex_digits 16 val)" by (simp add: wp_def)
  then show ?thesis using run hex_digits_roundtrip [of val] len by blast
qed

definition hart0 :: hart where
  "hart0 = \<lparr>mem = (\<lambda>_. 0), uart_in = (\<lambda>_. replicate 40 0x60), uart_out = [], sbi_log = [], sbi_ret = (0, 0),
     csr_time = 0, csr_satp = 0, csr_sstatus = 0, csr_sscratch = 0, csr_stvec = 0, csr_sie = 0, svpbmt = True\<rparr>"

lemma hart0_ready: "tx_ready hart0 = 40"
proof -
  have "(0x60 :: u8) AND push_bit 5 1 \<noteq> 0" by code_simp
  then show ?thesis by (simp add: tx_ready_def hart0_def)
qed

theorem puts_transmits_witness:
  "\<exists>s'. puts ''hi'' hart0 = (Val (), s') \<and> uart_out s' = [(UART0, 104), (UART0, 105)]"
proof -
  have c: "crlf (bytes_of ''hi'') = [104, 105]" by code_simp
  then obtain s' where "puts ''hi'' hart0 = (Val (), s')"
    using puts_transmits [where str = "''hi''" and s = hart0] by (auto simp: hart0_ready)
  then show ?thesis using puts_transmits [where str = "''hi''" and s = hart0] c by (auto simp: hart0_def)
qed

end
