(* ===== verification/Frame.thy ===== *)
theory Frame
  imports Machine
begin

text \<open>
  The physical frame allocator of \<open>mm/frame.rs\<close>: a bump pointer over RAM, a reference count
  per frame and a LIFO free list threaded through the first double word of each free frame.
  The contract \<open>frame_source\<close> says what the page tables rely on when they ask for a frame;
  it is interpreted on \<open>alloc_frame\<close> at the end.
\<close>

definition RAM_BASE :: usize where "RAM_BASE = 0x80000000"
definition RAM_SIZE :: usize where "RAM_SIZE = 128 * 1024 * 1024"

text \<open>The statics of the module. \<open>FRAME_REFS\<close> is an array of 32768 counters; indexing past
  its end panics, as in Rust.\<close>

record frames = hart +
  NEXT_FRAME :: usize
  FRAME_REFS :: "usize \<Rightarrow> u32"
  FREE_LIST_HEAD :: u64

definition FRAME_REFS_LEN :: usize where "FRAME_REFS_LEN = 32768"

definition refs_load :: "usize \<Rightarrow> ('a frames_scheme, u32) kernel" where
  "refs_load idx = (if idx < FRAME_REFS_LEN then gets (\<lambda>s. FRAME_REFS s idx)
                    else halt (Panic bounds_panic))"

definition refs_store :: "usize \<Rightarrow> u32 \<Rightarrow> ('a frames_scheme, unit) kernel" where
  "refs_store idx v = (if idx < FRAME_REFS_LEN
     then modify (\<lambda>s. s\<lparr>FRAME_REFS := (FRAME_REFS s)(idx := v)\<rparr>)
     else halt (Panic bounds_panic))"

section \<open>The operations\<close>

definition is_managed :: "PhysAddr \<Rightarrow> bool" where
  "is_managed pa \<longleftrightarrow> RAM_BASE \<le> pa \<and> pa < RAM_BASE + RAM_SIZE"

definition nl :: string where
  "nl = [CHR 0x0A]"

definition frame_index :: "PhysAddr \<Rightarrow> ('a frames_scheme, usize) kernel" where
  "frame_index pa =
     (if \<not> is_managed pa then
        kseq (puts (nl @ ''[FRAME] bad pa=0x''))
        (kseq (print_hex pa)
        (kseq (puts nl)
        (halt (Panic ''frame_index: physical address out of managed RAM''))))
      else kbind (usub pa RAM_BASE) (\<lambda>d. ret (drop_bit 12 d)))"

definition inc_ref :: "PhysAddr \<Rightarrow> ('a frames_scheme, unit) kernel" where
  "inc_ref pa =
     kbind (frame_index pa) (\<lambda>idx.
     kbind (refs_load idx) (\<lambda>prev.
     refs_store idx (prev + 1)))"

definition free_frame :: "PhysAddr \<Rightarrow> ('a frames_scheme, unit) kernel" where
  "free_frame pa =
     kbind (gets FREE_LIST_HEAD) (\<lambda>head.
     kseq (store64 pa head)
     (kseq (modify (\<lambda>s. s\<lparr>FREE_LIST_HEAD := pa\<rparr>))
     (kbind (frame_index pa) (\<lambda>idx.
     refs_store idx 0))))"

definition dec_ref :: "PhysAddr \<Rightarrow> ('a frames_scheme, u32) kernel" where
  "dec_ref pa =
     kbind (frame_index pa) (\<lambda>idx.
     kbind (refs_load idx) (\<lambda>prev.
     kseq (refs_store idx (prev - 1))
     (kseq (if prev = 1 then free_frame pa else ret ())
     (usub prev 1))))"

definition get_ref :: "PhysAddr \<Rightarrow> ('a frames_scheme, u32) kernel" where
  "get_ref pa = kbind (frame_index pa) refs_load"

definition frame_init :: "PhysAddr \<Rightarrow> ('a frames_scheme, unit) kernel" where
  "frame_init kernel_end =
     kbind (uadd kernel_end 4095) (\<lambda>a.
     modify (\<lambda>s. s\<lparr>NEXT_FRAME := a AND NOT 4095\<rparr>))"

definition alloc_frame :: "('a frames_scheme, PhysAddr option) kernel" where
  "alloc_frame =
     kbind (gets FREE_LIST_HEAD) (\<lambda>head.
     if head \<noteq> 0 then
       kbind (load64 head) (\<lambda>next.
       kseq (modify (\<lambda>s. s\<lparr>FREE_LIST_HEAD := next\<rparr>))
       (kbind (frame_index head) (\<lambda>idx.
       kseq (refs_store idx 1)
       (ret (Some head)))))
     else
       kbind (gets NEXT_FRAME) (\<lambda>p.
       if RAM_BASE + RAM_SIZE \<le> p then ret None
       else
         kbind (uadd p 4096) (\<lambda>p'.
         kseq (modify (\<lambda>s. s\<lparr>NEXT_FRAME := p'\<rparr>))
         (kbind (frame_index p) (\<lambda>idx.
         kseq (refs_store idx 1)
         (ret (Some p)))))))"

definition alloc_contiguous_frames :: "usize \<Rightarrow> ('a frames_scheme, PhysAddr option) kernel" where
  "alloc_contiguous_frames pages =
     (if pages = 0 then ret None else
      case checked_mul pages 4096 of None \<Rightarrow> ret None
      | Some bytes \<Rightarrow>
        kbind (gets NEXT_FRAME) (\<lambda>start.
        case checked_add start bytes of None \<Rightarrow> ret None
        | Some fin \<Rightarrow>
          if RAM_BASE + RAM_SIZE < fin then ret None
          else
            kseq (modify (\<lambda>s. s\<lparr>NEXT_FRAME := fin\<rparr>))
            (kseq (for_each [0..<unat pages] (\<lambda>i.
               kbind (umul (of_nat i) 4096) (\<lambda>off.
               kbind (uadd start off) (\<lambda>pa.
               kbind (frame_index pa) (\<lambda>idx.
               refs_store idx 1)))))
            (ret (Some start)))))"

section \<open>Frames and their reference counts\<close>

definition frame_ok :: "PhysAddr \<Rightarrow> bool" where
  "frame_ok p \<longleftrightarrow> page_aligned p \<and> is_managed p"

definition frame_no :: "PhysAddr \<Rightarrow> usize" where
  "frame_no p = drop_bit 12 (p - RAM_BASE)"

definition frame_ref :: "'a frames_scheme \<Rightarrow> PhysAddr \<Rightarrow> u32" where
  "frame_ref s p = FRAME_REFS s (frame_no p)"

definition set_ref :: "PhysAddr \<Rightarrow> u32 \<Rightarrow> 'a frames_scheme \<Rightarrow> 'a frames_scheme" where
  "set_ref p v s = s\<lparr>FRAME_REFS := (FRAME_REFS s)(frame_no p := v)\<rparr>"

lemma RAM_END: "RAM_BASE + RAM_SIZE = 0x88000000"
  by (simp add: RAM_BASE_def RAM_SIZE_def)

lemma is_managed_unat: "is_managed p \<longleftrightarrow> 0x80000000 \<le> unat p \<and> unat p < 0x88000000"
  by (simp add: is_managed_def RAM_END) (simp add: RAM_BASE_def word_le_nat_alt word_less_nat_alt)

lemma unat_frame_no:
  assumes "is_managed p"
  shows "unat (frame_no p) = (unat p - 0x80000000) div 4096"
proof -
  have "RAM_BASE \<le> p" using assms by (simp add: is_managed_def)
  then have "unat (p - RAM_BASE) = unat p - 0x80000000"
    by (simp add: unat_sub) (simp add: RAM_BASE_def)
  then show ?thesis
    unfolding frame_no_def by (subst unat_drop_bit_eq) (simp add: drop_bit_eq_div)
qed

lemma frame_no_bound: "is_managed p \<Longrightarrow> frame_no p < FRAME_REFS_LEN"
  by (simp add: word_less_nat_alt unat_frame_no FRAME_REFS_LEN_def is_managed_unat) arith

lemma frame_no_inj:
  assumes "frame_ok p" and "frame_ok q" and "frame_no p = frame_no q"
  shows "p = q"
proof -
  obtain i j where ij: "unat p = 4096 * i" "unat q = 4096 * j"
    using assms(1,2) by (auto simp: frame_ok_def page_aligned_iff_dvd elim!: dvdE)
  have "(unat p - 0x80000000) div 4096 = (unat q - 0x80000000) div 4096"
    using assms unat_frame_no [of p] unat_frame_no [of q] by (simp add: frame_ok_def)
  then have "i = j"
    using assms(1,2) by (simp add: frame_ok_def is_managed_unat ij) arith
  then show ?thesis by (simp add: word_unat_eq_iff ij)
qed

lemma frame_ref_set_ref: 
  "frame_ok p \<Longrightarrow> frame_ok q \<Longrightarrow> frame_ref (set_ref p v s) q = (if p = q then v else frame_ref s q)"
  by (auto simp: frame_ref_def set_ref_def dest: frame_no_inj)

lemma set_ref_simps [simp]:
  "mem (set_ref p v s) = mem s" "NEXT_FRAME (set_ref p v s) = NEXT_FRAME s"
  "FREE_LIST_HEAD (set_ref p v s) = FREE_LIST_HEAD s"
  by (simp_all add: set_ref_def)

lemma frame_ref_mem [simp]: "frame_ref (s\<lparr>mem := m\<rparr>) p = frame_ref s p"
  and frame_ref_next [simp]: "frame_ref (s\<lparr>NEXT_FRAME := n\<rparr>) p = frame_ref s p"
  and frame_ref_head [simp]: "frame_ref (s\<lparr>FREE_LIST_HEAD := h\<rparr>) p = frame_ref s p"
  by (simp_all add: frame_ref_def)

text \<open>For a managed frame, indexing succeeds and no counter access is out of range.\<close>

lemma wp_frame_index: "is_managed p \<Longrightarrow> wp (frame_index p) Q R s = Q (frame_no p) s"
  by (auto simp: frame_index_def wp_simps frame_no_def is_managed_def)

lemma wp_refs_load: "is_managed p \<Longrightarrow> wp (refs_load (frame_no p)) Q R s = Q (frame_ref s p) s"
  by (simp add: refs_load_def wp_simps frame_no_bound frame_ref_def)

lemma wp_refs_store: "is_managed p \<Longrightarrow> wp (refs_store (frame_no p) v) Q R s = Q () (set_ref p v s)"
  by (simp add: refs_store_def wp_simps frame_no_bound set_ref_def)

lemmas wp_frame_ops = wp_frame_index wp_refs_load wp_refs_store

lemma wp_get_ref: "is_managed p \<Longrightarrow> wp (get_ref p) Q R s = Q (frame_ref s p) s"
  by (simp add: get_ref_def wp_simps wp_frame_ops)

lemma wp_inc_ref: "is_managed p \<Longrightarrow> wp (inc_ref p) Q R s = Q () (set_ref p (frame_ref s p + 1) s)"
  by (simp add: inc_ref_def wp_simps wp_frame_ops)

lemma wp_free_frame:
  "is_managed p \<Longrightarrow> wp (free_frame p) Q R s =
     Q () (set_ref p 0 (s\<lparr>mem := write_u64 (mem s) p (FREE_LIST_HEAD s), FREE_LIST_HEAD := p\<rparr>))"
  by (simp add: free_frame_def wp_simps wp_frame_ops)

section \<open>The free list in memory\<close>

text \<open>\<open>chain rd h ps\<close>: from head \<open>h\<close>, following the link in each node's first double word
  visits exactly \<open>ps\<close> and ends in 0.\<close>

primrec chain :: "(usize \<Rightarrow> u64) \<Rightarrow> u64 \<Rightarrow> usize list \<Rightarrow> bool" where
  "chain rd h [] \<longleftrightarrow> h = 0"
| "chain rd h (p # ps) \<longleftrightarrow> h = p \<and> p \<noteq> 0 \<and> chain rd (rd p) ps"

lemma chain_cong: "(\<And>p. p \<in> set ps \<Longrightarrow> rd p = rd' p) \<Longrightarrow> chain rd h ps = chain rd' h ps"
  by (induction ps arbitrary: h) auto

lemma chain_unique: "chain rd h ps \<Longrightarrow> chain rd h qs \<Longrightarrow> ps = qs"
proof (induction ps arbitrary: h qs)
  case Nil
  then show ?case by (cases qs) auto
next
  case (Cons p ps)
  then show ?case by (cases qs) auto
qed

lemma chain_head: "chain rd h ps \<Longrightarrow> h = 0 \<longleftrightarrow> ps = []"
  by (cases ps) auto

context dword_store
begin

lemma chain_wr_other:
  assumes "dword_aligned a" and "\<And>p. p \<in> set ps \<Longrightarrow> dword_aligned p" and "a \<notin> set ps"
  shows "chain (rd (wr m a v)) h ps = chain (rd m) h ps"
  by (rule chain_cong) (use assms in \<open>auto simp: rd_wr\<close>)

lemma chain_push:
  assumes "chain (rd m) h ps" and "dword_aligned a" and "\<And>p. p \<in> set ps \<Longrightarrow> dword_aligned p"
    and "a \<notin> set ps" and "a \<noteq> 0"
  shows "chain (rd (wr m a h)) a (a # ps)"
  using assms by (simp add: rd_wr_same chain_wr_other)

end

section \<open>The allocator invariant\<close>

definition frames_inv :: "usize list \<Rightarrow> 'a frames_scheme \<Rightarrow> bool" where
  "frames_inv fl s \<longleftrightarrow>
     chain (read_u64 (mem s)) (FREE_LIST_HEAD s) fl \<and> distinct fl \<and>
     (\<forall>p \<in> set fl. frame_ok p \<and> p < NEXT_FRAME s \<and> frame_ref s p = 0) \<and>
     page_aligned (NEXT_FRAME s) \<and> RAM_BASE \<le> NEXT_FRAME s \<and> NEXT_FRAME s \<le> RAM_BASE + RAM_SIZE \<and>
     (\<forall>p. frame_ok p \<and> NEXT_FRAME s \<le> p \<longrightarrow> frame_ref s p = 0)"

text \<open>A live frame is one that is handed out: its count is not zero.\<close>

definition live :: "'a frames_scheme \<Rightarrow> PhysAddr \<Rightarrow> bool" where
  "live s p \<longleftrightarrow> frame_ok p \<and> frame_ref s p \<noteq> 0"

lemma live_frame_ok: "live s p \<Longrightarrow> frame_ok p"
  by (simp add: live_def)

lemma frames_inv_dest:
  assumes "frames_inv fl s"
  shows "chain (read_u64 (mem s)) (FREE_LIST_HEAD s) fl" and "distinct fl"
    and "\<And>p. p \<in> set fl \<Longrightarrow> frame_ok p" and "\<And>p. p \<in> set fl \<Longrightarrow> p < NEXT_FRAME s"
    and "\<And>p. p \<in> set fl \<Longrightarrow> frame_ref s p = 0"
    and "page_aligned (NEXT_FRAME s)" and "RAM_BASE \<le> NEXT_FRAME s"
    and "NEXT_FRAME s \<le> RAM_BASE + RAM_SIZE"
    and "\<And>p. frame_ok p \<Longrightarrow> NEXT_FRAME s \<le> p \<Longrightarrow> frame_ref s p = 0"
  using assms unfolding frames_inv_def by auto

lemma live_below_next: "frames_inv fl s \<Longrightarrow> live s p \<Longrightarrow> p < NEXT_FRAME s \<and> p \<notin> set fl"
  unfolding frames_inv_def live_def by (auto simp: not_le [symmetric])

lemma frame_ok_nonzero: "frame_ok p \<Longrightarrow> p \<noteq> 0"
  by (auto simp: frame_ok_def is_managed_unat)

lemma frame_ok_aligned: "frame_ok p \<Longrightarrow> page_aligned p" "frame_ok p \<Longrightarrow> dword_aligned p"
  by (simp_all add: frame_ok_def)

text \<open>Stores that stay inside live frames do not disturb the allocator.\<close>

lemma frames_inv_mem:
  assumes inv: "frames_inv fl s" and same: "\<And>x. \<not> live s (page_of x) \<Longrightarrow> m x = mem s x"
  shows "frames_inv fl (s\<lparr>mem := m\<rparr>)"
proof -
  have "read_u64 m p = read_u64 (mem s) p" if "p \<in> set fl" for p
  proof (rule read_u64_cong)
    fix i :: nat assume "i < 8"
    then have "page_of (p + of_nat i) = p"
      using frames_inv_dest(3) [OF inv that] by (simp add: dword_page page_of_id frame_ok_def)
    moreover have "\<not> live s p"
      using frames_inv_dest(5) [OF inv that] by (simp add: live_def)
    ultimately show "m (p + of_nat i) = mem s (p + of_nat i)"
      using same by simp
  qed
  then have "chain (read_u64 m) (FREE_LIST_HEAD s) fl"
    using frames_inv_dest(1) [OF inv] by (simp cong: chain_cong)
  then show ?thesis
    using inv by (simp add: frames_inv_def)
qed

section \<open>Contracts of the operations\<close>

lemma frame_ok_next:
  assumes "frames_inv fl s" and "\<not> RAM_BASE + RAM_SIZE \<le> NEXT_FRAME s"
  shows "frame_ok (NEXT_FRAME s)" and "\<not> add_overflows (NEXT_FRAME s) 4096"
    and "NEXT_FRAME s + 4096 \<le> RAM_BASE + RAM_SIZE" and "page_aligned (NEXT_FRAME s + 4096)"
    and "unat (NEXT_FRAME s + 4096) = unat (NEXT_FRAME s) + 4096"
proof -
  let ?n = "NEXT_FRAME s"
  show ok: "frame_ok ?n"
    using assms frames_inv_dest(6,7) [OF assms(1)] by (simp add: frame_ok_def is_managed_def)
  then obtain k where k: "unat ?n = 4096 * k" "0x80000000 \<le> 4096 * k" "4096 * k < 0x88000000"
    by (auto simp: frame_ok_def is_managed_unat page_aligned_iff_dvd elim!: dvdE)
  show ov: "\<not> add_overflows ?n 4096"
    using k by (simp add: add_overflows_def)
  then show u: "unat (?n + 4096) = unat ?n + 4096"
    by (simp add: unat_add_no_overflow)
  show "?n + 4096 \<le> RAM_BASE + RAM_SIZE"
    using k by (simp add: word_le_nat_alt u RAM_END)
  show "page_aligned (?n + 4096)"
    using k by (simp add: page_aligned_iff_dvd u)
qed

text \<open>Popping the free list, and advancing the bump pointer.\<close>

lemma frames_inv_pop:
  assumes "frames_inv (p # ps) s"
  shows "frames_inv ps (set_ref p 1 (s\<lparr>FREE_LIST_HEAD := read_u64 (mem s) p\<rparr>))"
proof -
  have "frame_ok p" "p < NEXT_FRAME s" and "p \<notin> set ps"
    using frames_inv_dest [OF assms] by auto
  moreover have "frame_ref (set_ref p 1 s) q = frame_ref s q" if "frame_ok q" "p \<noteq> q" for q
    using that \<open>frame_ok p\<close> by (simp add: frame_ref_set_ref)
  ultimately show ?thesis
    using assms by (auto simp: frames_inv_def frame_ref_set_ref)
qed

lemma frames_inv_bump:
  assumes "frames_inv fl s" and "\<not> RAM_BASE + RAM_SIZE \<le> NEXT_FRAME s"
  shows "frames_inv fl (set_ref (NEXT_FRAME s) 1 (s\<lparr>NEXT_FRAME := NEXT_FRAME s + 4096\<rparr>))"
proof -
  note n = frame_ok_next [OF assms]
  have lt: "NEXT_FRAME s < NEXT_FRAME s + 4096"
    by (simp add: word_less_nat_alt n(5))
  have "NEXT_FRAME s \<notin> set fl"
    using frames_inv_dest(4) [OF assms(1)] by auto
  then show ?thesis
    using assms(1) n lt frames_inv_dest(3,4) [OF assms(1)] unfolding frames_inv_def
    by (auto simp: frame_ref_set_ref dest: less_trans order.strict_trans2)
qed

text \<open>What \<open>alloc_frame\<close> computes under the invariant, branch by branch.\<close>

definition alloc_result :: "usize list \<Rightarrow> 'a frames_scheme \<Rightarrow> PhysAddr option \<times> 'a frames_scheme" where
  "alloc_result fl s = (case fl of
       p # ps \<Rightarrow> (Some p, set_ref p 1 (s\<lparr>FREE_LIST_HEAD := read_u64 (mem s) p\<rparr>))
     | [] \<Rightarrow> if RAM_BASE + RAM_SIZE \<le> NEXT_FRAME s then (None, s)
            else (Some (NEXT_FRAME s), set_ref (NEXT_FRAME s) 1 (s\<lparr>NEXT_FRAME := NEXT_FRAME s + 4096\<rparr>)))"

lemma wp_alloc_frame:
  assumes "frames_inv fl s"
  shows "wp alloc_frame Q R s = Q (fst (alloc_result fl s)) (snd (alloc_result fl s))"
proof (cases fl)
  case Nil
  have "FREE_LIST_HEAD s = 0"
    using frames_inv_dest(1) [OF assms] Nil by simp
  then show ?thesis
    using frame_ok_next [OF assms] Nil
    by (auto simp: alloc_frame_def wp_simps wp_frame_ops alloc_result_def frame_ok_def)
next
  case (Cons p ps)
  have "FREE_LIST_HEAD s = p" "p \<noteq> 0" "is_managed p"
    using frames_inv_dest(1,3) [OF assms] Cons by (auto simp: frame_ok_def)
  then show ?thesis
    by (simp add: alloc_frame_def wp_simps wp_frame_ops alloc_result_def Cons)
qed

lemma alloc_result_spec:
  assumes inv: "frames_inv fl s" and res: "alloc_result fl s = (r, s')"
  shows "frames_inv (tl fl) s'" and "mem s' = mem s"
    and "r = None \<Longrightarrow> s' = s \<and> fl = [] \<and> RAM_BASE + RAM_SIZE \<le> NEXT_FRAME s"
    and "r = Some p \<Longrightarrow> frame_ok p \<and> \<not> live s p \<and> frame_ref s' p = 1"
    and "r = Some p \<Longrightarrow> frame_ok q \<Longrightarrow> q \<noteq> p \<Longrightarrow> frame_ref s' q = frame_ref s q"
proof -
  show "frames_inv (tl fl) s'"
    using res frames_inv_pop frames_inv_bump inv
    by (auto simp: alloc_result_def split: list.splits if_splits)
  show "mem s' = mem s"
    using res by (auto simp: alloc_result_def split: list.splits if_splits)
  show "r = None \<Longrightarrow> s' = s \<and> fl = [] \<and> RAM_BASE + RAM_SIZE \<le> NEXT_FRAME s"
    using res by (auto simp: alloc_result_def split: list.splits if_splits)
  show "frame_ok p \<and> \<not> live s p \<and> frame_ref s' p = 1" if "r = Some p"
    using res that frames_inv_dest(3,5,9) [OF inv] frame_ok_next(1) [OF inv]
    by (auto simp: alloc_result_def live_def frame_ref_set_ref split: list.splits if_splits)
  show "frame_ref s' q = frame_ref s q" if "r = Some p" "frame_ok q" "q \<noteq> p"
    using res that frames_inv_dest(3) [OF inv] frame_ok_next(1) [OF inv]
    by (auto simp: alloc_result_def frame_ref_set_ref split: list.splits if_splits)
qed

lemma frames_inv_push:
  assumes inv: "frames_inv fl s" and lv: "live s p"
  shows "frames_inv (p # fl)
    (set_ref p 0 (s\<lparr>mem := write_u64 (mem s) p (FREE_LIST_HEAD s), FREE_LIST_HEAD := p\<rparr>))"
proof -
  have p: "frame_ok p" "p < NEXT_FRAME s" "p \<notin> set fl" "p \<noteq> 0"
    using live_below_next [OF inv lv] lv by (auto simp: live_def dest: frame_ok_nonzero)
  have "chain (read_u64 (write_u64 (mem s) p (FREE_LIST_HEAD s))) p (p # fl)"
    using frames_inv_dest(1,3) [OF inv] p by (intro ram.chain_push) (auto dest: frame_ok_aligned)
  then show ?thesis
    using inv p unfolding frames_inv_def by (auto simp: frame_ref_set_ref)
qed

text \<open>Dropping a reference frees the frame exactly when it was the last one.\<close>

definition dec_ref_result :: "PhysAddr \<Rightarrow> 'a frames_scheme \<Rightarrow> 'a frames_scheme" where
  "dec_ref_result p s = (if frame_ref s p = 1
     then set_ref p 0 (s\<lparr>mem := write_u64 (mem s) p (FREE_LIST_HEAD s), FREE_LIST_HEAD := p\<rparr>)
     else set_ref p (frame_ref s p - 1) s)"

lemma wp_dec_ref:
  assumes "live s p"
  shows "wp (dec_ref p) Q R s = Q (frame_ref s p - 1) (dec_ref_result p s)"
proof -
  have m: "is_managed p" and "frame_ref s p \<noteq> 0"
    using assms by (auto simp: live_def frame_ok_def)
  then have "\<not> frame_ref s p < 1" by simp
  moreover have "set_ref p 0 (set_ref p v s\<lparr>mem := m, FREE_LIST_HEAD := h\<rparr>)
      = set_ref p 0 (s\<lparr>mem := m, FREE_LIST_HEAD := h\<rparr>)" for v m h
    by (simp add: set_ref_def)
  ultimately show ?thesis
    using m by (simp add: dec_ref_def wp_simps wp_frame_ops wp_free_frame dec_ref_result_def)
qed

lemma dec_ref_result_spec:
  assumes inv: "frames_inv fl s" and lv: "live s p"
  shows "frames_inv (if frame_ref s p = 1 then p # fl else fl) (dec_ref_result p s)"
    and "frame_ok q \<Longrightarrow> frame_ref (dec_ref_result p s) q = (if q = p then frame_ref s p - 1 else frame_ref s q)"
    and "page_of x \<noteq> p \<Longrightarrow> mem (dec_ref_result p s) x = mem s x"
proof -
  have ok: "frame_ok p" "frame_ref s p \<noteq> 0" using lv by (auto simp: live_def)
  show "frames_inv (if frame_ref s p = 1 then p # fl else fl) (dec_ref_result p s)"
  proof (cases "frame_ref s p = 1")
    case True
    then show ?thesis using frames_inv_push [OF inv lv] by (simp add: dec_ref_result_def)
  next
    case False
    then show ?thesis
      using inv ok live_below_next [OF inv lv] unfolding dec_ref_result_def frames_inv_def
      by (auto simp: frame_ref_set_ref)
  qed
  show "frame_ok q \<Longrightarrow> frame_ref (dec_ref_result p s) q = (if q = p then frame_ref s p - 1 else frame_ref s q)"
    using ok by (auto simp: dec_ref_result_def frame_ref_set_ref)
  show "page_of x \<noteq> p \<Longrightarrow> mem (dec_ref_result p s) x = mem s x"
    using ok by (simp add: dec_ref_result_def write_u64_outside frame_ok_aligned page_of_id)
qed

section \<open>The contract for clients\<close>

text \<open>
  What a client that asks for frames may rely on, whatever the allocator: an allocation
  never leaves the routine, a frame it returns was not live before and is the only frame that
  becomes live, memory is not written, and stores confined to live frames keep the
  allocator's invariant.
\<close>

locale frame_source =
  fixes frame_alloc :: "('a hart_scheme, PhysAddr option) kernel"
    and ok :: "'a hart_scheme \<Rightarrow> bool"
    and lives :: "'a hart_scheme \<Rightarrow> PhysAddr \<Rightarrow> bool"
  assumes alloc: "ok s \<Longrightarrow> wp frame_alloc (\<lambda>r s'. ok s' \<and> mem s' = mem s \<and>
        (case r of None \<Rightarrow> lives s' = lives s
         | Some p \<Rightarrow> \<not> lives s p \<and> lives s' = (lives s)(p := True))) (\<lambda>_ _. False) s"
    and lives_frame: "ok s \<Longrightarrow> lives s p \<Longrightarrow> page_aligned p \<and> p \<noteq> 0 \<and> unat p < 2 ^ 56"
    and write_live: "ok s \<Longrightarrow> (\<And>x. \<not> lives s (page_of x) \<Longrightarrow> m x = mem s x) \<Longrightarrow>
        ok (s\<lparr>mem := m\<rparr>) \<and> lives (s\<lparr>mem := m\<rparr>) = lives s"

definition frames_ok :: "'a frames_scheme \<Rightarrow> bool" where
  "frames_ok s \<longleftrightarrow> (\<exists>fl. frames_inv fl s)"

interpretation kframes: frame_source alloc_frame frames_ok live
proof
  fix s :: "'a frames_scheme"
  assume "frames_ok s"
  then obtain fl where inv: "frames_inv fl s" by (auto simp: frames_ok_def)
  obtain r s' where res: "alloc_result fl s = (r, s')" by force
  note sp = alloc_result_spec [OF inv res]
  have "live s' = (live s)(p := True)" if "r = Some p" for p
    using sp(4,5) [OF that] by (auto simp: live_def fun_eq_iff)
  then show "wp alloc_frame (\<lambda>r s'. frames_ok s' \<and> mem s' = mem s \<and>
        (case r of None \<Rightarrow> live s' = live s
         | Some p \<Rightarrow> \<not> live s p \<and> live s' = (live s)(p := True))) (\<lambda>_ _. False) s"
    using sp by (auto simp: wp_alloc_frame [OF inv] res frames_ok_def split: option.splits)
next
  fix s :: "'a frames_scheme" and p
  assume "live s p"
  then show "page_aligned p \<and> p \<noteq> 0 \<and> unat p < 2 ^ 56"
    using frame_ok_nonzero by (auto simp: live_def frame_ok_def is_managed_unat)
next
  fix s :: "'a frames_scheme" and m
  assume "frames_ok s" and same: "\<And>x. \<not> live s (page_of x) \<Longrightarrow> m x = mem s x"
  then obtain fl where "frames_inv fl s" by (auto simp: frames_ok_def)
  then have "frames_inv fl (s\<lparr>mem := m\<rparr>)" by (rule frames_inv_mem) (rule same)
  then show "frames_ok (s\<lparr>mem := m\<rparr>) \<and> live (s\<lparr>mem := m\<rparr>) = live s"
    by (auto simp: frames_ok_def live_def fun_eq_iff)
qed

text \<open>The same with the counts of the frames that were live at some earlier point: no allocation changes
  them.\<close>

definition refs_ok :: "'a frames_scheme \<Rightarrow> 'a frames_scheme \<Rightarrow> bool" where
  "refs_ok s0 s \<longleftrightarrow> frames_ok s \<and> (\<forall>p. live s0 p \<longrightarrow> frame_ref s p = frame_ref s0 p)"

lemma refs_ok_refl: "frames_ok s \<Longrightarrow> refs_ok s s"
  by (simp add: refs_ok_def)

lemma refs_ok_live: "refs_ok s0 s \<Longrightarrow> live s0 p \<Longrightarrow> live s p"
  by (simp add: refs_ok_def live_def)

interpretation kref: frame_source alloc_frame "refs_ok s0" live for s0
proof
  fix s :: "'a frames_scheme"
  assume ok: "refs_ok s0 s"
  then obtain fl where inv: "frames_inv fl s" by (auto simp: refs_ok_def frames_ok_def)
  obtain r s' where res: "alloc_result fl s = (r, s')" by force
  note sp = alloc_result_spec [OF inv res]
  have "frame_ref s' q = frame_ref s0 q" if "live s0 q" for q
  proof (cases r)
    case (Some p)
    then have "q \<noteq> p" using sp(4) [OF Some] refs_ok_live [OF ok that] by auto
    then show ?thesis using sp(5) [OF Some live_frame_ok [OF that]] ok that by (simp add: refs_ok_def)
  qed (use sp(3) ok that in \<open>simp add: refs_ok_def\<close>)
  moreover have "frames_ok s" using ok by (simp add: refs_ok_def)
  ultimately show "wp alloc_frame (\<lambda>r s'. refs_ok s0 s' \<and> mem s' = mem s \<and>
        (case r of None \<Rightarrow> live s' = live s
         | Some p \<Rightarrow> \<not> live s p \<and> live s' = (live s)(p := True))) (\<lambda>_ _. False) s"
    using kframes.alloc [of s] res by (simp add: wp_alloc_frame [OF inv] refs_ok_def)
next
  fix s :: "'a frames_scheme" and p
  assume "refs_ok s0 s" and "live s p"
  then show "page_aligned p \<and> p \<noteq> 0 \<and> unat p < 2 ^ 56"
    by (intro kframes.lives_frame) (simp_all add: refs_ok_def)
next
  fix s :: "'a frames_scheme" and m
  assume "refs_ok s0 s" and "\<And>x. \<not> live s (page_of x) \<Longrightarrow> m x = mem s x"
  then show "refs_ok s0 (s\<lparr>mem := m\<rparr>) \<and> live (s\<lparr>mem := m\<rparr>) = live s"
    using kframes.write_live [of s m] by (simp add: refs_ok_def)
qed

text \<open>A source that also promises a number of allocations: \<open>has n s\<close> says that the next \<open>n\<close>
  requests will be served.\<close>

locale counted_frame_source = frame_source +
  fixes has :: "nat \<Rightarrow> 'a hart_scheme \<Rightarrow> bool"
  assumes has_ok: "has n s \<Longrightarrow> ok s"
    and has_alloc: "has (Suc n) s \<Longrightarrow> wp frame_alloc (\<lambda>r s'. r \<noteq> None \<and> has n s') (\<lambda>_ _. False) s"
    and has_write: "has n s \<Longrightarrow> (\<And>x. \<not> lives s (page_of x) \<Longrightarrow> m x = mem s x) \<Longrightarrow> has n (s\<lparr>mem := m\<rparr>)"
    and has_weaken: "has n s \<Longrightarrow> k \<le> n \<Longrightarrow> has k s"

text \<open>The frames left: those on the free list and those the bump pointer has not reached.\<close>

definition frames_has :: "nat \<Rightarrow> 'a frames_scheme \<Rightarrow> bool" where
  "frames_has n s \<longleftrightarrow> (\<exists>fl. frames_inv fl s \<and>
     4096 * n + unat (NEXT_FRAME s) \<le> 4096 * length fl + 0x88000000)"

interpretation kcount: counted_frame_source alloc_frame frames_ok live frames_has
proof
  fix n and s :: "'a frames_scheme"
  assume "frames_has n s"
  then show "frames_ok s" by (auto simp: frames_has_def frames_ok_def)
next
  fix n and s :: "'a frames_scheme"
  assume "frames_has (Suc n) s"
  then obtain fl where inv: "frames_inv fl s"
    and left: "4096 * Suc n + unat (NEXT_FRAME s) \<le> 4096 * length fl + 0x88000000"
    by (auto simp: frames_has_def)
  obtain r s' where res: "alloc_result fl s = (r, s')" by force
  have "r \<noteq> None"
    using alloc_result_spec(3) [OF inv res] left by (cases r) (auto simp: word_le_nat_alt RAM_END)
  moreover have "4096 * n + unat (NEXT_FRAME s') \<le> 4096 * length (tl fl) + 0x88000000"
    using res left frame_ok_next(5) [OF inv]
    by (auto simp: alloc_result_def split: list.splits if_splits)
  ultimately show "wp alloc_frame (\<lambda>r s'. r \<noteq> None \<and> frames_has n s') (\<lambda>_ _. False) s"
    using alloc_result_spec(1) [OF inv res] by (auto simp: wp_alloc_frame [OF inv] res frames_has_def)
next
  fix n m and s :: "'a frames_scheme"
  assume "frames_has n s" and same: "\<And>x. \<not> live s (page_of x) \<Longrightarrow> m x = mem s x"
  then show "frames_has n (s\<lparr>mem := m\<rparr>)"
    using frames_inv_mem [OF _ same] by (auto simp: frames_has_def)
next
  fix n k and s :: "'a frames_scheme"
  assume "frames_has n s" and "k \<le> n"
  then show "frames_has k s" by (fastforce simp: frames_has_def)
qed

text \<open>The part of the state that allocation and page tables leave alone, even when they panic; the
  console is not part of it, since a panic prints there first.\<close>

locale state_frame =
  fixes frame_alloc :: "('a hart_scheme, PhysAddr option) kernel"
    and rest :: "'a hart_scheme \<Rightarrow> 'r"
  assumes alloc_rest: "keeps rest frame_alloc"
    and mem_rest: "rest (s\<lparr>mem := m\<rparr>) = rest s"
begin

lemma memory_rest:
  "keeps rest (load64 a)" "keeps rest (store64 a v)" "keeps rest (fill_bytes a b n)" "keeps rest (copy_bytes a a' n)"
  by (auto simp: load64_def store64_def fill_bytes_def copy_bytes_def mem_rest intro!: keeps_intros)

end

definition above_frames :: "'a frames_scheme \<Rightarrow>
    ((usize \<times> usize \<times> usize \<times> usize) list \<times> (usize \<times> usize) \<times> usize list \<times> bool) \<times> 'a" where
  "above_frames s = ((sbi_log s, sbi_ret s,
     [csr_time s, csr_satp s, csr_sstatus s, csr_sscratch s, csr_stvec s, csr_sie s], svpbmt s), frames.more s)"

lemma above_frames_simps [simp]:
  "above_frames (s\<lparr>mem := m\<rparr>) = above_frames s" "above_frames (s\<lparr>NEXT_FRAME := n\<rparr>) = above_frames s"
  "above_frames (s\<lparr>FRAME_REFS := f\<rparr>) = above_frames s" "above_frames (s\<lparr>FREE_LIST_HEAD := h\<rparr>) = above_frames s"
  "above_frames (s\<lparr>uart_in := i\<rparr>) = above_frames s" "above_frames (s\<lparr>uart_out := out\<rparr>) = above_frames s"
  by (simp_all add: above_frames_def)

lemma above_frames_results [simp]:
  "above_frames (set_ref p v s) = above_frames s" "above_frames (snd (alloc_result fl s)) = above_frames s"
  "above_frames (dec_ref_result p s) = above_frames s"
  by (simp_all add: set_ref_def alloc_result_def dec_ref_result_def split: list.splits)

lemma uart_only_above: "uart_only s s' \<Longrightarrow> above_frames s' = above_frames s"
  unfolding uart_only_def by (metis above_frames_simps(5,6))

text \<open>Together with the offset of the bump pointer in its page, which no allocation moves.\<close>

definition above_next :: "'a frames_scheme \<Rightarrow>
    (((usize \<times> usize \<times> usize \<times> usize) list \<times> (usize \<times> usize) \<times> usize list \<times> bool) \<times> 'a) \<times> nat" where
  "above_next s = (above_frames s, unat (NEXT_FRAME s) mod 4096)"

lemma above_next_simps [simp]:
  "above_next (s\<lparr>mem := m\<rparr>) = above_next s" "above_next (s\<lparr>FRAME_REFS := f\<rparr>) = above_next s"
  "above_next (s\<lparr>FREE_LIST_HEAD := h\<rparr>) = above_next s" "above_next (set_ref p v s) = above_next s"
  "above_next (s\<lparr>uart_in := i\<rparr>) = above_next s" "above_next (s\<lparr>uart_out := out\<rparr>) = above_next s"
  by (simp_all add: above_next_def set_ref_def)

lemma uart_only_next: "uart_only s s' \<Longrightarrow> above_next s' = above_next s"
  unfolding uart_only_def by (metis above_next_simps(5,6))

lemma emits_keeps: "emits m bs \<Longrightarrow> keeps above_next m"
  by (rule keepsI, rule wp_mono [OF emits_uart_only]) (auto dest: uart_only_next)

lemmas keeps_console [keeps_intros] =
  emits_keeps [OF emits_puts] emits_keeps [OF emits_print_hex] emits_keeps [OF emits_putchar]

lemma keeps_frame_index [keeps_intros]: "keeps above_next (frame_index p)"
  unfolding frame_index_def by (intro keeps_intros) simp

lemma keeps_refs [keeps_intros]: "keeps above_next (refs_load i)" "keeps above_next (refs_store i v)"
  unfolding refs_load_def refs_store_def by (auto intro!: keeps_intros)

interpretation knext: state_frame alloc_frame above_next
proof
  have step: "above_next (s\<lparr>NEXT_FRAME := p'\<rparr>) = above_next s" if "p' = NEXT_FRAME s + 4096" for p' and s :: "'a frames_scheme"
  proof -
    have "unat (NEXT_FRAME s + 4096) mod 4096 = unat (NEXT_FRAME s) mod 4096"
      by (simp add: unat_word_ariths mod_mod_cancel)
    with that show ?thesis by (simp add: above_next_def)
  qed
  show "keeps above_next (alloc_frame :: ('a frames_scheme, PhysAddr option) kernel)"
  proof (rule keepsI)
    fix s :: "'a frames_scheme"
    have k: "wp (kbind (frame_index p) (\<lambda>idx. kseq (refs_store idx 1) (ret r)))
        (\<lambda>_ s'. above_next s' = above_next s) (\<lambda>e s'. above_next s' = above_next s \<and> stuck e) t"
      if "above_next t = above_next s" for p r t
      by (rule wp_mono [OF keeps_wp [where rest = above_next]]) (auto simp: that intro!: keeps_intros)
    show "wp alloc_frame (\<lambda>_ s'. above_next s' = above_next s) (\<lambda>e s'. above_next s' = above_next s \<and> stuck e) s"
      unfolding alloc_frame_def by (auto simp: wp_kbind [of "gets _"] wp_gets wp_kbind [of "load64 _"] wp_load64
        wp_kseq [of "modify _"] wp_modify wp_kbind [of "uadd _ _"] wp_uadd wp_ret step intro!: k)
  qed
qed simp

declare knext.alloc_rest [keeps_intros] and knext.memory_rest [keeps_intros]

interpretation kabove: state_frame alloc_frame above_frames
  by unfold_locales (auto simp: above_next_def intro: keeps_weaken [OF knext.alloc_rest])

lemma keeps_counts [keeps_intros]:
  "keeps above_next (inc_ref p)" "keeps above_next (free_frame p)" "keeps above_next (dec_ref p)" "keeps above_next (get_ref p)"
  unfolding inc_ref_def free_frame_def dec_ref_def get_ref_def by (auto intro!: keeps_intros)

section \<open>Contiguous allocation\<close>

lemma contiguous_frame:
  assumes "frames_inv fl s" and "unat (NEXT_FRAME s) + n * 4096 \<le> 0x88000000" and "i < n"
  shows "unat (NEXT_FRAME s + of_nat i * 4096) = unat (NEXT_FRAME s) + i * 4096"
    and "frame_ok (NEXT_FRAME s + of_nat i * 4096)"
proof -
  have b: "unat (NEXT_FRAME s) + i * 4096 < 0x88000000"
    using assms(2,3) by simp
  have "i < 2 ^ 64" using b by simp
  then have i: "unat (of_nat i :: usize) = i" by (simp add: unat_of_nat take_bit_eq_mod)
  show u: "unat (NEXT_FRAME s + of_nat i * 4096) = unat (NEXT_FRAME s) + i * 4096"
    using b i by (simp add: unat_word_ariths)
  have "4096 dvd unat (NEXT_FRAME s)" and "0x80000000 \<le> unat (NEXT_FRAME s)"
    using frames_inv_dest(6,7) [OF assms(1)]
    by (simp_all add: page_aligned_iff_dvd word_le_nat_alt RAM_BASE_def)
  then show "frame_ok (NEXT_FRAME s + of_nat i * 4096)"
    using b by (simp add: frame_ok_def is_managed_unat page_aligned_iff_dvd u)
qed

definition contiguous_ref :: "usize \<Rightarrow> nat set \<Rightarrow> 'a frames_scheme \<Rightarrow> PhysAddr \<Rightarrow> u32" where
  "contiguous_ref start done s q = (if \<exists>i \<in> done. q = start + of_nat i * 4096 then 1 else frame_ref s q)"

lemma contiguous_loop:
  fixes s :: "'a frames_scheme"
  assumes inv: "frames_inv fl s" and fits: "unat (NEXT_FRAME s) + n * 4096 \<le> 0x88000000"
    and t0: "t0 = s\<lparr>NEXT_FRAME := fin\<rparr>"
  shows "wp (for_each [0..<n] (\<lambda>i.
               kbind (umul (of_nat i) 4096) (\<lambda>off.
               kbind (uadd (NEXT_FRAME s) off) (\<lambda>pa.
               kbind (frame_index pa) (\<lambda>idx.
               refs_store idx 1)))))
     (\<lambda>_ t. (\<exists>r. t = t0\<lparr>FRAME_REFS := r\<rparr>) \<and>
            (\<forall>q. frame_ok q \<longrightarrow> frame_ref t q = contiguous_ref (NEXT_FRAME s) {..<n} s q)) (\<lambda>_ _. False) t0"
proof -
  let ?I = "\<lambda>k t. (\<exists>r. t = t0\<lparr>FRAME_REFS := r\<rparr>) \<and>
      (\<forall>q. frame_ok q \<longrightarrow> frame_ref t q = contiguous_ref (NEXT_FRAME s) {..<k} s q)"
  show ?thesis
  proof (rule wp_for_upt [where I = ?I])
    show "?I 0 t0"
      by (auto simp: t0 contiguous_ref_def intro: exI [of _ "FRAME_REFS s"])
    fix i t
    assume i: "i < n" and I: "?I i t"
    note c = contiguous_frame [OF inv fits i]
    let ?p = "NEXT_FRAME s + of_nat i * 4096"
    have "unat (of_nat i :: usize) = i"
      using i fits by (simp add: unat_of_nat take_bit_eq_mod)
    then have nov: "\<not> 2 ^ LENGTH(64) \<le> unat (of_nat i :: usize) * unat (4096 :: usize)"
      "\<not> add_overflows (NEXT_FRAME s) (of_nat i * 4096)"
      using i fits c(1) by (auto simp: add_overflows_def unat_word_ariths)
    have "frame_ref (set_ref ?p 1 t) q = contiguous_ref (NEXT_FRAME s) {..<Suc i} s q"
      if "frame_ok q" for q
      using that c(2) I by (auto simp: frame_ref_set_ref contiguous_ref_def lessThan_Suc)
    then have "?I (Suc i) (set_ref ?p 1 t)"
      using I by (auto simp: set_ref_def)
    then show "wp (kbind (umul (of_nat i) 4096) (\<lambda>off. kbind (uadd (NEXT_FRAME s) off) (\<lambda>pa.
        kbind (frame_index pa) (\<lambda>idx. refs_store idx 1)))) (\<lambda>_. ?I (Suc i)) (\<lambda>_ _. False) t"
      using nov c(2) by (simp add: wp_simps wp_frame_ops frame_ok_def)
  qed simp
qed

lemma frames_inv_contiguous:
  assumes inv: "frames_inv fl s" and fits: "unat (NEXT_FRAME s) + n * 4096 \<le> 0x88000000"
    and fin: "unat fin = unat (NEXT_FRAME s) + n * 4096"
    and t: "t = s\<lparr>NEXT_FRAME := fin, FRAME_REFS := r\<rparr>"
    and refs: "\<And>q. frame_ok q \<Longrightarrow> frame_ref t q = contiguous_ref (NEXT_FRAME s) {..<n} s q"
  shows "frames_inv fl t"
proof -
  have new: "unat q < unat fin \<and> NEXT_FRAME s \<le> q"
    if "\<exists>i \<in> {..<n}. q = NEXT_FRAME s + of_nat i * 4096" for q
    using that contiguous_frame(1) [OF inv fits] fin by (auto simp: word_le_nat_alt)
  have old: "frame_ref t q = frame_ref s q" if "frame_ok q" "q < NEXT_FRAME s \<or> fin \<le> q" for q
  proof -
    have "\<not> (\<exists>i \<in> {..<n}. q = NEXT_FRAME s + of_nat i * 4096)"
      using new [of q] that(2) by (metis word_le_nat_alt word_less_nat_alt not_le)
    then show ?thesis by (simp only: refs [OF that(1)] contiguous_ref_def if_False)
  qed
  have le: "NEXT_FRAME s \<le> fin" by (simp add: word_le_nat_alt fin)
  have al: "page_aligned fin"
    using frames_inv_dest(6) [OF inv] by (simp add: page_aligned_iff_dvd fin)
  have hi: "fin \<le> RAM_BASE + RAM_SIZE"
    using fits fin by (simp add: word_le_nat_alt RAM_END)
  show ?thesis
    unfolding frames_inv_def
  proof (intro conjI ballI allI impI)
    fix p assume p: "p \<in> set fl"
    note d = frames_inv_dest(3,4,5) [OF inv p]
    show "frame_ok p" by (rule d(1))
    show "p < NEXT_FRAME t" using d(2) le by (simp add: t)
    show "frame_ref t p = 0" using old [of p] d by simp
  next
    fix p assume "frame_ok p \<and> NEXT_FRAME t \<le> p"
    then show "frame_ref t p = 0"
      using old [of p] frames_inv_dest(9) [OF inv, of p] le by (auto simp: t)
  qed (use frames_inv_dest(1,2,7) [OF inv] le al hi in \<open>auto simp: t\<close>)
qed

lemma wp_alloc_contiguous:
  assumes inv: "frames_inv fl s" and pages: "0 < unat pages" "unat pages \<le> 0x8000"
  shows "wp (alloc_contiguous_frames pages) (\<lambda>r t.
      if 0x88000000 < unat (NEXT_FRAME s) + unat pages * 4096 then r = None \<and> t = s
      else r = Some (NEXT_FRAME s) \<and> frames_inv fl t \<and> mem t = mem s \<and>
        unat (NEXT_FRAME t) = unat (NEXT_FRAME s) + unat pages * 4096 \<and>
        (\<forall>q. frame_ok q \<longrightarrow> frame_ref t q = contiguous_ref (NEXT_FRAME s) {..<unat pages} s q))
    (\<lambda>_ _. False) s"
proof -
  let ?n = "NEXT_FRAME s"
  have b: "unat (pages * 4096) = unat pages * 4096"
    using pages by (simp add: unat_word_ariths)
  have mul: "checked_mul pages 4096 = Some (pages * 4096)"
    using pages by (simp add: checked_mul_def)
  have nn: "unat ?n \<le> 0x88000000"
    using frames_inv_dest(8) [OF inv] by (simp add: word_le_nat_alt RAM_END)
  then have add: "checked_add ?n (pages * 4096) = Some (?n + pages * 4096)"
    using pages by (simp add: checked_add_Some_iff b)
  then have u: "unat (?n + pages * 4096) = unat ?n + unat pages * 4096"
    using checked_add_unat b by simp
  have guard: "RAM_BASE + RAM_SIZE < ?n + pages * 4096 \<longleftrightarrow> 0x88000000 < unat ?n + unat pages * 4096"
    by (simp add: word_less_nat_alt RAM_END u)
  have loop: "wp (for_each [0..<unat pages] (\<lambda>i. kbind (umul (of_nat i) 4096) (\<lambda>off.
      kbind (uadd ?n off) (\<lambda>pa. kbind (frame_index pa) (\<lambda>idx. refs_store idx 1)))))
     (\<lambda>_ t. frames_inv fl t \<and> mem t = mem s \<and> unat (NEXT_FRAME t) = unat ?n + unat pages * 4096 \<and>
        (\<forall>q. frame_ok q \<longrightarrow> frame_ref t q = contiguous_ref ?n {..<unat pages} s q)) (\<lambda>_ _. False)
     (s\<lparr>NEXT_FRAME := ?n + pages * 4096\<rparr>)"
    if "\<not> 0x88000000 < unat ?n + unat pages * 4096"
    by (rule wp_mono [OF contiguous_loop [OF inv _ refl]])
      (use that frames_inv_contiguous [OF inv _ u refl] u in \<open>auto simp: not_less\<close>)
  have p0: "pages \<noteq> 0" using pages by auto
  show ?thesis
  proof (cases "0x88000000 < unat ?n + unat pages * 4096")
    case True
    then show ?thesis
      by (simp add: alloc_contiguous_frames_def wp_simps mul add guard p0)
  next
    case False
    show ?thesis
      using wp_mono [OF loop [OF False]] False
      by (simp add: alloc_contiguous_frames_def wp_simps mul add guard p0)
  qed
qed

text \<open>Without any assumption: what a contiguous allocation returns and leaves alone.\<close>

lemma alloc_contiguous_next:
  fixes s :: "'a frames_scheme"
  shows "wp (alloc_contiguous_frames pages) (\<lambda>r t. above_next t = above_next s \<and> (\<forall>p. r = Some p \<longrightarrow> p = NEXT_FRAME s))
     (\<lambda>e t. above_next t = above_next s \<and> stuck e) s"
proof -
  let ?loop = "for_each [0..<unat pages] (\<lambda>i. kbind (umul (of_nat i) 4096) (\<lambda>off. kbind (uadd (NEXT_FRAME s) off) (\<lambda>pa.
      kbind (frame_index pa) (\<lambda>idx. refs_store idx 1)))) :: ('a frames_scheme, unit) kernel"
  have fin: "above_next (s\<lparr>NEXT_FRAME := f\<rparr>) = above_next s"
    if "checked_mul pages 4096 = Some b" "checked_add (NEXT_FRAME s) b = Some f" for b f
    using checked_mul_unat [OF that(1)] checked_add_unat [OF that(2)] by (simp add: above_next_def)
  have "keeps above_next ?loop" by (intro keeps_intros)
  then have "wp ?loop (\<lambda>_ t. above_next t = above_next s) (\<lambda>e t. above_next t = above_next s \<and> stuck e) (s\<lparr>NEXT_FRAME := f\<rparr>)"
    if "checked_mul pages 4096 = Some b" "checked_add (NEXT_FRAME s) b = Some f" for b f
    using keeps_wp [of above_next ?loop "s\<lparr>NEXT_FRAME := f\<rparr>"] fin [OF that] by simp
  then show ?thesis
    by (auto simp: alloc_contiguous_frames_def wp_simps wp_fun split: option.splits)
qed

section \<open>Properties of the allocator\<close>

text \<open>A concrete allocator state for the witnesses: all memory zero, nothing allocated, the
  bump pointer just above a kernel image of one megabyte.\<close>

definition frames0 :: frames where
  "frames0 = \<lparr>mem = (\<lambda>_. 0), uart_in = (\<lambda>_. []), uart_out = [], sbi_log = [], sbi_ret = (0, 0),
     csr_time = 0, csr_satp = 0, csr_sstatus = 0, csr_sscratch = 0, csr_stvec = 0, csr_sie = 0, svpbmt = True,
     NEXT_FRAME = 0x80300000, FRAME_REFS = (\<lambda>_. 0), FREE_LIST_HEAD = 0\<rparr>"

definition frames1 :: frames where
  "frames1 = snd (alloc_result [] frames0)"

lemma frames0_inv: "frames_inv [] frames0"
  by (simp add: frames_inv_def frames0_def frame_ref_def page_aligned_def RAM_END) (simp add: RAM_BASE_def)

lemma frames1_inv: "frames_inv [] frames1"
  using alloc_result_spec(1) [OF frames0_inv, of "fst (alloc_result [] frames0)" frames1]
  by (simp add: frames1_def)

lemma frames1_live: "live frames1 0x80300000"
  and frames1_ref: "frame_ref frames1 0x80300000 = 1"
  by (simp_all add: frames1_def alloc_result_def live_def frame_ok_def is_managed_unat page_aligned_def
      frame_ref_def set_ref_def frames0_def RAM_END)

text \<open>C14. \<open>alloc_frame\<close> never panics on a well-formed allocator. It returns \<open>None\<close> only when
  the free list is empty and the bump pointer has reached the end of RAM, leaving the state as
  it was. Otherwise it returns a page-aligned frame of RAM that nobody held, with reference
  count one; no other count, and no byte of memory, changes, and the free list is well formed.\<close>

theorem alloc_frame_fresh:
  assumes "frames_inv fl s"
  shows "\<exists>r s'. alloc_frame s = (Val r, s') \<and> frames_inv (tl fl) s' \<and> mem s' = mem s \<and>
    (case r of
       None \<Rightarrow> s' = s \<and> fl = [] \<and> RAM_BASE + RAM_SIZE \<le> NEXT_FRAME s
     | Some p \<Rightarrow> frame_ok p \<and> \<not> live s p \<and> frame_ref s' p = 1 \<and>
         (\<forall>q. frame_ok q \<and> q \<noteq> p \<longrightarrow> frame_ref s' q = frame_ref s q))"
proof -
  obtain r s' where res: "alloc_result fl s = (r, s')" by force
  show ?thesis
    by (rule wp_returns)
      (use alloc_result_spec [OF assms res] in \<open>auto simp: wp_alloc_frame [OF assms] res split: option.splits\<close>)
qed

theorem alloc_frame_fresh_witness:
  "\<exists>r s'. alloc_frame frames0 = (Val r, s') \<and> frames_inv [] s'"
  using alloc_frame_fresh [OF frames0_inv] by auto

text \<open>Freeing a live frame pushes it on the free list, and the next allocation returns that
  very frame, leaving the free list as it was before.\<close>

lemma free_alloc_roundtrip:
  assumes "frames_inv fl s" and "live s p"
  shows "\<exists>s1 s2. free_frame p s = (Val (), s1) \<and> frames_inv (p # fl) s1 \<and> \<not> live s1 p \<and>
    alloc_frame s1 = (Val (Some p), s2) \<and> frames_inv fl s2 \<and> frame_ref s2 p = 1"
proof -
  define s1 where "s1 = set_ref p 0 (s\<lparr>mem := write_u64 (mem s) p (FREE_LIST_HEAD s), FREE_LIST_HEAD := p\<rparr>)"
  have p: "frame_ok p" "is_managed p" using assms(2) by (auto simp: live_def frame_ok_def)
  have free: "free_frame p s = (Val (), s1)"
    using wp_returns [of "free_frame p" "\<lambda>_ t. t = s1" s] p(2) by (simp add: wp_free_frame s1_def)
  have inv1: "frames_inv (p # fl) s1"
    unfolding s1_def by (rule frames_inv_push [OF assms])
  have dead: "\<not> live s1 p"
    using frames_inv_dest(5) [OF inv1, of p] by (simp add: live_def)
  obtain s2 where s2: "alloc_result (p # fl) s1 = (Some p, s2)"
    by (simp add: alloc_result_def)
  have "alloc_frame s1 = (Val (Some p), s2)"
    using wp_returns [of alloc_frame "\<lambda>r t. r = Some p \<and> t = s2" s1] by (simp add: wp_alloc_frame [OF inv1] s2)
  then show ?thesis
    using free inv1 dead alloc_result_spec(1,4) [OF inv1 s2] by auto
qed

text \<open>C19. Dropping a reference to a live frame returns the remaining count and changes only that
  frame's count; the frame goes to the free list exactly when the last reference went, and
  memory outside the frame is not written.\<close>

theorem dec_ref_correct:
  assumes "frames_inv fl s" and "live s p"
  shows "\<exists>s'. dec_ref p s = (Val (frame_ref s p - 1), s') \<and>
    frames_inv (if frame_ref s p = 1 then p # fl else fl) s' \<and>
    (\<forall>q. frame_ok q \<longrightarrow> frame_ref s' q = (if q = p then frame_ref s p - 1 else frame_ref s q)) \<and>
    (\<forall>x. page_of x \<noteq> p \<longrightarrow> mem s' x = mem s x)"
proof -
  have "dec_ref p s = (Val (frame_ref s p - 1), dec_ref_result p s)"
    using wp_returns [of "dec_ref p" "\<lambda>r t. r = frame_ref s p - 1 \<and> t = dec_ref_result p s" s]
    by (simp add: wp_dec_ref [OF assms(2)])
  then show ?thesis
    using dec_ref_result_spec [OF assms] by auto
qed

theorem dec_ref_correct_witness:
  "\<exists>s'. dec_ref 0x80300000 frames1 = (Val 0, s') \<and> frames_inv [0x80300000] s'"
  using dec_ref_correct [OF frames1_inv frames1_live] by (auto simp: frames1_ref)

text \<open>C28. Dropping a reference nobody holds is caught: the counter has already wrapped to
  \<open>2 ^ 32 - 1\<close> when the subtraction of the return value panics, and nothing is freed.\<close>

theorem dec_ref_dead_panics:
  assumes "frame_ok p" and "frame_ref s p = 0"
  shows "dec_ref p s = (Exit (Panic sub_panic), set_ref p (- 1) s)"
proof -
  have "wp (dec_ref p) (\<lambda>_ _. False) (\<lambda>e t. e = Panic sub_panic \<and> t = set_ref p (- 1) s) s"
    using assms by (simp add: dec_ref_def wp_simps wp_frame_ops frame_ok_def)
  then show ?thesis
    by (auto simp: wp_def split: prod.splits outcome.splits)
qed

theorem dec_ref_dead_panics_witness:
  "dec_ref 0x80300000 frames0 = (Exit (Panic sub_panic), set_ref 0x80300000 (- 1) frames0)"
proof -
  have "frame_ok 0x80300000" "frame_ref frames0 0x80300000 = 0"
    by (simp_all add: frame_ok_def is_managed_unat page_aligned_def frame_ref_def frames0_def)
  then show ?thesis by (rule dec_ref_dead_panics)
qed

text \<open>C27. A contiguous allocation of \<open>n\<close> pages returns the bump pointer and gives each of the
  \<open>n\<close> frames above it reference count one, leaving all other counts, the free list and memory
  alone; it fails, leaving the state as it was, exactly when they do not fit below the end of
  RAM, however many frames the free list holds.\<close>

theorem alloc_contiguous_correct:
  assumes "frames_inv fl s" and "0 < unat pages" and "unat pages \<le> 0x8000"
  shows "\<exists>r t. alloc_contiguous_frames pages s = (Val r, t) \<and>
    (if 0x88000000 < unat (NEXT_FRAME s) + unat pages * 4096 then r = None \<and> t = s
     else r = Some (NEXT_FRAME s) \<and> frames_inv fl t \<and> mem t = mem s \<and>
       (\<forall>q. frame_ok q \<longrightarrow> frame_ref t q =
          (if \<exists>i < unat pages. q = NEXT_FRAME s + of_nat i * 4096 then 1 else frame_ref s q)))"
  by (rule wp_returns, rule wp_mono [OF wp_alloc_contiguous [OF assms]])
    (auto simp: contiguous_ref_def Bex_def split: if_splits)

theorem alloc_contiguous_correct_witness:
  "\<exists>t. alloc_contiguous_frames 8 frames0 = (Val (Some 0x80300000), t) \<and> frames_inv [] t"
  using alloc_contiguous_correct [OF frames0_inv, of 8] by (auto simp: frames0_def)

end
