(* ===== verification/PageTable.thy ===== *)
theory PageTable
  imports PTE Frame
begin

text \<open>
  The Sv39 page table of \<open>mm/page_table.rs\<close>: \<open>walk\<close>, \<open>lookup\<close>, \<open>map\<close>,
  \<open>map_cow\<close>, \<open>unmap\<close>, \<open>for_each_leaf\<close>, \<open>satp_val\<close> and \<open>init_kernel\<close>.
  A \<open>&mut PTEntry\<close> is the address of the entry. The field \<open>frame_alloc\<close> of
  \<open>PageTable\<close> is a function pointer; the model passes it to the operations that call it,
  so that a page table as data is its root.

  The abstraction of a tree of tables is the function from virtual addresses to leaf entries
  (0 where there is none); \<open>map\<close> and \<open>unmap\<close> are shown to be point updates of it, in
  the contract \<open>frame_source\<close> and so for the kernel's own allocator.
\<close>

definition KERNEL_VPN2_MIN :: nat where "KERNEL_VPN2_MIN = 2"

record PageTable =
  root :: PhysAddr

section \<open>The operations\<close>

definition entry_at :: "PhysAddr \<Rightarrow> usize \<Rightarrow> usize" where
  "entry_at table_addr idx = table_addr + idx * 8"

definition vpn :: "VirtAddr \<Rightarrow> nat \<Rightarrow> usize" where
  "vpn vaddr level = drop_bit (12 + 9 * level) vaddr AND 0x1FF"

text \<open>One iteration of the loop of \<open>walk\<close>: the next table, allocating it when absent.\<close>

definition walk_step ::
  "('a hart_scheme, PhysAddr option) kernel \<Rightarrow> PhysAddr \<Rightarrow> usize \<Rightarrow> ('a hart_scheme, PhysAddr option) kernel" where
  "walk_step frame_alloc table_addr idx =
     (let entry = entry_at table_addr idx in
      kbind (load64 entry) (\<lambda>e.
      if \<not> is_valid e then
        kbind frame_alloc (\<lambda>new_page.
        case new_page of None \<Rightarrow> ret None
        | Some np \<Rightarrow>
          kseq (fill_bytes np 0 4096)
          (kseq (store64 entry (new_table np))
          (kbind (load64 entry) (\<lambda>e'. ret (Some (ppn_to_addr e'))))))
      else ret (Some (ppn_to_addr e))))"

fun walk_levels ::
  "('a hart_scheme, PhysAddr option) kernel \<Rightarrow> VirtAddr \<Rightarrow> nat list \<Rightarrow> PhysAddr \<Rightarrow> ('a hart_scheme, PhysAddr option) kernel" where
  "walk_levels frame_alloc vaddr [] table_addr = ret (Some table_addr)"
| "walk_levels frame_alloc vaddr (level # levels) table_addr =
     kbind (walk_step frame_alloc table_addr (vpn vaddr level)) (\<lambda>r.
     case r of None \<Rightarrow> ret None | Some t \<Rightarrow> walk_levels frame_alloc vaddr levels t)"

definition walk ::
  "('a hart_scheme, PhysAddr option) kernel \<Rightarrow> PageTable \<Rightarrow> VirtAddr \<Rightarrow> ('a hart_scheme, usize option) kernel" where
  "walk frame_alloc self vaddr =
     kbind (walk_levels frame_alloc vaddr [2, 1] (root self)) (\<lambda>r.
     ret (map_option (\<lambda>t. entry_at t (vpn vaddr 0)) r))"

text \<open>\<open>lookup\<close> reads memory only, through the function \<open>rd\<close> that reads a double word.\<close>

fun lookup_levels :: "(usize \<Rightarrow> u64) \<Rightarrow> VirtAddr \<Rightarrow> nat list \<Rightarrow> PhysAddr \<Rightarrow> PhysAddr option" where
  "lookup_levels rd vaddr [] table_addr = Some table_addr"
| "lookup_levels rd vaddr (level # levels) table_addr =
     (let entry = rd (entry_at table_addr (vpn vaddr level)) in
      if \<not> is_valid entry then None
      else lookup_levels rd vaddr levels (ppn_to_addr entry))"

definition lookup_addr :: "(usize \<Rightarrow> u64) \<Rightarrow> PhysAddr \<Rightarrow> VirtAddr \<Rightarrow> usize option" where
  "lookup_addr rd rt vaddr =
     map_option (\<lambda>t. entry_at t (vpn vaddr 0)) (lookup_levels rd vaddr [2, 1] rt)"

definition lookup :: "PageTable \<Rightarrow> VirtAddr \<Rightarrow> ('a hart_scheme, usize option) kernel" where
  "lookup self vaddr = gets (\<lambda>s. lookup_addr (read_u64 (mem s)) (root self) vaddr)"

definition leaf_vaddr :: "nat \<Rightarrow> nat \<Rightarrow> nat \<Rightarrow> VirtAddr" where
  "leaf_vaddr vpn2 vpn1 vpn0 =
     push_bit 30 (of_nat vpn2) OR push_bit 21 (of_nat vpn1) OR push_bit 12 (of_nat vpn0)"

definition for_each_leaf ::
  "PageTable \<Rightarrow> nat \<Rightarrow> nat \<Rightarrow> (VirtAddr \<Rightarrow> usize \<Rightarrow> ('a hart_scheme, unit) kernel) \<Rightarrow> ('a hart_scheme, unit) kernel" where
  "for_each_leaf self vpn2_min vpn2_max callback =
     for_each [vpn2_min..<vpn2_max] (\<lambda>vpn2.
       kbind (load64 (entry_at (root self) (of_nat vpn2))) (\<lambda>root_entry.
       if \<not> is_valid root_entry then ret ()
       else
         for_each [0..<512] (\<lambda>vpn1.
           let l2_entry = entry_at (ppn_to_addr root_entry) (of_nat vpn1) in
           kbind (load64 l2_entry) (\<lambda>l2.
           if \<not> is_valid l2 then ret ()
           else if is_r l2 \<or> is_w l2 \<or> is_x l2 then
             callback (push_bit 30 (of_nat vpn2) OR push_bit 21 (of_nat vpn1)) l2_entry
           else
             for_each [0..<512] (\<lambda>vpn0.
               let l1_entry = entry_at (ppn_to_addr l2) (of_nat vpn0) in
               kbind (load64 l1_entry) (\<lambda>l1.
               if \<not> is_valid l1 then ret ()
               else if \<not> is_r l1 \<and> \<not> is_w l1 \<and> \<not> is_x l1 then ret ()
               else callback (leaf_vaddr vpn2 vpn1 vpn0) l1_entry))))))"

definition map_leaf ::
  "('a hart_scheme, PhysAddr option) kernel \<Rightarrow> PageTable \<Rightarrow> VirtAddr \<Rightarrow> PhysAddr \<Rightarrow> PTEFlags \<Rightarrow> bool
    \<Rightarrow> ('a hart_scheme, bool) kernel" where
  "map_leaf frame_alloc self vaddr paddr flags cow =
     kbind (walk frame_alloc self vaddr) (\<lambda>r.
     case r of
       Some entry \<Rightarrow>
         kseq (store64 entry (new_leaf paddr flags))
         (kseq (if cow then kbind (load64 entry) (\<lambda>e. store64 entry (set_cow e)) else ret ())
         (ret True))
     | None \<Rightarrow> ret False)"

definition map_page ::
  "('a hart_scheme, PhysAddr option) kernel \<Rightarrow> PageTable \<Rightarrow> VirtAddr \<Rightarrow> PhysAddr \<Rightarrow> PTEFlags
    \<Rightarrow> ('a hart_scheme, bool) kernel" where
  "map_page frame_alloc self vaddr paddr flags = map_leaf frame_alloc self vaddr paddr flags False"

definition map_cow ::
  "('a hart_scheme, PhysAddr option) kernel \<Rightarrow> PageTable \<Rightarrow> VirtAddr \<Rightarrow> PhysAddr \<Rightarrow> PTEFlags
    \<Rightarrow> ('a hart_scheme, bool) kernel" where
  "map_cow frame_alloc self vaddr paddr flags = map_leaf frame_alloc self vaddr paddr flags True"

definition unmap ::
  "('a hart_scheme, PhysAddr option) kernel \<Rightarrow> PageTable \<Rightarrow> VirtAddr \<Rightarrow> ('a hart_scheme, unit) kernel" where
  "unmap frame_alloc self vaddr =
     kbind (walk frame_alloc self vaddr) (\<lambda>r.
     case r of Some entry \<Rightarrow> store64 entry pte_empty | None \<Rightarrow> ret ())"

definition satp_val :: "PageTable \<Rightarrow> usize" where
  "satp_val self = push_bit 60 8 OR drop_bit 12 (root self)"

definition root_addr :: "PageTable \<Rightarrow> PhysAddr" where
  "root_addr self = root self"

text \<open>The mapping loop of \<open>init_kernel\<close>; the result of \<open>map\<close> is ignored there.\<close>

function identity_map ::
  "('a hart_scheme, PhysAddr option) kernel \<Rightarrow> PageTable \<Rightarrow> PTEFlags \<Rightarrow> PhysAddr \<Rightarrow> PhysAddr
    \<Rightarrow> ('a hart_scheme, unit) kernel" where
  "identity_map frame_alloc pt flags pa ram_end =
     (if pa < ram_end then
        kbind (map_page frame_alloc pt pa pa flags) (\<lambda>_.
        if add_overflows pa 4096 then halt (Panic add_panic)
        else identity_map frame_alloc pt flags (pa + 4096) ram_end)
      else ret ())"
  by pat_completeness auto
termination
  by (relation "measure (\<lambda>(fa, pt, fl, pa, e). unat e - unat pa)")
    (auto simp: unat_add_no_overflow word_less_nat_alt)

declare identity_map.simps [simp del]

definition init_kernel ::
  "PhysAddr \<Rightarrow> PhysAddr \<Rightarrow> ('a hart_scheme, PhysAddr option) kernel \<Rightarrow> ('a hart_scheme, PageTable \<times> usize) kernel" where
  "init_kernel start end_addr frame_alloc =
     kbind frame_alloc (\<lambda>r.
     kbind (expect ''no frame for root page table'' r) (\<lambda>rt.
     kseq (fill_bytes rt 0 4096)
     (let pt = \<lparr>root = rt\<rparr>;
          flags = PTEFlags_new True True True False in
      kbind (uadd start RAM_SIZE) (\<lambda>ram_end.
      kseq (identity_map frame_alloc pt flags start ram_end)
      (ret (pt, satp_val pt))))))"

section \<open>Entry addresses\<close>

lemma vpn_bound: "vpn va l < 512"
proof -
  have "vpn va l \<le> 0x1FF"
    unfolding vpn_def by (rule word_and_le1)
  then show ?thesis by (simp add: word_le_nat_alt word_less_nat_alt)
qed

lemma unat_entry_at:
  assumes "page_aligned t" and "i < 512"
  shows "unat (entry_at t i) = unat t + unat i * 8" and "page_of (entry_at t i) = t"
proof -
  have "unat i < 512" using assms(2) by (simp add: word_less_nat_alt)
  then have u: "unat (i * 8) = unat i * 8" by (simp add: unat_word_ariths)
  with \<open>unat i < 512\<close> have "unat (i * 8) < 4096" by simp
  from page_of_plus_offset [OF assms(1) this] u
  show "unat (entry_at t i) = unat t + unat i * 8" and "page_of (entry_at t i) = t"
    by (simp_all add: entry_at_def)
qed

lemma entry_at_aligned [simp]: "page_aligned t \<Longrightarrow> i < 512 \<Longrightarrow> dword_aligned (entry_at t i)"
  by (auto simp: dword_aligned_iff_dvd unat_entry_at page_aligned_iff_dvd elim!: dvd_trans [rotated])

lemma entry_at_inj:
  assumes "page_aligned t" "page_aligned u" "i < 512" "j < 512"
  shows "entry_at t i = entry_at u j \<longleftrightarrow> t = u \<and> i = j"
proof
  assume eq: "entry_at t i = entry_at u j"
  then have "t = u" using unat_entry_at(2) assms by metis
  with eq have "unat t + unat i * 8 = unat t + unat j * 8"
    using unat_entry_at(1) assms by metis
  with \<open>t = u\<close> show "t = u \<and> i = j" by (simp add: word_unat_eq_iff)
qed simp

section \<open>The tree of tables and its abstraction\<close>

text \<open>\<open>sub rd t i\<close> is the table the \<open>i\<close>-th entry of table \<open>t\<close> points to, \<open>l1 rd r i j\<close>
  the leaf table two steps below the root, and \<open>pte_of\<close> the leaf entry of a virtual address,
  0 when there is no leaf table.\<close>

definition sub :: "(usize \<Rightarrow> u64) \<Rightarrow> PhysAddr \<Rightarrow> usize \<Rightarrow> PhysAddr option" where
  "sub rd t i = (let e = rd (entry_at t i) in if is_valid e then Some (ppn_to_addr e) else None)"

definition l1 :: "(usize \<Rightarrow> u64) \<Rightarrow> PhysAddr \<Rightarrow> usize \<Rightarrow> usize \<Rightarrow> PhysAddr option" where
  "l1 rd r i j = Option.bind (sub rd r i) (\<lambda>t. sub rd t j)"

definition pte_of :: "(usize \<Rightarrow> u64) \<Rightarrow> PhysAddr \<Rightarrow> VirtAddr \<Rightarrow> PTEntry" where
  "pte_of rd r va = (case lookup_addr rd r va of None \<Rightarrow> 0 | Some e \<Rightarrow> rd e)"

definition same_page :: "VirtAddr \<Rightarrow> VirtAddr \<Rightarrow> bool" where
  "same_page va vb \<longleftrightarrow> vpn va 2 = vpn vb 2 \<and> vpn va 1 = vpn vb 1 \<and> vpn va 0 = vpn vb 0"

lemma lookup_addr_l1:
  "lookup_addr rd r va = map_option (\<lambda>t. entry_at t (vpn va 0)) (l1 rd r (vpn va 2) (vpn va 1))"
  by (simp add: lookup_addr_def l1_def sub_def Let_def)

lemma pte_of_l1:
  "pte_of rd r va = (case l1 rd r (vpn va 2) (vpn va 1) of None \<Rightarrow> 0 | Some t \<Rightarrow> rd (entry_at t (vpn va 0)))"
  by (simp add: pte_of_def lookup_addr_l1 option.case_eq_if option.map_sel)

lemma sub_aligned: "sub rd t i = Some u \<Longrightarrow> page_aligned u"
  by (auto simp: sub_def Let_def split: if_splits)

lemma l1_aligned: "l1 rd r i j = Some u \<Longrightarrow> page_aligned u"
  by (auto simp: l1_def bind_eq_Some_conv dest: sub_aligned)

text \<open>The tables of a well-formed tree are live frames, no two of them the same.\<close>

definition pt_wf :: "(PhysAddr \<Rightarrow> bool) \<Rightarrow> (usize \<Rightarrow> u64) \<Rightarrow> PhysAddr \<Rightarrow> bool" where
  "pt_wf lv rd r \<longleftrightarrow> lv r \<and>
     (\<forall>i < 512. \<forall>t. sub rd r i = Some t \<longrightarrow> lv t \<and> t \<noteq> r) \<and>
     (\<forall>i < 512. \<forall>j < 512. \<forall>u. l1 rd r i j = Some u \<longrightarrow> lv u \<and> u \<noteq> r) \<and>
     (\<forall>i < 512. \<forall>j < 512. \<forall>k < 512. \<forall>t. l1 rd r i j = Some t \<longrightarrow> sub rd r k \<noteq> Some t) \<and>
     (\<forall>i < 512. \<forall>i' < 512. \<forall>t. sub rd r i = Some t \<and> sub rd r i' = Some t \<longrightarrow> i = i') \<and>
     (\<forall>i < 512. \<forall>j < 512. \<forall>i' < 512. \<forall>j' < 512. \<forall>u.
        l1 rd r i j = Some u \<and> l1 rd r i' j' = Some u \<longrightarrow> i = i' \<and> j = j')"

lemma pt_wf_dest:
  assumes "pt_wf lv rd r"
  shows "lv r" and "i < 512 \<Longrightarrow> sub rd r i = Some t \<Longrightarrow> lv t"
    and "i < 512 \<Longrightarrow> sub rd r i = Some t \<Longrightarrow> t \<noteq> r"
    and "i < 512 \<Longrightarrow> j < 512 \<Longrightarrow> l1 rd r i j = Some u \<Longrightarrow> lv u"
    and "i < 512 \<Longrightarrow> j < 512 \<Longrightarrow> l1 rd r i j = Some u \<Longrightarrow> u \<noteq> r"
    and "i < 512 \<Longrightarrow> j < 512 \<Longrightarrow> k < 512 \<Longrightarrow> l1 rd r i j = Some u \<Longrightarrow> sub rd r k \<noteq> Some u"
    and "i < 512 \<Longrightarrow> i' < 512 \<Longrightarrow> sub rd r i = Some t \<Longrightarrow> sub rd r i' = Some t \<Longrightarrow> i = i'"
    and "i < 512 \<Longrightarrow> j < 512 \<Longrightarrow> i' < 512 \<Longrightarrow> j' < 512 \<Longrightarrow> l1 rd r i j = Some u \<Longrightarrow>
      l1 rd r i' j' = Some u \<Longrightarrow> i = i' \<and> j = j'"
proof -
  note c = assms [unfolded pt_wf_def]
  from c show "lv r" by (rule conjunct1)
  note c2 = c [THEN conjunct2]
  from c2 [THEN conjunct1] show "i < 512 \<Longrightarrow> sub rd r i = Some t \<Longrightarrow> lv t" by blast
  from c2 [THEN conjunct1] show "i < 512 \<Longrightarrow> sub rd r i = Some t \<Longrightarrow> t \<noteq> r" by blast
  note c3 = c2 [THEN conjunct2]
  from c3 [THEN conjunct1] show "i < 512 \<Longrightarrow> j < 512 \<Longrightarrow> l1 rd r i j = Some u \<Longrightarrow> lv u" by blast
  from c3 [THEN conjunct1] show "i < 512 \<Longrightarrow> j < 512 \<Longrightarrow> l1 rd r i j = Some u \<Longrightarrow> u \<noteq> r" by blast
  note c4 = c3 [THEN conjunct2]
  from c4 [THEN conjunct1]
  show "i < 512 \<Longrightarrow> j < 512 \<Longrightarrow> k < 512 \<Longrightarrow> l1 rd r i j = Some u \<Longrightarrow> sub rd r k \<noteq> Some u" by blast
  note c5 = c4 [THEN conjunct2]
  from c5 [THEN conjunct1]
  show "i < 512 \<Longrightarrow> i' < 512 \<Longrightarrow> sub rd r i = Some t \<Longrightarrow> sub rd r i' = Some t \<Longrightarrow> i = i'" by blast
  from c5 [THEN conjunct2]
  show "i < 512 \<Longrightarrow> j < 512 \<Longrightarrow> i' < 512 \<Longrightarrow> j' < 512 \<Longrightarrow> l1 rd r i j = Some u \<Longrightarrow>
      l1 rd r i' j' = Some u \<Longrightarrow> i = i' \<and> j = j'" by blast
qed

lemma pt_wfI:
  assumes "lv r" and "\<And>i t. i < 512 \<Longrightarrow> sub rd r i = Some t \<Longrightarrow> lv t"
    and "\<And>i t. i < 512 \<Longrightarrow> sub rd r i = Some t \<Longrightarrow> t \<noteq> r"
    and "\<And>i j u. i < 512 \<Longrightarrow> j < 512 \<Longrightarrow> l1 rd r i j = Some u \<Longrightarrow> lv u"
    and "\<And>i j u. i < 512 \<Longrightarrow> j < 512 \<Longrightarrow> l1 rd r i j = Some u \<Longrightarrow> u \<noteq> r"
    and "\<And>i j k u. i < 512 \<Longrightarrow> j < 512 \<Longrightarrow> k < 512 \<Longrightarrow> l1 rd r i j = Some u \<Longrightarrow> sub rd r k \<noteq> Some u"
    and "\<And>i i' t. i < 512 \<Longrightarrow> i' < 512 \<Longrightarrow> sub rd r i = Some t \<Longrightarrow> sub rd r i' = Some t \<Longrightarrow> i = i'"
    and "\<And>i j i' j' u. i < 512 \<Longrightarrow> j < 512 \<Longrightarrow> i' < 512 \<Longrightarrow> j' < 512 \<Longrightarrow> l1 rd r i j = Some u \<Longrightarrow>
      l1 rd r i' j' = Some u \<Longrightarrow> i = i' \<and> j = j'"
  shows "pt_wf lv rd r"
  unfolding pt_wf_def
proof (intro conjI allI impI)
  show "lv r" by (rule assms(1))
qed ((elim conjE)?, (rule assms assms(8) [THEN conjunct1] assms(8) [THEN conjunct2]; assumption))+

text \<open>The tree only depends on the double words of its own tables.\<close>

definition is_table :: "(usize \<Rightarrow> u64) \<Rightarrow> PhysAddr \<Rightarrow> PhysAddr \<Rightarrow> bool" where
  "is_table rd r t \<longleftrightarrow> t = r \<or> (\<exists>i < 512. sub rd r i = Some t) \<or> (\<exists>i < 512. \<exists>j < 512. l1 rd r i j = Some t)"

lemma sub_cong: "rd' (entry_at t i) = rd (entry_at t i) \<Longrightarrow> sub rd' t i = sub rd t i"
  by (simp add: sub_def)

lemma tree_cong:
  assumes "\<And>t i. i < 512 \<Longrightarrow> t = r \<or> (\<exists>k < 512. sub rd r k = Some t) \<Longrightarrow>
    rd' (entry_at t i) = rd (entry_at t i)"
  shows "i < 512 \<Longrightarrow> sub rd' r i = sub rd r i" and "i < 512 \<Longrightarrow> j < 512 \<Longrightarrow> l1 rd' r i j = l1 rd r i j"
proof -
  show s: "sub rd' r i = sub rd r i" if "i < 512" for i
    by (rule sub_cong) (use assms that in blast)
  show "l1 rd' r i j = l1 rd r i j" if "i < 512" "j < 512"
  proof (cases "sub rd r i")
    case None
    with s [OF that(1)] show ?thesis by (simp add: l1_def)
  next
    case (Some t)
    have "sub rd' t j = sub rd t j"
      by (rule sub_cong) (use assms that Some in blast)
    with Some s [OF that(1)] show ?thesis by (simp add: l1_def)
  qed
qed

lemma pt_wf_cong:
  assumes "pt_wf lv rd r" and "\<And>i. i < 512 \<Longrightarrow> sub rd' r i = sub rd r i"
    and "\<And>i j. i < 512 \<Longrightarrow> j < 512 \<Longrightarrow> l1 rd' r i j = l1 rd r i j" and "\<And>t. lv t \<Longrightarrow> lv' t"
  shows "pt_wf lv' rd' r"
proof (rule pt_wfI)
  show "lv' r" using assms(4) pt_wf_dest(1) [OF assms(1)] by blast
  show "lv' t" "t \<noteq> r" if "i < 512" "sub rd' r i = Some t" for i t
    using that assms(2,4) pt_wf_dest(2,3) [OF assms(1), of i t] by auto
  show "lv' u" "u \<noteq> r" if "i < 512" "j < 512" "l1 rd' r i j = Some u" for i j u
    using that assms(3,4) pt_wf_dest(4,5) [OF assms(1), of i j u] by auto
  show "sub rd' r k \<noteq> Some u" if "i < 512" "j < 512" "k < 512" "l1 rd' r i j = Some u" for i j k u
    using that assms(2,3) pt_wf_dest(6) [OF assms(1), of i j k u] by auto
  show "i = i'" if "i < 512" "i' < 512" "sub rd' r i = Some t" "sub rd' r i' = Some t" for i i' t
    using that assms(2) pt_wf_dest(7) [OF assms(1), of i i' t] by auto
  show "i = i' \<and> j = j'" if "i < 512" "j < 512" "i' < 512" "j' < 512" "l1 rd' r i j = Some u"
    "l1 rd' r i' j' = Some u" for i j i' j' u
    using that assms(3) pt_wf_dest(8) [OF assms(1), of i j i' j' u] by auto
qed

text \<open>The links of a tree are what the hart takes for links: no permissions, no reserved bits.\<close>

definition pointer :: "PTEntry \<Rightarrow> bool" where
  "pointer e \<longleftrightarrow> (is_valid e \<longrightarrow> \<not> is_r e \<and> \<not> is_w e \<and> \<not> is_x e \<and> drop_bit 54 e = 0)"

definition links :: "(usize \<Rightarrow> u64) \<Rightarrow> PhysAddr \<Rightarrow> bool" where
  "links rd r \<longleftrightarrow> (\<forall>i < 512. pointer (rd (entry_at r i))) \<and>
     (\<forall>k < 512. \<forall>t. sub rd r k = Some t \<longrightarrow> (\<forall>i < 512. pointer (rd (entry_at t i))))"

lemma links_dest:
  assumes "links rd r" and "i < 512"
  shows "pointer (rd (entry_at r i))" and "k < 512 \<Longrightarrow> sub rd r k = Some t \<Longrightarrow> pointer (rd (entry_at t i))"
  using assms unfolding links_def by blast+

lemma links_cong:
  assumes "\<And>t i. i < 512 \<Longrightarrow> t = r \<or> (\<exists>k < 512. sub rd r k = Some t) \<Longrightarrow> rd' (entry_at t i) = rd (entry_at t i)"
  shows "links rd' r \<longleftrightarrow> links rd r"
proof -
  note s = tree_cong(1) [of r rd rd', OF assms]
  have "(\<forall>i < 512. pointer (rd' (entry_at r i))) = (\<forall>i < 512. pointer (rd (entry_at r i)))" using assms by simp
  moreover have "(\<forall>k < 512. \<forall>t. sub rd' r k = Some t \<longrightarrow> (\<forall>i < 512. pointer (rd' (entry_at t i)))) =
    (\<forall>k < 512. \<forall>t. sub rd r k = Some t \<longrightarrow> (\<forall>i < 512. pointer (rd (entry_at t i))))"
    using s assms by metis
  ultimately show ?thesis by (simp only: links_def)
qed

lemma pointer_new_table: "unat p < 2 ^ 56 \<Longrightarrow> pointer (new_table p)"
proof -
  assume "unat p < 2 ^ 56"
  then have "\<not> bit p n" if "56 \<le> n" for n using that by (rule high_bits_zero)
  then have "drop_bit 54 (new_table p) = 0" by (intro bit_word_eqI) (simp add: bit_drop_bit_eq bit_new_table)
  then show ?thesis by (simp add: pointer_def new_table_pointer)
qed

subsection \<open>Page numbers\<close>

lemma unat_vpn: "unat (vpn va l) = unat va div 2 ^ (12 + 9 * l) mod 512"
proof -
  have m: "(0x1FF :: usize) = mask 9" by (simp add: mask_eq_exp_minus_1)
  have "unat (vpn va l) = take_bit 9 (unat (drop_bit (12 + 9 * l) va))"
    unfolding vpn_def m take_bit_eq_mask [symmetric]
    by (simp add: unsigned_take_bit_eq)
  also have "unat (drop_bit (12 + 9 * l) va) = unat va div 2 ^ (12 + 9 * l)"
    by (subst unat_drop_bit_eq) (simp only: drop_bit_eq_div)
  finally show ?thesis by (simp add: take_bit_eq_mod)
qed

lemma vpn_digits:
  "unat (vpn va 0) = unat va div 4096 mod 512"
  "unat (vpn va 1) = unat va div 4096 div 512 mod 512"
  "unat (vpn va 2) = unat va div 4096 div 512 div 512 mod 512"
  by (simp_all add: unat_vpn div_mult2_eq [symmetric])

lemma vpn_same_page_of:
  "page_of va = page_of vb \<Longrightarrow> same_page va vb"
  by (simp only: same_page_def word_unat_eq_iff [of "vpn va l" "vpn vb l" for l] vpn_digits page_of_eq_iff
      simp_thms)

lemma same_page_iff:
  assumes "unat va < 2 ^ 39" and "unat vb < 2 ^ 39"
  shows "same_page va vb \<longleftrightarrow> page_of va = page_of vb"
proof
  assume sp: "same_page va vb"
  define p q where "p = unat va div 4096" and "q = unat vb div 4096"
  have b: "p div 512 div 512 < 512" "q div 512 div 512 < 512"
    using assms by (simp_all add: p_def q_def div_mult2_eq [symmetric] less_mult_imp_div_less)
  have d: "p mod 512 = q mod 512" "p div 512 mod 512 = q div 512 mod 512"
    "p div 512 div 512 mod 512 = q div 512 div 512 mod 512"
    using sp by (simp_all only: same_page_def word_unat_eq_iff vpn_digits p_def q_def)
  have "p div 512 div 512 = q div 512 div 512" using d(3) b by simp
  then have "p div 512 = q div 512"
    using d(2) by (metis mod_mult_div_eq)
  then have "p = q" using d(1) by (metis mod_mult_div_eq)
  then show "page_of va = page_of vb" by (simp add: page_of_eq_iff p_def q_def)
qed (rule vpn_same_page_of)


subsection \<open>Writing a leaf entry\<close>

lemma write_leaf:
  assumes wf: "pt_wf lv rd r" and al: "\<And>t. lv t \<Longrightarrow> page_aligned t"
    and t: "l1 rd r (vpn va 2) (vpn va 1) = Some t"
    and w: "\<And>u i. is_table rd r u \<Longrightarrow> i < 512 \<Longrightarrow>
      rd' (entry_at u i) = (if entry_at u i = entry_at t (vpn va 0) then v else rd (entry_at u i))"
  shows "pt_wf lv rd' r"
    and "pte_of rd' r vb = (if same_page va vb then v else pte_of rd r vb)"
    and "lookup_addr rd' r vb = lookup_addr rd r vb" and "is_table rd' r u \<longleftrightarrow> is_table rd r u"
    and "i < 512 \<Longrightarrow> sub rd' r i = sub rd r i" and "i < 512 \<Longrightarrow> j < 512 \<Longrightarrow> l1 rd' r i j = l1 rd r i j"
    and "links rd' r = links rd r"
proof -
  note b = vpn_bound
  note ta = al [OF pt_wf_dest(4) [OF wf b b t]]
  have inner: "rd' (entry_at u i) = rd (entry_at u i)"
    if "i < 512" "u = r \<or> (\<exists>k < 512. sub rd r k = Some u)" for u i
  proof -
    have "u \<noteq> t" using that(2) pt_wf_dest(5) [OF wf b b t] pt_wf_dest(6) [OF wf b b _ t] by blast
    moreover have "page_aligned u"
      using that(2) al pt_wf_dest(1,2) [OF wf] by blast
    moreover have "is_table rd r u" using that(2) by (auto simp: is_table_def)
    ultimately show ?thesis
      using that(1) ta b by (simp add: w entry_at_inj)
  qed
  note tc = tree_cong [of r rd rd', OF inner]
  show "links rd' r = links rd r" by (rule links_cong [of r rd rd', OF inner])
  show "i < 512 \<Longrightarrow> sub rd' r i = sub rd r i" "i < 512 \<Longrightarrow> j < 512 \<Longrightarrow> l1 rd' r i j = l1 rd r i j"
    by (rule tc; assumption)+
  show "pt_wf lv rd' r"
    by (rule pt_wf_cong [OF wf]) (simp_all add: tc)
  show "lookup_addr rd' r vb = lookup_addr rd r vb"
    by (simp add: lookup_addr_l1 tc(2) b)
  show "is_table rd' r u \<longleftrightarrow> is_table rd r u"
    by (auto simp: is_table_def tc)
  show "pte_of rd' r vb = (if same_page va vb then v else pte_of rd r vb)"
  proof (cases "l1 rd r (vpn vb 2) (vpn vb 1)")
    case None
    then show ?thesis
      using t by (auto simp: pte_of_l1 tc(2) b same_page_def)
  next
    case (Some u)
    have "page_aligned u" using Some by (rule l1_aligned)
    moreover have "t = u \<longleftrightarrow> vpn va 2 = vpn vb 2 \<and> vpn va 1 = vpn vb 1"
      using t Some pt_wf_dest(8) [OF wf b b b b] by fastforce
    moreover have "is_table rd r u" using Some b by (auto simp: is_table_def)
    ultimately show ?thesis
      using Some ta b by (auto simp: pte_of_l1 tc(2) w entry_at_inj same_page_def)
  qed
qed

subsection \<open>Linking a new table\<close>

text \<open>\<open>linked lv rd rd' p t i\<close>: memory \<open>rd'\<close> is \<open>rd\<close> with the fresh page \<open>p\<close> cleared and
  entry \<open>i\<close> of the live table \<open>t\<close> set to point to it.\<close>

definition linked :: "(PhysAddr \<Rightarrow> bool) \<Rightarrow> (usize \<Rightarrow> u64) \<Rightarrow> (usize \<Rightarrow> u64) \<Rightarrow> PhysAddr \<Rightarrow> PhysAddr \<Rightarrow> usize \<Rightarrow> bool" where
  "linked lv rd rd' p t i \<longleftrightarrow> (\<forall>u. lv u \<longrightarrow> page_aligned u) \<and> lv t \<and> \<not> lv p \<and>
     page_aligned p \<and> unat p < 2 ^ 56 \<and> i < 512 \<and>
     (\<forall>b. dword_aligned b \<longrightarrow>
        rd' b = (if b = entry_at t i then new_table p else if page_of b = p then 0 else rd b))"

lemma linked_read:
  assumes "linked lv rd rd' p t i" and "k < 512"
  shows "lv u \<Longrightarrow> rd' (entry_at u k) = (if u = t \<and> k = i then new_table p else rd (entry_at u k))"
    and "rd' (entry_at p k) = 0"
proof -
  have al: "page_aligned t" "page_aligned p" "t \<noteq> p" "i < 512"
    using assms(1) by (auto simp: linked_def)
  show "rd' (entry_at u k) = (if u = t \<and> k = i then new_table p else rd (entry_at u k))" if "lv u"
  proof -
    have "page_aligned u" "u \<noteq> p" using that assms(1) by (auto simp: linked_def)
    then show ?thesis
      using assms al unat_entry_at(2) [of u k] entry_at_inj [of u t k i] by (simp add: linked_def)
  qed
  show "rd' (entry_at p k) = 0"
    using assms al unat_entry_at(2) [of p k] entry_at_inj [of p t k i] by (auto simp: linked_def)
qed

lemma linked_sub:
  assumes "linked lv rd rd' p t i" and "k < 512"
  shows "lv u \<Longrightarrow> sub rd' u k = (if u = t \<and> k = i then Some p else sub rd u k)"
    and "sub rd' p k = None"
proof -
  have "ppn_to_addr (new_table p) = p"
    using assms(1) by (simp add: linked_def ppn_new_table)
  then show "lv u \<Longrightarrow> sub rd' u k = (if u = t \<and> k = i then Some p else sub rd u k)"
    by (simp add: sub_def linked_read(1) [OF assms])
  show "sub rd' p k = None"
    by (simp add: sub_def linked_read(2) [OF assms])
qed

lemma link_root:
  assumes wf: "pt_wf lv rd r" and ln: "linked lv rd rd' p r i" and none: "sub rd r i = None"
  shows "pt_wf (lv(p := True)) rd' r" and "pte_of rd' r va = pte_of rd r va"
    and "sub rd' r i = Some p" and "is_table rd' r u \<longleftrightarrow> is_table rd r u \<or> u = p"
    and "k < 512 \<Longrightarrow> sub rd' r k = (if k = i then Some p else sub rd r k)"
    and "k < 512 \<Longrightarrow> j < 512 \<Longrightarrow> l1 rd' r k j = l1 rd r k j" and "links rd r \<Longrightarrow> links rd' r"
proof -
  note b = vpn_bound
  have lr: "lv r" and pr: "\<not> lv p" and i: "i < 512" using ln by (auto simp: linked_def)
  show s': "sub rd' r k = (if k = i then Some p else sub rd r k)" if "k < 512" for k
    using linked_sub(1) [OF ln that lr] by simp
  then show "sub rd' r i = Some p" using i by simp
  show l': "l1 rd' r k j = l1 rd r k j" if "k < 512" "j < 512" for k j
  proof (cases "k = i")
    case True
    then show ?thesis using s' [OF i] none linked_sub(2) [OF ln that(2)] by (simp add: l1_def)
  next
    case False
    have "sub rd' t j = sub rd t j" if t: "sub rd r k = Some t" for t
      using linked_sub(1) [OF ln \<open>j < 512\<close> pt_wf_dest(2) [OF wf \<open>k < 512\<close> t]]
        pt_wf_dest(3) [OF wf \<open>k < 512\<close> t] by simp
    with False show ?thesis using s' [OF that(1)] by (cases "sub rd r k") (auto simp: l1_def)
  qed
  show "links rd' r" if L: "links rd r"
    unfolding links_def
  proof (intro conjI allI impI)
    fix k m :: usize and t assume k: "k < 512" and t: "sub rd' r k = Some t" and m: "m < 512"
    show "pointer (rd' (entry_at t m))"
    proof (cases "k = i")
      case True
      then have "t = p" using s' [OF k] t by simp
      then show ?thesis using linked_read(2) [OF ln m] by (simp add: pointer_def)
    next
      case False
      then have "sub rd r k = Some t" using s' [OF k] t by simp
      then show ?thesis using linked_read(1) [OF ln m pt_wf_dest(2) [OF wf k]] pt_wf_dest(3) [OF wf k] links_dest(2) [OF L m k] by auto
    qed
  qed (use linked_read(1) [OF ln _ lr] links_dest(1) [OF L] ln in \<open>auto simp: linked_def pointer_new_table\<close>)
  show "is_table rd' r u \<longleftrightarrow> is_table rd r u \<or> u = p"
  proof -
    have "(\<exists>k < 512. sub rd' r k = Some u) \<longleftrightarrow> (\<exists>k < 512. sub rd r k = Some u) \<or> u = p"
      using s' i none by (metis option.distinct(1) option.inject)
    moreover have "(\<exists>k < 512. \<exists>j < 512. l1 rd' r k j = Some u) \<longleftrightarrow> (\<exists>k < 512. \<exists>j < 512. l1 rd r k j = Some u)"
      using l' by metis
    ultimately show ?thesis unfolding is_table_def by blast
  qed
  show "pt_wf (lv(p := True)) rd' r"
  proof (rule pt_wfI)
    show "(lv(p := True)) r" using lr by simp
    show "(lv(p := True)) t" "t \<noteq> r" if "k < 512" "sub rd' r k = Some t" for k t
      using that s' lr pr pt_wf_dest(2,3) [OF wf, of k t] by (auto split: if_splits)
    show "(lv(p := True)) u" "u \<noteq> r" if "k < 512" "j < 512" "l1 rd' r k j = Some u" for k j u
      using that l' pt_wf_dest(4,5) [OF wf, of k j u] by auto
    show "sub rd' r k \<noteq> Some u" if "i' < 512" "j < 512" "k < 512" "l1 rd' r i' j = Some u" for i' j k u
      using that l' s' pr pt_wf_dest(4) [OF wf, of i' j u] pt_wf_dest(6) [OF wf, of i' j k u] by auto
    show "k = k'" if "k < 512" "k' < 512" "sub rd' r k = Some t" "sub rd' r k' = Some t" for k k' t
      using that s' pr pt_wf_dest(2) [OF wf, of _ p] pt_wf_dest(7) [OF wf, of k k' t]
      by (auto split: if_splits)
    show "k = k' \<and> j = j'" if "k < 512" "j < 512" "k' < 512" "j' < 512" "l1 rd' r k j = Some u"
      "l1 rd' r k' j' = Some u" for k j k' j' u
      using that l' pt_wf_dest(8) [OF wf, of k j k' j' u] by auto
  qed
  show "pte_of rd' r va = pte_of rd r va"
  proof (cases "l1 rd r (vpn va 2) (vpn va 1)")
    case (Some u)
    then show ?thesis
      using linked_read(1) [OF ln b pt_wf_dest(4) [OF wf b b Some]] pt_wf_dest(5) [OF wf b b Some]
      by (simp add: pte_of_l1 l' b)
  qed (simp add: pte_of_l1 l' b)
qed

lemma link_l2:
  assumes wf: "pt_wf lv rd r" and i: "i < 512" and t: "sub rd r i = Some t"
    and ln: "linked lv rd rd' p t j" and none: "sub rd t j = None"
  shows "pt_wf (lv(p := True)) rd' r" and "pte_of rd' r va = pte_of rd r va"
    and "l1 rd' r i j = Some p" and "is_table rd' r u \<longleftrightarrow> is_table rd r u \<or> u = p"
    and "k < 512 \<Longrightarrow> sub rd' r k = sub rd r k"
    and "k < 512 \<Longrightarrow> m < 512 \<Longrightarrow> l1 rd' r k m = (if k = i \<and> m = j then Some p else l1 rd r k m)"
    and "links rd r \<Longrightarrow> links rd' r"
proof -
  note b = vpn_bound
  have pr: "\<not> lv p" and j: "j < 512" using ln by (auto simp: linked_def)
  have lr: "lv r" by (rule pt_wf_dest(1) [OF wf])
  have tr: "t \<noteq> r" by (rule pt_wf_dest(3) [OF wf i t])
  show s': "sub rd' r k = sub rd r k" if "k < 512" for k
    using linked_sub(1) [OF ln that lr] tr by simp
  show l': "l1 rd' r k m = (if k = i \<and> m = j then Some p else l1 rd r k m)" if "k < 512" "m < 512" for k m
  proof (cases "sub rd r k")
    case None
    with s' [OF that(1)] t show ?thesis by (auto simp: l1_def)
  next
    case (Some u)
    have "u = t \<longleftrightarrow> k = i"
      using Some t pt_wf_dest(7) [OF wf that(1) i, of t] by auto
    then show ?thesis
      using Some s' [OF that(1)] linked_sub(1) [OF ln that(2) pt_wf_dest(2) [OF wf that(1) Some]]
      by (auto simp: l1_def)
  qed
  then show lp: "l1 rd' r i j = Some p" using i j by simp
  have old: "l1 rd r i j = None" using t none by (simp add: l1_def)
  show "links rd' r" if L: "links rd r"
    unfolding links_def
  proof (intro conjI allI impI)
    fix k m :: usize and t' assume k: "k < 512" and t': "sub rd' r k = Some t'" and m: "m < 512"
    have "sub rd r k = Some t'" using s' [OF k] t' by simp
    then show "pointer (rd' (entry_at t' m))"
      using linked_read(1) [OF ln m pt_wf_dest(2) [OF wf k]] links_dest(2) [OF L m k] ln by (auto simp: linked_def pointer_new_table)
  qed (use linked_read(1) [OF ln _ lr] links_dest(1) [OF L] tr in auto)
  show "is_table rd' r u \<longleftrightarrow> is_table rd r u \<or> u = p"
  proof -
    have "(\<exists>k < 512. sub rd' r k = Some u) \<longleftrightarrow> (\<exists>k < 512. sub rd r k = Some u)"
      using s' by metis
    moreover have "(\<exists>k < 512. \<exists>m < 512. l1 rd' r k m = Some u)
        \<longleftrightarrow> (\<exists>k < 512. \<exists>m < 512. l1 rd r k m = Some u) \<or> u = p"
    proof
      assume "\<exists>k < 512. \<exists>m < 512. l1 rd' r k m = Some u"
      then obtain k m where "k < 512" "m < 512" "l1 rd' r k m = Some u" by blast
      with l' [of k m] show "(\<exists>k < 512. \<exists>m < 512. l1 rd r k m = Some u) \<or> u = p"
        by (cases "k = i \<and> m = j") auto
    next
      assume "(\<exists>k < 512. \<exists>m < 512. l1 rd r k m = Some u) \<or> u = p"
      then show "\<exists>k < 512. \<exists>m < 512. l1 rd' r k m = Some u"
      proof
        assume "\<exists>k < 512. \<exists>m < 512. l1 rd r k m = Some u"
        then obtain k m where km: "k < 512" "m < 512" "l1 rd r k m = Some u" by blast
        with old have "\<not> (k = i \<and> m = j)" by auto
        with km l' [of k m] have "l1 rd' r k m = Some u" by (simp only: if_False)
        with km show ?thesis by blast
      next
        assume "u = p"
        with lp i j show ?thesis by blast
      qed
    qed
    ultimately show ?thesis unfolding is_table_def by blast
  qed
  show "pt_wf (lv(p := True)) rd' r"
  proof (rule pt_wfI)
    show "(lv(p := True)) r" using lr by simp
    show "(lv(p := True)) u" "u \<noteq> r" if "k < 512" "sub rd' r k = Some u" for k u
      using that s' pt_wf_dest(2,3) [OF wf, of k u] by auto
    show "(lv(p := True)) u" "u \<noteq> r" if "k < 512" "m < 512" "l1 rd' r k m = Some u" for k m u
      using that l' lr pr pt_wf_dest(4,5) [OF wf, of k m u] by (auto split: if_splits)
    show "sub rd' r k \<noteq> Some u" if "k' < 512" "m < 512" "k < 512" "l1 rd' r k' m = Some u" for k' m k u
      using that l' s' pr pt_wf_dest(2) [OF wf, of k p] pt_wf_dest(6) [OF wf, of k' m k u]
      by (auto split: if_splits)
    show "k = k'" if "k < 512" "k' < 512" "sub rd' r k = Some u" "sub rd' r k' = Some u" for k k' u
      using that s' pt_wf_dest(7) [OF wf, of k k' u] by auto
    show "k = k' \<and> m = m'" if "k < 512" "m < 512" "k' < 512" "m' < 512" "l1 rd' r k m = Some u"
      "l1 rd' r k' m' = Some u" for k m k' m' u
      using that l' pr pt_wf_dest(4) [OF wf, of _ _ p] pt_wf_dest(8) [OF wf, of k m k' m' u]
      by (auto split: if_splits)
  qed
  show "pte_of rd' r va = pte_of rd r va"
  proof (cases "vpn va 2 = i \<and> vpn va 1 = j")
    case True
    then show ?thesis
      using old l' [OF i j] linked_read(2) [OF ln b] by (simp add: pte_of_l1)
  next
    case False
    show ?thesis
    proof (cases "l1 rd r (vpn va 2) (vpn va 1)")
      case (Some u)
      have "u \<noteq> t" using pt_wf_dest(6) [OF wf b b i Some] t by auto
      with Some False show ?thesis
        using linked_read(1) [OF ln b pt_wf_dest(4) [OF wf b b Some]]
        by (auto simp: pte_of_l1 l' b)
    qed (use False in \<open>auto simp: pte_of_l1 l' b\<close>)
  qed
qed

section \<open>Growing a tree\<close>

text \<open>\<open>tree_ext lv m lv' m' r\<close>: between two states the tree at \<open>r\<close> stayed well formed and kept
  its tables, every new table was not live before, every newly live frame is one of its
  tables, and memory changed inside its tables only.\<close>

definition tree_ext ::
  "(PhysAddr \<Rightarrow> bool) \<Rightarrow> memory \<Rightarrow> (PhysAddr \<Rightarrow> bool) \<Rightarrow> memory \<Rightarrow> PhysAddr \<Rightarrow> bool" where
  "tree_ext lv m lv' m' r \<longleftrightarrow> pt_wf lv' (read_u64 m') r \<and>
     (\<forall>p. lv p \<longrightarrow> lv' p) \<and> (\<forall>p. lv' p \<longrightarrow> lv p \<or> is_table (read_u64 m') r p) \<and>
     (\<forall>t. is_table (read_u64 m) r t \<longrightarrow> is_table (read_u64 m') r t) \<and>
     (\<forall>t. is_table (read_u64 m') r t \<longrightarrow> is_table (read_u64 m) r t \<or> \<not> lv t) \<and>
     (\<forall>x. \<not> is_table (read_u64 m') r (page_of x) \<longrightarrow> m' x = m x)"

lemma tree_ext_refl: "pt_wf lv (read_u64 m) r \<Longrightarrow> tree_ext lv m lv m r"
  by (simp add: tree_ext_def)

lemma tree_ext_dest:
  assumes "tree_ext lv m lv' m' r"
  shows "pt_wf lv' (read_u64 m') r" and "lv p \<Longrightarrow> lv' p"
    and "lv' p \<Longrightarrow> lv p \<or> is_table (read_u64 m') r p"
    and "is_table (read_u64 m) r t \<Longrightarrow> is_table (read_u64 m') r t"
    and "is_table (read_u64 m') r t \<Longrightarrow> is_table (read_u64 m) r t \<or> \<not> lv t"
    and "\<not> is_table (read_u64 m') r (page_of x) \<Longrightarrow> m' x = m x"
  using assms by (simp_all add: tree_ext_def)

lemma tree_ext_trans:
  assumes "tree_ext lv m lv' m' r" and "tree_ext lv' m' lv'' m'' r"
  shows "tree_ext lv m lv'' m'' r"
proof -
  note A = tree_ext_dest [OF assms(1)] and B = tree_ext_dest [OF assms(2)]
  show ?thesis
    unfolding tree_ext_def
  proof (intro conjI allI impI)
    show "pt_wf lv'' (read_u64 m'') r" by (rule B(1))
    show "lv'' p" if "lv p" for p using A(2) [OF that] by (rule B(2))
    show "lv p \<or> is_table (read_u64 m'') r p" if "lv'' p" for p
      using B(3) [OF that] A(3) [of p] B(4) [of p] by argo
    show "is_table (read_u64 m'') r t" if "is_table (read_u64 m) r t" for t
      using A(4) [OF that] by (rule B(4))
    show "is_table (read_u64 m) r t \<or> \<not> lv t" if "is_table (read_u64 m'') r t" for t
      using B(5) [OF that] A(5) [of t] A(2) [of t] by argo
    show "m'' x = m x" if "\<not> is_table (read_u64 m'') r (page_of x)" for x
      using B(6) [OF that] A(6) [of x] B(4) [of "page_of x"] that by auto
  qed
qed

lemma tree_ext_wf: "tree_ext lv m lv' m' r \<Longrightarrow> pt_wf lv' (read_u64 m') r"
  by (simp add: tree_ext_def)

lemma is_table_live: "pt_wf lv rd r \<Longrightarrow> is_table rd r t \<Longrightarrow> lv t"
  using pt_wf_dest(1,2,4) unfolding is_table_def by blast

lemma pt_wf_live:
  assumes "pt_wf lv rd r" and "\<And>t. is_table rd r t \<Longrightarrow> lv' t"
  shows "pt_wf lv' rd r"
  by (rule pt_wfI) (use assms(2) pt_wf_dest [OF assms(1)] in \<open>auto simp: is_table_def\<close>)

text \<open>A tree is the same in two memories that agree on its tables.\<close>

lemma tree_same:
  assumes wf: "pt_wf lv (read_u64 m) r" and al: "\<And>t. lv t \<Longrightarrow> page_aligned t"
    and same: "\<And>x. is_table (read_u64 m) r (page_of x) \<Longrightarrow> m' x = m x"
  shows "i < 512 \<Longrightarrow> sub (read_u64 m') r i = sub (read_u64 m) r i"
    and "i < 512 \<Longrightarrow> j < 512 \<Longrightarrow> l1 (read_u64 m') r i j = l1 (read_u64 m) r i j"
    and "pte_of (read_u64 m') r va = pte_of (read_u64 m) r va"
    and "is_table (read_u64 m') r t = is_table (read_u64 m) r t" and "links (read_u64 m') r = links (read_u64 m) r"
proof -
  have tab: "read_u64 m' (entry_at u i) = read_u64 m (entry_at u i)" if "is_table (read_u64 m) r u" "i < 512" for u i
  proof (rule read_u64_cong)
    fix k :: nat assume "k < 8"
    moreover have "page_aligned u" by (rule al [OF is_table_live [OF wf that(1)]])
    ultimately have "page_of (entry_at u i + of_nat k) = u" using that(2) by (simp add: dword_page unat_entry_at)
    then show "m' (entry_at u i + of_nat k) = m (entry_at u i + of_nat k)" using that(1) same by simp
  qed
  have inner: "read_u64 m' (entry_at u i) = read_u64 m (entry_at u i)"
    if "i < 512" "u = r \<or> (\<exists>k<512. sub (read_u64 m) r k = Some u)" for u i
    by (rule tab) (use that in \<open>auto simp: is_table_def\<close>)
  note tc = tree_cong [of r "read_u64 m" "read_u64 m'", OF inner]
  show "links (read_u64 m') r = links (read_u64 m) r" by (rule links_cong [of r "read_u64 m" "read_u64 m'", OF inner])
  show "i < 512 \<Longrightarrow> sub (read_u64 m') r i = sub (read_u64 m) r i"
    "i < 512 \<Longrightarrow> j < 512 \<Longrightarrow> l1 (read_u64 m') r i j = l1 (read_u64 m) r i j" by (rule tc; assumption)+
  show "is_table (read_u64 m') r t = is_table (read_u64 m) r t" by (auto simp: is_table_def tc)
  show "pte_of (read_u64 m') r va = pte_of (read_u64 m) r va"
  proof (cases "l1 (read_u64 m) r (vpn va 2) (vpn va 1)")
    case (Some u)
    then have "is_table (read_u64 m) r u" using vpn_bound by (auto simp: is_table_def)
    then show ?thesis using Some tab vpn_bound by (simp add: pte_of_l1 tc)
  qed (simp add: pte_of_l1 tc vpn_bound)
qed

text \<open>\<open>grows lv m m' r va\<close>: of the tree at \<open>r\<close> only the path of \<open>va\<close> changed. A link that was
  missing on it may lead to a table that was not live, memory changed in the tables on the path
  only, and links stay links.\<close>

definition grows :: "(PhysAddr \<Rightarrow> bool) \<Rightarrow> memory \<Rightarrow> memory \<Rightarrow> PhysAddr \<Rightarrow> VirtAddr \<Rightarrow> bool" where
  "grows lv m m' r va \<longleftrightarrow>
     (\<forall>i < 512. sub (read_u64 m') r i = sub (read_u64 m) r i \<or>
        i = vpn va 2 \<and> sub (read_u64 m) r i = None \<and> (\<exists>p. sub (read_u64 m') r i = Some p \<and> \<not> lv p)) \<and>
     (\<forall>i < 512. \<forall>j < 512. l1 (read_u64 m') r i j = l1 (read_u64 m) r i j \<or>
        i = vpn va 2 \<and> j = vpn va 1 \<and> l1 (read_u64 m) r i j = None \<and> (\<exists>p. l1 (read_u64 m') r i j = Some p \<and> \<not> lv p)) \<and>
     (\<forall>x. page_of x \<noteq> r \<and> sub (read_u64 m') r (vpn va 2) \<noteq> Some (page_of x) \<and>
        l1 (read_u64 m') r (vpn va 2) (vpn va 1) \<noteq> Some (page_of x) \<longrightarrow> m' x = m x) \<and>
     (links (read_u64 m) r \<longrightarrow> links (read_u64 m') r)"

lemma grows_dest:
  assumes "grows lv m m' r va"
  shows "i < 512 \<Longrightarrow> sub (read_u64 m') r i = sub (read_u64 m) r i \<or>
      i = vpn va 2 \<and> sub (read_u64 m) r i = None \<and> (\<exists>p. sub (read_u64 m') r i = Some p \<and> \<not> lv p)"
    and "i < 512 \<Longrightarrow> j < 512 \<Longrightarrow> l1 (read_u64 m') r i j = l1 (read_u64 m) r i j \<or>
      i = vpn va 2 \<and> j = vpn va 1 \<and> l1 (read_u64 m) r i j = None \<and> (\<exists>p. l1 (read_u64 m') r i j = Some p \<and> \<not> lv p)"
    and "page_of x \<noteq> r \<Longrightarrow> sub (read_u64 m') r (vpn va 2) \<noteq> Some (page_of x) \<Longrightarrow>
      l1 (read_u64 m') r (vpn va 2) (vpn va 1) \<noteq> Some (page_of x) \<Longrightarrow> m' x = m x"
    and "links (read_u64 m) r \<Longrightarrow> links (read_u64 m') r"
  using assms unfolding grows_def by blast+

lemma grows_refl: "grows lv m m r va"
  by (simp add: grows_def)

lemma grows_trans:
  assumes A: "grows lv m m' r va" and B: "grows lv' m' m'' r va" and lv: "\<And>p. lv p \<Longrightarrow> lv' p"
  shows "grows lv m m'' r va"
  unfolding grows_def
proof (intro conjI allI impI)
  fix i j x
  show "sub (read_u64 m'') r i = sub (read_u64 m) r i \<or>
      i = vpn va 2 \<and> sub (read_u64 m) r i = None \<and> (\<exists>p. sub (read_u64 m'') r i = Some p \<and> \<not> lv p)" if "i < 512"
    using grows_dest(1) [OF A that] grows_dest(1) [OF B that] lv by auto
  show "l1 (read_u64 m'') r i j = l1 (read_u64 m) r i j \<or>
      i = vpn va 2 \<and> j = vpn va 1 \<and> l1 (read_u64 m) r i j = None \<and> (\<exists>p. l1 (read_u64 m'') r i j = Some p \<and> \<not> lv p)"
    if "i < 512" "j < 512"
    using grows_dest(2) [OF A that] grows_dest(2) [OF B that] lv by auto
  show "m'' x = m x" if "page_of x \<noteq> r \<and> sub (read_u64 m'') r (vpn va 2) \<noteq> Some (page_of x) \<and>
      l1 (read_u64 m'') r (vpn va 2) (vpn va 1) \<noteq> Some (page_of x)"
    using that grows_dest(3) [OF A, of x] grows_dest(3) [OF B, of x] grows_dest(1) [OF B, of "vpn va 2"]
      grows_dest(2) [OF B, of "vpn va 2" "vpn va 1"] vpn_bound by auto
qed (use grows_dest(4) [OF A] grows_dest(4) [OF B] in blast)

lemma linked_mem:
  assumes "\<And>u. lv u \<Longrightarrow> page_aligned u" and "lv t" and "\<not> lv p" and "page_aligned p" and "unat p < 2 ^ 56"
    and "i < 512"
  shows "linked lv (read_u64 m) (read_u64 (write_u64 (write_bytes m p 0 4096) (entry_at t i) (new_table p))) p t i"
    and "page_of x \<noteq> p \<Longrightarrow> page_of x \<noteq> t \<Longrightarrow>
      write_u64 (write_bytes m p 0 4096) (entry_at t i) (new_table p) x = m x"
proof -
  have t: "page_aligned t" "t \<noteq> p" using assms by auto
  have e: "dword_aligned (entry_at t i)" "page_of (entry_at t i) = t"
    using t assms(6) by (simp_all add: unat_entry_at)
  show "linked lv (read_u64 m) (read_u64 (write_u64 (write_bytes m p 0 4096) (entry_at t i) (new_table p))) p t i"
    using assms e t ram.rd_clear_wr [of p "entry_at t i" _ m "new_table p"]
    by (auto simp: linked_def zero_page_def)
  show "page_of x \<noteq> p \<Longrightarrow> page_of x \<noteq> t \<Longrightarrow>
      write_u64 (write_bytes m p 0 4096) (entry_at t i) (new_table p) x = m x"
    using e assms(4) by (simp add: write_u64_outside write_bytes_page)
qed

context frame_source
begin

lemma lives_aligned: "ok s \<Longrightarrow> lives s t \<Longrightarrow> page_aligned t"
  using lives_frame by blast

text \<open>Symbolic execution of one step: \<open>P\<close> collects what the two ways of linking share.\<close>

lemma walk_step_wp:
  assumes "ok s" and "lives s t" and "i < 512"
    and old: "\<And>u. sub (read_u64 (mem s)) t i = Some u \<Longrightarrow> Q (Some u) s"
    and fail: "\<And>s'. sub (read_u64 (mem s)) t i = None \<Longrightarrow> ok s' \<Longrightarrow> mem s' = mem s \<Longrightarrow> lives s' = lives s \<Longrightarrow> Q None s'"
    and new: "\<And>s' p. ok s' \<Longrightarrow> sub (read_u64 (mem s)) t i = None \<Longrightarrow> lives s' = (lives s)(p := True) \<Longrightarrow>
      linked (lives s) (read_u64 (mem s)) (read_u64 (mem s')) p t i \<Longrightarrow>
      (\<And>x. page_of x \<noteq> p \<Longrightarrow> page_of x \<noteq> t \<Longrightarrow> mem s' x = mem s x) \<Longrightarrow> Q (Some p) s'"
  shows "wp (walk_step frame_alloc t i) Q (\<lambda>_ _. False) s"
proof (cases "sub (read_u64 (mem s)) t i")
  case (Some u)
  then show ?thesis
    using old by (auto simp: walk_step_def sub_def Let_def wp_simps split: if_splits)
next
  case None
  let ?e = "entry_at t i"
  have inval: "\<not> is_valid (read_u64 (mem s) ?e)"
    using None by (auto simp: sub_def Let_def split: if_splits)
  have cont: "wp (case r of None \<Rightarrow> ret None
        | Some np \<Rightarrow> kseq (fill_bytes np 0 4096) (kseq (store64 ?e (new_table np))
            (kbind (load64 ?e) (\<lambda>e'. ret (Some (ppn_to_addr e')))))) Q (\<lambda>_ _. False) s1"
    if A: "ok s1 \<and> mem s1 = mem s \<and> (case r of None \<Rightarrow> lives s1 = lives s
         | Some p \<Rightarrow> \<not> lives s p \<and> lives s1 = (lives s)(p := True))" for r s1
  proof (cases r)
    case None
    then show ?thesis using A fail \<open>sub (read_u64 (mem s)) t i = None\<close> by (simp add: wp_simps)
  next
    case (Some p)
    define m where "m = write_u64 (write_bytes (mem s) p 0 4096) ?e (new_table p)"
    have s1: "ok s1" "mem s1 = mem s" "\<not> lives s p" "lives s1 = (lives s)(p := True)"
      using A Some by auto
    then have p: "page_aligned p" "unat p < 2 ^ 56"
      using lives_frame [of s1 p] by auto
    note lk = linked_mem [where lv = "lives s" and m = "mem s", OF lives_aligned [OF assms(1)] assms(2) s1(3) p assms(3),
        folded m_def]
    have "ok (s1\<lparr>mem := m\<rparr>) \<and> lives (s1\<lparr>mem := m\<rparr>) = lives s1"
      by (rule write_live [OF s1(1)]) (use s1 assms(2) lk(2) in \<open>auto split: if_splits\<close>)
    moreover have "ppn_to_addr (read_u64 m ?e) = p"
      using p by (simp add: m_def read_write_u64_same ppn_new_table)
    moreover have "Q (Some p) (s1\<lparr>mem := m\<rparr>)" if "ok (s1\<lparr>mem := m\<rparr>)" "lives (s1\<lparr>mem := m\<rparr>) = lives s1"
      by (rule new) (use that None lk s1 in auto)
    ultimately show ?thesis
      using Some s1(2) by (simp add: wp_simps m_def)
  qed
  show ?thesis
    unfolding walk_step_def Let_def
    using inval wp_mono [OF alloc [OF assms(1)], where Q' = "\<lambda>r. wp (case r of None \<Rightarrow> ret None
        | Some np \<Rightarrow> kseq (fill_bytes np 0 4096) (kseq (store64 ?e (new_table np))
            (kbind (load64 ?e) (\<lambda>e'. ret (Some (ppn_to_addr e')))))) Q (\<lambda>_ _. False)" and R' = "\<lambda>_ _. False"] cont
    by (simp add: wp_simps)
qed

text \<open>What a step guarantees for a table of the tree at \<open>r\<close>: \<open>tgt\<close> is the position of the
  resulting table in the tree.\<close>

lemma walk_root_wp:
  assumes ok: "ok s" and wf: "pt_wf (lives s) (read_u64 (mem s)) r" and i: "i < 512"
  shows "wp (walk_step frame_alloc r i) (\<lambda>res s'. ok s' \<and>
      tree_ext (lives s) (mem s) (lives s') (mem s') r \<and>
      (\<forall>va. pte_of (read_u64 (mem s')) r va = pte_of (read_u64 (mem s)) r va) \<and>
      sub (read_u64 (mem s')) r i = res) (\<lambda>_ _. False) s"
proof (rule walk_step_wp [OF ok pt_wf_dest(1) [OF wf] i])
  fix s' p
  assume s': "ok s'" "sub (read_u64 (mem s)) r i = None" "lives s' = (lives s)(p := True)"
    "linked (lives s) (read_u64 (mem s)) (read_u64 (mem s')) p r i"
    "\<And>x. page_of x \<noteq> p \<Longrightarrow> page_of x \<noteq> r \<Longrightarrow> mem s' x = mem s x"
  note lk = link_root [OF wf s'(4) s'(2)]
  have "tree_ext (lives s) (mem s) (lives s') (mem s') r"
    using lk(1) s'(3,5) s'(4) unfolding tree_ext_def lk(4) by (auto simp: linked_def is_table_def)
  with lk s' show "ok s' \<and> tree_ext (lives s) (mem s) (lives s') (mem s') r \<and>
      (\<forall>va. pte_of (read_u64 (mem s')) r va = pte_of (read_u64 (mem s)) r va) \<and>
      sub (read_u64 (mem s')) r i = Some p" by simp
qed (use ok wf in \<open>auto simp: tree_ext_refl\<close>)

lemma walk_l2_wp:
  assumes ok: "ok s" and wf: "pt_wf (lives s) (read_u64 (mem s)) r" and i: "i < 512" and j: "j < 512"
    and t: "sub (read_u64 (mem s)) r i = Some t"
  shows "wp (walk_step frame_alloc t j) (\<lambda>res s'. ok s' \<and>
      tree_ext (lives s) (mem s) (lives s') (mem s') r \<and>
      (\<forall>va. pte_of (read_u64 (mem s')) r va = pte_of (read_u64 (mem s)) r va) \<and>
      l1 (read_u64 (mem s')) r i j = res) (\<lambda>_ _. False) s"
proof (rule walk_step_wp [OF ok pt_wf_dest(2) [OF wf i t] j])
  fix s' p
  assume s': "ok s'" "sub (read_u64 (mem s)) t j = None" "lives s' = (lives s)(p := True)"
    "linked (lives s) (read_u64 (mem s)) (read_u64 (mem s')) p t j"
    "\<And>x. page_of x \<noteq> p \<Longrightarrow> page_of x \<noteq> t \<Longrightarrow> mem s' x = mem s x"
  note lk = link_l2 [OF wf i t s'(4) s'(2)]
  have "is_table (read_u64 (mem s)) r t" using i t by (auto simp: is_table_def)
  then have "tree_ext (lives s) (mem s) (lives s') (mem s') r"
    using lk(1) s'(3,5) s'(4) unfolding tree_ext_def lk(4) by (auto simp: linked_def)
  with lk s' show "ok s' \<and> tree_ext (lives s) (mem s) (lives s') (mem s') r \<and>
      (\<forall>va. pte_of (read_u64 (mem s')) r va = pte_of (read_u64 (mem s)) r va) \<and>
      l1 (read_u64 (mem s')) r i j = Some p" by simp
qed (use ok wf t in \<open>auto simp: tree_ext_refl l1_def\<close>)

lemma walk_wp:
  assumes ok: "ok s" and wf: "pt_wf (lives s) (read_u64 (mem s)) (root pt)"
  shows "wp (walk frame_alloc pt va) (\<lambda>res s'. ok s' \<and>
      tree_ext (lives s) (mem s) (lives s') (mem s') (root pt) \<and>
      (\<forall>vb. pte_of (read_u64 (mem s')) (root pt) vb = pte_of (read_u64 (mem s)) (root pt) vb) \<and>
      lookup_addr (read_u64 (mem s')) (root pt) va = res) (\<lambda>_ _. False) s"
    (is "wp _ ?Q _ _")
proof -
  let ?ext = "\<lambda>s1. ok s1 \<and> tree_ext (lives s) (mem s) (lives s1) (mem s1) (root pt) \<and>
      (\<forall>vb. pte_of (read_u64 (mem s1)) (root pt) vb = pte_of (read_u64 (mem s)) (root pt) vb)"
  have second: "wp (walk_step frame_alloc t (vpn va 1)) (\<lambda>res s'. ?ext s' \<and>
      l1 (read_u64 (mem s')) (root pt) (vpn va 2) (vpn va 1) = res) (\<lambda>_ _. False) s1"
    if "?ext s1" "sub (read_u64 (mem s1)) (root pt) (vpn va 2) = Some t" for s1 t
    using that
    by (auto intro: wp_mono [OF walk_l2_wp [OF _ tree_ext_wf vpn_bound vpn_bound, of s1 _ _ "root pt" va 2 t]]
        tree_ext_trans)
  have "wp (walk_step frame_alloc (root pt) (vpn va 2)) (\<lambda>res s1. ?ext s1 \<and>
      sub (read_u64 (mem s1)) (root pt) (vpn va 2) = res) (\<lambda>_ _. False) s"
    by (rule wp_mono [OF walk_root_wp [OF ok wf vpn_bound]]) auto
  then show ?thesis
    unfolding walk_def walk_levels.simps wp_kbind
  proof (rule wp_mono)
    fix res s1
    assume A: "?ext s1 \<and> sub (read_u64 (mem s1)) (root pt) (vpn va 2) = res"
    show "wp (case res of None \<Rightarrow> ret None | Some t \<Rightarrow> kbind (walk_step frame_alloc t (vpn va 1))
          (\<lambda>r. case r of None \<Rightarrow> ret None | Some t \<Rightarrow> ret (Some t)))
        (\<lambda>r. wp (ret (map_option (\<lambda>t. entry_at t (vpn va 0)) r)) ?Q (\<lambda>_ _. False)) (\<lambda>_ _. False) s1"
    proof (cases res)
      case (Some t)
      then show ?thesis
        using A by (auto simp: wp_simps lookup_addr_l1 simp del: One_nat_def split: option.splits
            intro!: wp_mono [OF second, of s1 t])
    qed (use A in \<open>simp add: wp_simps lookup_addr_l1 l1_def\<close>)
  qed simp
qed

text \<open>Storing into the leaf entry of a virtual address.\<close>

lemma store_leaf:
  assumes ok: "ok s" and wf: "pt_wf (lives s) (read_u64 (mem s)) r"
    and e: "lookup_addr (read_u64 (mem s)) r va = Some e"
    and s': "s' = s\<lparr>mem := write_u64 (mem s) e v\<rparr>"
  shows "ok s'" and "lives s' = lives s" and "tree_ext (lives s) (mem s) (lives s') (mem s') r"
    and "pte_of (read_u64 (mem s')) r vb = (if same_page va vb then v else pte_of (read_u64 (mem s)) r vb)"
    and "lookup_addr (read_u64 (mem s')) r vb = lookup_addr (read_u64 (mem s)) r vb"
proof -
  obtain t where t: "l1 (read_u64 (mem s)) r (vpn va 2) (vpn va 1) = Some t"
    and et: "e = entry_at t (vpn va 0)"
    using e by (auto simp: lookup_addr_l1)
  have tl: "lives s t" by (rule pt_wf_dest(4) [OF wf vpn_bound vpn_bound t])
  then have ta: "page_aligned t" by (rule lives_aligned [OF ok])
  have tt: "is_table (read_u64 (mem s)) r t"
    using t vpn_bound by (auto simp: is_table_def)
  have ed: "dword_aligned e" "page_of e = t"
    using ta by (simp_all add: et vpn_bound unat_entry_at)
  have out: "mem s' x = mem s x" if "page_of x \<noteq> t" for x
    using that ed by (simp add: s' write_u64_outside)
  have "mem s' x = mem s x" if "\<not> lives s (page_of x)" for x
    using that tl out [of x] by metis
  then have "write_u64 (mem s) e v x = mem s x" if "\<not> lives s (page_of x)" for x
    using that by (simp add: s')
  from write_live [OF ok, OF this] have "ok s' \<and> lives s' = lives s"
    by (simp add: s')
  then show "ok s'" and lv: "lives s' = lives s" by auto
  note w = write_leaf [OF wf lives_aligned [OF ok] t, of "read_u64 (mem s')" v]
  have rd: "read_u64 (mem s') b = (if b = entry_at t (vpn va 0) then v else read_u64 (mem s) b)"
    if "dword_aligned b" for b
    using that ed ram.rd_wr [of e b "mem s" v] by (auto simp: s' et)
  have rd': "read_u64 (mem s') (entry_at u i) = (if entry_at u i = entry_at t (vpn va 0) then v else read_u64 (mem s) (entry_at u i))"
    if "is_table (read_u64 (mem s)) r u" "i < 512" for u i
  proof (rule rd)
    have "lives s u" using that(1) pt_wf_dest(1,2,4) [OF wf] unfolding is_table_def by blast
    then show "dword_aligned (entry_at u i)" using lives_aligned [OF ok] that(2) by simp
  qed
  show "pte_of (read_u64 (mem s')) r vb = (if same_page va vb then v else pte_of (read_u64 (mem s)) r vb)"
    and "lookup_addr (read_u64 (mem s')) r vb = lookup_addr (read_u64 (mem s)) r vb"
    using w rd' by auto
  show "tree_ext (lives s) (mem s) (lives s') (mem s') r"
  proof -
    have "mem s' x = mem s x" if "\<not> is_table (read_u64 (mem s)) r (page_of x)" for x
      using that tt out [of x] by metis
    then show ?thesis
      using w(1,4) rd' lv unfolding tree_ext_def by auto
  qed
qed

lemma map_leaf_wp:
  assumes ok: "ok s" and wf: "pt_wf (lives s) (read_u64 (mem s)) (root pt)"
  shows "wp (map_leaf frame_alloc pt va pa flags cow) (\<lambda>res s'. ok s' \<and>
      tree_ext (lives s) (mem s) (lives s') (mem s') (root pt) \<and>
      (\<forall>vb. pte_of (read_u64 (mem s')) (root pt) vb =
        (if res \<and> same_page va vb
         then (if cow then set_cow (new_leaf pa flags) else new_leaf pa flags)
         else pte_of (read_u64 (mem s)) (root pt) vb))) (\<lambda>_ _. False) s"
    (is "wp _ ?Q _ _")
proof -
  let ?v = "new_leaf pa flags"
  have store: "?Q True s2" if "ok s1" "tree_ext (lives s) (mem s) (lives s1) (mem s1) (root pt)"
    "\<forall>vb. pte_of (read_u64 (mem s1)) (root pt) vb = pte_of (read_u64 (mem s)) (root pt) vb"
    "lookup_addr (read_u64 (mem s1)) (root pt) va = Some e"
    "s2 = s1\<lparr>mem := write_u64 (mem s1) e (if cow then set_cow ?v else ?v)\<rparr>" for s1 s2 e
    using store_leaf [OF that(1) tree_ext_wf [OF that(2)] that(4,5)] that(2,3)
    by (auto intro: tree_ext_trans)
  show ?thesis
    unfolding map_leaf_def wp_kbind
  proof (rule wp_mono [OF walk_wp [OF ok wf]])
    fix res s1
    assume A: "ok s1 \<and> tree_ext (lives s) (mem s) (lives s1) (mem s1) (root pt) \<and>
      (\<forall>vb. pte_of (read_u64 (mem s1)) (root pt) vb = pte_of (read_u64 (mem s)) (root pt) vb) \<and>
      lookup_addr (read_u64 (mem s1)) (root pt) va = res"
    show "wp (case res of Some entry \<Rightarrow> kseq (store64 entry ?v)
         (kseq (if cow then kbind (load64 entry) (\<lambda>e. store64 entry (set_cow e)) else ret ()) (ret True))
       | None \<Rightarrow> ret False) ?Q (\<lambda>_ _. False) s1"
    proof (cases res)
      case (Some e)
      show ?thesis
        using A Some store [of s1 e, OF _ _ _ _ refl]
        by (cases cow) (simp_all add: wp_simps read_write_u64_same write_u64_twice)
    qed (use A in \<open>simp add: wp_simps\<close>)
  qed simp
qed

text \<open>The same routines change nothing off the path of the address.\<close>

lemma walk_root_grows:
  assumes ok: "ok s" and wf: "pt_wf (lives s) (read_u64 (mem s)) r"
  shows "wp (walk_step frame_alloc r (vpn va 2)) (\<lambda>_ s'. grows (lives s) (mem s) (mem s') r va) (\<lambda>_ _. False) s"
proof (rule walk_step_wp [OF ok pt_wf_dest(1) [OF wf] vpn_bound])
  fix s' p
  assume s': "ok s'" "sub (read_u64 (mem s)) r (vpn va 2) = None" "lives s' = (lives s)(p := True)"
    "linked (lives s) (read_u64 (mem s)) (read_u64 (mem s')) p r (vpn va 2)"
    "\<And>x. page_of x \<noteq> p \<Longrightarrow> page_of x \<noteq> r \<Longrightarrow> mem s' x = mem s x"
  note lk = link_root [OF wf s'(4) s'(2)]
  have "\<not> lives s p" using s'(4) by (simp add: linked_def)
  then show "grows (lives s) (mem s) (mem s') r va"
    using s'(2,5) lk(3) by (auto simp: grows_def lk(5-7))
qed (simp_all add: grows_refl)

lemma walk_l2_grows:
  assumes ok: "ok s" and wf: "pt_wf (lives s) (read_u64 (mem s)) r" and t: "sub (read_u64 (mem s)) r (vpn va 2) = Some t"
  shows "wp (walk_step frame_alloc t (vpn va 1)) (\<lambda>_ s'. grows (lives s) (mem s) (mem s') r va) (\<lambda>_ _. False) s"
proof (rule walk_step_wp [OF ok pt_wf_dest(2) [OF wf vpn_bound t] vpn_bound])
  fix s' p
  assume s': "ok s'" "sub (read_u64 (mem s)) t (vpn va 1) = None" "lives s' = (lives s)(p := True)"
    "linked (lives s) (read_u64 (mem s)) (read_u64 (mem s')) p t (vpn va 1)"
    "\<And>x. page_of x \<noteq> p \<Longrightarrow> page_of x \<noteq> t \<Longrightarrow> mem s' x = mem s x"
  note lk = link_l2 [OF wf vpn_bound t s'(4) s'(2)]
  have "\<not> lives s p" using s'(4) by (simp add: linked_def)
  moreover have "l1 (read_u64 (mem s)) r (vpn va 2) (vpn va 1) = None" using t s'(2) by (simp add: l1_def)
  ultimately show "grows (lives s) (mem s) (mem s') r va"
    using s'(5) t lk(3) vpn_bound [of va 2] by (auto simp: grows_def lk(5-7))
qed (simp_all add: grows_refl)

lemma walk_grows:
  assumes ok: "ok s" and wf: "pt_wf (lives s) (read_u64 (mem s)) (root pt)"
  shows "wp (walk frame_alloc pt va) (\<lambda>_ s'. grows (lives s) (mem s) (mem s') (root pt) va) (\<lambda>_ _. False) s"
proof -
  note first = wp_conj [OF walk_root_wp [OF ok wf vpn_bound] walk_root_grows [OF ok wf]]
  have second: "wp (walk_step frame_alloc t (vpn va 1)) (\<lambda>_ s'. grows (lives s) (mem s) (mem s') (root pt) va) (\<lambda>_ _. False) s1"
    if "ok s1" "tree_ext (lives s) (mem s) (lives s1) (mem s1) (root pt)" "grows (lives s) (mem s) (mem s1) (root pt) va"
      "sub (read_u64 (mem s1)) (root pt) (vpn va 2) = Some t" for s1 t
    by (rule wp_mono [OF walk_l2_grows [OF that(1) tree_ext_wf [OF that(2)] that(4)]])
      (blast intro: grows_trans [OF that(3)] tree_ext_dest(2) [OF that(2)])+
  show ?thesis
    unfolding walk_def walk_levels.simps wp_kbind
    by (rule wp_mono [OF first])
      (auto simp: wp_simps simp del: One_nat_def split: option.splits intro!: wp_mono [OF second])
qed

lemma store_grows:
  assumes ok: "ok s" and wf: "pt_wf (lives s) (read_u64 (mem s)) r"
    and e: "lookup_addr (read_u64 (mem s)) r va = Some e"
  shows "grows (lives s) (mem s) (write_u64 (mem s) e v) r va"
proof -
  obtain t where t: "l1 (read_u64 (mem s)) r (vpn va 2) (vpn va 1) = Some t" "e = entry_at t (vpn va 0)"
    using e by (auto simp: lookup_addr_l1)
  have ta: "page_aligned t" using t(1) by (rule l1_aligned)
  then have ed: "dword_aligned e" "page_of e = t" by (simp_all add: t(2) vpn_bound unat_entry_at)
  have w: "read_u64 (write_u64 (mem s) e v) (entry_at u i) =
      (if entry_at u i = entry_at t (vpn va 0) then v else read_u64 (mem s) (entry_at u i))"
    if "is_table (read_u64 (mem s)) r u" "i < 512" for u i
    using lives_aligned [OF ok is_table_live [OF wf that(1)]] that(2) ed ram.rd_wr [of e "entry_at u i" "mem s" v] t(2)
    by simp
  note wl = write_leaf(5-7) [OF wf lives_aligned [OF ok] t(1) w]
  have "write_u64 (mem s) e v x = mem s x" if "page_of x \<noteq> t" for x
    using that ed by (simp add: write_u64_outside)
  then show ?thesis using t(1) vpn_bound by (auto simp: grows_def wl)
qed

lemma map_leaf_grows:
  assumes ok: "ok s" and wf: "pt_wf (lives s) (read_u64 (mem s)) (root pt)"
  shows "wp (map_leaf frame_alloc pt va pa flags cow) (\<lambda>_ s'. grows (lives s) (mem s) (mem s') (root pt) va) (\<lambda>_ _. False) s"
  unfolding map_leaf_def wp_kbind
proof (rule wp_mono [OF wp_conj [OF walk_wp [OF ok wf] walk_grows [OF ok wf]]])
  fix res s1
  assume A: "(ok s1 \<and> tree_ext (lives s) (mem s) (lives s1) (mem s1) (root pt) \<and>
      (\<forall>vb. pte_of (read_u64 (mem s1)) (root pt) vb = pte_of (read_u64 (mem s)) (root pt) vb) \<and>
      lookup_addr (read_u64 (mem s1)) (root pt) va = res) \<and> grows (lives s) (mem s) (mem s1) (root pt) va"
  have st: "grows (lives s) (mem s) (write_u64 (mem s1) e v) (root pt) va" if "res = Some e" for e v
  proof (rule grows_trans)
    show "grows (lives s1) (mem s1) (write_u64 (mem s1) e v) (root pt) va"
      using A that by (intro store_grows) (auto dest: tree_ext_wf)
  qed (use A tree_ext_dest(2) in \<open>blast+\<close>)
  show "wp (case res of Some entry \<Rightarrow> kseq (store64 entry (new_leaf pa flags))
         (kseq (if cow then kbind (load64 entry) (\<lambda>e. store64 entry (set_cow e)) else ret ()) (ret True))
       | None \<Rightarrow> ret False) (\<lambda>_ s'. grows (lives s) (mem s) (mem s') (root pt) va) (\<lambda>_ _. False) s1"
    using A st by (cases res) (auto simp: wp_simps write_u64_twice)
qed simp

lemma unmap_wp:
  assumes ok: "ok s" and wf: "pt_wf (lives s) (read_u64 (mem s)) (root pt)"
  shows "wp (unmap frame_alloc pt va) (\<lambda>_ s'. ok s' \<and>
      tree_ext (lives s) (mem s) (lives s') (mem s') (root pt) \<and>
      (\<forall>vb. pte_of (read_u64 (mem s')) (root pt) vb =
        (if same_page va vb then 0 else pte_of (read_u64 (mem s)) (root pt) vb))) (\<lambda>_ _. False) s"
    (is "wp _ ?Q _ _")
  unfolding unmap_def wp_kbind
proof (rule wp_mono [OF walk_wp [OF ok wf]])
  fix res s1
  assume A: "ok s1 \<and> tree_ext (lives s) (mem s) (lives s1) (mem s1) (root pt) \<and>
      (\<forall>vb. pte_of (read_u64 (mem s1)) (root pt) vb = pte_of (read_u64 (mem s)) (root pt) vb) \<and>
      lookup_addr (read_u64 (mem s1)) (root pt) va = res"
  show "wp (case res of Some entry \<Rightarrow> store64 entry pte_empty | None \<Rightarrow> ret ()) ?Q (\<lambda>_ _. False) s1"
  proof (cases res)
    case None
    have "pte_of (read_u64 (mem s1)) (root pt) vb = 0" if "same_page va vb" for vb
      using A None that by (simp add: pte_of_def lookup_addr_l1 same_page_def)
    with A None show ?thesis by (auto simp: wp_simps)
  next
    case (Some e)
    let ?s2 = "s1\<lparr>mem := write_u64 (mem s1) e pte_empty\<rparr>"
    have "lookup_addr (read_u64 (mem s1)) (root pt) va = Some e" using A Some by simp
    note st = store_leaf [OF _ tree_ext_wf this refl, of _ _ pte_empty]
    have "?Q () ?s2"
      using A st(1,3,4) tree_ext_trans [of _ _ "lives s1" "mem s1"] by (auto simp: pte_empty_def)
    with Some show ?thesis by (simp add: wp_simps)
  qed
qed simp

end

text \<open>Nothing but memory and the allocator changes.\<close>

context state_frame
begin

lemma walk_step_rest: "keeps rest (walk_step frame_alloc t i)"
  unfolding walk_step_def by (intro keeps_intros memory_rest alloc_rest)

lemma walk_levels_rest: "keeps rest (walk_levels frame_alloc va ls t)"
  by (induction ls arbitrary: t) (auto intro!: keeps_intros walk_step_rest)

lemma walk_rest: "keeps rest (walk frame_alloc pt va)"
  unfolding walk_def by (intro keeps_intros walk_levels_rest)

lemma map_leaf_rest: "keeps rest (map_leaf frame_alloc pt va pa flags cow)"
  unfolding map_leaf_def by (intro keeps_intros memory_rest walk_rest)

lemma map_rest:
  "keeps rest (map_page frame_alloc pt va pa flags)" "keeps rest (map_cow frame_alloc pt va pa flags)"
  unfolding map_page_def map_cow_def by (rule map_leaf_rest)+

lemma lookup_rest: "keeps rest (lookup pt va)"
  unfolding lookup_def by (rule keeps_gets)

lemma for_each_leaf_rest: "(\<And>va e. keeps rest (f va e)) \<Longrightarrow> keeps rest (for_each_leaf pt a b f)"
  unfolding for_each_leaf_def by (intro keeps_intros memory_rest)

lemma identity_map_rest: "keeps rest (identity_map frame_alloc pt flags pa fin)"
proof (induction "unat fin - unat pa" arbitrary: pa rule: less_induct)
  case less
  have "keeps rest (identity_map frame_alloc pt flags (pa + 4096) fin)" if "pa < fin" "\<not> add_overflows pa 4096"
    by (rule less) (use that in \<open>simp add: unat_add_no_overflow word_less_nat_alt\<close>)
  then show ?case
    by (subst identity_map.simps) (auto intro!: keeps_intros map_rest)
qed

end

declare knext.map_rest [keeps_intros] and knext.lookup_rest [keeps_intros] and knext.for_each_leaf_rest [keeps_intros]

text \<open>With enough frames a walk succeeds: it needs one frame per missing table.\<close>

definition missing :: "(usize \<Rightarrow> u64) \<Rightarrow> PhysAddr \<Rightarrow> VirtAddr \<Rightarrow> nat" where
  "missing rd r va = (case sub rd r (vpn va 2) of None \<Rightarrow> 2
     | Some t \<Rightarrow> (case sub rd t (vpn va 1) of None \<Rightarrow> 1 | Some u \<Rightarrow> 0))"

context counted_frame_source
begin

lemma walk_step_has:
  assumes h: "has (k + (if sub (read_u64 (mem s)) t i = None then 1 else 0)) s" and t: "lives s t" and i: "i < 512"
  shows "wp (walk_step frame_alloc t i) (\<lambda>r s'. r \<noteq> None \<and> has k s' \<and>
      (\<forall>u. sub (read_u64 (mem s)) t i = Some u \<longrightarrow> r = Some u \<and> s' = s)) (\<lambda>_ _. False) s"
proof (cases "sub (read_u64 (mem s)) t i")
  case (Some u)
  then show ?thesis
    using h by (auto simp: walk_step_def sub_def Let_def wp_simps split: if_splits)
next
  case None
  let ?e = "entry_at t i"
  have inval: "\<not> is_valid (read_u64 (mem s) ?e)"
    using None by (auto simp: sub_def Let_def split: if_splits)
  have h': "has (Suc k) s" using h None by simp
  have ta: "page_aligned t" by (rule lives_aligned [OF has_ok [OF h'] t])
  have cont: "wp (case r of None \<Rightarrow> ret None
        | Some np \<Rightarrow> kseq (fill_bytes np 0 4096) (kseq (store64 ?e (new_table np))
            (kbind (load64 ?e) (\<lambda>e'. ret (Some (ppn_to_addr e'))))))
      (\<lambda>r s'. r \<noteq> None \<and> has k s' \<and> (\<forall>u. sub (read_u64 (mem s)) t i = Some u \<longrightarrow> r = Some u \<and> s' = s))
      (\<lambda>_ _. False) s1"
    if A: "(r \<noteq> None \<and> has k s1) \<and> ok s1 \<and> mem s1 = mem s \<and> (case r of None \<Rightarrow> lives s1 = lives s
         | Some p \<Rightarrow> \<not> lives s p \<and> lives s1 = (lives s)(p := True))" for r s1
  proof -
    obtain p where r: "r = Some p" and p: "lives s1 p" "lives s1 t" "ok s1" "has k s1"
      using A t by auto
    have pa: "page_aligned p" by (rule lives_aligned [OF p(3,1)])
    have "write_u64 (write_bytes (mem s1) p 0 4096) ?e (new_table p) x = mem s1 x"
      if "\<not> lives s1 (page_of x)" for x
    proof -
      have "page_of x \<noteq> p" "page_of x \<noteq> t" using that p by auto
      then show ?thesis
        using ta pa i by (simp add: write_u64_outside write_bytes_page unat_entry_at)
    qed
    from has_write [OF p(4) this] r None show ?thesis by (simp add: wp_simps)
  qed
  show ?thesis
    unfolding walk_step_def Let_def
    using inval wp_mono [OF wp_conj [OF has_alloc [OF h'] alloc [OF has_ok [OF h']]], OF cont]
    by (simp add: wp_simps)
qed

lemma walk_has:
  assumes h: "has (k + missing (read_u64 (mem s)) (root pt) va) s"
    and wf: "pt_wf (lives s) (read_u64 (mem s)) (root pt)"
  shows "wp (walk frame_alloc pt va) (\<lambda>r s'. r \<noteq> None \<and> has k s') (\<lambda>_ _. False) s"
proof -
  let ?r = "root pt" and ?rd = "\<lambda>s. read_u64 (mem s)" and ?i = "vpn va 2" and ?j = "vpn va 1"
  define k1 where "k1 = (case sub (?rd s) ?r ?i of None \<Rightarrow> k + 1
     | Some t \<Rightarrow> k + (if sub (?rd s) t ?j = None then 1 else 0))"
  have "has (k1 + (if sub (?rd s) ?r ?i = None then 1 else 0)) s"
    using h by (auto simp: k1_def missing_def split: option.splits)
  note first = wp_conj [OF walk_step_has [OF this pt_wf_dest(1) [OF wf] vpn_bound]
      walk_root_wp [OF has_ok [OF h] wf vpn_bound]]
  have second: "wp (walk_step frame_alloc t ?j) (\<lambda>r s'. r \<noteq> None \<and> has k s') (\<lambda>_ _. False) s1"
    if "has k1 s1" "pt_wf (lives s1) (?rd s1) ?r" "sub (?rd s1) ?r ?i = Some t"
      "\<And>u. sub (?rd s) ?r ?i = Some u \<Longrightarrow> s1 = s" for s1 t
  proof -
    have "has (k + (if sub (?rd s1) t ?j = None then 1 else 0)) s1"
      using that by (cases "sub (?rd s) ?r ?i") (auto simp: k1_def intro: has_weaken)
    from walk_step_has [OF this pt_wf_dest(2) [OF that(2) vpn_bound that(3)] vpn_bound] show ?thesis
      by (rule wp_mono) auto
  qed
  show ?thesis
    unfolding walk_def walk_levels.simps wp_kbind
    by (rule wp_mono [OF first])
      (auto simp: wp_simps simp del: One_nat_def split: option.splits dest: tree_ext_wf
        intro!: wp_mono [OF second])
qed

lemma map_leaf_has:
  assumes h: "has (k + missing (read_u64 (mem s)) (root pt) va) s"
    and wf: "pt_wf (lives s) (read_u64 (mem s)) (root pt)"
  shows "wp (map_leaf frame_alloc pt va pa flags cow) (\<lambda>r s'. r \<and> has k s') (\<lambda>_ _. False) s"
  unfolding map_leaf_def wp_kbind
proof (rule wp_mono [OF wp_conj [OF walk_has [OF h wf] walk_wp [OF has_ok [OF h] wf]]])
  fix res s1
  assume A: "(res \<noteq> None \<and> has k s1) \<and> ok s1 \<and> tree_ext (lives s) (mem s) (lives s1) (mem s1) (root pt) \<and>
      (\<forall>vb. pte_of (read_u64 (mem s1)) (root pt) vb = pte_of (read_u64 (mem s)) (root pt) vb) \<and>
      lookup_addr (read_u64 (mem s1)) (root pt) va = res"
  then obtain e t where e: "res = Some e" "l1 (read_u64 (mem s1)) (root pt) (vpn va 2) (vpn va 1) = Some t"
    "e = entry_at t (vpn va 0)"
    by (auto simp: lookup_addr_l1)
  have wf1: "pt_wf (lives s1) (read_u64 (mem s1)) (root pt)" using A tree_ext_wf by blast
  have tl: "lives s1 t" by (rule pt_wf_dest(4) [OF wf1 vpn_bound vpn_bound e(2)])
  then have ta: "page_aligned t" using A lives_aligned by blast
  have keep: "has k (s1\<lparr>mem := write_u64 (mem s1) e v\<rparr>)" for v
  proof (rule has_write)
    fix x assume "\<not> lives s1 (page_of x)"
    then have "page_of x \<noteq> t" using tl by auto
    then show "write_u64 (mem s1) e v x = mem s1 x"
      using ta by (simp add: e(3) write_u64_outside vpn_bound unat_entry_at)
  qed (use A in simp)
  show "wp (case res of Some entry \<Rightarrow> kseq (store64 entry (new_leaf pa flags))
         (kseq (if cow then kbind (load64 entry) (\<lambda>e. store64 entry (set_cow e)) else ret ()) (ret True))
       | None \<Rightarrow> ret False) (\<lambda>r s'. r \<and> has k s') (\<lambda>_ _. False) s1"
    using keep by (simp add: e(1) wp_simps write_u64_twice)
qed simp

end

section \<open>The identity map\<close>

lemma pt_wf_blank:
  assumes "lv r" and "\<And>i. i < 512 \<Longrightarrow> rd (entry_at r i) = 0"
  shows "pt_wf lv rd r"
proof -
  have "sub rd r i = None" "l1 rd r i j = None" if "i < 512" for i j
    using assms(2) [OF that] by (simp_all add: sub_def l1_def)
  then show ?thesis
    using assms(1) by (intro pt_wfI) auto
qed

text \<open>What the identity map of RAM below \<open>pa\<close> looks like, and nothing else mapped.\<close>

definition identity_below :: "PTEFlags \<Rightarrow> (VirtAddr \<Rightarrow> PTEntry) \<Rightarrow> PhysAddr \<Rightarrow> bool" where
  "identity_below flags pte pa \<longleftrightarrow>
     (\<forall>va. is_managed va \<and> va < pa \<longrightarrow> pte va = new_leaf (page_of va) flags) \<and>
     (\<forall>va. (\<forall>q. is_managed q \<and> q < pa \<longrightarrow> \<not> same_page q va) \<longrightarrow> pte va = 0)"

lemma identity_below_step:
  assumes I: "identity_below flags pte pa" and pa: "frame_ok pa"
    and upd: "\<And>vb. pte' vb = (if same_page pa vb then new_leaf pa flags else pte vb)"
    and suc: "unat pa' = unat pa + 4096"
  shows "identity_below flags pte' pa'"
  unfolding identity_below_def
proof (intro conjI allI impI)
  have al: "page_aligned pa" "is_managed pa" using pa by (auto simp: frame_ok_def)
  have b: "unat va < 2 ^ 39" if "is_managed va" for va using that by (simp add: is_managed_unat)
  fix va
  {
    assume va: "is_managed va \<and> va < pa'"
    have sp: "same_page pa va \<longleftrightarrow> page_of va = pa"
      using same_page_iff [OF b b] va al by (auto simp: page_of_id)
    show "pte' va = new_leaf (page_of va) flags"
    proof (cases "page_of va = pa")
      case True
      then show ?thesis using sp by (simp add: upd)
    next
      case False
      have "va < pa"
      proof (rule ccontr)
        assume "\<not> va < pa"
        then have "unat pa \<le> unat va" "unat va < unat pa + 4096"
          using va suc by (simp_all add: word_less_nat_alt)
        moreover obtain k where "unat pa = 4096 * k"
          using al by (auto simp: page_aligned_iff_dvd elim!: dvdE)
        ultimately have "unat va div 4096 = unat pa div 4096" by simp
        then show False using False al by (metis page_of_eq_iff page_of_id)
      qed
      then show ?thesis using va I False sp by (simp add: upd identity_below_def)
    qed
  next
    assume none: "\<forall>q. is_managed q \<and> q < pa' \<longrightarrow> \<not> same_page q va"
    have "pa < pa'" by (simp add: word_less_nat_alt suc)
    then have "\<not> same_page pa va" using none al by blast
    moreover have "\<not> same_page q va" if "is_managed q \<and> q < pa" for q
      using none that order.strict_trans [OF _ \<open>pa < pa'\<close>, of q] by simp
    then have "pte va = 0" using I by (simp add: identity_below_def)
    ultimately show "pte' va = 0" by (simp add: upd)
  }
qed

lemma region_step:
  fixes a :: nat
  assumes "0x80000000 \<le> a" "a < 0x88000000" "4096 dvd a"
  shows "(0x88000000 - (a + 4096)) div 0x200000 + (if 0x200000 dvd a then 1 else 0)
     = (0x88000000 - a) div 0x200000"
proof -
  obtain k where a: "a = 4096 * k" using assms(3) by (elim dvdE)
  have "k < 0x88000" using assms(2) a by simp
  then obtain n where kn: "k + n = 0x88000" and n: "0 < n"
    by (metis add.commute less_imp_add_positive)
  have "4096 * k + 4096 * n = 0x88000000" using kn by simp
  then have an: "a + 4096 * n = 0x88000000" using a by simp
  then have "(0x88000000 - a) = 4096 * n" by simp
  moreover have "0x88000000 - (a + 4096) = 4096 * (n - 1)" using an n by (cases n) auto
  moreover have "0x200000 dvd a \<longleftrightarrow> 512 dvd n"
  proof -
    have "0x200000 dvd a + 4096 * n" by (simp only: an) simp
    then have "0x200000 dvd a \<longleftrightarrow> 0x200000 dvd 4096 * n"
      using dvd_add_left_iff dvd_add_right_iff by blast
    also have "\<dots> \<longleftrightarrow> 4096 * 512 dvd 4096 * n" by simp
    also have "\<dots> \<longleftrightarrow> 512 dvd n" by (simp only: nat_mult_dvd_cancel1)
    finally show ?thesis .
  qed
  moreover have "(n - 1) div 512 + (if 512 dvd n then 1 else 0) = n div 512"
  proof (cases n)
    case (Suc m)
    then show ?thesis by (auto simp: div_Suc dvd_eq_mod_eq_0)
  qed (use n in simp)
  ultimately show ?thesis
    by (simp add: div_mult2_eq)
qed


text \<open>A page whose predecessor is mapped needs a new table only at the start of a two-megabyte
  region, and never a new middle table inside RAM.\<close>

lemma missing_next:
  assumes "pte_of rd r (pa - 4096) \<noteq> 0" and "frame_ok pa" and "RAM_BASE < pa"
  shows "missing rd r pa \<le> (if 0x200000 dvd unat pa then 1 else 0)"
proof -
  have al: "page_aligned pa" "is_managed pa" using assms(2) by (auto simp: frame_ok_def)
  have b: "0x80000000 < unat pa" "unat pa < 0x88000000"
    using al assms(3) by (simp_all add: is_managed_unat word_less_nat_alt RAM_BASE_def)
  obtain k where k: "unat pa = 4096 * k" using al by (auto simp: page_aligned_iff_dvd elim!: dvdE)
  have le: "4096 \<le> pa" using b by (simp add: word_le_nat_alt)
  have u: "unat (pa - 4096) = 4096 * (k - 1)"
    using le k by (simp add: unat_sub diff_mult_distrib2)
  have kb: "0x80000 < k" "k < 0x88000" using b k by auto
  have d2: "(k - 1) div 512 div 512 = 2" "k div 512 div 512 = 2"
    using kb by (simp_all add: div_mult2_eq [symmetric] div_nat_eqI)
  have v2: "vpn (pa - 4096) 2 = vpn pa 2"
    using d2 by (simp add: word_unat_eq_iff vpn_digits u k)
  have v1: "vpn (pa - 4096) 1 = vpn pa 1" if "\<not> 0x200000 dvd unat pa"
  proof -
    have nd: "\<not> 512 dvd k" using that k mult_dvd_mono [of 4096 4096 512 k] by auto
    have "k = Suc (k - 1)" using kb by simp
    then have "k div 512 = (k - 1) div 512"
      using nd by (metis div_Suc dvd_eq_mod_eq_0)
    then show ?thesis by (simp only: word_unat_eq_iff vpn_digits u k) simp
  qed
  obtain t where t: "l1 rd r (vpn (pa - 4096) 2) (vpn (pa - 4096) 1) = Some t"
    using assms(1) by (auto simp: pte_of_l1 split: option.splits)
  then obtain m where m: "sub rd r (vpn pa 2) = Some m" "sub rd m (vpn (pa - 4096) 1) = Some t"
    by (auto simp: l1_def v2 bind_eq_Some_conv)
  then show ?thesis
    using v1 by (cases "0x200000 dvd unat pa") (auto simp: missing_def split: option.splits)
qed

context counted_frame_source
begin

lemma identity_map_wp:
  assumes "pt_wf (lives s) (read_u64 (mem s)) (root pt)" and "page_aligned pa" and "RAM_BASE \<le> pa" and "unat pa \<le> 0x88000000"
    and "has ((0x88000000 - unat pa) div 0x200000 + (if pa = RAM_BASE then 1 else 0)) s"
    and "identity_below flags (pte_of (read_u64 (mem s)) (root pt)) pa" and "bit flags 0"
  shows "wp (identity_map frame_alloc pt flags pa (RAM_BASE + RAM_SIZE)) (\<lambda>_ s'. ok s' \<and>
      pt_wf (lives s') (read_u64 (mem s')) (root pt) \<and>
      identity_below flags (pte_of (read_u64 (mem s')) (root pt)) (RAM_BASE + RAM_SIZE)) (\<lambda>_ _. False) s"
  using assms
proof (induction "0x88000000 - unat pa" arbitrary: pa s rule: less_induct)
  case less
  let ?pte = "\<lambda>s. pte_of (read_u64 (mem s)) (root pt)"
  show ?case
  proof (cases "pa < RAM_BASE + RAM_SIZE")
    case False
    have "pa = RAM_BASE + RAM_SIZE"
      using False less.prems(4) by (simp add: word_less_nat_alt word_unat_eq_iff RAM_END)
    then have "identity_below flags (?pte s) (RAM_BASE + RAM_SIZE)" using less.prems(6) by simp
    then show ?thesis
      using False less.prems(1) has_ok [OF less.prems(5)]
      by (subst identity_map.simps) (simp add: wp_simps)
  next
    case True
    have ok: "frame_ok pa" using less.prems(2,3) True by (simp add: frame_ok_def is_managed_def)
    have b: "0x80000000 \<le> unat pa" "unat pa < 0x88000000" "4096 dvd unat pa"
      using ok by (auto simp: frame_ok_def is_managed_unat page_aligned_iff_dvd)
    have nov: "\<not> add_overflows pa 4096" using b by (simp add: add_overflows_def)
    then have suc: "unat (pa + 4096) = unat pa + 4096" by (simp add: unat_add_no_overflow)
    define k where "k = (0x88000000 - unat (pa + 4096)) div 0x200000"
    have miss: "missing (read_u64 (mem s)) (root pt) pa
        \<le> (if 0x200000 dvd unat pa then 1 else 0) + (if pa = RAM_BASE then 1 else 0)"
    proof (cases "pa = RAM_BASE")
      case True
      then show ?thesis by (auto simp: missing_def RAM_BASE_def split: option.splits)
    next
      case False
      then have lt: "RAM_BASE < pa" using less.prems(3) by simp
      have p1: "unat (pa - 4096) = unat pa - 4096" using b by (simp add: unat_sub word_le_nat_alt)
      have "0x80001000 \<le> unat pa"
        using lt b(3) by (auto simp: word_less_nat_alt RAM_BASE_def elim!: dvdE)
      then have "is_managed (pa - 4096)" using b unfolding is_managed_unat p1 by linarith
      moreover have "pa - 4096 < pa" using b(1) by (simp add: word_less_nat_alt p1)
      ultimately have "?pte s (pa - 4096) = new_leaf (page_of (pa - 4096)) flags"
        using less.prems(6) by (simp add: identity_below_def)
      then have "bit (?pte s (pa - 4096)) 0" using less.prems(7) by (simp add: bit_new_leaf)
      then have "?pte s (pa - 4096) \<noteq> 0" by auto
      from missing_next [OF this ok lt] show ?thesis by simp
    qed
    have h: "has (k + missing (read_u64 (mem s)) (root pt) pa) s"
    proof (rule has_weaken [OF less.prems(5)])
      show "k + missing (read_u64 (mem s)) (root pt) pa
          \<le> (0x88000000 - unat pa) div 0x200000 + (if pa = RAM_BASE then 1 else 0)"
        using region_step [OF b] miss by (simp add: k_def suc)
    qed
    have next_ne: "pa + 4096 \<noteq> RAM_BASE" using b suc by (auto simp: RAM_BASE_def)
    have rec: "wp (identity_map frame_alloc pt flags (pa + 4096) (RAM_BASE + RAM_SIZE)) (\<lambda>_ s'. ok s' \<and>
        pt_wf (lives s') (read_u64 (mem s')) (root pt) \<and>
        identity_below flags (?pte s') (RAM_BASE + RAM_SIZE)) (\<lambda>_ _. False) s1"
      if A: "(r \<and> has k s1) \<and> ok s1 \<and> tree_ext (lives s) (mem s) (lives s1) (mem s1) (root pt) \<and>
        (\<forall>vb. ?pte s1 vb = (if r \<and> same_page pa vb then (if False then set_cow (new_leaf pa flags) else new_leaf pa flags)
           else ?pte s vb))" for r s1
    proof (rule less.hyps)
      show "0x88000000 - unat (pa + 4096) < 0x88000000 - unat pa" using b suc by simp
      show "pt_wf (lives s1) (read_u64 (mem s1)) (root pt)" using A tree_ext_wf by blast
      show "page_aligned (pa + 4096)" using b(3) suc by (simp add: page_aligned_iff_dvd)
      show "RAM_BASE \<le> pa + 4096" using b suc by (simp add: word_le_nat_alt RAM_BASE_def)
      show "unat (pa + 4096) \<le> 0x88000000" using b suc by (auto elim!: dvdE)
      show "has ((0x88000000 - unat (pa + 4096)) div 0x200000 + (if pa + 4096 = RAM_BASE then 1 else 0)) s1"
        using A next_ne by (simp add: k_def)
      show "identity_below flags (?pte s1) (pa + 4096)"
        by (rule identity_below_step [OF less.prems(6) ok _ suc]) (use A in simp)
    qed (rule less.prems(7))
    note both = wp_conj [OF map_leaf_has [OF h less.prems(1), where pa = pa and flags = flags and cow = False]
        map_leaf_wp [OF has_ok [OF h] less.prems(1), where pa = pa and flags = flags and cow = False and va = pa]]
    have "wp (map_page frame_alloc pt pa pa flags) (\<lambda>_. wp (identity_map frame_alloc pt flags (pa + 4096)
        (RAM_BASE + RAM_SIZE)) (\<lambda>_ s'. ok s' \<and> pt_wf (lives s') (read_u64 (mem s')) (root pt) \<and>
          identity_below flags (?pte s') (RAM_BASE + RAM_SIZE)) (\<lambda>_ _. False)) (\<lambda>_ _. False) s"
      unfolding map_page_def by (rule wp_mono [OF both]) (rule rec, assumption, simp)
    then show ?thesis
      using True nov by (simp add: identity_map.simps [of _ _ _ pa] wp_simps)
  qed
qed

lemma init_kernel_wp:
  assumes h: "has 66 s"
  shows "wp (init_kernel RAM_BASE kernel_end frame_alloc) (\<lambda>(pt, v) s'. v = satp_val pt \<and> ok s' \<and>
      pt_wf (lives s') (read_u64 (mem s')) (root pt) \<and>
      identity_below (PTEFlags_new True True True False) (pte_of (read_u64 (mem s')) (root pt))
        (RAM_BASE + RAM_SIZE)) (\<lambda>_ _. False) s" (is "wp _ ?Q _ _")
proof -
  let ?fl = "PTEFlags_new True True True False"
  have h': "has (Suc 65) s" using h by simp
  have nov: "\<not> add_overflows RAM_BASE RAM_SIZE" by (simp add: add_overflows_def RAM_BASE_def RAM_SIZE_def)
  have cont: "wp (kbind (expect ''no frame for root page table'' r) (\<lambda>rt. kseq (fill_bytes rt 0 4096)
      (let pt = \<lparr>root = rt\<rparr>; flags = ?fl in kbind (uadd RAM_BASE RAM_SIZE) (\<lambda>ram_end.
        kseq (identity_map frame_alloc pt flags RAM_BASE ram_end) (ret (pt, satp_val pt)))))) ?Q (\<lambda>_ _. False) s1"
    if A: "(r \<noteq> None \<and> has 65 s1) \<and> ok s1 \<and> mem s1 = mem s \<and> (case r of None \<Rightarrow> lives s1 = lives s
         | Some p \<Rightarrow> \<not> lives s p \<and> lives s1 = (lives s)(p := True))" for r s1
  proof -
    obtain p where r: "r = Some p" and p: "lives s1 p" "ok s1" "has 65 s1" using A by auto
    have pa: "page_aligned p" by (rule lives_aligned [OF p(2,1)])
    let ?s2 = "s1\<lparr>mem := write_bytes (mem s1) p 0 4096\<rparr>"
    have blank: "read_u64 (mem ?s2) (entry_at p i) = 0" if "i < 512" for i
      using read_zero_page [OF pa, of "entry_at p i" "mem s1"] pa that by (simp add: zero_page_def unat_entry_at)
    have out: "write_bytes (mem s1) p 0 4096 x = mem s1 x" if "\<not> lives s1 (page_of x)" for x
      using that p(1) pa by (auto simp: write_bytes_page)
    have wf: "pt_wf (lives ?s2) (read_u64 (mem ?s2)) (root \<lparr>root = p\<rparr>)"
      using write_live [OF p(2) out] p(1) blank by (auto intro!: pt_wf_blank)
    have none: "sub (read_u64 (mem ?s2)) p i = None" if "i < 512" for i
      using blank [OF that] by (simp add: sub_def)
    have "has ((0x88000000 - unat RAM_BASE) div 0x200000 + (if RAM_BASE = RAM_BASE then 1 else 0)) ?s2"
      using has_write [OF p(3) out] by (simp add: RAM_BASE_def)
    moreover have "identity_below ?fl (pte_of (read_u64 (mem ?s2)) (root \<lparr>root = p\<rparr>)) RAM_BASE"
      using none [OF vpn_bound] by (auto simp: identity_below_def pte_of_l1 l1_def is_managed_def)
    moreover have "bit ?fl 0" by (simp add: bit_PTEFlags_new)
    ultimately have "wp (identity_map frame_alloc \<lparr>root = p\<rparr> ?fl RAM_BASE (RAM_BASE + RAM_SIZE))
       (\<lambda>_ s'. ok s' \<and> pt_wf (lives s') (read_u64 (mem s')) (root \<lparr>root = p\<rparr>) \<and>
          identity_below ?fl (pte_of (read_u64 (mem s')) (root \<lparr>root = p\<rparr>)) (RAM_BASE + RAM_SIZE)) (\<lambda>_ _. False) ?s2"
      by (intro identity_map_wp [OF wf]) (simp_all add: RAM_BASE_def page_aligned_def)
    then show ?thesis using nov by (auto simp: r wp_simps Let_def elim!: wp_mono)
  qed
  show ?thesis
    unfolding init_kernel_def wp_kbind [of frame_alloc]
    by (rule wp_mono [OF wp_conj [OF has_alloc [OF h'] alloc [OF has_ok [OF h']]]]) (rule cont, assumption, simp)
qed

end

section \<open>Properties of the page table\<close>

text \<open>A blank page table in the allocator state \<open>frames1\<close>, for the witnesses.\<close>

definition pt1 :: PageTable where
  "pt1 = \<lparr>root = 0x80300000\<rparr>"

lemma read_u64_zero: "read_u64 (\<lambda>_. 0) a = 0"
  by (rule bit_word_eqI) (simp add: bit_read_u64)

lemma frames1_mem: "mem frames1 = (\<lambda>_. 0)"
  by (simp add: frames1_def alloc_result_def frames0_def)

lemma frames1_ok: "frames_ok frames1"
  using frames1_inv by (auto simp: frames_ok_def)

lemma pt1_wf: "pt_wf (live frames1) (read_u64 (mem frames1)) (root pt1)"
  by (rule pt_wf_blank) (simp_all add: pt1_def frames1_live frames1_mem read_u64_zero)

text \<open>C16. Mapping refines a point update. On a well-formed tree \<open>map\<close> and \<open>map_cow\<close> never panic;
  when they report success the leaf entry of the page is the new leaf (marked copy-on-write for
  \<open>map_cow\<close>) and the entry of every other page is what it was; when they report failure no
  entry changed. The tree stays well formed and the allocator consistent, and memory outside
  the tables of this tree is not written.\<close>

theorem map_leaf_refines:
  assumes "frames_ok s" and "pt_wf (live s) (read_u64 (mem s)) (root pt)"
  shows "\<exists>done s'. map_leaf alloc_frame pt va pa flags cow s = (Val done, s') \<and> frames_ok s' \<and>
    tree_ext (live s) (mem s) (live s') (mem s') (root pt) \<and>
    (\<forall>vb. pte_of (read_u64 (mem s')) (root pt) vb =
      (if done \<and> same_page va vb
       then (if cow then set_cow (new_leaf pa flags) else new_leaf pa flags)
       else pte_of (read_u64 (mem s)) (root pt) vb))"
  by (rule wp_returns) (rule kframes.map_leaf_wp [OF assms])

theorem map_leaf_refines_witness:
  "\<exists>done s'. map_leaf alloc_frame pt1 0x20000 0x80400000 7 True frames1 = (Val done, s') \<and> frames_ok s' \<and>
    (\<forall>vb. pte_of (read_u64 (mem s')) (root pt1) vb =
      (if done \<and> same_page 0x20000 vb then set_cow (new_leaf 0x80400000 7)
       else pte_of (read_u64 (mem frames1)) (root pt1) vb))"
  using map_leaf_refines [OF frames1_ok pt1_wf, of "0x20000" "0x80400000" 7 True] by auto

text \<open>C24. Unmapping refines a point update to the empty entry: afterwards the page has no leaf
  entry and every other page has the entry it had, whether or not the intermediate tables that
  \<open>unmap\<close> asks for could be allocated.\<close>

theorem unmap_refines:
  assumes "frames_ok s" and "pt_wf (live s) (read_u64 (mem s)) (root pt)"
  shows "\<exists>s'. unmap alloc_frame pt va s = (Val (), s') \<and> frames_ok s' \<and>
    tree_ext (live s) (mem s) (live s') (mem s') (root pt) \<and>
    (\<forall>vb. pte_of (read_u64 (mem s')) (root pt) vb =
      (if same_page va vb then 0 else pte_of (read_u64 (mem s)) (root pt) vb))"
  using wp_returns [OF kframes.unmap_wp [OF assms]] by auto

theorem unmap_refines_witness:
  "\<exists>s'. unmap alloc_frame pt1 0x20000 frames1 = (Val (), s') \<and> frames_ok s'"
  using unmap_refines [OF frames1_ok pt1_wf, of "0x20000"] by auto

text \<open>C22. A mapped page is found again: after a successful \<open>map\<close>, \<open>lookup\<close> returns the address of
  an entry that holds the mapped physical address and the given permissions.\<close>

theorem map_lookup_roundtrip:
  assumes "frames_ok s" and "pt_wf (live s) (read_u64 (mem s)) (root pt)"
    and "page_aligned pa" and "unat pa < 2 ^ 60"
    and "map_page alloc_frame pt va pa (PTEFlags_new r w x u) s = (Val True, s')"
  shows "\<exists>e. lookup pt va s' = (Val (Some e), s') \<and>
    ppn_to_addr (read_u64 (mem s') e) = pa \<and> is_valid (read_u64 (mem s') e) \<and>
    is_r (read_u64 (mem s') e) = r \<and> is_w (read_u64 (mem s') e) = w \<and>
    is_x (read_u64 (mem s') e) = x \<and> is_u (read_u64 (mem s') e) = u"
proof -
  let ?leaf = "new_leaf pa (PTEFlags_new r w x u)"
  have nl: "ppn_to_addr ?leaf = pa" "is_valid ?leaf" "is_r ?leaf = r" "is_w ?leaf = w" "is_x ?leaf = x" "is_u ?leaf = u"
    using assms(3,4) by (auto simp: ppn_new_leaf pte_bits bit_new_leaf bit_PTEFlags_new)
  have "pte_of (read_u64 (mem s')) (root pt) va = ?leaf"
    using wp_Val [OF kframes.map_leaf_wp [OF assms(1,2)] assms(5) [unfolded map_page_def]]
    by (simp add: same_page_def)
  moreover have "?leaf \<noteq> 0" using nl(2) by auto
  ultimately obtain e where "lookup_addr (read_u64 (mem s')) (root pt) va = Some e" "read_u64 (mem s') e = ?leaf"
    by (auto simp: pte_of_def split: option.splits)
  then show ?thesis using nl by (simp add: lookup_def run_simps)
qed

text \<open>The value for \<open>satp\<close> selects mode 8 (Sv39) and names exactly the root table: its mode
  field is 8 and its page number, shifted back, is the root's address.\<close>

lemma satp_val_encodes_root:
  assumes "page_aligned (root pt)" and "unat (root pt) < 2 ^ 56"
  shows "drop_bit 60 (satp_val pt) = 8 \<and> push_bit 12 (take_bit 44 (satp_val pt)) = root pt"
proof
  have e: "(8 :: usize) = push_bit 3 1" by simp
  have b: "bit (satp_val pt) n \<longleftrightarrow> n = 63 \<or> n < 52 \<and> bit (root pt) (n + 12)" for n
    unfolding satp_val_def e push_bit_push_bit
    by (auto simp: bit_simps ac_simps simp del: push_bit_of_1 dest: bit_imp_le_length)
  note hi = high_bits_zero [OF assms(2)]
  show "drop_bit 60 (satp_val pt) = 8"
    unfolding e by (rule bit_word_eqI) (auto simp: bit_simps b simp del: push_bit_of_1)
  show "push_bit 12 (take_bit 44 (satp_val pt)) = root pt"
  proof (rule bit_word_eqI)
    fix n
    show "bit (push_bit 12 (take_bit 44 (satp_val pt))) n \<longleftrightarrow> bit (root pt) n"
    proof (cases "12 \<le> n \<and> n < 56")
      case True
      then have "n - 12 < 44" "n - 12 + 12 = n" by auto
      with True show ?thesis by (auto simp: bit_simps b)
    next
      case False
      then have "\<not> bit (root pt) n"
        using assms(1) hi by (auto simp: page_aligned_iff_bits not_le)
      with False show ?thesis by (auto simp: bit_simps)
    qed
  qed
qed

text \<open>With the frames for the missing tables available, mapping a page succeeds: \<open>map\<close>
  reports success, installs the leaf and uses no more frames than there are missing tables.\<close>

lemma map_page_succeeds:
  assumes "frames_has (k + missing (read_u64 (mem s)) (root pt) va) s"
    and "pt_wf (live s) (read_u64 (mem s)) (root pt)"
  shows "\<exists>s'. map_page alloc_frame pt va pa flags s = (Val True, s') \<and> frames_has k s' \<and>
    pte_of (read_u64 (mem s')) (root pt) va = new_leaf pa flags"
proof -
  note both = wp_conj [OF kcount.map_leaf_has [OF assms, where pa = pa and flags = flags and cow = False]
      kframes.map_leaf_wp [OF kcount.has_ok [OF assms(1)] assms(2), where pa = pa and flags = flags and cow = False and va = va]]
  then have "wp (map_page alloc_frame pt va pa flags) (\<lambda>r s'. r \<and> frames_has k s' \<and>
      pte_of (read_u64 (mem s')) (root pt) va = new_leaf pa flags) (\<lambda>_ _. False) s"
    unfolding map_page_def by (rule wp_mono) (simp_all add: same_page_def)
  from wp_returns [OF this] show ?thesis by auto
qed

lemma frames1_has: "frames_has 100 frames1"
  using frames1_inv
  by (auto simp: frames_has_def frames1_def alloc_result_def frames0_def intro!: exI [of _ "[]"])

lemma pt1_missing: "missing (read_u64 (mem frames1)) (root pt1) va = 2"
  by (simp add: missing_def sub_def frames1_mem read_u64_zero Let_def is_valid_def)

theorem map_lookup_roundtrip_witness:
  "\<exists>e s'. map_page alloc_frame pt1 0x20000 0x80400000 (PTEFlags_new True False True True) frames1 = (Val True, s') \<and>
    lookup pt1 0x20000 s' = (Val (Some e), s') \<and> ppn_to_addr (read_u64 (mem s') e) = 0x80400000 \<and>
    \<not> is_w (read_u64 (mem s') e)"
proof -
  have "frames_has (98 + missing (read_u64 (mem frames1)) (root pt1) 0x20000) frames1"
    using frames1_has by (simp add: pt1_missing)
  from wp_returns [OF kcount.map_leaf_has [OF this pt1_wf, of "0x80400000" "PTEFlags_new True False True True" False]]
  obtain s' where m: "map_page alloc_frame pt1 0x20000 0x80400000 (PTEFlags_new True False True True) frames1 = (Val True, s')"
    by (auto simp: map_page_def)
  have "page_aligned (0x80400000 :: usize)" by (simp add: page_aligned_def)
  from map_lookup_roundtrip [OF frames1_ok pt1_wf this _ m] m show ?thesis by auto
qed

text \<open>C20. The kernel's page table identity-maps exactly the RAM: from an allocator with 66 frames
  left (the root, one middle table and 64 leaf tables), \<open>init_kernel\<close> returns a well-formed
  tree in which every address of RAM has the leaf of its own page with read, write and execute
  permission and without the user bit, and no page outside RAM has an entry.\<close>

theorem init_kernel_identity:
  assumes "frames_has 66 s"
  shows "\<exists>pt s'. init_kernel RAM_BASE kernel_end alloc_frame s = (Val (pt, satp_val pt), s') \<and> frames_ok s' \<and>
    pt_wf (live s') (read_u64 (mem s')) (root pt) \<and>
    (\<forall>va. is_managed va \<longrightarrow>
       pte_of (read_u64 (mem s')) (root pt) va = new_leaf (page_of va) (PTEFlags_new True True True False)) \<and>
    (\<forall>va. (\<forall>q. is_managed q \<longrightarrow> \<not> same_page q va) \<longrightarrow> pte_of (read_u64 (mem s')) (root pt) va = 0)"
  using wp_returns [OF kcount.init_kernel_wp [OF assms]] by (auto simp: identity_below_def is_managed_def)

theorem init_kernel_identity_witness:
  "\<exists>pt s'. init_kernel RAM_BASE 0x80300000 alloc_frame frames1 = (Val (pt, satp_val pt), s') \<and>
     pte_of (read_u64 (mem s')) (root pt) 0x80201234 = new_leaf 0x80201000 (PTEFlags_new True True True False) \<and>
     pte_of (read_u64 (mem s')) (root pt) 0x20000 = 0"
proof -
  have "frames_has 66 frames1" by (rule kcount.has_weaken [OF frames1_has]) simp
  moreover have "is_managed 0x80201234" "page_of 0x80201234 = (0x80201000 :: usize)"
    by (simp_all add: is_managed_unat page_of_def)
  moreover have "\<not> same_page q 0x20000" if "is_managed q" for q
  proof -
    have b: "unat q < 2 ^ 39" "unat (0x20000 :: usize) < 2 ^ 39" using that by (simp_all add: is_managed_unat)
    show ?thesis
      using that unfolding same_page_iff [OF b] page_of_eq_iff by (auto simp: is_managed_unat)
  qed
  ultimately show ?thesis using init_kernel_identity [of frames1 "0x80300000"] by metis
qed

end
