(* ===== verification/TrapFrame.thy ===== *)
theory TrapFrame
  imports Machine
begin

text \<open>
  The trap frame of \<open>task/trapframe.rs\<close>: the 32 registers and four control registers of a
  user process, and its image on a kernel stack. \<open>ptr::read\<close> and \<open>ptr::write\<close> of the
  \<open>repr(C)\<close> structure move its 36 double words in the order of its fields.
\<close>

definition REG_SP :: nat where "REG_SP = 2"
definition REG_A0 :: nat where "REG_A0 = 10"
definition SSTATUS_SPIE :: usize where "SSTATUS_SPIE = push_bit 5 1"

record TrapFrame =
  regs :: "usize list"
  sstatus :: usize
  sepc :: usize
  scause :: usize
  stval :: usize

text \<open>\<open>TrapFrame::SIZE\<close>, which the source asserts to be 288.\<close>

definition TrapFrame_SIZE :: usize where "TrapFrame_SIZE = 288"

definition new_user :: "usize \<Rightarrow> usize \<Rightarrow> TrapFrame" where
  "new_user entry user_sp =
     \<lparr>regs = (replicate 32 0)[REG_SP := user_sp], sstatus = SSTATUS_SPIE, sepc = entry,
      scause = 8, stval = 0\<rparr>"

definition set_a0 :: "usize \<Rightarrow> TrapFrame \<Rightarrow> TrapFrame" where
  "set_a0 v tf = tf\<lparr>regs := (regs tf)[REG_A0 := v]\<rparr>"

definition set_sp :: "usize \<Rightarrow> TrapFrame \<Rightarrow> TrapFrame" where
  "set_sp v tf = tf\<lparr>regs := (regs tf)[REG_SP := v]\<rparr>"

primrec read_dwords :: "memory \<Rightarrow> usize \<Rightarrow> nat \<Rightarrow> u64 list" where
  "read_dwords m a 0 = []"
| "read_dwords m a (Suc n) = read_u64 m a # read_dwords m (a + 8) n"

primrec write_dwords :: "memory \<Rightarrow> usize \<Rightarrow> u64 list \<Rightarrow> memory" where
  "write_dwords m a [] = m"
| "write_dwords m a (v # vs) = write_dwords (write_u64 m a v) (a + 8) vs"

definition tf_dwords :: "TrapFrame \<Rightarrow> u64 list" where
  "tf_dwords tf = regs tf @ [sstatus tf, sepc tf, scause tf, stval tf]"

definition tf_of_dwords :: "u64 list \<Rightarrow> TrapFrame" where
  "tf_of_dwords ws = \<lparr>regs = take 32 ws, sstatus = ws ! 32, sepc = ws ! 33, scause = ws ! 34, stval = ws ! 35\<rparr>"

definition stack_frame :: "memory \<Rightarrow> usize \<Rightarrow> TrapFrame" where
  "stack_frame m frame_base = tf_of_dwords (read_dwords m frame_base 36)"

definition read_from_stack :: "usize \<Rightarrow> ('a hart_scheme, TrapFrame) kernel" where
  "read_from_stack frame_base = gets (\<lambda>s. stack_frame (mem s) frame_base)"

definition write_to_stack :: "TrapFrame \<Rightarrow> usize \<Rightarrow> ('a hart_scheme, unit) kernel" where
  "write_to_stack self frame_base = modify (\<lambda>s. s\<lparr>mem := write_dwords (mem s) frame_base (tf_dwords self)\<rparr>)"

text \<open>Well-formed trap frames have all 32 registers; the array type guarantees it in Rust.\<close>

definition tf_ok :: "TrapFrame \<Rightarrow> bool" where
  "tf_ok tf \<longleftrightarrow> length (regs tf) = 32"

section \<open>Double words in memory\<close>

lemma length_read_dwords [simp]: "length (read_dwords m a n) = n"
  by (induction n arbitrary: a) auto

lemma nth_read_dwords: "i < n \<Longrightarrow> read_dwords m a n ! i = read_u64 m (a + of_nat (8 * i))"
  by (induction n arbitrary: a i) (auto simp: less_Suc_eq_0_disj algebra_simps)

lemma dword_aligned_plus [simp]: "dword_aligned a \<Longrightarrow> dword_aligned (a + of_nat (8 * i))"
proof -
  assume "dword_aligned a"
  then have "(8 :: nat) dvd unat a + 8 * i" by (simp add: dword_aligned_iff_dvd)
  then have "8 dvd (unat a + 8 * i) mod 2 ^ 64" by (simp add: dvd_mod_iff)
  moreover have "unat (a + of_nat (8 * i)) = (unat a + 8 * i) mod 2 ^ 64"
    by (simp add: unat_word_ariths unat_of_nat take_bit_eq_mod mod_simps)
  ultimately show ?thesis by (simp add: dword_aligned_iff_dvd)
qed

lemma dword_aligned_plus8 [simp]: "dword_aligned a \<Longrightarrow> dword_aligned (a + 8)"
  using dword_aligned_plus [of a 1] by simp

lemma write_dwords_outside:
  "unat (x - a) \<ge> 8 * length vs \<Longrightarrow> 8 * length vs < 2 ^ 64 \<Longrightarrow> write_dwords m a vs x = m x"
proof (induction vs arbitrary: m a)
  case (Cons v vs)
  have "8 \<le> x - a" using Cons.prems by (simp add: word_le_nat_alt)
  then have "unat (x - (a + 8)) = unat (x - a) - 8"
    using unat_sub [of 8 "x - a"] by (simp add: diff_diff_eq)
  moreover have "write_u64 m a v x = m x"
    using \<open>8 \<le> x - a\<close> by (simp add: write_u64_def not_less [symmetric])
  ultimately show ?case using Cons by simp
qed simp

lemma read_write_dwords_nth:
  assumes "dword_aligned a" and "i < length vs" and "8 * length vs < 2 ^ 64"
  shows "read_u64 (write_dwords m a vs) (a + of_nat (8 * i)) = vs ! i"
  using assms
proof (induction vs arbitrary: m a i)
  case (Cons v vs)
  show ?case
  proof (cases i)
    case 0
    have "read_u64 (write_dwords (write_u64 m a v) (a + 8) vs) a = read_u64 (write_u64 m a v) a"
    proof (rule read_u64_cong)
      fix k :: nat assume k: "k < 8"
      have "unat (a + of_nat k - (a + 8)) = 2 ^ 64 + k - 8"
        using k by (simp add: unat_sub_if_size word_size unat_of_nat take_bit_eq_mod)
      then have "8 * length vs \<le> unat (a + of_nat k - (a + 8))"
        using Cons.prems(3) by simp
      then show "write_dwords (write_u64 m a v) (a + 8) vs (a + of_nat k) = write_u64 m a v (a + of_nat k)"
        using Cons.prems(3) by (intro write_dwords_outside) simp_all
    qed
    then show ?thesis using 0 by (simp add: read_write_u64_same)
  next
    case (Suc j)
    have "a + of_nat (8 * Suc j) = a + 8 + of_nat (8 * j)" by simp
    then show ?thesis
      using Suc Cons.IH [of "a + 8" j "write_u64 m a v"] Cons.prems by (simp del: of_nat_mult add: add.assoc)
  qed
qed simp

lemma read_write_dwords:
  assumes "dword_aligned a" and "8 * length vs < 2 ^ 64"
  shows "read_dwords (write_dwords m a vs) a (length vs) = vs"
  by (rule nth_equalityI) (use assms in \<open>simp_all add: nth_read_dwords read_write_dwords_nth del: of_nat_mult\<close>)

lemma read_dwords_cong:
  assumes "\<And>i. i < n \<Longrightarrow> read_u64 m (a + of_nat (8 * i)) = read_u64 m' (a + of_nat (8 * i))"
  shows "read_dwords m a n = read_dwords m' a n"
  by (rule nth_equalityI) (use assms in \<open>simp_all add: nth_read_dwords del: of_nat_mult\<close>)

section \<open>Frames on a stack\<close>

lemma tf_of_dwords_inverse: "tf_ok tf \<Longrightarrow> tf_of_dwords (tf_dwords tf) = tf"
  by (simp add: tf_ok_def tf_of_dwords_def tf_dwords_def nth_append)

lemma tf_dwords_inverse: "length ws = 36 \<Longrightarrow> tf_dwords (tf_of_dwords ws) = ws"
  by (rule nth_equalityI)
    (auto simp: tf_of_dwords_def tf_dwords_def nth_append less_Suc_eq numeral_eq_Suc)

lemma tf_ok_stack_frame [simp]: "tf_ok (stack_frame m a)"
  by (simp add: tf_ok_def stack_frame_def tf_of_dwords_def)

lemma tf_ok_new_user [simp]: "tf_ok (new_user e sp)"
  by (simp add: tf_ok_def new_user_def)

lemma tf_ok_set [simp]: "tf_ok (set_a0 v tf) = tf_ok tf" "tf_ok (set_sp v tf) = tf_ok tf"
  by (simp_all add: tf_ok_def set_a0_def set_sp_def)

lemma length_tf_dwords: "tf_ok tf \<Longrightarrow> length (tf_dwords tf) = 36"
  by (simp add: tf_ok_def tf_dwords_def)

lemma stack_frame_write:
  assumes "dword_aligned a" and "tf_ok tf"
  shows "stack_frame (write_dwords m a (tf_dwords tf)) a = tf"
  using read_write_dwords [OF assms(1), of "tf_dwords tf" m] assms(2)
  by (simp add: stack_frame_def length_tf_dwords tf_of_dwords_inverse)

lemma stack_frame_cong:
  assumes "\<And>x. unat (x - a) < 288 \<Longrightarrow> m x = m' x"
  shows "stack_frame m a = stack_frame m' a"
proof -
  have "read_dwords m a 36 = read_dwords m' a 36"
  proof (rule read_dwords_cong, rule read_u64_cong)
    fix i k :: nat assume "i < 36" "k < 8"
    then have "unat (a + of_nat (8 * i) + of_nat k - a) = 8 * i + k"
      by (simp add: unat_word_ariths unat_of_nat take_bit_eq_mod)
    with \<open>i < 36\<close> \<open>k < 8\<close> show "m (a + of_nat (8 * i) + of_nat k) = m' (a + of_nat (8 * i) + of_nat k)"
      by (intro assms) simp
  qed
  then show ?thesis by (simp add: stack_frame_def)
qed

lemma wp_read_from_stack [wp_simps]: "wp (read_from_stack a) Q R s = Q (stack_frame (mem s) a) s"
  by (simp add: read_from_stack_def wp_simps)

lemma wp_write_to_stack [wp_simps]:
  "wp (write_to_stack tf a) Q R s = Q () (s\<lparr>mem := write_dwords (mem s) a (tf_dwords tf)\<rparr>)"
  by (simp add: write_to_stack_def wp_simps)

text \<open>C23. A trap frame written to an aligned place of a kernel stack is read back unchanged, field by
  field, and the write touches none of the bytes outside the 288 of the frame.\<close>

theorem trap_frame_roundtrip:
  assumes "dword_aligned frame_base" and "length (regs tf) = 32"
  shows "\<exists>s'. write_to_stack tf frame_base s = (Val (), s') \<and>
    read_from_stack frame_base s' = (Val tf, s') \<and>
    (\<forall>x. 288 \<le> unat (x - frame_base) \<longrightarrow> mem s' x = mem s x)"
proof -
  have ok: "tf_ok tf" using assms(2) by (simp add: tf_ok_def)
  show ?thesis
    by (simp add: write_to_stack_def read_from_stack_def run_simps stack_frame_write [OF assms(1) ok]
        write_dwords_outside length_tf_dwords [OF ok])
qed

theorem trap_frame_roundtrip_witness:
  "\<forall>s. \<exists>s'. write_to_stack (new_user 0x10000 0x3F001000) 0x80307EE0 s = (Val (), s') \<and>
    read_from_stack 0x80307EE0 s' = (Val (new_user 0x10000 0x3F001000), s')"
proof
  fix s :: "'a hart_scheme"
  have "dword_aligned 0x80307EE0" "length (regs (new_user 0x10000 0x3F001000)) = 32"
    by (simp_all add: dword_aligned_def new_user_def)
  from trap_frame_roundtrip [OF this, of s]
  show "\<exists>s'. write_to_stack (new_user 0x10000 0x3F001000) 0x80307EE0 s = (Val (), s') \<and>
    read_from_stack 0x80307EE0 s' = (Val (new_user 0x10000 0x3F001000), s')" by blast
qed

end
