(* ===== verification/Process.thy ===== *)
theory Process
  imports PageTable TrapFrame
begin

text \<open>
  The process descriptor of \<open>task/process.rs\<close> and the statics of the kernel above the frame
  allocator: the process table, the index of the current process and the next process
  number (\<open>task/scheduler.rs\<close>), the tick counter and the address of the restore path
  (\<open>trap.rs\<close>). A page table is its root; the function pointer stored with it is always
  \<open>alloc_frame\<close>.
\<close>

definition USER_HEAP_START :: usize where "USER_HEAP_START = 0x20000"
definition USER_HEAP_LIMIT :: usize where "USER_HEAP_LIMIT = 0x3e000000"
definition USER_MMAP_START :: usize where "USER_MMAP_START = USER_HEAP_LIMIT"
definition USER_MMAP_LIMIT :: usize where "USER_MMAP_LIMIT = 0x3f000000"
definition MAX_MMAP_AREAS :: nat where "MAX_MMAP_AREAS = 32"
definition KERNEL_STACK_PAGES :: usize where "KERNEL_STACK_PAGES = 8"
definition KERNEL_STACK_SIZE :: usize where "KERNEL_STACK_SIZE = KERNEL_STACK_PAGES * 4096"

record MmapArea =
  area_start :: usize
  area_len :: usize
  area_prot :: usize
  area_flags :: usize
  area_used :: bool

definition MmapArea_EMPTY :: MmapArea where
  "MmapArea_EMPTY = \<lparr>area_start = 0, area_len = 0, area_prot = 0, area_flags = 0, area_used = False\<rparr>"

definition area_end :: "MmapArea \<Rightarrow> ('s, usize) kernel" where
  "area_end self = uadd (area_start self) (area_len self)"

datatype ProcessState = Ready | Running | Blocked | Zombie usize | Gone

record Process =
  pid :: usize
  parent_pid :: usize
  proc_state :: ProcessState
  page_table :: PageTable
  trap_frame :: TrapFrame
  kernel_sp :: usize
  kernel_stack_frame :: PhysAddr
  heap_start :: usize
  heap_end :: usize
  mmap_areas :: "MmapArea list"

definition MAX_PROCESSES :: usize where "MAX_PROCESSES = 32"

text \<open>The process table is an array of \<open>MAX_PROCESSES\<close> slots.\<close>

record kernel_state = frames +
  PROCESS_LIST :: "Process option list"
  CURRENT :: usize
  NEXT_PID :: usize
  TICK_COUNT :: usize
  TRAP_EXIT_RESTORE_ADDR :: usize

end
