(* ===== verification/Scheduler.thy ===== *)
theory Scheduler
  imports Process
begin

text \<open>
  The scheduler of \<open>task/scheduler.rs\<close>. A reference \<open>&mut Process\<close> obtained from
  \<open>current()\<close> is a read of the slot followed by updates of the slot (\<open>update_current\<close>).
  \<open>schedule\<close> does not return: it leaves the kernel through \<open>trap_exit_restore\<close> with the
  stack pointer of the next process (\<open>Resume sp addr\<close>) or powers off.
\<close>

section \<open>The operations\<close>

text \<open>\<open>Iterator::position\<close>.\<close>

primrec position :: "('a \<Rightarrow> bool) \<Rightarrow> 'a list \<Rightarrow> nat option" where
  "position P [] = None"
| "position P (x # xs) = (if P x then Some 0 else map_option Suc (position P xs))"

definition slot_empty :: "Process option \<Rightarrow> bool" where
  "slot_empty slot \<longleftrightarrow> (case slot of None \<Rightarrow> True | Some p \<Rightarrow> proc_state p = Gone)"

definition find_empty_slot :: "('a kernel_state_scheme, usize option) kernel" where
  "find_empty_slot = gets (\<lambda>s. map_option of_nat (position slot_empty (PROCESS_LIST s)))"

definition alloc_pid :: "('a kernel_state_scheme, usize) kernel" where
  "alloc_pid =
     kbind (gets NEXT_PID) (\<lambda>p.
     kbind (uadd p 1) (\<lambda>p'.
     kseq (modify (\<lambda>s. s\<lparr>NEXT_PID := p'\<rparr>))
     (ret p)))"

definition current :: "('a kernel_state_scheme, Process) kernel" where
  "current =
     kbind (gets PROCESS_LIST) (\<lambda>l.
     kbind (gets CURRENT) (\<lambda>c.
     if unat c < length l then expect ''current(): PROCESS_LIST[CURRENT] is None'' (l ! unat c)
     else halt (Panic bounds_panic)))"

definition update_slot :: "nat \<Rightarrow> (Process \<Rightarrow> Process) \<Rightarrow> 'a kernel_state_scheme \<Rightarrow> 'a kernel_state_scheme" where
  "update_slot i f s = s\<lparr>PROCESS_LIST := (PROCESS_LIST s)[i := map_option f (PROCESS_LIST s ! i)]\<rparr>"

definition update_current :: "(Process \<Rightarrow> Process) \<Rightarrow> ('a kernel_state_scheme, unit) kernel" where
  "update_current f = modify (\<lambda>s. update_slot (unat (CURRENT s)) f s)"

definition current_index :: "('a kernel_state_scheme, usize) kernel" where
  "current_index = gets CURRENT"

definition reparent_orphans_to_init :: "('a kernel_state_scheme, unit) kernel" where
  "reparent_orphans_to_init =
     kbind current (\<lambda>cur.
     for_each [0..<unat MAX_PROCESSES] (\<lambda>i.
       kbind (gets PROCESS_LIST) (\<lambda>l.
       case l ! i of
         Some p \<Rightarrow>
           if parent_pid p = pid cur \<and> proc_state p \<noteq> Gone
           then modify (update_slot i (\<lambda>p. p\<lparr>parent_pid := 1\<rparr>))
           else ret ()
       | None \<Rightarrow> ret ())))"

primrec wake_loop :: "usize \<Rightarrow> nat list \<Rightarrow> ('a kernel_state_scheme, unit) kernel" where
  "wake_loop ppid [] = ret ()"
| "wake_loop ppid (i # is) =
     kbind (gets PROCESS_LIST) (\<lambda>l.
     case l ! i of
       Some p \<Rightarrow>
         if pid p = ppid \<and> proc_state p = Blocked
         then modify (update_slot i (\<lambda>p. p\<lparr>proc_state := Ready\<rparr>))
         else wake_loop ppid is
     | None \<Rightarrow> wake_loop ppid is)"

definition wake_parent :: "('a kernel_state_scheme, unit) kernel" where
  "wake_parent =
     kbind current (\<lambda>cur. wake_loop (parent_pid cur) [0..<unat MAX_PROCESSES])"

definition is_ready :: "Process option \<Rightarrow> bool" where
  "is_ready slot \<longleftrightarrow> (case slot of Some p \<Rightarrow> proc_state p = Ready | None \<Rightarrow> False)"

primrec pick_loop :: "usize \<Rightarrow> nat list \<Rightarrow> ('a kernel_state_scheme, usize) kernel" where
  "pick_loop cur [] = ret MAX_PROCESSES"
| "pick_loop cur (i # is) =
     kbind (uadd cur (of_nat i)) (\<lambda>n.
     let idx = n mod MAX_PROCESSES in
     kbind (gets PROCESS_LIST) (\<lambda>l.
     if is_ready (l ! unat idx) then ret idx else pick_loop cur is))"

definition pick_next :: "('a kernel_state_scheme, usize) kernel" where
  "pick_next = kbind (gets CURRENT) (\<lambda>cur. pick_loop cur [1..<unat MAX_PROCESSES + 1])"

definition schedule :: "('a kernel_state_scheme, 'b) kernel" where
  "schedule =
     kbind current (\<lambda>cur.
     kbind (usub (kernel_sp cur) TrapFrame_SIZE) (\<lambda>frame_base.
     kbind (read_from_stack frame_base) (\<lambda>tf.
     kseq (update_current (\<lambda>p. p\<lparr>trap_frame := tf\<rparr>))
     (kbind pick_next (\<lambda>next_idx.
     if next_idx = MAX_PROCESSES then shutdown
     else
       kseq (modify (\<lambda>s. s\<lparr>CURRENT := next_idx\<rparr>))
       (kbind current (\<lambda>nxt.
       kseq (update_current (\<lambda>p. p\<lparr>proc_state := Running\<rparr>))
       (let next_satp = satp_val (page_table nxt) in
        kbind (usub (kernel_sp nxt) TrapFrame_SIZE) (\<lambda>new_sp.
        kbind (gets TRAP_EXIT_RESTORE_ADDR) (\<lambda>restore_addr.
        kseq (write_to_stack (trap_frame nxt) new_sp)
        (kseq (modify (\<lambda>s. s\<lparr>csr_satp := next_satp\<rparr>))
        (halt (Resume new_sp restore_addr)))))))))))))"

section \<open>The process table\<close>

definition sched_ok :: "'a kernel_state_scheme \<Rightarrow> bool" where
  "sched_ok s \<longleftrightarrow> length (PROCESS_LIST s) = 32 \<and> unat (CURRENT s) < 32 \<and> PROCESS_LIST s ! unat (CURRENT s) \<noteq> None"

definition cur_proc :: "'a kernel_state_scheme \<Rightarrow> Process" where
  "cur_proc s = the (PROCESS_LIST s ! unat (CURRENT s))"

lemma unat_MAX_PROCESSES [simp]: "unat MAX_PROCESSES = 32"
  by (simp add: MAX_PROCESSES_def)

lemma sched_ok_cur: "sched_ok s \<Longrightarrow> PROCESS_LIST s ! unat (CURRENT s) = Some (cur_proc s)"
  by (auto simp: sched_ok_def cur_proc_def)

lemma wp_current: "sched_ok s \<Longrightarrow> wp current Q R s = Q (cur_proc s) s"
  by (auto simp: current_def wp_simps sched_ok_def cur_proc_def)

lemma keeps_current [keeps_intros]: "keeps rest current"
  unfolding current_def by (intro keeps_intros) simp

lemma current_run: "sched_ok s \<Longrightarrow> current s = (Val (cur_proc s), s)"
  by (auto simp: current_def kbind_def gets_def expect_def ret_def sched_ok_def cur_proc_def)

lemma update_slot_simps [simp]:
  "mem (update_slot i f s) = mem s" "CURRENT (update_slot i f s) = CURRENT s"
  "NEXT_PID (update_slot i f s) = NEXT_PID s" "TICK_COUNT (update_slot i f s) = TICK_COUNT s"
  "TRAP_EXIT_RESTORE_ADDR (update_slot i f s) = TRAP_EXIT_RESTORE_ADDR s"
  "length (PROCESS_LIST (update_slot i f s)) = length (PROCESS_LIST s)" "sbi_log (update_slot i f s) = sbi_log s"
  by (simp_all add: update_slot_def)

lemma update_slot_nth:
  "k < length (PROCESS_LIST s) \<Longrightarrow> PROCESS_LIST (update_slot i f s) ! k =
    (if k = i then map_option f (PROCESS_LIST s ! i) else PROCESS_LIST s ! k)"
  by (simp add: update_slot_def nth_list_update)

lemma sched_ok_update [simp]: "sched_ok (update_slot i f s) = sched_ok s"
  by (cases "i < length (PROCESS_LIST s)") (auto simp: sched_ok_def update_slot_def nth_list_update)

lemma wp_update_current [wp_simps]:
  "wp (update_current f) Q R s = Q () (update_slot (unat (CURRENT s)) f s)"
  by (simp add: update_current_def wp_simps)

lemma cur_proc_update: "sched_ok s \<Longrightarrow> cur_proc (update_slot (unat (CURRENT s)) f s) = f (cur_proc s)"
  by (auto simp: sched_ok_def cur_proc_def update_slot_def)

lemma position_Some:
  "position P xs = Some i \<longleftrightarrow> i < length xs \<and> P (xs ! i) \<and> (\<forall>j<i. \<not> P (xs ! j))"
proof (induction xs arbitrary: i)
  case (Cons x xs)
  show ?case
    by (cases i) (auto simp: Cons less_Suc_eq_0_disj)
qed simp

lemma position_None: "position P xs = None \<longleftrightarrow> (\<forall>x\<in>set xs. \<not> P x)"
  by (induction xs) auto

section \<open>Reparenting and waking\<close>

definition reparent :: "usize \<Rightarrow> Process \<Rightarrow> Process" where
  "reparent dying p = (if parent_pid p = dying \<and> proc_state p \<noteq> Gone then p\<lparr>parent_pid := 1\<rparr> else p)"

lemma wp_reparent:
  assumes ok: "sched_ok s"
  shows "wp reparent_orphans_to_init (\<lambda>_ s'.
      s' = s\<lparr>PROCESS_LIST := List.map (map_option (reparent (pid (cur_proc s)))) (PROCESS_LIST s)\<rparr>) (\<lambda>_ _. False) s"
proof -
  let ?f = "map_option (reparent (pid (cur_proc s)))" and ?l = "PROCESS_LIST s"
  let ?I = "\<lambda>k t. t = s\<lparr>PROCESS_LIST := List.map ?f (take k ?l) @ drop k ?l\<rparr>"
  let ?body = "\<lambda>i. kbind (gets PROCESS_LIST) (\<lambda>l. case l ! i of
         Some p \<Rightarrow> if parent_pid p = pid (cur_proc s) \<and> proc_state p \<noteq> Gone
           then modify (update_slot i (\<lambda>p. p\<lparr>parent_pid := 1\<rparr>)) else ret ()
       | None \<Rightarrow> ret ())"
  have len: "length ?l = 32" using ok by (simp add: sched_ok_def)
  have step: "wp (?body i) (\<lambda>_. ?I (Suc i)) (\<lambda>_ _. False) t" if "0 \<le> i" "i < 32" "?I i t" for i t
  proof -
    have i: "i < length ?l" using that len by simp
    have nth: "PROCESS_LIST t ! i = ?l ! i" using that i by (simp add: nth_append)
    have "List.map ?f (take (Suc i) ?l) @ drop (Suc i) ?l = (PROCESS_LIST t)[i := ?f (?l ! i)]"
      using that(3) i by (simp add: take_Suc_conv_app_nth upd_conv_take_nth_drop min_absorb1)
    then have I: "?I (Suc i) u \<longleftrightarrow> u = t\<lparr>PROCESS_LIST := (PROCESS_LIST t)[i := ?f (?l ! i)]\<rparr>" for u
      using that(3) by simp
    have same: "t = t\<lparr>PROCESS_LIST := (PROCESS_LIST t)[i := ?l ! i]\<rparr>" by (simp flip: nth)
    show ?thesis
      unfolding I
      by (cases "?l ! i") (use same in \<open>simp_all add: wp_simps nth reparent_def update_slot_def\<close>)
  qed
  have "wp (for_each [0..<32] ?body) (\<lambda>_. ?I 32) (\<lambda>_ _. False) s"
    by (rule wp_for_upt [where I = ?I, OF _ _ step]) simp_all
  then show ?thesis
    unfolding reparent_orphans_to_init_def wp_kbind wp_current [OF ok] unat_MAX_PROCESSES
    by (rule wp_mono) (simp_all add: len)
qed

definition wakes :: "usize \<Rightarrow> Process option \<Rightarrow> bool" where
  "wakes ppid slot \<longleftrightarrow> (case slot of None \<Rightarrow> False | Some p \<Rightarrow> pid p = ppid \<and> proc_state p = Blocked)"

definition wake_result :: "usize \<Rightarrow> 'a kernel_state_scheme \<Rightarrow> 'a kernel_state_scheme" where
  "wake_result ppid s = (case position (wakes ppid) (PROCESS_LIST s) of
       None \<Rightarrow> s | Some i \<Rightarrow> update_slot i (\<lambda>p. p\<lparr>proc_state := Ready\<rparr>) s)"

lemma wake_loop_run:
  "wake_loop ppid is s = (Val (), case position (\<lambda>i. wakes ppid (PROCESS_LIST s ! i)) is of
      None \<Rightarrow> s | Some j \<Rightarrow> update_slot (is ! j) (\<lambda>p. p\<lparr>proc_state := Ready\<rparr>) s)"
proof (induction "is")
  case (Cons i is')
  then show ?case
    by (auto simp: kbind_def gets_def modify_def wakes_def split: option.splits)
qed (simp add: ret_def)

lemma position_upt: "position (\<lambda>i. P (xs ! i)) [0..<length xs] = position P xs"
proof (cases "position P xs")
  case None
  then have "position (\<lambda>i. P (xs ! i)) [0..<length xs] = None" unfolding position_None by simp
  with None show ?thesis by simp
next
  case (Some i)
  then have "position (\<lambda>i. P (xs ! i)) [0..<length xs] = Some i" unfolding position_Some by auto
  with Some show ?thesis by simp
qed

lemma wp_wake_parent:
  assumes ok: "sched_ok s"
  shows "wp wake_parent (\<lambda>_ s'. s' = wake_result (parent_pid (cur_proc s)) s) (\<lambda>_ _. False) s"
proof -
  have len: "[0..<32] = [0..<length (PROCESS_LIST s)]" using ok by (simp add: sched_ok_def)
  have nth: "[0..<length (PROCESS_LIST s)] ! j = j" if "position P (PROCESS_LIST s) = Some j" for P j
    using that by (simp add: position_Some)
  show ?thesis
    unfolding wake_parent_def wp_kbind wp_current [OF ok] unat_MAX_PROCESSES len
    by (auto simp: wp_def wake_loop_run position_upt wake_result_def nth split: option.splits)
qed

section \<open>Picking the next process\<close>

lemma pick_loop_run:
  assumes "unat cur < 32" and "\<forall>i\<in>set is. i \<le> 32"
  shows "pick_loop cur is s = (Val (case position (\<lambda>i. is_ready (PROCESS_LIST s ! ((unat cur + i) mod 32))) is of
      None \<Rightarrow> 32 | Some j \<Rightarrow> of_nat ((unat cur + is ! j) mod 32)), s)"
  using assms(2)
proof (induction "is")
  case Nil
  then show ?case by (simp add: ret_def MAX_PROCESSES_def)
next
  case (Cons i is')
  have u: "unat (of_nat i :: usize) = i" using Cons.prems by (simp add: unat_of_nat take_bit_eq_mod)
  then have "\<not> add_overflows cur (of_nat i)" using assms(1) Cons.prems by (simp add: add_overflows_def)
  moreover from this have "unat ((cur + of_nat i) mod MAX_PROCESSES) = (unat cur + i) mod 32"
    by (simp add: unat_mod MAX_PROCESSES_def unat_add_no_overflow u)
  moreover from this have "(cur + of_nat i) mod MAX_PROCESSES = of_nat ((unat cur + i) mod 32)"
    by (metis of_nat_unat ucast_id)
  ultimately show ?case
    using Cons by (auto simp: kbind_def gets_def uadd_def ret_def Let_def split: option.splits)
qed

definition cyclic_dist :: "nat \<Rightarrow> nat \<Rightarrow> nat" where
  "cyclic_dist c k = (if c < k then k - c else k + 32 - c)"

lemma cyclic_dist:
  assumes "c < 32" "k < 32"
  shows "1 \<le> cyclic_dist c k" "cyclic_dist c k \<le> 32" "(c + cyclic_dist c k) mod 32 = k"
    and "1 \<le> i \<Longrightarrow> i \<le> 32 \<Longrightarrow> cyclic_dist c ((c + i) mod 32) = i"
proof -
  show "1 \<le> cyclic_dist c k" "cyclic_dist c k \<le> 32" using assms by (auto simp: cyclic_dist_def)
  show "(c + cyclic_dist c k) mod 32 = k" using assms by (auto simp: cyclic_dist_def)
  assume "1 \<le> i" "i \<le> 32"
  then show "cyclic_dist c ((c + i) mod 32) = i"
    using assms by (cases "c + i < 32") (auto simp: cyclic_dist_def mod_if)
qed

lemma pick_next_run:
  assumes ok: "sched_ok s"
  shows "(\<exists>k<32. is_ready (PROCESS_LIST s ! k) \<and> pick_next s = (Val (of_nat k), s) \<and>
      (\<forall>j<32. is_ready (PROCESS_LIST s ! j) \<longrightarrow>
        cyclic_dist (unat (CURRENT s)) k \<le> cyclic_dist (unat (CURRENT s)) j)) \<or>
    (\<forall>k<32. \<not> is_ready (PROCESS_LIST s ! k)) \<and> pick_next s = (Val MAX_PROCESSES, s)"
proof -
  let ?c = "unat (CURRENT s)" and ?P = "\<lambda>i. is_ready (PROCESS_LIST s ! ((unat (CURRENT s) + i) mod 32))"
  have c: "?c < 32" using ok by (simp add: sched_ok_def)
  have run: "pick_next s = (Val (case position ?P [1..<33] of None \<Rightarrow> 32 | Some j \<Rightarrow> of_nat ((?c + [1..<33] ! j) mod 32)), s)"
    using pick_loop_run [OF c, of "[1..<33]" s] by (simp add: pick_next_def kbind_def gets_def)
  show ?thesis
  proof (cases "position ?P [1..<33]")
    case None
    have "\<not> is_ready (PROCESS_LIST s ! k)" if "k < 32" for k
    proof -
      have "cyclic_dist ?c k \<in> set [1..<33]" using cyclic_dist [OF c that] by simp
      then show ?thesis using None cyclic_dist(3) [OF c that] unfolding position_None by metis
    qed
    then show ?thesis using run None by (simp add: MAX_PROCESSES_def)
  next
    case (Some j)
    then have j: "j < 32" "?P (j + 1)" "\<forall>i<j. \<not> ?P (i + 1)" by (auto simp: position_Some)
    have least: "cyclic_dist ?c ((?c + (j + 1)) mod 32) \<le> cyclic_dist ?c k"
      if "k < 32" "is_ready (PROCESS_LIST s ! k)" for k
    proof -
      have "\<not> cyclic_dist ?c k - 1 < j"
        using j(3) that cyclic_dist(1,3) [OF c that(1)] by auto
      then show ?thesis using cyclic_dist(4) [OF c that(1), of "j + 1"] cyclic_dist(1) [OF c that(1)] j(1) by simp
    qed
    have "pick_next s = (Val (of_nat ((?c + (j + 1)) mod 32)), s)"
      using run Some j(1) by (simp add: ac_simps)
    then show ?thesis using j(2) least by (intro disjI1 exI [of _ "(?c + (j + 1)) mod 32"]) auto
  qed
qed

section \<open>The context switch\<close>

text \<open>Every process has its trap frame at the top of its kernel stack.\<close>

definition stacks_ok :: "'a kernel_state_scheme \<Rightarrow> bool" where
  "stacks_ok s \<longleftrightarrow> (\<forall>p. Some p \<in> set (PROCESS_LIST s) \<longrightarrow>
     288 \<le> unat (kernel_sp p) \<and> dword_aligned (kernel_sp p) \<and> tf_ok (trap_frame p))"

definition frame_base :: "Process \<Rightarrow> usize" where
  "frame_base p = kernel_sp p - TrapFrame_SIZE"

text \<open>The state after \<open>schedule\<close> has saved the frame of the current process.\<close>

definition saved :: "'a kernel_state_scheme \<Rightarrow> 'a kernel_state_scheme" where
  "saved s = update_slot (unat (CURRENT s))
     (\<lambda>p. p\<lparr>trap_frame := stack_frame (mem s) (frame_base (cur_proc s))\<rparr>) s"

definition switched :: "nat \<Rightarrow> 'a kernel_state_scheme \<Rightarrow> 'a kernel_state_scheme" where
  "switched k s = (let p = the (PROCESS_LIST s ! k) in
     (update_slot k (\<lambda>p. p\<lparr>proc_state := Running\<rparr>) s)
       \<lparr>CURRENT := of_nat k, csr_satp := satp_val (page_table p),
        mem := write_dwords (mem s) (frame_base p) (tf_dwords (trap_frame p))\<rparr>)"

lemma frame_base_aligned: "dword_aligned (kernel_sp p) \<Longrightarrow> dword_aligned (frame_base p)"
proof -
  assume a: "dword_aligned (kernel_sp p)"
  have "frame_base p = kernel_sp p + of_nat (8 * (2 ^ 61 - 36))"
    by (simp add: frame_base_def TrapFrame_SIZE_def)
  then show ?thesis using dword_aligned_plus [OF a] by metis
qed

lemma saved_ready: "sched_ok s \<Longrightarrow> k < 32 \<Longrightarrow> is_ready (PROCESS_LIST (saved s) ! k) = is_ready (PROCESS_LIST s ! k)"
  by (auto simp: saved_def sched_ok_def update_slot_nth is_ready_def split: option.splits)

lemma saved_simps [simp]:
  "mem (saved s) = mem s" "CURRENT (saved s) = CURRENT s" "sched_ok (saved s) = sched_ok s"
  "TRAP_EXIT_RESTORE_ADDR (saved s) = TRAP_EXIT_RESTORE_ADDR s"
  "length (PROCESS_LIST (saved s)) = length (PROCESS_LIST s)"
  "sbi_log (saved s) = sbi_log s"
  by (simp_all add: saved_def)

lemma saved_nth:
  assumes "sched_ok s" and "k < 32"
  shows "PROCESS_LIST (saved s) ! k = (if k = unat (CURRENT s)
     then Some ((cur_proc s)\<lparr>trap_frame := stack_frame (mem s) (frame_base (cur_proc s))\<rparr>)
     else PROCESS_LIST s ! k)"
  using assms sched_ok_cur [OF assms(1)] by (simp add: saved_def update_slot_nth sched_ok_def)

lemma saved_stacks:
  assumes "sched_ok s" and "stacks_ok s"
  shows "stacks_ok (saved s)"
  unfolding stacks_ok_def
proof (intro allI impI)
  fix p assume "Some p \<in> set (PROCESS_LIST (saved s))"
  then obtain k where k: "k < 32" "PROCESS_LIST (saved s) ! k = Some p"
    using assms(1) by (auto simp: in_set_conv_nth sched_ok_def)
  have c: "unat (CURRENT s) < length (PROCESS_LIST s)" using assms(1) by (simp add: sched_ok_def)
  have "Some (cur_proc s) \<in> set (PROCESS_LIST s)"
    using nth_mem [OF c] sched_ok_cur [OF assms(1)] by simp
  moreover have "Some p \<in> set (PROCESS_LIST s)" if "k \<noteq> unat (CURRENT s)"
    using that k saved_nth [OF assms(1) k(1)] assms(1) nth_mem [of k "PROCESS_LIST s"] by (simp add: sched_ok_def)
  ultimately show "288 \<le> unat (kernel_sp p) \<and> dword_aligned (kernel_sp p) \<and> tf_ok (trap_frame p)"
    using assms(2) k(2) saved_nth [OF assms(1) k(1)]
    by (cases "k = unat (CURRENT s)") (auto simp: stacks_ok_def)
qed

lemma schedule_run:
  fixes s :: "'a kernel_state_scheme"
  assumes ok: "sched_ok s" and st: "stacks_ok s"
  shows "(\<exists>k<32. is_ready (PROCESS_LIST s ! k) \<and>
      (\<forall>j<32. is_ready (PROCESS_LIST s ! j) \<longrightarrow>
         cyclic_dist (unat (CURRENT s)) k \<le> cyclic_dist (unat (CURRENT s)) j) \<and>
      (schedule :: ('a kernel_state_scheme, 'b) kernel) s = (Exit (Resume (frame_base (the (PROCESS_LIST (saved s) ! k))) (TRAP_EXIT_RESTORE_ADDR s)),
        switched k (saved s))) \<or>
    (\<forall>k<32. \<not> is_ready (PROCESS_LIST s ! k)) \<and>
      (schedule :: ('a kernel_state_scheme, 'b) kernel) s = (Exit Shutdown, (saved s)\<lparr>sbi_log := sbi_log s @ [(SBI_EXT_SRST, SBI_SRST_RESET, SBI_RESET_SHUTDOWN, 0)]\<rparr>)"
proof -
  have cur: "current s = (Val (cur_proc s), s)" by (rule current_run [OF ok])
  have "Some (cur_proc s) \<in> set (PROCESS_LIST s)"
    using ok sched_ok_cur [OF ok] nth_mem [of "unat (CURRENT s)" "PROCESS_LIST s"] by (simp add: sched_ok_def)
  then have "\<not> kernel_sp (cur_proc s) < TrapFrame_SIZE"
    using st by (auto simp: stacks_ok_def TrapFrame_SIZE_def word_less_nat_alt)
  then have pre: "(schedule :: ('a kernel_state_scheme, 'b) kernel) s = kbind pick_next (\<lambda>next_idx.
     if next_idx = MAX_PROCESSES then shutdown
     else
       kseq (modify (\<lambda>s. s\<lparr>CURRENT := next_idx\<rparr>))
       (kbind current (\<lambda>nxt.
       kseq (update_current (\<lambda>p. p\<lparr>proc_state := Running\<rparr>))
       (let next_satp = satp_val (page_table nxt) in
        kbind (usub (kernel_sp nxt) TrapFrame_SIZE) (\<lambda>new_sp.
        kbind (gets TRAP_EXIT_RESTORE_ADDR) (\<lambda>restore_addr.
        kseq (write_to_stack (trap_frame nxt) new_sp)
        (kseq (modify (\<lambda>s. s\<lparr>csr_satp := next_satp\<rparr>))
        (halt (Resume new_sp restore_addr))))))))) (saved s)"
    by (simp add: schedule_def cur usub_def kbind_def kseq_def ret_def read_from_stack_def gets_def
        update_current_def modify_def saved_def frame_base_def)
  have ok': "sched_ok (saved s)" using ok by simp
  from pick_next_run [OF ok'] show ?thesis
  proof (elim disjE exE conjE)
    fix k assume k: "k < 32" "is_ready (PROCESS_LIST (saved s) ! k)" and pick: "pick_next (saved s) = (Val (of_nat k), saved s)"
      and least: "\<forall>j<32. is_ready (PROCESS_LIST (saved s) ! j) \<longrightarrow>
        cyclic_dist (unat (CURRENT (saved s))) k \<le> cyclic_dist (unat (CURRENT (saved s))) j"
    have uk: "unat (of_nat k :: usize) = k" using k(1) by (simp add: unat_of_nat take_bit_eq_mod)
    then have ne: "of_nat k \<noteq> MAX_PROCESSES" using k(1) by (auto simp: MAX_PROCESSES_def)
    obtain p where p: "PROCESS_LIST (saved s) ! k = Some p" using k(2) by (auto simp: is_ready_def split: option.splits)
    let ?t = "(saved s)\<lparr>CURRENT := of_nat k\<rparr>"
    have "Some p \<in> set (PROCESS_LIST (saved s))"
      using p k(1) ok' nth_mem [of k "PROCESS_LIST (saved s)"] by (simp add: sched_ok_def)
    then have np: "\<not> kernel_sp p < TrapFrame_SIZE"
      using saved_stacks [OF ok st] by (auto simp: stacks_ok_def TrapFrame_SIZE_def word_less_nat_alt)
    have okt: "sched_ok ?t" using ok' k(1) p uk by (simp add: sched_ok_def)
    have curt: "current ?t = (Val p, ?t)" using current_run [OF okt] p uk by (simp add: cur_proc_def)
    have "(schedule :: ('a kernel_state_scheme, 'b) kernel) s = (Exit (Resume (frame_base p) (TRAP_EXIT_RESTORE_ADDR s)), switched k (saved s))"
      using ne np
      by (simp add: pre pick kseq_def kbind_def modify_def curt update_current_def Let_def usub_def
          ret_def gets_def write_to_stack_def halt_def uk p switched_def frame_base_def update_slot_def)
    then show ?thesis
      using k least saved_ready [OF ok] saved_ready [OF ok k(1)] p by (intro disjI1 exI [of _ k]) simp
  next
    assume none: "\<forall>k<32. \<not> is_ready (PROCESS_LIST (saved s) ! k)" and pick: "pick_next (saved s) = (Val MAX_PROCESSES, saved s)"
    have "(schedule :: ('a kernel_state_scheme, 'b) kernel) s = (Exit Shutdown, (saved s)\<lparr>sbi_log := sbi_log s @ [(SBI_EXT_SRST, SBI_SRST_RESET, SBI_RESET_SHUTDOWN, 0)]\<rparr>)"
      by (simp add: pre pick shutdown_def sbi_call_def kseq_def kbind_def modify_def gets_def halt_def)
    then show ?thesis using none saved_ready [OF ok] by auto
  qed
qed

lemma switched_nth:
  assumes "sched_ok s" and "k < 32" and "j < 32"
  shows "PROCESS_LIST (switched k s) ! j =
    (if j = k then map_option (\<lambda>p. p\<lparr>proc_state := Running\<rparr>) (PROCESS_LIST s ! k) else PROCESS_LIST s ! j)"
  using assms by (simp add: switched_def Let_def sched_ok_def update_slot_nth)

lemma unat_of_small [simp]: "k < 32 \<Longrightarrow> unat (of_nat k :: usize) = k"
  by (simp add: unat_of_nat take_bit_eq_mod)

text \<open>A process table for the witnesses: \<open>init\<close> is waiting, its child is ready.\<close>

definition proc0 :: Process where
  "proc0 = \<lparr>pid = 1, parent_pid = 0, proc_state = Blocked, page_table = pt1, trap_frame = new_user 0x10000 0x3F001000,
     kernel_sp = 0x80408000, kernel_stack_frame = 0x80400000, heap_start = USER_HEAP_START, heap_end = USER_HEAP_START,
     mmap_areas = replicate 32 MmapArea_EMPTY\<rparr>"

definition proc1 :: Process where
  "proc1 = proc0\<lparr>pid := 2, parent_pid := 1, proc_state := Ready, kernel_sp := 0x80410000, kernel_stack_frame := 0x80408000\<rparr>"

definition kstate0 :: kernel_state where
  "kstate0 = \<lparr>mem = (\<lambda>_. 0), uart_in = (\<lambda>_. []), uart_out = [], sbi_log = [], sbi_ret = (0, 0),
     csr_time = 0, csr_satp = 0, csr_sstatus = 0, csr_sscratch = 0, csr_stvec = 0, csr_sie = 0, svpbmt = True,
     NEXT_FRAME = 0x80300000, FRAME_REFS = (\<lambda>_. 0), FREE_LIST_HEAD = 0,
     PROCESS_LIST = Some proc0 # Some proc1 # replicate 30 None, CURRENT = 0, NEXT_PID = 3, TICK_COUNT = 0,
     TRAP_EXIT_RESTORE_ADDR = 0x80200100\<rparr>"

lemma kstate0_sched: "sched_ok kstate0"
  by (simp add: sched_ok_def kstate0_def)

lemma kstate0_stacks: "stacks_ok kstate0"
  by (simp add: stacks_ok_def kstate0_def proc0_def proc1_def dword_aligned_def)

lemma kstate0_nth: "PROCESS_LIST kstate0 ! 0 = Some proc0" "PROCESS_LIST kstate0 ! 1 = Some proc1"
  by (simp_all add: kstate0_def)

lemma kstate0_ready: "j < 32 \<Longrightarrow> is_ready (PROCESS_LIST kstate0 ! j) \<longleftrightarrow> j = 1"
  by (auto simp: kstate0_def is_ready_def proc0_def proc1_def nth_Cons split: nat.splits)

text \<open>C5. The context switch. When some process is ready, \<open>schedule\<close> resumes the one that comes first
  after the current one in cyclic order: it jumps to the restore path with the stack pointer of
  that process, on whose kernel stack lies exactly its saved trap frame, with its page table in
  \<open>satp\<close>; that process is marked running, the trap frame the outgoing process had on its own
  kernel stack is saved in its descriptor, and no other slot changes.\<close>

theorem schedule_switches:
  fixes s :: "'a kernel_state_scheme"
  assumes ok: "sched_ok s" and st: "stacks_ok s" and j: "j < 32" "is_ready (PROCESS_LIST s ! j)"
  shows "\<exists>k p s'. k < 32 \<and> is_ready (PROCESS_LIST s ! k) \<and>
    cyclic_dist (unat (CURRENT s)) k \<le> cyclic_dist (unat (CURRENT s)) j \<and>
    PROCESS_LIST (saved s) ! k = Some p \<and>
    (schedule :: ('a kernel_state_scheme, 'b) kernel) s = (Exit (Resume (kernel_sp p - 288) (TRAP_EXIT_RESTORE_ADDR s)), s') \<and>
    unat (CURRENT s') = k \<and> csr_satp s' = satp_val (page_table p) \<and>
    stack_frame (mem s') (kernel_sp p - 288) = trap_frame p \<and>
    PROCESS_LIST s' ! k = Some (p\<lparr>proc_state := Running\<rparr>) \<and>
    (\<forall>i<32. i \<noteq> k \<longrightarrow> PROCESS_LIST s' ! i = (if i = unat (CURRENT s)
       then Some ((cur_proc s)\<lparr>trap_frame := stack_frame (mem s) (kernel_sp (cur_proc s) - 288)\<rparr>)
       else PROCESS_LIST s ! i)) \<and> sched_ok s'"
proof -
  obtain k where k: "k < 32" "is_ready (PROCESS_LIST s ! k)"
      "cyclic_dist (unat (CURRENT s)) k \<le> cyclic_dist (unat (CURRENT s)) j"
    and run: "(schedule :: ('a kernel_state_scheme, 'b) kernel) s = (Exit (Resume (frame_base (the (PROCESS_LIST (saved s) ! k))) (TRAP_EXIT_RESTORE_ADDR s)),
        switched k (saved s))"
    using schedule_run [OF ok st] j by blast
  have rd: "is_ready (PROCESS_LIST (saved s) ! k)" using k saved_ready [OF ok k(1)] by simp
  then obtain p where p: "PROCESS_LIST (saved s) ! k = Some p" by (auto simp: is_ready_def split: option.splits)
  have "Some p \<in> set (PROCESS_LIST (saved s))"
    using p k(1) ok nth_mem [of k "PROCESS_LIST (saved s)"] by (simp add: sched_ok_def)
  then have al: "dword_aligned (kernel_sp p)" "tf_ok (trap_frame p)"
    using saved_stacks [OF ok st] by (auto simp: stacks_ok_def)
  let ?s' = "switched k (saved s)"
  have okS: "sched_ok (saved s)" using ok by simp
  have "stack_frame (mem ?s') (frame_base p) = trap_frame p"
    using stack_frame_write [OF frame_base_aligned [OF al(1)] al(2)] by (simp add: switched_def p)
  moreover have "PROCESS_LIST ?s' ! k = Some (p\<lparr>proc_state := Running\<rparr>)"
    using switched_nth [OF okS k(1) k(1)] p by simp
  moreover have "PROCESS_LIST ?s' ! i = PROCESS_LIST (saved s) ! i" if "i < 32" "i \<noteq> k" for i
    using switched_nth [OF okS k(1) that(1)] that(2) by simp
  moreover have "unat (CURRENT ?s') = k" "csr_satp ?s' = satp_val (page_table p)"
    using k(1) by (simp_all add: switched_def p Let_def)
  moreover have "sched_ok ?s'"
    using k(1) okS p switched_nth [OF okS k(1) k(1)] by (simp add: sched_ok_def switched_def Let_def)
  ultimately show ?thesis
    using k run p saved_nth [OF ok]
    by (intro exI [of _ k] exI [of _ p] exI [of _ ?s']) (simp add: frame_base_def TrapFrame_SIZE_def)
qed

theorem schedule_switches_witness:
  "\<exists>s'. (schedule :: (kernel_state, unit) kernel) kstate0 = (Exit (Resume 0x8040FEE0 0x80200100), s') \<and> CURRENT s' = 1 \<and>
     stack_frame (mem s') 0x8040FEE0 = new_user 0x10000 0x3F001000"
proof -
  have "is_ready (PROCESS_LIST kstate0 ! 1)" by (simp add: kstate0_ready)
  from schedule_switches [OF kstate0_sched kstate0_stacks _ this] obtain k p s' where
    k: "k < 32" "is_ready (PROCESS_LIST kstate0 ! k)" and p: "PROCESS_LIST (saved kstate0) ! k = Some p"
    and r: "(schedule :: (kernel_state, unit) kernel) kstate0 = (Exit (Resume (kernel_sp p - 288) (TRAP_EXIT_RESTORE_ADDR kstate0)), s')"
      "unat (CURRENT s') = k" "stack_frame (mem s') (kernel_sp p - 288) = trap_frame p"
    by auto
  have "k = 1" using k kstate0_ready by simp
  moreover from this p have "p = proc1"
    using saved_nth [OF kstate0_sched k(1)] kstate0_nth by (simp add: kstate0_def)
  moreover have "CURRENT s' = 1" using r(2) \<open>k = 1\<close> by (simp add: word_unat_eq_iff)
  ultimately show ?thesis using r by (auto simp: proc1_def proc0_def kstate0_def)
qed

text \<open>C21. No starvation by the scheduler: each call of \<open>schedule\<close> either resumes a given ready process
  or brings the current position strictly closer to it in cyclic order, leaving it ready, so it
  runs after at most 32 calls.\<close>

theorem schedule_fair:
  fixes s :: "'a kernel_state_scheme"
  assumes ok: "sched_ok s" and st: "stacks_ok s" and j: "j < 32" "is_ready (PROCESS_LIST s ! j)"
  shows "\<exists>sp addr s'. (schedule :: ('a kernel_state_scheme, 'b) kernel) s = (Exit (Resume sp addr), s') \<and> sched_ok s' \<and>
    (unat (CURRENT s') = j \<or> is_ready (PROCESS_LIST s' ! j) \<and>
       cyclic_dist (unat (CURRENT s')) j < cyclic_dist (unat (CURRENT s)) j)"
proof -
  let ?c = "unat (CURRENT s)"
  obtain k where k: "k < 32" "is_ready (PROCESS_LIST s ! k)" "cyclic_dist ?c k \<le> cyclic_dist ?c j"
    and run: "(schedule :: ('a kernel_state_scheme, 'b) kernel) s = (Exit (Resume (frame_base (the (PROCESS_LIST (saved s) ! k))) (TRAP_EXIT_RESTORE_ADDR s)),
        switched k (saved s))"
    using schedule_run [OF ok st] j by blast
  have c: "?c < 32" using ok by (simp add: sched_ok_def)
  have okS: "sched_ok (saved s)" using ok by simp
  have uk: "unat (CURRENT (switched k (saved s))) = k" using k(1) by (simp add: switched_def Let_def)
  have "sched_ok (switched k (saved s))"
    using k(1,2) okS uk switched_nth [OF okS k(1) k(1)] saved_ready [OF ok k(1)]
    by (auto simp: sched_ok_def is_ready_def split: option.splits) (simp add: switched_def Let_def)
  moreover have "is_ready (PROCESS_LIST (switched k (saved s)) ! j)" if "j \<noteq> k"
    using switched_nth [OF okS k(1) j(1)] that j saved_ready [OF ok j(1)] by simp
  moreover have "cyclic_dist k j < cyclic_dist ?c j" if "j \<noteq> k"
    using that k(1,3) j(1) c by (auto simp: cyclic_dist_def split: if_splits)
  ultimately show ?thesis using run uk by auto
qed

theorem schedule_fair_witness:
  "\<exists>sp addr s'. schedule kstate0 = (Exit (Resume sp addr), s') \<and>
    (unat (CURRENT s') = 1 \<or> cyclic_dist (unat (CURRENT s')) 1 < 1)"
proof -
  have "is_ready (PROCESS_LIST kstate0 ! 1)" by (simp add: kstate0_ready)
  moreover have "cyclic_dist (unat (CURRENT kstate0)) 1 = 1" by (simp add: cyclic_dist_def kstate0_def)
  ultimately show ?thesis using schedule_fair [OF kstate0_sched kstate0_stacks, of 1] by auto
qed

text \<open>C26. With no process ready, \<open>schedule\<close> powers the machine off and nothing else: it makes exactly the
  SBI system-reset call.\<close>

theorem schedule_idle_shuts_down:
  assumes "sched_ok s" and "stacks_ok s" and "\<forall>k<32. \<not> is_ready (PROCESS_LIST s ! k)"
  shows "\<exists>s'. schedule s = (Exit Shutdown, s') \<and>
    sbi_log s' = sbi_log s @ [(SBI_EXT_SRST, SBI_SRST_RESET, SBI_RESET_SHUTDOWN, 0)]"
  using schedule_run [OF assms(1,2)] assms(3) by auto

theorem schedule_idle_shuts_down_witness:
  "\<exists>s'. schedule (kstate0\<lparr>PROCESS_LIST := Some proc0 # replicate 31 None\<rparr>) = (Exit Shutdown, s')"
proof -
  let ?s = "kstate0\<lparr>PROCESS_LIST := Some proc0 # replicate 31 None\<rparr>"
  have "sched_ok ?s" by (simp add: sched_ok_def kstate0_def)
  moreover have "stacks_ok ?s" by (simp add: stacks_ok_def proc0_def dword_aligned_def)
  moreover have "\<forall>k<32. \<not> is_ready (PROCESS_LIST ?s ! k)"
    by (auto simp: is_ready_def proc0_def nth_Cons split: nat.splits)
  ultimately show ?thesis using schedule_idle_shuts_down [of ?s] by blast
qed

text \<open>C25. The children of a dying process are handed to \<open>init\<close>: every process that is not gone and whose
  parent was the current process has parent 1 afterwards, and nothing else changes.\<close>

theorem reparent_orphans_spec:
  assumes "sched_ok s"
  shows "reparent_orphans_to_init s = (Val (), s\<lparr>PROCESS_LIST := List.map (map_option (\<lambda>p.
      if parent_pid p = pid (cur_proc s) \<and> proc_state p \<noteq> Gone then p\<lparr>parent_pid := 1\<rparr> else p)) (PROCESS_LIST s)\<rparr>)"
  using wp_returns [OF wp_reparent [OF assms]] by (auto simp: reparent_def [abs_def])

theorem reparent_orphans_spec_witness:
  "\<exists>s'. reparent_orphans_to_init kstate0 = (Val (), s') \<and> PROCESS_LIST s' ! 1 = Some proc1"
  using reparent_orphans_spec [OF kstate0_sched]
  by (simp add: kstate0_def cur_proc_def) (simp add: proc1_def proc0_def)

text \<open>Waking the parent: the first blocked process whose number is the current process's parent becomes
  ready, no other slot changes, and when there is none the table is unchanged.\<close>

lemma wake_parent_spec:
  assumes "sched_ok s"
  shows "\<exists>s'. wake_parent s = (Val (), s') \<and>
    (if \<exists>i<32. \<exists>p. PROCESS_LIST s ! i = Some p \<and> pid p = parent_pid (cur_proc s) \<and> proc_state p = Blocked
     then \<exists>i<32. \<exists>p. PROCESS_LIST s ! i = Some p \<and> pid p = parent_pid (cur_proc s) \<and> proc_state p = Blocked \<and>
       s' = s\<lparr>PROCESS_LIST := (PROCESS_LIST s)[i := Some (p\<lparr>proc_state := Ready\<rparr>)]\<rparr>
     else s' = s)"
proof -
  have len: "length (PROCESS_LIST s) = 32" using assms by (simp add: sched_ok_def)
  have run: "wake_parent s = (Val (), wake_result (parent_pid (cur_proc s)) s)"
    using wp_returns [OF wp_wake_parent [OF assms]] by auto
  have w: "wakes q slot \<longleftrightarrow> (\<exists>p. slot = Some p \<and> pid p = q \<and> proc_state p = Blocked)" for q slot
    by (cases slot) (auto simp: wakes_def)
  show ?thesis
  proof (cases "position (wakes (parent_pid (cur_proc s))) (PROCESS_LIST s)")
    case None
    then have "\<not> (\<exists>i<32. wakes (parent_pid (cur_proc s)) (PROCESS_LIST s ! i))"
      using nth_mem [of _ "PROCESS_LIST s"] by (auto simp: position_None len)
    moreover have "wake_result (parent_pid (cur_proc s)) s = s" using None by (simp add: wake_result_def)
    ultimately show ?thesis using run unfolding w by auto
  next
    case (Some i)
    then have i: "i < 32" "wakes (parent_pid (cur_proc s)) (PROCESS_LIST s ! i)" by (auto simp: position_Some len)
    then obtain p where p: "PROCESS_LIST s ! i = Some p" "pid p = parent_pid (cur_proc s)" "proc_state p = Blocked"
      unfolding w by blast
    then have "wake_result (parent_pid (cur_proc s)) s = s\<lparr>PROCESS_LIST := (PROCESS_LIST s)[i := Some (p\<lparr>proc_state := Ready\<rparr>)]\<rparr>"
      using Some by (simp add: wake_result_def update_slot_def)
    then show ?thesis using run i(1) p by auto
  qed
qed

end
