(* ===== verification/Mmap.thy ===== *)
theory Mmap
  imports Scheduler
begin

text \<open>
  The table of anonymous mappings of a process (\<open>syscall.rs\<close>, from \<open>align_up\<close> to
  \<open>remove_mmap_range\<close>): choosing an address, finding a gap, and cutting a range out of the
  table, which may shrink, drop or split areas. The abstraction of the table is the partial
  function from addresses to the protection and flags of the area that holds them.
\<close>

definition PAGE_SIZE :: usize where "PAGE_SIZE = 4096"
definition PROT_READ :: usize where "PROT_READ = 0x1"
definition PROT_WRITE :: usize where "PROT_WRITE = 0x2"
definition PROT_EXEC :: usize where "PROT_EXEC = 0x4"

section \<open>The operations\<close>

definition align_up :: "usize \<Rightarrow> ('s, usize) kernel" where
  "align_up addr =
     kbind (uadd addr PAGE_SIZE) (\<lambda>a.
     kbind (usub a 1) (\<lambda>b.
     ret (b AND NOT (PAGE_SIZE - 1))))"

definition checked_align_up :: "usize \<Rightarrow> usize option" where
  "checked_align_up addr =
     map_option (\<lambda>addr. addr AND NOT (PAGE_SIZE - 1)) (checked_add addr (PAGE_SIZE - 1))"

definition pte_flags_from_prot :: "usize \<Rightarrow> PTEFlags option" where
  "pte_flags_from_prot prot =
     (if prot AND NOT (PROT_READ OR PROT_WRITE OR PROT_EXEC) \<noteq> 0 then None
      else if prot = 0 then None
      else
        let writable = prot AND PROT_WRITE \<noteq> 0;
            readable = prot AND PROT_READ \<noteq> 0 \<or> writable;
            executable = prot AND PROT_EXEC \<noteq> 0
        in Some (PTEFlags_new readable writable executable True))"

definition ranges_overlap :: "usize \<Rightarrow> usize \<Rightarrow> usize \<Rightarrow> usize \<Rightarrow> bool" where
  "ranges_overlap a_start a_end b_start b_end \<longleftrightarrow> a_start < b_end \<and> b_start < a_end"

text \<open>The inner loop of \<open>find_mmap_gap\<close>: where to go on, when an area is in the way.\<close>

primrec scan_areas :: "usize \<Rightarrow> usize \<Rightarrow> MmapArea list \<Rightarrow> ('s, usize option) kernel" where
  "scan_areas candidate fin [] = ret None"
| "scan_areas candidate fin (area # areas) =
     (if \<not> area_used area then scan_areas candidate fin areas
      else kbind (area_end area) (\<lambda>e.
        if ranges_overlap candidate fin (area_start area) e then
          kbind (area_end area) (\<lambda>e.
          kbind (align_up e) (\<lambda>c.
          ret (Some c)))
        else scan_areas candidate fin areas))"

lemma align_up_ge: "align_up x s = (Val y, s') \<Longrightarrow> x \<le> y"
proof -
  assume "align_up x s = (Val y, s')"
  then have nov: "\<not> add_overflows x 4096" and y: "y = page_of (x + 4096 - 1)"
    by (auto simp: align_up_def PAGE_SIZE_def uadd_def usub_def kbind_def ret_def halt_def page_of_def split: if_splits)
  have "unat (x + 4096) = unat x + 4096" using nov by (simp add: unat_add_no_overflow)
  then have "unat (x + 4096 - 1) = unat x + 4095" by (subst unat_sub) (simp_all add: word_le_nat_alt)
  then have "unat x \<le> unat y" unfolding y unat_page_of by simp
  then show ?thesis by (simp add: word_le_nat_alt)
qed

lemma scan_areas_moves: "scan_areas c fin areas s = (Val (Some c'), s') \<Longrightarrow> c < c'"
proof (induction areas)
  case (Cons a as)
  then show ?case
    by (auto simp: kbind_def area_end_def uadd_def ret_def halt_def ranges_overlap_def
        split: if_splits prod.splits outcome.splits dest: align_up_ge order.strict_trans2)
qed (simp add: ret_def)

text \<open>The outer loop; the candidate only moves up.\<close>

function find_gap_from :: "usize \<Rightarrow> usize \<Rightarrow> ('a kernel_state_scheme, usize option) kernel" where
  "find_gap_from len candidate s =
     (case checked_add candidate len of
        None \<Rightarrow> (Val None, s)
      | Some fin \<Rightarrow>
          if USER_MMAP_LIMIT < fin then (Val None, s)
          else (case kbind current (\<lambda>p. scan_areas candidate fin (mmap_areas p)) s of
              (Exit e, s') \<Rightarrow> (Exit e, s')
            | (Val None, s') \<Rightarrow> (Val (Some candidate), s')
            | (Val (Some c), s') \<Rightarrow> find_gap_from len c s'))"
  by pat_completeness auto
termination
proof (relation "measure (\<lambda>(len, c, s). 2 ^ 64 - unat c)", simp)
  fix len c s fin x s' y c'
  assume "(x, s') = kbind current (\<lambda>p. scan_areas c fin (mmap_areas p)) s" "x = Val y" "y = Some c'"
  then have "kbind current (\<lambda>p. scan_areas c fin (mmap_areas p)) s = (Val (Some c'), s')" by simp
  then have "c < c'"
    by (auto simp: kbind_def split: prod.splits outcome.splits dest: scan_areas_moves)
  then have "unat c < unat c'" by (simp add: word_less_nat_alt)
  then show "((len, c', s'), len, c, s) \<in> measure (\<lambda>(len, c, s). 2 ^ 64 - unat c)"
    using unat_usize_less [of c'] by simp
qed

declare find_gap_from.simps [simp del]

definition find_mmap_gap :: "usize \<Rightarrow> ('a kernel_state_scheme, usize option) kernel" where
  "find_mmap_gap len = find_gap_from len USER_MMAP_START"

primrec areas_available :: "usize \<Rightarrow> usize \<Rightarrow> MmapArea list \<Rightarrow> ('s, bool) kernel" where
  "areas_available start fin [] = ret True"
| "areas_available start fin (area # areas) =
     (if \<not> area_used area then areas_available start fin areas
      else kbind (area_end area) (\<lambda>e.
        if ranges_overlap start fin (area_start area) e then ret False
        else areas_available start fin areas))"

definition mmap_range_available :: "usize \<Rightarrow> usize \<Rightarrow> ('a kernel_state_scheme, bool) kernel" where
  "mmap_range_available start fin = kbind current (\<lambda>p. areas_available start fin (mmap_areas p))"

text \<open>In \<open>choose_mmap_addr\<close> the operator \<open>?\<close> returns from the function when the end of the
  hinted range overflows.\<close>

definition choose_mmap_addr :: "usize \<Rightarrow> usize \<Rightarrow> ('a kernel_state_scheme, usize option) kernel" where
  "choose_mmap_addr hint len =
     (if hint \<noteq> 0 then
        kbind (align_up hint) (\<lambda>hint.
        if USER_MMAP_START \<le> hint then
          (case checked_add hint len of
             None \<Rightarrow> ret None
           | Some e \<Rightarrow>
               if e \<le> USER_MMAP_LIMIT then
                 kbind (uadd hint len) (\<lambda>e.
                 kbind (mmap_range_available hint e) (\<lambda>free.
                 if free then ret (Some hint) else find_mmap_gap len))
               else find_mmap_gap len)
        else find_mmap_gap len)
      else find_mmap_gap len)"

definition find_free_mmap_slot :: "('a kernel_state_scheme, nat option) kernel" where
  "find_free_mmap_slot = kbind current (\<lambda>p. ret (position (\<lambda>area. \<not> area_used area) (mmap_areas p)))"

primrec split_count :: "usize \<Rightarrow> usize \<Rightarrow> usize \<Rightarrow> usize \<Rightarrow> MmapArea list \<Rightarrow> ('s, bool) kernel" where
  "split_count start fin needed free [] = ret (needed \<le> free)"
| "split_count start fin needed free (area # areas) =
     (if \<not> area_used area then kbind (uadd free 1) (\<lambda>free. split_count start fin needed free areas)
      else kbind (area_end area) (\<lambda>e.
        if ranges_overlap start fin (area_start area) e \<and> area_start area < start \<and> fin < e
        then kbind (uadd needed 1) (\<lambda>needed. split_count start fin needed free areas)
        else split_count start fin needed free areas))"

definition can_split_mmap_range :: "usize \<Rightarrow> usize \<Rightarrow> ('a kernel_state_scheme, bool) kernel" where
  "can_split_mmap_range start fin = kbind current (\<lambda>p. split_count start fin 0 0 (mmap_areas p))"

definition set_area :: "nat \<Rightarrow> MmapArea \<Rightarrow> ('a kernel_state_scheme, unit) kernel" where
  "set_area i area = update_current (\<lambda>p. p\<lparr>mmap_areas := (mmap_areas p)[i := area]\<rparr>)"

definition remove_step :: "usize \<Rightarrow> usize \<Rightarrow> nat \<Rightarrow> ('a kernel_state_scheme, unit) kernel" where
  "remove_step start fin i =
     kbind current (\<lambda>p.
     let area = mmap_areas p ! i in
     if \<not> area_used area then ret ()
     else kbind (area_end area) (\<lambda>area_fin.
       if \<not> ranges_overlap start fin (area_start area) area_fin then ret ()
       else if start \<le> area_start area \<and> area_fin \<le> fin then set_area i MmapArea_EMPTY
       else if start \<le> area_start area then
         kbind (usub area_fin fin) (\<lambda>l. set_area i (area\<lparr>area_start := fin, area_len := l\<rparr>))
       else if area_fin \<le> fin then
         kbind (usub start (area_start area)) (\<lambda>l. set_area i (area\<lparr>area_len := l\<rparr>))
       else
         kbind (usub area_fin fin) (\<lambda>tl.
         let tail = \<lparr>area_start = fin, area_len = tl, area_prot = area_prot area,
                     area_flags = area_flags area, area_used = True\<rparr> in
         kbind (usub start (area_start area)) (\<lambda>l.
         kseq (set_area i (area\<lparr>area_len := l\<rparr>))
         (kbind current (\<lambda>p.
         kbind (expect ''munmap split preflight failed''
           (position (\<lambda>area. \<not> area_used area) (mmap_areas p))) (\<lambda>slot.
         set_area slot tail)))))))"

definition remove_mmap_range :: "usize \<Rightarrow> usize \<Rightarrow> ('a kernel_state_scheme, unit) kernel" where
  "remove_mmap_range start fin =
     kbind current (\<lambda>p. for_each [0..<length (mmap_areas p)] (remove_step start fin))"

section \<open>Well-formed tables\<close>

definition lo :: "MmapArea \<Rightarrow> nat" where "lo a = unat (area_start a)"
definition hi :: "MmapArea \<Rightarrow> nat" where "hi a = unat (area_start a) + unat (area_len a)"
definition fin_of :: "MmapArea \<Rightarrow> usize" where "fin_of a = area_start a + area_len a"

definition area_ok :: "MmapArea \<Rightarrow> bool" where
  "area_ok a \<longleftrightarrow> page_aligned (area_start a) \<and> page_aligned (area_len a) \<and> area_len a \<noteq> 0 \<and>
     0x3e000000 \<le> lo a \<and> hi a \<le> 0x3f000000"

definition apart :: "MmapArea \<Rightarrow> MmapArea \<Rightarrow> bool" where
  "apart a b \<longleftrightarrow> (area_used a \<and> area_used b \<longrightarrow> hi a \<le> lo b \<or> hi b \<le> lo a)"

definition areas_ok :: "MmapArea list \<Rightarrow> bool" where
  "areas_ok as \<longleftrightarrow> length as = 32 \<and> (\<forall>a\<in>set as. area_used a \<longrightarrow> area_ok a) \<and>
     (\<forall>i<32. \<forall>j<32. i \<noteq> j \<longrightarrow> apart (as ! i) (as ! j))"

definition in_area :: "MmapArea \<Rightarrow> nat \<Rightarrow> bool" where
  "in_area a x \<longleftrightarrow> area_used a \<and> lo a \<le> x \<and> x < hi a"

text \<open>The protection and flags at an address, as the table records them.\<close>

definition area_at :: "MmapArea list \<Rightarrow> nat \<Rightarrow> (usize \<times> usize) option" where
  "area_at as x = map_option (\<lambda>a. (area_prot a, area_flags a)) (find (\<lambda>a. in_area a x) as)"

lemma fin_of: "area_ok a \<Longrightarrow> unat (fin_of a) = hi a" "area_ok a \<Longrightarrow> page_aligned (fin_of a)"
  "area_ok a \<Longrightarrow> area_end a s = (Val (fin_of a), s)" "area_ok a \<Longrightarrow> lo a < hi a"
proof -
  assume a: "area_ok a"
  then have "\<not> add_overflows (area_start a) (area_len a)" by (simp add: area_ok_def hi_def add_overflows_def)
  then show u: "unat (fin_of a) = hi a" and "area_end a s = (Val (fin_of a), s)"
    by (simp_all add: fin_of_def hi_def unat_add_no_overflow area_end_def uadd_def ret_def)
  show "page_aligned (fin_of a)" using a u by (simp add: page_aligned_iff_dvd area_ok_def hi_def)
  show "lo a < hi a" using a by (simp add: area_ok_def lo_def hi_def unat_gt_0)
qed

lemma wp_area_end: "area_ok a \<Longrightarrow> wp (area_end a) Q R s = Q (fin_of a) s"
  by (simp add: wp_def fin_of)

lemma overlap_iff:
  "area_ok a \<Longrightarrow> ranges_overlap st fin (area_start a) (fin_of a) \<longleftrightarrow> unat st < hi a \<and> lo a < unat fin"
  by (simp add: ranges_overlap_def word_less_nat_alt fin_of lo_def)

lemma areas_ok_used: "areas_ok as \<Longrightarrow> a \<in> set as \<Longrightarrow> area_used a \<Longrightarrow> area_ok a"
  by (simp add: areas_ok_def)

lemma areas_ok_nth: "areas_ok as \<Longrightarrow> i < 32 \<Longrightarrow> area_used (as ! i) \<Longrightarrow> area_ok (as ! i)"
  by (simp add: areas_ok_def)

lemma areas_ok_shrink:
  assumes ok: "areas_ok as" and i: "i < 32"
    and a: "area_used a \<Longrightarrow> area_ok a \<and> area_used (as ! i) \<and> lo (as ! i) \<le> lo a \<and> hi a \<le> hi (as ! i)"
  shows "areas_ok (as[i := a])"
proof -
  have "apart (as[i := a] ! k) (as[i := a] ! j)" if "k < 32" "j < 32" "k \<noteq> j" for k j
  proof -
    have "apart (as ! k) (as ! j)" "length as = 32" using ok that by (auto simp: areas_ok_def)
    then show ?thesis using a that i by (auto simp: apart_def nth_list_update)
  qed
  moreover have "\<forall>b\<in>set (as[i := a]). area_used b \<longrightarrow> area_ok b"
    using ok a set_update_subset_insert [of as i a] by (auto simp: areas_ok_def)
  ultimately show ?thesis using ok by (simp add: areas_ok_def)
qed

lemma areas_ok_insert:
  assumes ok: "areas_ok as" and i: "i < 32" and t: "area_ok t"
    and free: "\<And>b. b \<in> set as \<Longrightarrow> area_used b \<Longrightarrow> hi b \<le> lo t \<or> hi t \<le> lo b"
  shows "areas_ok (as[i := t])"
proof -
  have len: "length as = 32" using ok by (simp add: areas_ok_def)
  have "apart (as[i := t] ! k) (as[i := t] ! j)" if "k < 32" "j < 32" "k \<noteq> j" for k j
  proof -
    have "apart (as ! k) (as ! j)" using ok that by (auto simp: areas_ok_def)
    moreover have "as ! k \<in> set as" "as ! j \<in> set as" using that len by auto
    ultimately show ?thesis using free [of "as ! k"] free [of "as ! j"] that len i by (auto simp: apart_def nth_list_update)
  qed
  moreover have "\<forall>b\<in>set (as[i := t]). area_used b \<longrightarrow> area_ok b"
    using ok t set_update_subset_insert [of as i t] by (auto simp: areas_ok_def)
  ultimately show ?thesis using ok by (simp add: areas_ok_def)
qed

lemma area_at_iff:
  assumes "areas_ok as"
  shows "area_at as x = Some pf \<longleftrightarrow> (\<exists>i<32. in_area (as ! i) x \<and> pf = (area_prot (as ! i), area_flags (as ! i)))"
proof -
  have len: "length as = 32" using assms by (simp add: areas_ok_def)
  have uniq: "i = j" if "i < 32" "j < 32" "in_area (as ! i) x" "in_area (as ! j) x" for i j
  proof (rule ccontr)
    assume "i \<noteq> j"
    then have "apart (as ! i) (as ! j)" using assms that by (simp add: areas_ok_def)
    then show False using that by (auto simp: apart_def in_area_def)
  qed
  show ?thesis
  proof
    assume "area_at as x = Some pf"
    then show "\<exists>i<32. in_area (as ! i) x \<and> pf = (area_prot (as ! i), area_flags (as ! i))"
      by (auto simp: area_at_def find_Some_iff len)
  next
    assume "\<exists>i<32. in_area (as ! i) x \<and> pf = (area_prot (as ! i), area_flags (as ! i))"
    then obtain i where i: "i < 32" "in_area (as ! i) x" "pf = (area_prot (as ! i), area_flags (as ! i))" by blast
    have "\<not> in_area (as ! j) x" if "j < i" for j using uniq [of j i] that i by auto
    then have "find (\<lambda>a. in_area a x) as = Some (as ! i)"
      unfolding find_Some_iff using i len by (intro exI [of _ i]) auto
    then show "area_at as x = Some pf" using i by (simp add: area_at_def)
  qed
qed

lemma area_at_None: "area_at as x = None \<longleftrightarrow> (\<forall>a\<in>set as. \<not> in_area a x)"
  by (auto simp: area_at_def find_None_iff)

section \<open>Finding a gap\<close>

definition free_at :: "MmapArea list \<Rightarrow> nat \<Rightarrow> nat \<Rightarrow> bool" where
  "free_at as len g \<longleftrightarrow> 0x3e000000 \<le> g \<and> g + len \<le> 0x3f000000 \<and>
     (\<forall>a\<in>set as. area_used a \<longrightarrow> hi a \<le> g \<or> g + len \<le> lo a)"

lemma align_up_page:
  assumes "page_aligned x" and "unat x + 4096 < 2 ^ 64"
  shows "align_up x s = (Val x, s)"
proof -
  have "\<not> add_overflows x 4096" using assms(2) by (simp add: add_overflows_def)
  moreover from this have "unat (x + 4096) = unat x + 4096" by (simp add: unat_add_no_overflow)
  moreover from this have "\<not> x + 4096 < 1" by (simp add: word_less_nat_alt)
  moreover have "page_of (x + 4096 - 1) = x"
  proof -
    have "x + 4096 - 1 = x + 4095" by simp
    then show ?thesis using page_of_plus_offset(1) [OF assms(1), of 4095] by (simp only: unat_numeral) simp
  qed
  ultimately show ?thesis
    by (simp add: align_up_def PAGE_SIZE_def uadd_def usub_def kbind_def ret_def page_of_def)
qed

lemma scan_areas_run:
  assumes "\<forall>a\<in>set as. area_used a \<longrightarrow> area_ok a"
  shows "scan_areas c fin as s = (Val (map_option fin_of
     (find (\<lambda>a. area_used a \<and> unat c < hi a \<and> lo a < unat fin) as)), s)"
  using assms
proof (induction as)
  case (Cons a as)
  have "unat (fin_of a) + 4096 < 2 ^ 64" if "area_ok a"
    using that fin_of(1) [OF that] by (simp add: area_ok_def)
  then show ?case
    using Cons by (auto simp: kbind_def fin_of align_up_page overlap_iff ret_def)
qed (simp add: ret_def)

lemma find_gap_from_run:
  assumes "sched_ok s" and "areas_ok (mmap_areas (cur_proc s))"
    and "0x3e000000 \<le> unat c" and "page_aligned c"
    and "\<And>g. free_at (mmap_areas (cur_proc s)) (unat len) g \<Longrightarrow> unat c \<le> g"
  shows "\<exists>r. find_gap_from len c s = (Val r, s) \<and> (case r of
      None \<Rightarrow> \<forall>g. \<not> free_at (mmap_areas (cur_proc s)) (unat len) g
    | Some g \<Rightarrow> page_aligned g \<and> free_at (mmap_areas (cur_proc s)) (unat len) (unat g) \<and>
        (\<forall>h. free_at (mmap_areas (cur_proc s)) (unat len) h \<longrightarrow> unat g \<le> h))"
  using assms
proof (induction len c s rule: find_gap_from.induct)
  case (1 len c s)
  let ?as = "mmap_areas (cur_proc s)"
  have full: "\<not> free_at ?as (unat len) g" if "0x3f000000 < unat c + unat len" for g
    using that "1.prems"(5) [of g] by (auto simp: free_at_def)
  show ?case
  proof (cases "checked_add c len")
    case None
    then have "0x3f000000 < unat c + unat len"
      by (auto simp: checked_add_def add_overflows_def split: if_splits)
    with full None show ?thesis by (simp add: find_gap_from.simps [of len c s])
  next
    case (Some fin)
    have uf: "unat fin = unat c + unat len" by (rule checked_add_unat [OF Some])
    have lim: "USER_MMAP_LIMIT < fin \<longleftrightarrow> 0x3f000000 < unat c + unat len"
      by (simp add: USER_MMAP_LIMIT_def word_less_nat_alt uf)
    have used: "\<forall>a\<in>set ?as. area_used a \<longrightarrow> area_ok a" using "1.prems"(2) by (simp add: areas_ok_def)
    let ?P = "\<lambda>a. area_used a \<and> unat c < hi a \<and> lo a < unat fin"
    have scan: "kbind current (\<lambda>p. scan_areas c fin (mmap_areas p)) s = (Val (map_option fin_of (find ?P ?as)), s)"
      by (simp add: kbind_def current_run [OF "1.prems"(1)] scan_areas_run [OF used])
    show ?thesis
    proof (cases "USER_MMAP_LIMIT < fin")
      case True
      with full lim Some show ?thesis by (simp add: find_gap_from.simps [of len c s])
    next
      case False
      show ?thesis
      proof (cases "find ?P ?as")
        case None
        then have "free_at ?as (unat len) (unat c)"
          using False lim "1.prems"(3) uf by (fastforce simp: free_at_def find_None_iff not_less)
        with None False Some scan "1.prems"(4,5) show ?thesis
          by (simp add: find_gap_from.simps [of len c s])
      next
        case found: (Some a)
        then have a: "a \<in> set ?as" "area_used a" "unat c < hi a" "lo a < unat fin"
          by (auto simp: find_Some_iff)
        then have ok: "area_ok a" using used by blast
        have "unat (fin_of a) \<le> g" if "free_at ?as (unat len) g" for g
          using "1.prems"(5) [OF that] that a uf fin_of(1) [OF ok] by (auto simp: free_at_def)
        moreover have "0x3e000000 \<le> unat (fin_of a)" using ok fin_of(1,4) [OF ok] by (simp add: area_ok_def)
        ultimately have "\<exists>r. find_gap_from len (fin_of a) s = (Val r, s) \<and> (case r of
            None \<Rightarrow> \<forall>g. \<not> free_at ?as (unat len) g
          | Some g \<Rightarrow> page_aligned g \<and> free_at ?as (unat len) (unat g) \<and>
              (\<forall>h. free_at ?as (unat len) h \<longrightarrow> unat g \<le> h))"
          using "1.prems"(1,2) fin_of(2) [OF ok] scan found
          by (intro "1.IH" [OF Some False, of "Val (Some (fin_of a))" s "Some (fin_of a)"]) simp_all
        then show ?thesis using scan found False Some by (simp add: find_gap_from.simps [of len c s])
      qed
    qed
  qed
qed

lemma find_mmap_gap_run:
  assumes "sched_ok s" and "areas_ok (mmap_areas (cur_proc s))"
  shows "\<exists>r. find_mmap_gap len s = (Val r, s) \<and> (case r of
      None \<Rightarrow> \<forall>g. \<not> free_at (mmap_areas (cur_proc s)) (unat len) g
    | Some g \<Rightarrow> page_aligned g \<and> free_at (mmap_areas (cur_proc s)) (unat len) (unat g) \<and>
        (\<forall>h. free_at (mmap_areas (cur_proc s)) (unat len) h \<longrightarrow> unat g \<le> h))"
  unfolding find_mmap_gap_def
  by (rule find_gap_from_run [OF assms])
    (auto simp: USER_MMAP_START_def USER_HEAP_LIMIT_def page_aligned_def free_at_def)

lemma areas_available_run:
  assumes "\<forall>a\<in>set as. area_used a \<longrightarrow> area_ok a"
  shows "areas_available st fin as s =
    (Val (\<forall>a\<in>set as. area_used a \<longrightarrow> hi a \<le> unat st \<or> unat fin \<le> lo a), s)"
  using assms
proof (induction as)
  case (Cons a as)
  then show ?case by (auto simp: kbind_def fin_of overlap_iff ret_def)
qed (simp add: ret_def)

text \<open>Away from the end of the address space, rounding up does what it says.\<close>

definition page_up :: "usize \<Rightarrow> usize" where
  "page_up x = page_of (x + 4096 - 1)"

lemma page_up_facts:
  assumes "unat x + 4096 < 2 ^ 64"
  shows "align_up x s = (Val (page_up x), s)" "unat (page_up x) = (unat x + 4095) div 4096 * 4096"
    "page_aligned (page_up x)" "unat x \<le> unat (page_up x)" "unat (page_up x) < unat x + 4096"
proof -
  have "\<not> add_overflows x 4096" using assms by (simp add: add_overflows_def)
  moreover from this have u: "unat (x + 4096) = unat x + 4096" by (simp add: unat_add_no_overflow)
  moreover from this have "\<not> x + 4096 < 1" by (simp add: word_less_nat_alt)
  ultimately show "align_up x s = (Val (page_up x), s)"
    by (simp add: align_up_def PAGE_SIZE_def uadd_def usub_def kbind_def ret_def page_of_def page_up_def)
  have "unat (x + 4096 - 1) = unat x + 4095"
    using u by (subst unat_sub) (simp_all add: word_le_nat_alt)
  then show v: "unat (page_up x) = (unat x + 4095) div 4096 * 4096" by (simp only: page_up_def unat_page_of)
  show "unat x \<le> unat (page_up x)" "unat (page_up x) < unat x + 4096" unfolding v by simp_all
  show "page_aligned (page_up x)" by (simp add: page_up_def)
qed

lemma wp_align_up: "unat x + 4096 < 2 ^ 64 \<Longrightarrow> wp (align_up x) Q R s = Q (page_up x) s"
  by (simp add: wp_def page_up_facts(1))

lemma page_up_mono: "x \<le> y \<Longrightarrow> unat y + 4096 < 2 ^ 64 \<Longrightarrow> page_up x \<le> page_up y"
proof -
  assume "x \<le> y" and y: "unat y + 4096 < 2 ^ 64"
  then have le: "unat x \<le> unat y" and x: "unat x + 4096 < 2 ^ 64" by (simp_all add: word_le_nat_alt)
  have "(unat x + 4095) div 4096 * 4096 \<le> (unat y + 4095) div 4096 * 4096" using le by (simp add: div_le_mono)
  then show ?thesis unfolding word_le_nat_alt page_up_facts(2) [OF x] page_up_facts(2) [OF y] .
qed

lemma checked_align_up_aligned: "checked_align_up n = Some m \<Longrightarrow> page_aligned m"
proof -
  assume "checked_align_up n = Some m"
  moreover have "PAGE_SIZE - 1 = 0xFFF" by (simp add: PAGE_SIZE_def)
  ultimately show ?thesis unfolding checked_align_up_def by (auto simp only: page_of_def [symmetric] option.map_sel page_aligned_page_of map_option_eq_Some)
qed

lemma align_up_run:
  assumes "unat x + 4096 < 2 ^ 64"
  shows "\<exists>y. align_up x s = (Val y, s) \<and> page_aligned y \<and> unat x \<le> unat y \<and> unat y < unat x + 4096"
  by (intro exI [of _ "page_up x"] conjI page_up_facts assms)

section \<open>Cutting a range out\<close>

definition splits :: "usize \<Rightarrow> usize \<Rightarrow> MmapArea \<Rightarrow> bool" where
  "splits st fin a \<longleftrightarrow> area_used a \<and> lo a < unat st \<and> unat fin < hi a"

lemma split_count_run:
  assumes "\<forall>a\<in>set as. area_used a \<longrightarrow> area_ok a" and "st < fin"
    and "unat needed + length as < 2 ^ 64" and "unat free + length as < 2 ^ 64"
  shows "split_count st fin needed free as s =
    (Val (unat needed + length (filter (splits st fin) as) \<le> unat free + length (filter (\<lambda>a. \<not> area_used a) as)), s)"
  using assms
proof (induction as arbitrary: needed free)
  case (Cons a as)
  have inc: "\<not> add_overflows w 1" "unat (w + 1) = Suc (unat w)" if "unat w + Suc (length as) < 2 ^ 64" for w :: usize
  proof -
    show "\<not> add_overflows w 1" using that by (simp add: add_overflows_def)
    then show "unat (w + 1) = Suc (unat w)" by (simp add: unat_add_no_overflow)
  qed
  have sp: "splits st fin a \<longleftrightarrow> ranges_overlap st fin (area_start a) (fin_of a) \<and> area_start a < st \<and> fin < fin_of a"
    if "area_used a"
    using that Cons.prems(1,2) overlap_iff [of a st fin]
    by (auto simp: splits_def word_less_nat_alt fin_of lo_def)
  have ok: "area_ok a" if "area_used a" using that Cons.prems(1) by simp
  show ?case
    using Cons inc [of needed] inc [of free] sp ok
    by (auto simp: kbind_def fin_of uadd_def ret_def splits_def)
qed (simp add: ret_def word_le_nat_alt)

lemma can_split_run:
  assumes "sched_ok s"
  shows "can_split_mmap_range st fin s = split_count st fin 0 0 (mmap_areas (cur_proc s)) s"
  by (simp add: can_split_mmap_range_def kbind_def current_run [OF assms])

text \<open>The preflight asks for a free slot for every area that the cut splits in two.\<close>

definition splittable :: "usize \<Rightarrow> usize \<Rightarrow> MmapArea list \<Rightarrow> bool" where
  "splittable st fin as \<longleftrightarrow> length (filter (splits st fin) as) \<le> length (filter (\<lambda>a. \<not> area_used a) as)"

lemma can_split_value:
  assumes "sched_ok s" and "areas_ok (mmap_areas (cur_proc s))" and "st < fin"
  shows "can_split_mmap_range st fin s = (Val (splittable st fin (mmap_areas (cur_proc s))), s)"
proof -
  have "length (mmap_areas (cur_proc s)) = 32" "\<forall>a\<in>set (mmap_areas (cur_proc s)). area_used a \<longrightarrow> area_ok a"
    using assms(2) by (simp_all add: areas_ok_def)
  then show ?thesis
    using split_count_run [of "mmap_areas (cur_proc s)" st fin 0 0 s] assms(3) by (simp add: can_split_run [OF assms(1)] splittable_def)
qed

text \<open>The state of the table while \<open>remove_mmap_range\<close> runs, with \<open>i\<close> slots done.\<close>

definition outside :: "usize \<Rightarrow> usize \<Rightarrow> MmapArea \<Rightarrow> bool" where
  "outside st fin a \<longleftrightarrow> area_used a \<longrightarrow> hi a \<le> unat st \<or> unat fin \<le> lo a"

definition cut_inv :: "usize \<Rightarrow> usize \<Rightarrow> MmapArea list \<Rightarrow> nat \<Rightarrow> MmapArea list \<Rightarrow> bool" where
  "cut_inv st fin as0 i as \<longleftrightarrow> areas_ok as \<and>
     (\<forall>x. x < unat st \<or> unat fin \<le> x \<longrightarrow> area_at as x = area_at as0 x) \<and>
     (\<forall>j<i. outside st fin (as ! j)) \<and>
     ((\<exists>a\<in>set as. \<not> area_used a) \<or> (\<forall>a\<in>set as. \<not> splits st fin a))"

lemma area_at_cong:
  assumes "areas_ok as" "areas_ok as'"
    and "\<And>pf. (\<exists>i<32. in_area (as ! i) x \<and> pf = (area_prot (as ! i), area_flags (as ! i))) \<longleftrightarrow>
       (\<exists>i<32. in_area (as' ! i) x \<and> pf = (area_prot (as' ! i), area_flags (as' ! i)))"
  shows "area_at as x = area_at as' x"
proof -
  have "area_at as x = Some pf \<longleftrightarrow> area_at as' x = Some pf" for pf
    unfolding area_at_iff [OF assms(1)] area_at_iff [OF assms(2)] by (rule assms(3))
  then show ?thesis by (metis option.exhaust)
qed

lemma area_at_replace:
  assumes "areas_ok as" and "areas_ok (as[i := a])" and "i < 32"
    and "in_area a x \<longleftrightarrow> in_area (as ! i) x"
    and "in_area a x \<Longrightarrow> area_prot a = area_prot (as ! i) \<and> area_flags a = area_flags (as ! i)"
  shows "area_at (as[i := a]) x = area_at as x"
proof (rule area_at_cong [OF assms(2,1)])
  fix pf
  have "length as = 32" using assms(1) by (simp add: areas_ok_def)
  then have "in_area (as[i := a] ! k) x \<and> pf = (area_prot (as[i := a] ! k), area_flags (as[i := a] ! k)) \<longleftrightarrow>
      in_area (as ! k) x \<and> pf = (area_prot (as ! k), area_flags (as ! k))" if "k < 32" for k
    using that assms(3-5) by (auto simp: nth_list_update)
  then show "(\<exists>k<32. in_area (as[i := a] ! k) x \<and> pf = (area_prot (as[i := a] ! k), area_flags (as[i := a] ! k))) \<longleftrightarrow>
     (\<exists>k<32. in_area (as ! k) x \<and> pf = (area_prot (as ! k), area_flags (as ! k)))" by blast
qed

lemma cut_shrink:
  assumes inv: "cut_inv st fin as0 i as" and i: "i < 32" and u: "area_used (as ! i)"
    and a: "area_used a \<Longrightarrow> area_ok a \<and> area_prot a = area_prot (as ! i) \<and> area_flags a = area_flags (as ! i)"
    and cut: "\<And>x. in_area a x \<longleftrightarrow> in_area (as ! i) x \<and> \<not> (unat st \<le> x \<and> x < unat fin)"
    and bnd: "area_used a \<Longrightarrow> lo (as ! i) \<le> lo a \<and> hi a \<le> hi (as ! i)"
    and out: "outside st fin a"
  shows "cut_inv st fin as0 (Suc i) (as[i := a])"
proof -
  have ok: "areas_ok as" and len: "length as = 32" using inv by (auto simp: cut_inv_def areas_ok_def)
  have ok': "areas_ok (as[i := a])" by (rule areas_ok_shrink [OF ok i]) (use a u bnd in auto)
  have "area_at (as[i := a]) x = area_at as x" if "x < unat st \<or> unat fin \<le> x" for x
    by (rule area_at_replace [OF ok ok' i]) (use that cut [of x] a in \<open>auto simp: in_area_def\<close>)
  moreover have "outside st fin (as[i := a] ! j)" if "j < Suc i" for j
    using that inv out i len by (auto simp: cut_inv_def nth_list_update less_Suc_eq)
  moreover have "(\<exists>b\<in>set (as[i := a]). \<not> area_used b) \<or> (\<forall>b\<in>set (as[i := a]). \<not> splits st fin b)"
  proof (cases "\<exists>b\<in>set as. \<not> area_used b")
    case True
    then obtain j where j: "j < 32" "\<not> area_used (as ! j)" by (auto simp: in_set_conv_nth len)
    then have "as[i := a] ! j = as ! j" using u by (metis nth_list_update_neq)
    then show ?thesis using j len by (metis length_list_update nth_mem)
  next
    case False
    then have "\<forall>b\<in>set as. \<not> splits st fin b" using inv by (auto simp: cut_inv_def)
    moreover from this have "\<not> splits st fin (as ! i)" using i len by simp
    then have "\<not> splits st fin a" using bnd u by (auto simp: splits_def)
    ultimately show ?thesis using set_update_subset_insert [of as i a] by auto
  qed
  ultimately show ?thesis using inv ok' by (simp add: cut_inv_def)
qed

text \<open>Splitting area \<open>i\<close> of the table into a head and a tail in the unused slot \<open>j\<close>.\<close>

lemma cut_split:
  assumes inv: "cut_inv st fin as0 i as" and i: "i < 32" and sp: "splits st fin (as ! i)" and lt: "unat st < unat fin"
    and h: "area_used h" "area_ok h" "area_prot h = area_prot (as ! i)" "area_flags h = area_flags (as ! i)"
      "lo h = lo (as ! i)" "hi h = unat st"
    and j: "j < 32" "\<not> area_used (as[i := h] ! j)"
    and t: "area_used t" "area_ok t" "area_prot t = area_prot (as ! i)" "area_flags t = area_flags (as ! i)"
      "lo t = unat fin" "hi t = hi (as ! i)"
  shows "cut_inv st fin as0 (Suc i) (as[i := h, j := t])"
proof -
  let ?a = "as ! i" and ?as1 = "as[i := h]"
  have ok: "areas_ok as" and len: "length as = 32" using inv by (auto simp: cut_inv_def areas_ok_def)
  have a: "area_used ?a" "lo ?a < unat st" "unat fin < hi ?a" using sp by (auto simp: splits_def)
  have ji: "j \<noteq> i" using j h(1) i len by auto
  have ok1: "areas_ok ?as1" by (rule areas_ok_shrink [OF ok i]) (use h a lt in auto)
  have others: "hi b \<le> lo ?a \<or> hi ?a \<le> lo b" if "b = as ! k" "k < 32" "k \<noteq> i" "area_used b" for b k
    using ok that i a by (auto simp: areas_ok_def apart_def)
  have mem1: "b = h \<or> hi b \<le> lo ?a \<or> hi ?a \<le> lo b" if "b \<in> set ?as1" "area_used b" for b
  proof -
    from that(1) have "\<exists>k<length ?as1. ?as1 ! k = b" unfolding in_set_conv_nth by blast
    then obtain k where k: "k < 32" "b = ?as1 ! k" using len by auto
    show ?thesis using k i len that(2) others [of b k] by (cases "k = i") auto
  qed
  have ok2: "areas_ok (?as1[j := t])"
    by (rule areas_ok_insert [OF ok1 j(1) t(2)]) (use mem1 h t a lt in fastforce)
  have "area_at (?as1[j := t]) x = area_at as x" if x: "x < unat st \<or> unat fin \<le> x" for x
  proof (cases "in_area t x")
    case True
    then have "in_area ?a x" using t a lt by (auto simp: in_area_def)
    then have "area_at as x = Some (area_prot t, area_flags t)"
      unfolding area_at_iff [OF ok] using i t by auto
    moreover have "area_at (?as1[j := t]) x = Some (area_prot t, area_flags t)"
      unfolding area_at_iff [OF ok2] using j len True by (intro exI [of _ j]) simp
    ultimately show ?thesis by simp
  next
    case False
    have "area_at (?as1[j := t]) x = area_at ?as1 x"
      by (rule area_at_replace [OF ok1 ok2 j(1)]) (use False j in \<open>auto simp: in_area_def\<close>)
    also have "\<dots> = area_at as x"
      by (rule area_at_replace [OF ok ok1 i]) (use False x h t a lt in \<open>auto simp: in_area_def\<close>)
    finally show ?thesis .
  qed
  moreover have "outside st fin b" if "b = h \<or> b = t" for b using that h t by (auto simp: outside_def)
  moreover have "\<not> splits st fin b" if "b \<in> set (?as1[j := t])" for b
    using that set_update_subset_insert [of ?as1 j t] mem1 [of b] h t a lt by (fastforce simp: splits_def)
  ultimately show ?thesis
    using inv ok2 i j len by (auto simp: cut_inv_def nth_list_update less_Suc_eq split: if_splits)
qed

section \<open>The loop of remove\<close>

definition with_areas :: "MmapArea list \<Rightarrow> 'a kernel_state_scheme \<Rightarrow> 'a kernel_state_scheme" where
  "with_areas as s = update_slot (unat (CURRENT s)) (\<lambda>p. p\<lparr>mmap_areas := as\<rparr>) s"

lemma with_areas_simps [simp]:
  "sched_ok (with_areas as s) = sched_ok s" "with_areas as (with_areas bs s) = with_areas as s"
  "CURRENT (with_areas as s) = CURRENT s" "mem (with_areas as s) = mem s"
proof -
  show "with_areas as (with_areas bs s) = with_areas as s"
    by (cases "unat (CURRENT s) < length (PROCESS_LIST s)")
      (simp_all add: with_areas_def update_slot_def option.map_comp comp_def not_less list_update_beyond)
qed (simp_all add: with_areas_def)

lemma cur_proc_with_areas: "sched_ok s \<Longrightarrow> cur_proc (with_areas as s) = (cur_proc s)\<lparr>mmap_areas := as\<rparr>"
  by (simp add: with_areas_def cur_proc_update)

lemma wp_set_area:
  assumes "sched_ok s"
  shows "wp (set_area i a) Q R s = Q () (with_areas ((mmap_areas (cur_proc s))[i := a]) s)"
proof -
  have "update_slot (unat (CURRENT s)) (\<lambda>p. p\<lparr>mmap_areas := (mmap_areas p)[i := a]\<rparr>) s
      = with_areas ((mmap_areas (cur_proc s))[i := a]) s"
    using sched_ok_cur [OF assms] by (simp add: with_areas_def update_slot_def)
  then show ?thesis by (simp add: set_area_def wp_update_current)
qed

lemma remove_step_wp:
  assumes ok: "sched_ok s0" and inv: "cut_inv st fin as0 i as" and i: "i < 32"
    and al: "page_aligned st" "page_aligned fin" and lt: "unat st < unat fin"
  shows "wp (remove_step st fin i) (\<lambda>_ s'. \<exists>as'. s' = with_areas as' s0 \<and> cut_inv st fin as0 (Suc i) as')
    (\<lambda>_ _. False) (with_areas as s0)"
proof -
  let ?a = "as ! i" and ?s = "with_areas as s0"
  have aok: "areas_ok as" and len: "length as = 32" using inv by (auto simp: cut_inv_def areas_ok_def)
  have cur: "sched_ok ?s" "mmap_areas (cur_proc ?s) = as" using ok by (simp_all add: cur_proc_with_areas)
  have same: "cut_inv st fin as0 (Suc i) as" if "outside st fin ?a"
    using inv that by (auto simp: cut_inv_def less_Suc_eq)
  have set: "wp (set_area k b) (\<lambda>_ s'. \<exists>as'. s' = with_areas as' s0 \<and> cut_inv st fin as0 (Suc i) as') (\<lambda>_ _. False) ?s"
    if "cut_inv st fin as0 (Suc i) (as[k := b])" for k b
    using that cur by (auto simp: wp_set_area)
  show ?thesis
  proof (cases "area_used ?a")
    case False
    then have "outside st fin ?a" by (simp add: outside_def)
    with same False cur show ?thesis by (auto simp: remove_step_def wp_simps wp_current Let_def)
  next
    case u: True
    have a: "area_ok ?a" by (rule areas_ok_nth [OF aok i u])
    note f = fin_of [OF a]
    have alv: "4096 dvd lo ?a" "4096 dvd unat (area_len ?a)" "4096 dvd unat st" "4096 dvd unat fin"
      using a al by (auto simp: area_ok_def page_aligned_iff_dvd lo_def)
    have hl: "hi ?a = lo ?a + unat (area_len ?a)" by (simp add: hi_def lo_def)
    have subs: "unat (x - y) = unat x - unat y" if "unat y \<le> unat x" for x y :: usize
      using that by (simp add: unat_sub word_le_nat_alt)
    consider (out) "outside st fin ?a"
      | (all) "\<not> outside st fin ?a" "unat st \<le> lo ?a" "hi ?a \<le> unat fin"
      | (front) "\<not> outside st fin ?a" "unat st \<le> lo ?a" "unat fin < hi ?a"
      | (rear) "\<not> outside st fin ?a" "lo ?a < unat st" "hi ?a \<le> unat fin"
      | (mid) "\<not> outside st fin ?a" "lo ?a < unat st" "unat fin < hi ?a" by linarith
    then show ?thesis
    proof cases
      case out
      then show ?thesis
        using same u a f cur
        by (auto simp: remove_step_def wp_simps wp_current Let_def wp_area_end overlap_iff outside_def)
    next
      case all
      have "cut_inv st fin as0 (Suc i) (as[i := MmapArea_EMPTY])"
        by (rule cut_shrink [OF inv i u])
          (use all in \<open>auto simp: MmapArea_EMPTY_def in_area_def outside_def\<close>)
      then show ?thesis
        using set u a f cur all
        by (auto simp: remove_step_def wp_simps wp_current Let_def wp_area_end overlap_iff outside_def
            word_le_nat_alt lo_def not_le)
    next
      case front
      let ?b = "?a\<lparr>area_start := fin, area_len := fin_of ?a - fin\<rparr>"
      have b: "lo ?b = unat fin" "hi ?b = hi ?a" using front f subs [of fin "fin_of ?a"] by (auto simp: lo_def hi_def)
      have "area_ok ?b"
        using a al(2) front b f subs [of fin "fin_of ?a"] alv hl
        by (auto simp: area_ok_def page_aligned_iff_dvd unat_eq_0 [symmetric] word_unat_eq_iff outside_def)
      then have "cut_inv st fin as0 (Suc i) (as[i := ?b])"
        by (intro cut_shrink [OF inv i u]) (use front b lt u in \<open>auto simp: in_area_def outside_def\<close>)
      then show ?thesis
        using set u a f cur front
        by (auto simp: remove_step_def wp_simps wp_current Let_def wp_area_end overlap_iff outside_def
            word_le_nat_alt word_less_nat_alt lo_def not_le)
    next
      case rear
      let ?b = "?a\<lparr>area_len := st - area_start ?a\<rparr>"
      have b: "lo ?b = lo ?a" "hi ?b = unat st" using rear subs [of "area_start ?a" st] by (auto simp: lo_def hi_def)
      have "area_ok ?b"
        using a al(1) rear b subs [of "area_start ?a" st] alv hl
        by (auto simp: area_ok_def page_aligned_iff_dvd unat_eq_0 [symmetric] word_unat_eq_iff outside_def lo_def)
      then have "cut_inv st fin as0 (Suc i) (as[i := ?b])"
        by (intro cut_shrink [OF inv i u]) (use rear b lt u in \<open>auto simp: in_area_def outside_def\<close>)
      then show ?thesis
        using set u a f cur rear
        by (auto simp: remove_step_def wp_simps wp_current Let_def wp_area_end overlap_iff outside_def
            word_le_nat_alt word_less_nat_alt lo_def not_le)
    next
      case mid
      let ?h = "?a\<lparr>area_len := st - area_start ?a\<rparr>"
      let ?t = "\<lparr>area_start = fin, area_len = fin_of ?a - fin, area_prot = area_prot ?a, area_flags = area_flags ?a, area_used = True\<rparr>"
      have sp: "splits st fin ?a" using mid u by (simp add: splits_def)
      have h: "lo ?h = lo ?a" "hi ?h = unat st" using mid subs [of "area_start ?a" st] by (auto simp: lo_def hi_def)
      have t: "lo ?t = unat fin" "hi ?t = hi ?a" using mid f subs [of fin "fin_of ?a"] by (auto simp: lo_def hi_def)
      have hok: "area_ok ?h"
        using a al(1) mid h subs [of "area_start ?a" st] alv hl lt
        by (auto simp: area_ok_def page_aligned_iff_dvd unat_eq_0 [symmetric] word_unat_eq_iff lo_def)
      have tok: "area_ok ?t"
        using a al(2) mid t f subs [of fin "fin_of ?a"] alv hl lt
        by (auto simp: area_ok_def page_aligned_iff_dvd unat_eq_0 [symmetric] word_unat_eq_iff)
      have "?a \<in> set as" using i len by simp
      then obtain b where b: "b \<in> set as" "\<not> area_used b" using inv sp by (auto simp: cut_inv_def)
      then obtain k where k: "k < 32" "as ! k = b" by (auto simp: in_set_conv_nth len)
      then have "as[i := ?h] ! k = b" using u b by (metis nth_list_update_neq)
      then have "\<not> area_used (as[i := ?h] ! k)" "k < length (as[i := ?h])" using b k len by auto
      then have "position (\<lambda>a. \<not> area_used a) (as[i := ?h]) \<noteq> None"
        unfolding position_None using nth_mem by blast
      then obtain j where pos: "position (\<lambda>a. \<not> area_used a) (as[i := ?h]) = Some j" by blast
      then have j: "j < 32" "\<not> area_used (as[i := ?h] ! j)" by (auto simp: position_Some len)
      have inv2: "cut_inv st fin as0 (Suc i) (as[i := ?h, j := ?t])"
        by (rule cut_split [OF inv i sp lt _ hok _ _ h j _ tok _ _ t]) (use u in auto)
      have guards: "\<not> (unat st \<le> unat (area_start ?a))" "\<not> (unat (fin_of ?a) \<le> unat fin)" "unat fin < unat (fin_of ?a)"
        using mid f by (auto simp: lo_def)
      have c2: "sched_ok (with_areas (as[i := ?h]) s0)" "mmap_areas (cur_proc (with_areas (as[i := ?h]) s0)) = as[i := ?h]"
        using ok by (simp_all add: cur_proc_with_areas)
      have "wp (kseq (set_area i ?h) (kbind current (\<lambda>p. kbind (expect ''munmap split preflight failed''
           (position (\<lambda>area. \<not> area_used area) (mmap_areas p))) (\<lambda>slot. set_area slot ?t))))
        (\<lambda>_ s'. \<exists>as'. s' = with_areas as' s0 \<and> cut_inv st fin as0 (Suc i) as') (\<lambda>_ _. False) ?s"
        using inv2 pos ok by (auto simp: wp_kseq wp_kbind wp_set_area wp_current wp_expect cur_proc_with_areas)
      then show ?thesis
        using u a f cur mid guards lt
        by (simp add: remove_step_def wp_kbind [of current] wp_current Let_def wp_kbind [of "area_end _"] wp_area_end
            overlap_iff word_le_nat_alt wp_kbind [of "usub _ _"] wp_usub word_less_nat_alt)
    qed
  qed
qed

section \<open>Properties of the mapping table\<close>

lemma remove_mmap_range_wp:
  assumes ok: "sched_ok s" and aok: "areas_ok (mmap_areas (cur_proc s))"
    and al: "page_aligned st" "page_aligned fin" and lt: "st < fin"
    and pre: "can_split_mmap_range st fin s = (Val True, s)"
  shows "wp (remove_mmap_range st fin) (\<lambda>_ s'. \<exists>as'. s' = with_areas as' s \<and> areas_ok as' \<and>
      (\<forall>x. area_at as' x = (if unat st \<le> x \<and> x < unat fin then None else area_at (mmap_areas (cur_proc s)) x)))
    (\<lambda>_ _. False) s"
proof -
  let ?as = "mmap_areas (cur_proc s)"
  have lt': "unat st < unat fin" using lt by (simp add: word_less_nat_alt)
  have len: "length ?as = 32" and used: "\<forall>a\<in>set ?as. area_used a \<longrightarrow> area_ok a" using aok by (auto simp: areas_ok_def)
  have "length (filter (splits st fin) ?as) \<le> length (filter (\<lambda>a. \<not> area_used a) ?as)"
    using pre split_count_run [OF used lt, of 0 0 s] len
    by (simp add: can_split_mmap_range_def kbind_def current_run [OF ok])
  then have "(\<exists>a\<in>set ?as. \<not> area_used a) \<or> (\<forall>a\<in>set ?as. \<not> splits st fin a)"
    by (auto simp: filter_empty_conv elim: allE)
  then have init: "cut_inv st fin ?as 0 ?as" using aok by (simp add: cut_inv_def)
  have same: "with_areas ?as s = s"
  proof -
    have "(PROCESS_LIST s)[unat (CURRENT s) := Some (cur_proc s)] = PROCESS_LIST s"
      using sched_ok_cur [OF ok] by (metis list_update_id)
    then show ?thesis using sched_ok_cur [OF ok] by (simp add: with_areas_def update_slot_def)
  qed
  let ?I = "\<lambda>i t. \<exists>as'. t = with_areas as' s \<and> cut_inv st fin ?as i as'"
  have "wp (for_each [0..<32] (remove_step st fin)) (\<lambda>_. ?I 32) (\<lambda>_ _. False) s"
  proof (rule wp_for_upt)
    show "?I 0 s" using init same by metis
    fix i t assume "i < 32" "?I i t"
    then show "wp (remove_step st fin i) (\<lambda>_. ?I (Suc i)) (\<lambda>_ _. False) t"
      using remove_step_wp [OF ok _ _ al lt'] by blast
  qed simp
  then have "wp (remove_mmap_range st fin) (\<lambda>_. ?I 32) (\<lambda>_ _. False) s"
    by (simp only: remove_mmap_range_def wp_kbind wp_current [OF ok] len)
  then show ?thesis
  proof (rule wp_mono)
    fix x t assume "?I 32 t"
    then obtain as' where t: "t = with_areas as' s" and inv: "cut_inv st fin ?as 32 as'" by blast
    have ok': "areas_ok as'" "length as' = 32" using inv by (auto simp: cut_inv_def areas_ok_def)
    have "area_at as' x = None" if "unat st \<le> x" "x < unat fin" for x
      unfolding area_at_None
    proof
      fix a assume "a \<in> set as'"
      then obtain j where "j < 32" "as' ! j = a" using ok'(2) by (auto simp: in_set_conv_nth)
      then have "outside st fin a" using inv by (auto simp: cut_inv_def)
      then show "\<not> in_area a x" using that by (auto simp: outside_def in_area_def)
    qed
    then show "\<exists>as'. t = with_areas as' s \<and> areas_ok as' \<and>
        (\<forall>x. area_at as' x = (if unat st \<le> x \<and> x < unat fin then None else area_at ?as x))"
      using t ok' inv by (intro exI [of _ as']) (auto simp: cut_inv_def not_le)
  qed
qed

text \<open>A process with one area of four pages, for the witnesses.\<close>

definition area1 :: MmapArea where
  "area1 = \<lparr>area_start = 0x3e000000, area_len = 0x4000, area_prot = 3, area_flags = 0x22, area_used = True\<rparr>"

definition kstate1 :: kernel_state where
  "kstate1 = with_areas (area1 # replicate 31 MmapArea_EMPTY) kstate0"

lemma kstate1_sched: "sched_ok kstate1"
  by (simp add: kstate1_def kstate0_sched)

lemma kstate1_areas: "mmap_areas (cur_proc kstate1) = area1 # replicate 31 MmapArea_EMPTY"
  by (simp add: kstate1_def cur_proc_with_areas [OF kstate0_sched])

lemma kstate1_areas_ok: "areas_ok (mmap_areas (cur_proc kstate1))"
proof -
  have "apart ((area1 # replicate 31 MmapArea_EMPTY) ! i) ((area1 # replicate 31 MmapArea_EMPTY) ! j)"
    if "i < 32" "j < 32" "i \<noteq> j" for i j
    using that by (auto simp: apart_def MmapArea_EMPTY_def nth_Cons split: nat.splits)
  then show ?thesis
    by (auto simp: kstate1_areas areas_ok_def area_ok_def area1_def lo_def hi_def page_aligned_def MmapArea_EMPTY_def)
qed

text \<open>C15. Cutting a range out of the mapping table. When the preflight \<open>can_split_mmap_range\<close> has
  succeeded, \<open>remove_mmap_range\<close> does not panic; afterwards no address of the range is in an
  area and every other address has the protection and flags it had, whether areas were dropped,
  shortened at either end or split; the table stays well formed, its areas disjoint.\<close>

theorem remove_mmap_range_cuts:
  assumes "sched_ok s" and "areas_ok (mmap_areas (cur_proc s))"
    and "page_aligned st" and "page_aligned fin" and "st < fin"
    and "can_split_mmap_range st fin s = (Val True, s)"
  shows "\<exists>as'. remove_mmap_range st fin s = (Val (), with_areas as' s) \<and> areas_ok as' \<and>
    (\<forall>x. area_at as' x =
      (if unat st \<le> x \<and> x < unat fin then None else area_at (mmap_areas (cur_proc s)) x))"
  using wp_returns [OF remove_mmap_range_wp [OF assms]] by auto

theorem remove_mmap_range_cuts_witness:
  "\<exists>as'. remove_mmap_range 0x3e001000 0x3e002000 kstate1 = (Val (), with_areas as' kstate1) \<and>
     area_at as' 0x3e000fff = Some (3, 0x22) \<and> area_at as' 0x3e001000 = None \<and> area_at as' 0x3e002000 = Some (3, 0x22)"
proof -
  have used: "\<forall>a\<in>set (mmap_areas (cur_proc kstate1)). area_used a \<longrightarrow> area_ok a"
    using kstate1_areas_ok by (simp add: areas_ok_def)
  have lt: "(0x3e001000 :: usize) < 0x3e002000" by simp
  have "can_split_mmap_range 0x3e001000 0x3e002000 kstate1 = (Val True, kstate1)"
    using split_count_run [OF used lt, of 0 0 kstate1]
    by (simp add: can_split_mmap_range_def kbind_def current_run [OF kstate1_sched] kstate1_areas MmapArea_EMPTY_def splits_def area1_def)
  from remove_mmap_range_cuts [OF kstate1_sched kstate1_areas_ok _ _ lt this]
  obtain as' where as': "remove_mmap_range 0x3e001000 0x3e002000 kstate1 = (Val (), with_areas as' kstate1)"
    and at: "\<And>x. area_at as' x = (if 0x3e001000 \<le> x \<and> x < 0x3e002000 then None else area_at (mmap_areas (cur_proc kstate1)) x)"
    by (auto simp: page_aligned_def)
  have "area_at (mmap_areas (cur_proc kstate1)) x = Some (3, 0x22)" if "0x3e000000 \<le> x \<and> x < 0x3e004000" for x
    using that by (simp add: area_at_def kstate1_areas area1_def in_area_def lo_def hi_def)
  then show ?thesis using as' by (intro exI [of _ as']) (simp add: at)
qed

text \<open>C18. The search for a gap is first fit and complete: \<open>find_mmap_gap\<close> returns, without a panic and
  without changing anything, the lowest address of the mapping window from which \<open>len\<close> bytes
  overlap no area; it returns \<open>None\<close> only when there is no such address.\<close>

theorem find_mmap_gap_first_fit:
  assumes "sched_ok s" and "areas_ok (mmap_areas (cur_proc s))"
  shows "\<exists>r. find_mmap_gap len s = (Val r, s) \<and> (case r of
      None \<Rightarrow> \<forall>g. \<not> free_at (mmap_areas (cur_proc s)) (unat len) g
    | Some g \<Rightarrow> page_aligned g \<and> free_at (mmap_areas (cur_proc s)) (unat len) (unat g) \<and>
        (\<forall>h. free_at (mmap_areas (cur_proc s)) (unat len) h \<longrightarrow> unat g \<le> h))"
  by (rule find_mmap_gap_run [OF assms])

theorem find_mmap_gap_first_fit_witness:
  "find_mmap_gap 0x1000 kstate1 = (Val (Some 0x3e004000), kstate1)"
proof -
  let ?as = "mmap_areas (cur_proc kstate1)"
  obtain r where run: "find_mmap_gap 0x1000 kstate1 = (Val r, kstate1)"
    and r: "case r of None \<Rightarrow> \<forall>g. \<not> free_at ?as 0x1000 g
      | Some g \<Rightarrow> free_at ?as 0x1000 (unat g) \<and> (\<forall>h. free_at ?as 0x1000 h \<longrightarrow> unat g \<le> h)"
    using find_mmap_gap_first_fit [OF kstate1_sched kstate1_areas_ok, of "0x1000"] by (auto split: option.splits)
  have free: "free_at ?as 0x1000 g \<longleftrightarrow> 0x3e004000 \<le> g \<and> g + 0x1000 \<le> 0x3f000000" for g
    by (auto simp: free_at_def kstate1_areas area1_def lo_def hi_def MmapArea_EMPTY_def)
  then obtain g where "r = Some g" "unat g = 0x3e004000"
    using r by (cases r) (auto intro: le_antisym)
  then have "g = 0x3e004000" by (simp add: word_unat_eq_iff)
  then show ?thesis using run \<open>r = Some g\<close> by simp
qed

lemma choose_mmap_addr_run:
  assumes ok: "sched_ok s" and aok: "areas_ok (mmap_areas (cur_proc s))" and h: "unat hint + 4096 < 2 ^ 64"
  shows "\<exists>r. choose_mmap_addr hint len s = (Val r, s) \<and>
    (\<forall>g. r = Some g \<longrightarrow> page_aligned g \<and> free_at (mmap_areas (cur_proc s)) (unat len) (unat g)) \<and>
    (page_aligned hint \<and> free_at (mmap_areas (cur_proc s)) (unat len) (unat hint) \<longrightarrow> r = Some hint)"
proof -
  let ?as = "mmap_areas (cur_proc s)"
  have used: "\<forall>a\<in>set ?as. area_used a \<longrightarrow> area_ok a" using aok by (simp add: areas_ok_def)
  from find_mmap_gap_run [OF ok aok, of len] obtain r where gap: "find_mmap_gap len s = (Val r, s)"
    and c: "case r of None \<Rightarrow> \<forall>g. \<not> free_at ?as (unat len) g
      | Some g \<Rightarrow> page_aligned g \<and> free_at ?as (unat len) (unat g) \<and> (\<forall>h. free_at ?as (unat len) h \<longrightarrow> unat g \<le> h)"
    by blast
  have gap_free: "\<forall>g. r = Some g \<longrightarrow> page_aligned g \<and> free_at ?as (unat len) (unat g)"
    using c by (cases r) simp_all
  obtain y where y: "align_up hint s = (Val y, s)" "page_aligned y" "unat hint \<le> unat y" "unat y < unat hint + 4096"
    using align_up_run [OF h, of s] by (elim exE conjE) (rule that)
  have yh: "y = hint" if "page_aligned hint" using align_up_page [OF that h, of s] y(1) by simp
  have avail: "mmap_range_available y e s = (Val (\<forall>a\<in>set ?as. area_used a \<longrightarrow> hi a \<le> unat y \<or> unat e \<le> lo a), s)" for e
    by (simp add: mmap_range_available_def kbind_def current_run [OF ok] areas_available_run [OF used])
  have start: "USER_MMAP_START \<le> y \<longleftrightarrow> 0x3e000000 \<le> unat y"
    by (simp add: USER_MMAP_START_def USER_HEAP_LIMIT_def word_le_nat_alt)
  show ?thesis
  proof (cases "hint = 0 \<or> \<not> 0x3e000000 \<le> unat y \<or> \<not> unat y + unat len \<le> 0x3f000000")
    case True
    have nf: "\<not> (page_aligned hint \<and> free_at ?as (unat len) (unat hint))"
      using True yh by (auto simp: free_at_def)
    show ?thesis
    proof (cases "hint \<noteq> 0 \<and> 0x3e000000 \<le> unat y \<and> checked_add y len = None")
      case True
      then show ?thesis using y nf start by (simp add: choose_mmap_addr_def kbind_def ret_def)
    next
      case False
      then have "choose_mmap_addr hint len s = find_mmap_gap len s"
        using \<open>hint = 0 \<or> _\<close> y(1) start
        by (auto simp: choose_mmap_addr_def kbind_def USER_MMAP_LIMIT_def word_le_nat_alt checked_add_unat split: option.splits)
      then show ?thesis using gap gap_free nf by auto
    qed
  next
    case False
    then have nov: "\<not> add_overflows y len" by (simp add: add_overflows_def)
    then have e: "checked_add y len = Some (y + len)" "unat (y + len) = unat y + unat len"
      by (simp_all add: checked_add_def unat_add_no_overflow)
    have "choose_mmap_addr hint len s = (if free_at ?as (unat len) (unat y) then (Val (Some y), s) else find_mmap_gap len s)"
      using False nov y(1) start e avail [of "y + len"]
      by (auto simp: choose_mmap_addr_def kbind_def USER_MMAP_LIMIT_def word_le_nat_alt uadd_def ret_def free_at_def)
    then show ?thesis using gap gap_free y(2) yh by auto
  qed
qed

text \<open>A chosen address is always usable: for every hint that does not make the rounding overflow,
  \<open>choose_mmap_addr\<close> returns; an address it returns is page aligned, lies with its whole range in
  the mapping window and overlaps no area. A page-aligned hint whose range is free is honoured.\<close>

lemma choose_mmap_addr_free:
  assumes "sched_ok s" and "areas_ok (mmap_areas (cur_proc s))" and "unat hint + 4096 < 2 ^ 64"
  shows "\<exists>r. choose_mmap_addr hint len s = (Val r, s) \<and>
    (\<forall>g. r = Some g \<longrightarrow> page_aligned g \<and> free_at (mmap_areas (cur_proc s)) (unat len) (unat g)) \<and>
    (page_aligned hint \<and> free_at (mmap_areas (cur_proc s)) (unat len) (unat hint) \<longrightarrow> r = Some hint)"
  using assms by (rule choose_mmap_addr_run)

text \<open>C29. A hint in the last page of the address space makes the rounding \<open>addr + PAGE_SIZE - 1\<close>
  overflow: \<open>choose_mmap_addr\<close> panics, whatever the state of the process.\<close>

theorem choose_mmap_addr_hint_panics:
  assumes "2 ^ 64 \<le> unat hint + 4096"
  shows "choose_mmap_addr hint len s = (Exit (Panic add_panic), s)"
proof -
  have "hint \<noteq> 0" using assms by auto
  moreover have "add_overflows hint 4096" using assms by (simp add: add_overflows_def)
  ultimately show ?thesis
    by (simp add: choose_mmap_addr_def align_up_def kbind_def uadd_def PAGE_SIZE_def halt_def)
qed

theorem choose_mmap_addr_hint_panics_witness:
  "choose_mmap_addr 0xFFFFFFFFFFFFF000 0x1000 kstate1 = (Exit (Panic add_panic), kstate1)"
  by (rule choose_mmap_addr_hint_panics) simp

lemma pte_flags_from_prot_value:
  "pte_flags_from_prot prot =
    (if prot = 0 \<or> (\<exists>n. 3 \<le> n \<and> bit prot n) then None
     else Some (PTEFlags_new (bit prot 0 \<or> bit prot 1) (bit prot 1) (bit prot 2) True))"
proof -
  have m: "PROT_READ OR PROT_WRITE OR PROT_EXEC = (mask 3 :: usize)"
    by (simp add: PROT_READ_def PROT_WRITE_def PROT_EXEC_def mask_eq_exp_minus_1)
  have "n < 64" if "bit prot n" for n using bit_imp_le_length [OF that] by simp
  then have hi: "prot AND NOT (mask 3) = 0 \<longleftrightarrow> \<not> (\<exists>n. 3 \<le> n \<and> bit prot n)"
    by (auto simp: bit_eq_iff bit_simps not_less)
  have one: "prot AND push_bit k 1 \<noteq> 0 \<longleftrightarrow> bit prot k" if "k < 64" for k
    using that by (simp add: and_exp_eq_0_iff_not_bit)
  have bits: "PROT_READ = push_bit 0 1" "PROT_WRITE = push_bit 1 1" "PROT_EXEC = push_bit 2 1"
    by (simp_all add: PROT_READ_def PROT_WRITE_def PROT_EXEC_def)
  show ?thesis
    unfolding pte_flags_from_prot_def m hi Let_def
    using one [of 0] one [of 1] one [of 2] by (simp add: bits del: push_bit_of_1)
qed

text \<open>C30. The protection bits of \<open>mmap\<close> are accepted exactly when they are a non-empty combination of
  read, write and execute; the page permissions are then those bits, with write implying read,
  and always the user bit.\<close>

theorem pte_flags_from_prot_spec:
  "pte_flags_from_prot prot =
    (if prot = 0 \<or> (\<exists>n. 3 \<le> n \<and> bit prot n) then None
     else Some (PTEFlags_new (bit prot 0 \<or> bit prot 1) (bit prot 1) (bit prot 2) True))"
  by (rule pte_flags_from_prot_value)

end
