(* ===== verification/UserMem.thy ===== *)
theory UserMem
  imports Mmap
begin

text \<open>
  Access to user memory: \<open>linux_error\<close>, \<open>with_user_access\<close> and \<open>ensure_user_range\<close> of
  \<open>syscall.rs\<close> and the copy-on-write fault of \<open>trap.rs\<close>, with the part of the hart they rely
  on, the Sv39 translation of an access.

  A pointer that the kernel got from a user program is dereferenced through the page table
  that \<open>satp\<close> selects; when the translation faults the hart takes an exception in
  supervisor mode, from which this kernel does not return (\<open>Exit (Kernel_trap cause addr)\<close>).
  Kernel pointers lie in RAM, which every page table maps to itself, and are used as physical
  addresses. The translation caches are not modelled, so \<open>sfence.vma\<close> has no effect here, and
  neither are the accessed and dirty bits of page table entries.
\<close>

section \<open>The translation done by the hart\<close>

definition SSTATUS_SUM :: usize where "SSTATUS_SUM = push_bit 18 1"

text \<open>Bits 63 to 39 of a canonical address equal bit 38.\<close>

definition canonical :: "VirtAddr \<Rightarrow> bool" where
  "canonical va \<longleftrightarrow> unat va < 2 ^ 38 \<or> 2 ^ 64 - 2 ^ 38 \<le> unat va"

text \<open>An access is made in user mode or in supervisor mode with \<open>sstatus.SUM\<close> set or clear.\<close>

datatype privilege = User | Supervisor bool

datatype access = Load | Store | Fetch

fun mode_ok :: "privilege \<Rightarrow> access \<Rightarrow> PTEntry \<Rightarrow> bool" where
  "mode_ok User acc e \<longleftrightarrow> is_u e"
| "mode_ok (Supervisor sm) acc e \<longleftrightarrow> (is_u e \<longrightarrow> sm \<and> acc \<noteq> Fetch)"

fun access_ok :: "access \<Rightarrow> PTEntry \<Rightarrow> bool" where
  "access_ok Load e \<longleftrightarrow> is_r e"
| "access_ok Store e \<longleftrightarrow> is_w e"
| "access_ok Fetch e \<longleftrightarrow> is_x e"

definition leaf_ok :: "privilege \<Rightarrow> access \<Rightarrow> PTEntry \<Rightarrow> bool" where
  "leaf_ok mode acc e \<longleftrightarrow> mode_ok mode acc e \<and> access_ok acc e"

text \<open>Bits 60 to 54 and bit 63 of an entry are reserved; bits 62 and 61 are reserved as well unless
  the hart has page-based memory types, for which the value 3 is reserved.\<close>

definition reserved_ok :: "bool \<Rightarrow> PTEntry \<Rightarrow> bool" where
  "reserved_ok pbmt e \<longleftrightarrow> drop_bit 54 e AND 0x27F = 0 \<and>
     (if pbmt then take_bit 2 (drop_bit 61 e) \<noteq> 3 else take_bit 2 (drop_bit 61 e) = 0)"

text \<open>One level of the walk; \<open>lvl\<close> counts the levels below. A leaf above level 0 maps a
  superpage and has to be aligned to it.\<close>

primrec hw_walk :: "(usize \<Rightarrow> u64) \<Rightarrow> bool \<Rightarrow> privilege \<Rightarrow> access \<Rightarrow> VirtAddr \<Rightarrow> nat \<Rightarrow> PhysAddr \<Rightarrow> PhysAddr option" where
  "hw_walk rd pbmt mode acc va 0 table =
     (let e = rd (entry_at table (vpn va 0)) in
      if is_valid e \<and> reserved_ok pbmt e \<and> (is_r e \<or> is_x e) \<and> (is_w e \<longrightarrow> is_r e) \<and> leaf_ok mode acc e
      then Some (ppn_to_addr e + (va - page_of va)) else None)"
| "hw_walk rd pbmt mode acc va (Suc lvl) table =
     (let e = rd (entry_at table (vpn va (Suc lvl)));
          span = 12 + 9 * Suc lvl in
      if \<not> is_valid e \<or> \<not> reserved_ok pbmt e \<or> (is_w e \<and> \<not> is_r e) then None
      else if is_r e \<or> is_x e then
        (if leaf_ok mode acc e \<and> take_bit span (ppn_to_addr e) = 0
         then Some (ppn_to_addr e + take_bit span va) else None)
      else hw_walk rd pbmt mode acc va lvl (ppn_to_addr e))"

definition hw_translate :: "privilege \<Rightarrow> access \<Rightarrow> VirtAddr \<Rightarrow> 'a hart_scheme \<Rightarrow> PhysAddr option" where
  "hw_translate mode acc va s =
     (if drop_bit 60 (csr_satp s) = 8 then
        if canonical va
        then hw_walk (read_u64 (mem s)) (svpbmt s) mode acc va 2
               (push_bit 12 (take_bit 44 (csr_satp s)))
        else None
      else Some va)"

text \<open>The kernel runs in supervisor mode.\<close>

definition kernel_mode :: "'a hart_scheme \<Rightarrow> privilege" where
  "kernel_mode s = Supervisor (csr_sstatus s AND SSTATUS_SUM \<noteq> 0)"

definition user_load :: "VirtAddr \<Rightarrow> ('a hart_scheme, u8) kernel" where
  "user_load va = kbind (gets (\<lambda>s. hw_translate (kernel_mode s) Load va s)) (\<lambda>r.
     case r of None \<Rightarrow> halt (Kernel_trap 13 va) | Some pa \<Rightarrow> gets (\<lambda>s. mem s pa))"

definition user_store :: "VirtAddr \<Rightarrow> u8 \<Rightarrow> ('a hart_scheme, unit) kernel" where
  "user_store va b = kbind (gets (\<lambda>s. hw_translate (kernel_mode s) Store va s)) (\<lambda>r.
     case r of None \<Rightarrow> halt (Kernel_trap 15 va) | Some pa \<Rightarrow> modify (\<lambda>s. s\<lparr>mem := (mem s)(pa := b)\<rparr>))"

text \<open>An aligned double word lies in one page. \<open>ptr::write\<close> checks the alignment of the
  pointer in a debug build.\<close>

definition user_store64 :: "VirtAddr \<Rightarrow> u64 \<Rightarrow> ('a hart_scheme, unit) kernel" where
  "user_store64 va v =
     (if \<not> dword_aligned va then halt (Panic ''ptr::write requires that the pointer argument is aligned and non-null'')
      else kbind (gets (\<lambda>s. hw_translate (kernel_mode s) Store va s)) (\<lambda>r.
        case r of None \<Rightarrow> halt (Kernel_trap 15 va) | Some pa \<Rightarrow> store64 pa v))"

section \<open>The operations\<close>

definition EAGAIN :: usize where "EAGAIN = 11"
definition EBADF :: usize where "EBADF = 9"
definition ECHILD :: usize where "ECHILD = 10"
definition EFAULT :: usize where "EFAULT = 14"
definition EINVAL :: usize where "EINVAL = 22"
definition ENOMEM :: usize where "ENOMEM = 12"
definition ERANGE :: usize where "ERANGE = 34"
definition ENOSYS :: usize where "ENOSYS = 38"

definition linux_error :: "usize \<Rightarrow> usize" where
  "linux_error errno = - errno"

definition with_user_access :: "('a hart_scheme, 'b) kernel \<Rightarrow> ('a hart_scheme, 'b) kernel" where
  "with_user_access f =
     kseq (modify (\<lambda>s. s\<lparr>csr_sstatus := csr_sstatus s OR SSTATUS_SUM\<rparr>))
     (kbind f (\<lambda>result.
     kseq (modify (\<lambda>s. s\<lparr>csr_sstatus := csr_sstatus s AND NOT SSTATUS_SUM\<rparr>))
     (ret result)))"

definition handle_cow_fault :: "VirtAddr \<Rightarrow> usize \<Rightarrow> ('a frames_scheme, unit) kernel" where
  "handle_cow_fault vaddr entry =
     kbind (load64 entry) (\<lambda>e.
     let ppn = ppn_to_addr e in
     kbind (get_ref ppn) (\<lambda>refcount.
     if 1 < refcount then
       kbind alloc_frame (\<lambda>r.
       kbind (expect ''COW: alloc_frame failed'' r) (\<lambda>new_frame.
       kseq (copy_bytes ppn new_frame 4096)
       (kbind (dec_ref ppn) (\<lambda>_.
       kbind (load64 entry) (\<lambda>e.
       let f = pte_flags e in
       kseq (store64 entry (new_leaf new_frame (PTEFlags_new True True (flags_is_x f) True)))
       (kbind (load64 entry) (\<lambda>e. store64 entry (clear_cow e))))))))
     else
       kseq (store64 entry (set_w e True))
       (kbind (load64 entry) (\<lambda>e. store64 entry (clear_cow e)))))"

text \<open>The body of the loop of \<open>ensure_user_range\<close>: \<open>Inl\<close> is the error returned to the caller.\<close>

definition ensure_page :: "bool \<Rightarrow> VirtAddr \<Rightarrow> ('a kernel_state_scheme, usize + unit) kernel" where
  "ensure_page write page =
     kbind current (\<lambda>cur.
     kbind (lookup (page_table cur) page) (\<lambda>r.
     case r of
       None \<Rightarrow> ret (Inl (linux_error EFAULT))
     | Some entry \<Rightarrow>
         kbind (load64 entry) (\<lambda>e.
         if \<not> is_u e then ret (Inl (linux_error EFAULT))
         else if write then
           kseq (if is_cow e \<and> is_r e \<and> \<not> is_w e then handle_cow_fault page entry else ret ())
           (kbind (load64 entry) (\<lambda>e.
           if \<not> is_w e then ret (Inl (linux_error EFAULT)) else ret (Inr ())))
         else if \<not> is_r e then ret (Inl (linux_error EFAULT))
         else ret (Inr ()))))"

function ensure_loop :: "bool \<Rightarrow> usize \<Rightarrow> VirtAddr \<Rightarrow> ('a kernel_state_scheme, usize + unit) kernel" where
  "ensure_loop write fin page s =
     (case ensure_page write page s of
        (Exit e, s') \<Rightarrow> (Exit e, s')
      | (Val (Inl errno), s') \<Rightarrow> (Val (Inl errno), s')
      | (Val (Inr _), s') \<Rightarrow>
          if page_of fin \<le> page then (Val (Inr ()), s')
          else if add_overflows page 4096 then (Exit (Panic add_panic), s')
          else ensure_loop write fin (page + 4096) s')"
  by pat_completeness auto
termination
proof (relation "measure (\<lambda>(w, f, page, s). 2 ^ 64 - unat page)", simp)
  fix w fin s x s' a b u and page :: usize
  assume "\<not> add_overflows page 4096"
  then have "unat (page + 4096) = unat page + 4096" by (simp add: unat_add_no_overflow)
  then show "((w, fin, page + 4096, s'), w, fin, page, s) \<in> measure (\<lambda>(w, f, page, s). 2 ^ 64 - unat page)"
    using unat_usize_less [of "page + 4096"] by simp
qed

declare ensure_loop.simps [simp del]

definition ensure_user_range :: "usize \<Rightarrow> usize \<Rightarrow> bool \<Rightarrow> ('a kernel_state_scheme, usize + unit) kernel" where
  "ensure_user_range ptr len write =
     (if len = 0 then ret (Inr ())
      else if ptr = 0 then ret (Inl (linux_error EFAULT))
      else
        kbind (usub len 1) (\<lambda>l.
        case checked_add ptr l of
          None \<Rightarrow> ret (Inl (linux_error EFAULT))
        | Some fin \<Rightarrow> ensure_loop write fin (page_of ptr)))"

section \<open>Copy on write\<close>

text \<open>The entry a resolved fault leaves: writable, private, same page contents and execute bit.\<close>

definition cow_resolved :: "PTEntry \<Rightarrow> PhysAddr \<Rightarrow> PTEntry \<Rightarrow> bool" where
  "cow_resolved e q e' \<longleftrightarrow> ppn_to_addr e' = q \<and> is_valid e' \<and> is_r e' \<and> is_w e' \<and> is_u e' \<and> \<not> is_cow e' \<and> is_x e' = is_x e"

lemma cow_resolved_copy:
  assumes "frame_ok q"
  shows "cow_resolved e q (clear_cow (new_leaf q (PTEFlags_new True True (flags_is_x (pte_flags e)) True)))"
proof -
  have "page_aligned q" "unat q < 2 ^ 60" using assms by (auto simp: frame_ok_def is_managed_unat)
  then show ?thesis
    by (auto simp: cow_resolved_def ppn_new_leaf pte_bits bit_cow_w bit_new_leaf bit_PTEFlags_new flags_bits bit_pte_flags)
qed

lemma cow_resolved_inplace:
  "is_valid e \<Longrightarrow> is_r e \<Longrightarrow> is_u e \<Longrightarrow> cow_resolved e (ppn_to_addr e) (clear_cow (set_w e True))"
  by (auto simp: cow_resolved_def pte_bits bit_cow_w)

lemma handle_cow_fault_wp:
  assumes inv: "frames_inv fl s" and ea: "dword_aligned ea" "live s (page_of ea)"
    and e: "read_u64 (mem s) ea = e" and p: "ppn_to_addr e = p" "live s p" "p \<noteq> page_of ea"
    and ok: "is_valid e" "is_r e" "is_u e"
  shows "wp (handle_cow_fault va ea) (\<lambda>_ s'. \<exists>q fl'. frames_inv fl' s' \<and> frame_ok q \<and>
      above_frames s' = above_frames s \<and>
      cow_resolved e q (read_u64 (mem s') ea) \<and>
      (\<forall>x. page_of x = q \<longrightarrow> mem s' x = mem s (p + (x - q))) \<and>
      (\<forall>x. \<not> x - ea < 8 \<and> page_of x \<noteq> q \<longrightarrow> mem s' x = mem s x) \<and>
      (if 1 < frame_ref s p
       then \<not> live s q \<and> frame_ref s' q = 1 \<and> frame_ref s' p = frame_ref s p - 1 \<and>
         (\<forall>r. frame_ok r \<and> r \<noteq> q \<and> r \<noteq> p \<longrightarrow> frame_ref s' r = frame_ref s r)
       else q = p \<and> (\<forall>r. frame_ref s' r = frame_ref s r)))
    (\<lambda>x _. x = Panic ''COW: alloc_frame failed'' \<and> 1 < frame_ref s p \<and> fl = [] \<and> RAM_BASE + RAM_SIZE \<le> NEXT_FRAME s) s"
    (is "wp _ ?Q ?R s")
proof (cases "1 < frame_ref s p")
  case False
  let ?m = "write_u64 (mem s) ea (clear_cow (set_w e True))"
  have "page_of x \<noteq> page_of ea \<Longrightarrow> ?m x = mem s x" for x
    using ea by (simp add: write_u64_outside)
  then have inv': "frames_inv fl (s\<lparr>mem := ?m\<rparr>)"
    by (intro frames_inv_mem [OF inv]) (use ea(2) in metis)
  have same: "page_of x = p \<Longrightarrow> ?m x = mem s x" for x
    using p(3) ea by (intro write_u64_outside) auto
  have out: "\<not> x - ea < 8 \<Longrightarrow> ?m x = mem s x" for x by (simp add: write_u64_def)
  have "?Q () (s\<lparr>mem := ?m\<rparr>)"
    using inv' False cow_resolved_inplace [OF ok] p same out live_frame_ok [OF p(2)] ea
    by (intro exI [of _ p] exI [of _ fl]) (simp add: read_write_u64_same)
  then show ?thesis
    using False p(2) by (simp add: handle_cow_fault_def wp_simps e p(1) wp_get_ref live_def frame_ok_def Let_def
        read_write_u64_same write_u64_twice)
next
  case True
  obtain r s1 where res: "alloc_result fl s = (r, s1)" by force
  note sp = alloc_result_spec [OF inv res]
  have pm: "is_managed p" using p(2) by (simp add: live_def frame_ok_def)
  show ?thesis
  proof (cases r)
    case None
    then show ?thesis
      using True sp(3) pm
      by (simp add: handle_cow_fault_def wp_simps e p(1) wp_get_ref Let_def wp_alloc_frame [OF inv] alloc_result_def)
  next
    case (Some q)
    have q: "frame_ok q" "\<not> live s q" "frame_ref s1 q = 1" using sp(4) [OF Some] by auto
    then have qa: "page_aligned q" and qp: "q \<noteq> p" "q \<noteq> page_of ea" using p(2) ea(2) by (auto simp: frame_ok_def)
    have pf: "frame_ok p" using p(2) by (rule live_frame_ok)
    have rp: "frame_ref s1 p = frame_ref s p" using sp(5) [OF Some pf] qp by simp
    let ?m = "copy_nonoverlapping (mem s) p q 4096"
    let ?s2 = "s1\<lparr>mem := ?m\<rparr>"
    have inv2: "frames_inv (tl fl) ?s2"
      by (rule frames_inv_mem [OF sp(1)]) (use q in \<open>auto simp: copy_page [OF qa] sp(2) live_def\<close>)
    have lv2: "live ?s2 p" using p(2) rp by (simp add: live_def)
    have one: "frame_ref s p \<noteq> 1" using True by auto
    have dec: "dec_ref_result p ?s2 = set_ref p (frame_ref s p - 1) ?s2" using rp one by (simp add: dec_ref_result_def)
    let ?s3 = "set_ref p (frame_ref s p - 1) ?s2"
    have inv3: "frames_inv (tl fl) ?s3" using dec_ref_result_spec(1) [OF inv2 lv2] dec rp one by simp
    have refs: "frame_ref ?s3 k = (if k = p then frame_ref s p - 1 else if k = q then 1 else frame_ref s k)" if "frame_ok k" for k
      using dec_ref_result_spec(2) [OF inv2 lv2 that] dec rp sp(5) [OF Some that] q(3) qp by auto
    have rd: "read_u64 ?m ea = e"
    proof -
      have "read_u64 ?m ea = read_u64 (mem s) ea"
        by (rule read_u64_cong) (use qp ea in \<open>simp add: copy_page [OF qa] dword_page\<close>)
      then show ?thesis using e by simp
    qed
    let ?v = "clear_cow (new_leaf q (PTEFlags_new True True (flags_is_x (pte_flags e)) True))"
    let ?s4 = "?s3\<lparr>mem := write_u64 ?m ea ?v\<rparr>"
    have live_ea: "live ?s3 (page_of ea)"
      using refs [OF live_frame_ok [OF ea(2)]] ea(2) p(3) qp by (simp add: live_def)
    have inv4: "frames_inv (tl fl) ?s4"
    proof (rule frames_inv_mem [OF inv3])
      fix x assume "\<not> live ?s3 (page_of x)"
      then have "page_of x \<noteq> page_of ea" using live_ea by auto
      then show "write_u64 ?m ea ?v x = mem ?s3 x" using ea(1) by (simp add: write_u64_outside)
    qed
    have "?Q () ?s4"
    proof (intro exI [of _ q] exI [of _ "tl fl"] conjI allI impI)
      show "cow_resolved e q (read_u64 (mem ?s4) ea)"
        using cow_resolved_copy [OF q(1)] ea(1) by (simp add: read_write_u64_same)
      fix x
      show "mem ?s4 x = mem s (p + (x - q))" if "page_of x = q"
        using that ea qp by (simp add: write_u64_outside copy_page [OF qa])
      show "mem ?s4 x = mem s x" if "\<not> x - ea < 8 \<and> page_of x \<noteq> q"
        using that by (simp add: write_u64_def copy_page [OF qa])
      show "above_frames ?s4 = above_frames s" using above_frames_results(2) [of fl s] res by simp
    qed (use inv4 q refs pf True qp in simp_all)
    then show ?thesis
      using True pm lv2
      by (simp add: handle_cow_fault_def wp_simps e p(1) wp_get_ref Let_def wp_alloc_frame [OF inv] res Some
          wp_dec_ref dec sp(2) rd read_write_u64_same write_u64_twice)
  qed
qed

section \<open>Address spaces\<close>

text \<open>The user half of an address space: its tables form a tree of live frames, and every user page
  is a valid mapping of a live frame that is not one of the tables.\<close>

definition space_ok :: "'a frames_scheme \<Rightarrow> PhysAddr \<Rightarrow> bool" where
  "space_ok s r \<longleftrightarrow> frames_ok s \<and> pt_wf (live s) (read_u64 (mem s)) r \<and>
     (\<forall>va. is_u (pte_of (read_u64 (mem s)) r va) \<longrightarrow>
        is_valid (pte_of (read_u64 (mem s)) r va) \<and> live s (ppn_to_addr (pte_of (read_u64 (mem s)) r va)) \<and>
        \<not> is_table (read_u64 (mem s)) r (ppn_to_addr (pte_of (read_u64 (mem s)) r va)))"

text \<open>What a program sees: the byte at a user address.\<close>

definition view :: "memory \<Rightarrow> PhysAddr \<Rightarrow> VirtAddr \<Rightarrow> u8 option" where
  "view m r a = (let e = pte_of (read_u64 m) r a in
     if is_u e then Some (m (ppn_to_addr e + (a - page_of a))) else None)"

lemma space_ok_dest:
  assumes "space_ok s r"
  shows "frames_ok s" "pt_wf (live s) (read_u64 (mem s)) r"
    "is_u (pte_of (read_u64 (mem s)) r va) \<Longrightarrow> is_valid (pte_of (read_u64 (mem s)) r va)"
    "is_u (pte_of (read_u64 (mem s)) r va) \<Longrightarrow> live s (ppn_to_addr (pte_of (read_u64 (mem s)) r va))"
    "is_u (pte_of (read_u64 (mem s)) r va) \<Longrightarrow> \<not> is_table (read_u64 (mem s)) r (ppn_to_addr (pte_of (read_u64 (mem s)) r va))"
  using assms by (auto simp: space_ok_def)

lemma lookup_entry:
  assumes "space_ok s r" and "lookup_addr (read_u64 (mem s)) r va = Some ea"
  shows "dword_aligned ea" "live s (page_of ea)" "is_table (read_u64 (mem s)) r (page_of ea)"
    "pte_of (read_u64 (mem s)) r va = read_u64 (mem s) ea"
    "\<exists>t. l1 (read_u64 (mem s)) r (vpn va 2) (vpn va 1) = Some t \<and> ea = entry_at t (vpn va 0)"
proof -
  obtain t where t: "l1 (read_u64 (mem s)) r (vpn va 2) (vpn va 1) = Some t" "ea = entry_at t (vpn va 0)"
    using assms(2) by (auto simp: lookup_addr_l1)
  then show "\<exists>t. l1 (read_u64 (mem s)) r (vpn va 2) (vpn va 1) = Some t \<and> ea = entry_at t (vpn va 0)" by blast
  have ta: "page_aligned t" using t(1) by (rule l1_aligned)
  then have pg: "page_of ea = t" by (simp add: t(2) unat_entry_at vpn_bound)
  show "dword_aligned ea" using ta by (simp add: t(2) vpn_bound)
  show "live s (page_of ea)"
    unfolding pg by (rule pt_wf_dest(4) [OF space_ok_dest(2) [OF assms(1)] vpn_bound vpn_bound t(1)])
  show "is_table (read_u64 (mem s)) r (page_of ea)"
    unfolding pg is_table_def using t(1) vpn_bound by blast
  show "pte_of (read_u64 (mem s)) r va = read_u64 (mem s) ea" using assms(2) by (simp add: pte_of_def)
qed

lemma table_live: "pt_wf lv rd r \<Longrightarrow> is_table rd r t \<Longrightarrow> lv t"
  unfolding is_table_def using pt_wf_dest(1,2,4) by blast

lemma read_u64_page: "dword_aligned b \<Longrightarrow> (\<And>x. page_of x = page_of b \<Longrightarrow> m' x = m x) \<Longrightarrow> read_u64 m' b = read_u64 m b"
  by (rule read_u64_cong) (simp add: dword_page)

lemma space_ok_page: "space_ok s r \<Longrightarrow> is_table (read_u64 (mem s)) r t \<Longrightarrow> i < 512 \<Longrightarrow>
    dword_aligned (entry_at t i) \<and> page_of (entry_at t i) = t"
proof -
  assume sp: "space_ok s r" and t: "is_table (read_u64 (mem s)) r t" and i: "i < 512"
  have "page_aligned t"
    using live_frame_ok [OF table_live [OF space_ok_dest(2) [OF sp] t]] by (simp add: frame_ok_def)
  with i show ?thesis by (simp add: unat_entry_at)
qed

lemma pte_same_page: "same_page va vb \<Longrightarrow> pte_of rd r va = pte_of rd r vb"
  unfolding same_page_def pte_of_l1 by (elim conjE) (simp only:)

text \<open>How a resolved copy-on-write fault changes memory and the counts, for the entry at \<open>ea\<close> of page
  \<open>p\<close>.\<close>

definition cow_refs :: "PhysAddr \<Rightarrow> PhysAddr \<Rightarrow> 'a frames_scheme \<Rightarrow> 'a frames_scheme \<Rightarrow> bool" where
  "cow_refs p q s s' \<longleftrightarrow>
     (if 1 < frame_ref s p
      then \<not> live s q \<and> frame_ref s' q = 1 \<and> frame_ref s' p = frame_ref s p - 1 \<and>
        (\<forall>r. frame_ok r \<and> r \<noteq> q \<and> r \<noteq> p \<longrightarrow> frame_ref s' r = frame_ref s r)
      else q = p \<and> (\<forall>r. frame_ref s' r = frame_ref s r))"

definition cow_step :: "usize \<Rightarrow> PhysAddr \<Rightarrow> PhysAddr \<Rightarrow> 'a frames_scheme \<Rightarrow> 'a frames_scheme \<Rightarrow> bool" where
  "cow_step ea p q s s' \<longleftrightarrow> frames_ok s' \<and> cow_resolved (read_u64 (mem s) ea) q (read_u64 (mem s') ea) \<and>
     (\<forall>x. page_of x = q \<longrightarrow> mem s' x = mem s (p + (x - q))) \<and>
     (\<forall>x. \<not> x - ea < 8 \<and> page_of x \<noteq> q \<longrightarrow> mem s' x = mem s x) \<and>
     (q = p \<or> \<not> live s q) \<and> (\<forall>r. live s r \<longrightarrow> live s' r) \<and> live s' q \<and> above_frames s' = above_frames s \<and>
     cow_refs p q s s'"

lemma handle_cow_fault_step:
  assumes sp: "space_ok s r" and lk: "lookup_addr (read_u64 (mem s)) r va = Some ea"
    and e: "is_u (read_u64 (mem s) ea)" "is_r (read_u64 (mem s) ea)"
  shows "wp (handle_cow_fault va ea) (\<lambda>_ s'. \<exists>q. cow_step ea (ppn_to_addr (read_u64 (mem s) ea)) q s s')
    (\<lambda>x _. x = Panic ''COW: alloc_frame failed'' \<and> \<not> frames_has 1 s) s"
proof -
  let ?e = "read_u64 (mem s) ea" and ?p = "ppn_to_addr (read_u64 (mem s) ea)"
  note le = lookup_entry [OF sp lk]
  have u: "is_u (pte_of (read_u64 (mem s)) r va)" using e le(4) by simp
  have p: "live s ?p" "?p \<noteq> page_of ea" "is_valid ?e"
    using space_ok_dest(3-5) [OF sp u] le(3,4) by auto
  obtain fl where inv: "frames_inv fl s" using space_ok_dest(1) [OF sp] by (auto simp: frames_ok_def)
  have none: "\<not> frames_has 1 s" if "fl = []" "RAM_BASE + RAM_SIZE \<le> NEXT_FRAME s"
  proof
    assume "frames_has 1 s"
    then obtain fl' where f: "frames_inv fl' s" "4096 + unat (NEXT_FRAME s) \<le> 4096 * length fl' + 0x88000000"
      by (auto simp: frames_has_def)
    have "fl' = fl" using f(1) inv chain_unique by (auto simp: frames_inv_def)
    then show False using f(2) that by (simp add: RAM_END word_le_nat_alt)
  qed
  show ?thesis
  proof (rule wp_mono [OF handle_cow_fault_wp [OF inv le(1,2) refl refl p(1,2,3) e(2,1)]])
    fix x and s' :: "'a frames_scheme"
    assume "\<exists>q fl'. frames_inv fl' s' \<and> frame_ok q \<and> above_frames s' = above_frames s \<and>
      cow_resolved ?e q (read_u64 (mem s') ea) \<and>
      (\<forall>x. page_of x = q \<longrightarrow> mem s' x = mem s (?p + (x - q))) \<and>
      (\<forall>x. \<not> x - ea < 8 \<and> page_of x \<noteq> q \<longrightarrow> mem s' x = mem s x) \<and>
      (if 1 < frame_ref s ?p
       then \<not> live s q \<and> frame_ref s' q = 1 \<and> frame_ref s' ?p = frame_ref s ?p - 1 \<and>
         (\<forall>r. frame_ok r \<and> r \<noteq> q \<and> r \<noteq> ?p \<longrightarrow> frame_ref s' r = frame_ref s r)
       else q = ?p \<and> (\<forall>r. frame_ref s' r = frame_ref s r))"
    then obtain q fl' where q: "frames_inv fl' s'" "frame_ok q" "above_frames s' = above_frames s"
      "cow_resolved ?e q (read_u64 (mem s') ea)"
      "\<forall>x. page_of x = q \<longrightarrow> mem s' x = mem s (?p + (x - q))"
      "\<forall>x. \<not> x - ea < 8 \<and> page_of x \<noteq> q \<longrightarrow> mem s' x = mem s x"
      and r: "if 1 < frame_ref s ?p
       then \<not> live s q \<and> frame_ref s' q = 1 \<and> frame_ref s' ?p = frame_ref s ?p - 1 \<and>
         (\<forall>r. frame_ok r \<and> r \<noteq> q \<and> r \<noteq> ?p \<longrightarrow> frame_ref s' r = frame_ref s r)
       else q = ?p \<and> (\<forall>r. frame_ref s' r = frame_ref s r)" by blast
    have "live s' k" if k: "live s k" for k
    proof (cases "1 < frame_ref s ?p")
      case True
      then have "k \<noteq> q" "frame_ref s ?p - 1 \<noteq> 0" using r k by auto
      then show ?thesis using True r k by (cases "k = ?p") (auto simp: live_def)
    next
      case False
      then show ?thesis using r k by (simp add: live_def)
    qed
    moreover have "live s' q" using r q(2) p(1) by (auto simp: live_def split: if_splits)
    ultimately show "\<exists>q. cow_step ea ?p q s s'"
      using q r by (intro exI [of _ q]) (auto simp: cow_step_def cow_refs_def frames_ok_def split: if_splits)
  qed (use none in auto)
qed

lemma cow_step_keeps:
  assumes st: "cow_step ea p q s s'" and p: "p \<noteq> page_of ea" and ea: "dword_aligned ea" "live s (page_of ea)" and x: "live s (page_of x)"
    and d: "\<not> x - ea < 8"
  shows "mem s' x = mem s x"
proof (cases "page_of x = q")
  case True
  then have "q = p" using st x by (auto simp: cow_step_def)
  then show ?thesis using st True by (auto simp: cow_step_def)
next
  case False
  then show ?thesis using st d by (auto simp: cow_step_def)
qed

lemma not_in_dword: "dword_aligned ea \<Longrightarrow> page_of x \<noteq> page_of ea \<Longrightarrow> \<not> x - ea < 8"
proof
  assume ea: "dword_aligned ea" and ne: "page_of x \<noteq> page_of ea" and "x - ea < 8"
  then have "unat (x - ea) < 8" by (simp add: word_less_nat_alt)
  moreover have "ea + of_nat (unat (x - ea)) = x" by simp
  ultimately show False using dword_page [OF ea, of "unat (x - ea)"] ne by metis
qed

text \<open>Only the dwords of live pages other than the entry matter to a tree of tables.\<close>

lemma cow_step_read:
  assumes st: "cow_step ea p q s s'" and p: "p \<noteq> page_of ea" and ea: "dword_aligned ea" "live s (page_of ea)"
    and b: "dword_aligned b" "live s (page_of b)" "b \<noteq> ea"
  shows "read_u64 (mem s') b = read_u64 (mem s) b"
proof (rule read_u64_cong)
  fix i :: nat assume i: "i < 8"
  have "live s (page_of (b + of_nat i))" using b dword_page [OF b(1) i] by simp
  then show "mem s' (b + of_nat i) = mem s (b + of_nat i)"
    by (intro cow_step_keeps [OF st p ea] dword_disjoint) (use b ea i in auto)
qed

lemma cow_step_self:
  assumes sp: "space_ok s r" and lk: "lookup_addr (read_u64 (mem s)) r va = Some ea" and u: "is_u (read_u64 (mem s) ea)"
    and st: "cow_step ea (ppn_to_addr (read_u64 (mem s) ea)) q s s'"
  shows "space_ok s' r"
    and "pte_of (read_u64 (mem s')) r vb = (if same_page va vb then read_u64 (mem s') ea else pte_of (read_u64 (mem s)) r vb)"
    and "view (mem s') r a = view (mem s) r a" and "is_table (read_u64 (mem s')) r t = is_table (read_u64 (mem s)) r t"
    and "i < 512 \<Longrightarrow> sub (read_u64 (mem s')) r i = sub (read_u64 (mem s)) r i"
    and "i < 512 \<Longrightarrow> j < 512 \<Longrightarrow> l1 (read_u64 (mem s')) r i j = l1 (read_u64 (mem s)) r i j"
    and "links (read_u64 (mem s')) r = links (read_u64 (mem s)) r"
proof -
  let ?p = "ppn_to_addr (read_u64 (mem s) ea)" and ?rd = "read_u64 (mem s)" and ?rd' = "read_u64 (mem s')"
  note le = lookup_entry [OF sp lk] and wf = space_ok_dest(2) [OF sp]
  obtain t where t: "l1 ?rd r (vpn va 2) (vpn va 1) = Some t" "ea = entry_at t (vpn va 0)" using le(5) by blast
  have p: "live s ?p" "?p \<noteq> page_of ea" "\<not> is_table ?rd r ?p"
    using space_ok_dest(4,5) [OF sp, of va] le(3,4) u by auto
  have al: "page_aligned u" if "live s u" for u using live_frame_ok [OF that] by (simp add: frame_ok_def)
  have w: "?rd' (entry_at u i) = (if entry_at u i = entry_at t (vpn va 0) then ?rd' ea else ?rd (entry_at u i))"
    if "is_table ?rd r u" "i < 512" for u i
    using space_ok_page [OF sp that] table_live [OF wf that(1)] cow_step_read [OF st p(2) le(1,2), of "entry_at u i"] t(2) by auto
  note wl = write_leaf [OF wf al t(1), of ?rd' "?rd' ea", OF _ w]
  show pte: "pte_of ?rd' r vb = (if same_page va vb then ?rd' ea else pte_of ?rd r vb)" for vb by (rule wl(2))
  show "is_table ?rd' r t = is_table ?rd r t" for t by (rule wl(4))
  show "i < 512 \<Longrightarrow> sub ?rd' r i = sub ?rd r i" "i < 512 \<Longrightarrow> j < 512 \<Longrightarrow> l1 ?rd' r i j = l1 ?rd r i j"
    by (simp_all add: wl(5,6))
  show "links ?rd' r = links ?rd r" by (rule wl(7))
  have res: "cow_resolved (?rd ea) q (?rd' ea)" "live s' q" "\<forall>k. live s k \<longrightarrow> live s' k" "q = ?p \<or> \<not> live s q" "frames_ok s'"
    using st by (auto simp: cow_step_def)
  have nt: "\<not> is_table ?rd r q" using res(4) p(3) table_live [OF wf] by auto
  show "space_ok s' r"
    unfolding space_ok_def
  proof (intro conjI allI impI)
    show "pt_wf (live s') ?rd' r" by (rule pt_wf_cong [OF wl(1)]) (use res(3) in auto)
    fix vb assume uv: "is_u (pte_of ?rd' r vb)"
    show "is_valid (pte_of ?rd' r vb)" "live s' (ppn_to_addr (pte_of ?rd' r vb))"
      "\<not> is_table ?rd' r (ppn_to_addr (pte_of ?rd' r vb))"
      using uv res nt space_ok_dest(3-5) [OF sp, of vb]
      by (auto simp: pte wl(4) cow_resolved_def split: if_splits)
  qed (rule res(5))
  show "view (mem s') r a = view (mem s) r a"
  proof (cases "same_page va a")
    case True
    have ea: "pte_of ?rd r a = ?rd ea" using pte_same_page [OF True] le(4) by simp
    have "frame_ok q" using res(2) by (rule live_frame_ok)
    then have "page_of (q + (a - page_of a)) = q"
      by (intro page_of_plus_offset) (simp_all add: frame_ok_def page_of_offset_less)
    then show ?thesis
      using True res(1) st u ea by (simp add: view_def pte Let_def cow_resolved_def cow_step_def)
  next
    case False
    let ?k = "ppn_to_addr (pte_of ?rd r a)"
    have "mem s' (?k + (a - page_of a)) = mem s (?k + (a - page_of a))" if ua: "is_u (pte_of ?rd r a)"
    proof -
      have k: "live s ?k" "?k \<noteq> page_of ea" using space_ok_dest(4,5) [OF sp ua] le(3) by auto
      have pg: "page_of (?k + (a - page_of a)) = ?k"
        by (rule page_of_plus_offset) (simp_all add: page_of_offset_less)
      show ?thesis
        by (rule cow_step_keeps [OF st p(2) le(1,2)]) (use k pg not_in_dword [OF le(1)] in auto)
    qed
    then show ?thesis using False by (simp add: view_def pte Let_def)
  qed
qed



section \<open>Checking a user range\<close>

text \<open>The part of the kernel state above the allocator determines the process table.\<close>

lemma kernel_state_more:
  assumes "frames.more s' = frames.more s"
  shows "PROCESS_LIST s' = PROCESS_LIST s" "CURRENT s' = CURRENT s" "NEXT_PID s' = NEXT_PID s"
    "TRAP_EXIT_RESTORE_ADDR s' = TRAP_EXIT_RESTORE_ADDR s" "TICK_COUNT s' = TICK_COUNT s"
  using assms by (cases s, cases s', simp)+

lemma above_frames_kernel:
  assumes "above_frames s' = above_frames s"
  shows "PROCESS_LIST s' = PROCESS_LIST s" "CURRENT s' = CURRENT s" "NEXT_PID s' = NEXT_PID s"
    "TRAP_EXIT_RESTORE_ADDR s' = TRAP_EXIT_RESTORE_ADDR s" "TICK_COUNT s' = TICK_COUNT s"
    "csr_satp s' = csr_satp s" "csr_sstatus s' = csr_sstatus s" "svpbmt s' = svpbmt s" "csr_sscratch s' = csr_sscratch s"
  using assms kernel_state_more [of s' s] by (simp_all add: above_frames_def)

lemma above_frames_sched: "above_frames s' = above_frames s \<Longrightarrow> sched_ok s' = sched_ok s"
    "above_frames s' = above_frames s \<Longrightarrow> cur_proc s' = cur_proc s"
  using above_frames_kernel(1,2) [of s' s] by (simp_all add: sched_ok_def cur_proc_def)

text \<open>The routines of this theory keep it.\<close>

lemma keeps_cow_fault [keeps_intros]: "keeps above_next (handle_cow_fault va ea)"
  unfolding handle_cow_fault_def by (intro keeps_intros)

lemma keeps_ensure_page [keeps_intros]: "keeps above_next (ensure_page wr page)"
  unfolding ensure_page_def by (intro keeps_intros)

lemma ensure_loop_unfold:
  "ensure_loop wr fin page = kbind (ensure_page wr page) (\<lambda>r. case r of
      Inl errno \<Rightarrow> ret (Inl errno)
    | Inr _ \<Rightarrow> if page_of fin \<le> page then ret (Inr ())
        else kbind (uadd page 4096) (ensure_loop wr fin))"
  by (rule ext, subst ensure_loop.simps)
    (auto simp: kbind_def ret_def uadd_def halt_def split: prod.splits outcome.splits sum.splits)

lemma keeps_ensure_loop: "keeps above_next (ensure_loop wr fin page)"
proof (induction page rule: page_loop_induct)
  case (1 page)
  then show ?case by (subst ensure_loop_unfold) (intro keeps_intros keeps_next_page)
qed

lemma keeps_ensure_user_range [keeps_intros]: "keeps above_next (ensure_user_range ptr len wr)"
  unfolding ensure_user_range_def by (intro keeps_intros keeps_ensure_loop)

lemma keeps_user_access [keeps_intros]:
  "keeps above_next (user_load va)" "keeps above_next (user_store va b)" "keeps above_next (user_store64 va v)"
  unfolding user_load_def user_store_def user_store64_def by (auto intro!: keeps_intros)

abbreviation cur_root :: "'a kernel_state_scheme \<Rightarrow> PhysAddr" where
  "cur_root s \<equiv> root (page_table (cur_proc s))"

definition user_page_ok :: "bool \<Rightarrow> PTEntry \<Rightarrow> bool" where
  "user_page_ok wr e \<longleftrightarrow> is_u e \<and> (if wr then is_w e else is_r e)"

text \<open>What a check leaves as it was: the address space as the program sees it and everything above
  the allocator; pages that were accessible stay so.\<close>

definition same_space :: "bool \<Rightarrow> 'a kernel_state_scheme \<Rightarrow> 'a kernel_state_scheme \<Rightarrow> bool" where
  "same_space wr s s' \<longleftrightarrow> space_ok s' (cur_root s) \<and> above_frames s' = above_frames s \<and>
     (\<forall>a. view (mem s') (cur_root s) a = view (mem s) (cur_root s) a) \<and>
     (\<forall>a. user_page_ok wr (pte_of (read_u64 (mem s)) (cur_root s) a) \<longrightarrow>
        user_page_ok wr (pte_of (read_u64 (mem s')) (cur_root s) a))"

lemma same_space_refl: "space_ok s (cur_root s) \<Longrightarrow> same_space wr s s"
  by (simp add: same_space_def)

lemma same_space_trans: "same_space wr s t \<Longrightarrow> same_space wr t u \<Longrightarrow> same_space wr s u"
proof -
  assume st: "same_space wr s t" and tu: "same_space wr t u"
  then have "cur_proc t = cur_proc s" using above_frames_sched(2) [of t s] by (simp add: same_space_def)
  then show ?thesis using st tu by (simp add: same_space_def)
qed

lemma ensure_page_wp:
  assumes ok: "sched_ok s" and sp: "space_ok s (cur_root s)"
  shows "wp (ensure_page wr page) (\<lambda>r s'. same_space wr s s' \<and>
      (case r of Inl errno \<Rightarrow> errno = linux_error EFAULT
       | Inr _ \<Rightarrow> user_page_ok wr (pte_of (read_u64 (mem s')) (cur_root s) page)))
    (\<lambda>x _. x = Panic ''COW: alloc_frame failed'' \<and> wr) s"
proof (cases "lookup_addr (read_u64 (mem s)) (cur_root s) page")
  case None
  then show ?thesis
    using same_space_refl [OF sp] by (simp add: ensure_page_def wp_simps wp_current [OF ok] lookup_def)
next
  case (Some ea)
  let ?e = "read_u64 (mem s) ea" and ?r = "cur_root s"
  note le = lookup_entry [OF sp Some]
  show ?thesis
  proof (cases "wr \<and> is_u ?e \<and> is_cow ?e \<and> is_r ?e \<and> \<not> is_w ?e")
    case False
    then show ?thesis
      using same_space_refl [OF sp] Some le(4)
      by (auto simp: ensure_page_def wp_simps wp_current [OF ok] lookup_def user_page_ok_def)
  next
    case True
    then have e: "is_u ?e" "is_r ?e" by auto
    have fin: "is_w (read_u64 (mem s') ea)" "same_space wr s s'" "user_page_ok wr (pte_of (read_u64 (mem s')) ?r page)"
      if st: "\<exists>q. cow_step ea (ppn_to_addr ?e) q s s'" for s'
    proof -
      from st obtain q where q: "cow_step ea (ppn_to_addr ?e) q s s'" by blast
      note cs = cow_step_self [OF sp Some e(1) q]
      have res: "cow_resolved ?e q (read_u64 (mem s') ea)" "above_frames s' = above_frames s"
        using q by (auto simp: cow_step_def)
      then show "is_w (read_u64 (mem s') ea)" by (simp add: cow_resolved_def)
      then show "user_page_ok wr (pte_of (read_u64 (mem s')) ?r page)"
        using cs(2) [of page] res(1) by (simp add: user_page_ok_def cow_resolved_def same_page_def)
      show "same_space wr s s'"
        using cs res by (auto simp: same_space_def user_page_ok_def cow_resolved_def split: if_splits)
    qed
    have "wp (handle_cow_fault page ea) (\<lambda>_. wp (kbind (load64 ea) (\<lambda>e. if \<not> is_w e then ret (Inl (linux_error EFAULT)) else ret (Inr ())))
        (\<lambda>r s'. same_space wr s s' \<and> (case r of Inl errno \<Rightarrow> errno = linux_error EFAULT
          | Inr _ \<Rightarrow> user_page_ok wr (pte_of (read_u64 (mem s')) ?r page))) (\<lambda>x _. x = Panic ''COW: alloc_frame failed'' \<and> wr))
        (\<lambda>x _. x = Panic ''COW: alloc_frame failed'' \<and> wr) s"
      by (rule wp_mono [OF handle_cow_fault_step [OF sp Some e]]) (use fin True in \<open>simp_all add: wp_simps\<close>)
    then show ?thesis
      using True Some by (simp add: ensure_page_def wp_simps wp_current [OF ok] lookup_def)
  qed
qed

lemma ensure_loop_wp:
  assumes "sched_ok s" and "space_ok s (cur_root s)" and "page_aligned page" and "page \<le> page_of fin"
  shows "wp (ensure_loop wr fin page) (\<lambda>r s'. same_space wr s s' \<and>
      (case r of Inl errno \<Rightarrow> errno = linux_error EFAULT
       | Inr _ \<Rightarrow> \<forall>pg. page_aligned pg \<and> page \<le> pg \<and> pg \<le> page_of fin \<longrightarrow>
           user_page_ok wr (pte_of (read_u64 (mem s')) (cur_root s) pg)))
    (\<lambda>x _. x = Panic ''COW: alloc_frame failed'' \<and> wr) s"
  using assms
proof (induction wr fin page s rule: ensure_loop.induct)
  case (1 wr fin page s)
  let ?r = "cur_root s"
  note step = ensure_page_wp [OF "1.prems"(1,2), of wr page]
  obtain o1 s1 where run: "ensure_page wr page s = (o1, s1)" by force
  show ?case
  proof (cases o1)
    case (Exit x)
    then have "ensure_loop wr fin page s = (Exit x, s1)" using run by (simp add: ensure_loop.simps [of wr fin page s])
    then show ?thesis using wp_Exit [OF step] run Exit by (simp add: wp_def)
  next
    case (Val r)
    note post = wp_Val [OF step, of r s1]
    show ?thesis
    proof (cases r)
      case (Inl errno)
      then show ?thesis using post Val run by (simp add: wp_def ensure_loop.simps [of wr fin page s])
    next
      case (Inr u)
      have p1: "same_space wr s s1" "user_page_ok wr (pte_of (read_u64 (mem s1)) ?r page)"
        using post Val Inr run by auto
      show ?thesis
      proof (cases "page_of fin \<le> page")
        case True
        then have "page_of fin = page" using "1.prems"(4) by simp
        then show ?thesis using p1 Val Inr run by (auto simp: wp_def ensure_loop.simps [of wr fin page s])
      next
        case False
        have al: "4096 dvd unat page" "4096 dvd unat (page_of fin)" "unat page < unat (page_of fin)"
          using False "1.prems"(3) page_aligned_page_of [of fin] by (auto simp: page_aligned_iff_dvd word_le_nat_alt)
        then have gap: "unat page + 4096 \<le> unat (page_of fin)" by (auto elim!: dvdE)
        then have nov: "\<not> add_overflows page 4096"
          using unat_usize_less [of "page_of fin"] by (simp add: add_overflows_def)
        have nx: "unat (page + 4096) = unat page + 4096" using nov by (simp add: unat_add_no_overflow)
        have cur: "cur_proc s1 = cur_proc s" "sched_ok s1"
          using p1(1) above_frames_sched [of s1 s] "1.prems"(1) by (simp_all add: same_space_def)
        have IH: "wp (ensure_loop wr fin (page + 4096)) (\<lambda>r s'. same_space wr s1 s' \<and>
            (case r of Inl errno \<Rightarrow> errno = linux_error EFAULT
             | Inr _ \<Rightarrow> \<forall>pg. page_aligned pg \<and> page + 4096 \<le> pg \<and> pg \<le> page_of fin \<longrightarrow>
                 user_page_ok wr (pte_of (read_u64 (mem s')) ?r pg)))
          (\<lambda>x _. x = Panic ''COW: alloc_frame failed'' \<and> wr) s1"
        proof -
          have prem: "space_ok s1 (cur_root s1)" "page_aligned (page + 4096)" "page + 4096 \<le> page_of fin"
            using p1(1) cur(1) gap nx al(1) by (simp_all add: same_space_def page_aligned_iff_dvd word_le_nat_alt)
          show ?thesis
            using "1.IH" [of o1 s1 r u, OF _ Val Inr False nov cur(2) prem] run unfolding cur(1) by simp
        qed
        have pages: "pg = page \<or> page + 4096 \<le> pg" if "page_aligned pg" "page \<le> pg" for pg
          using that al(1) nx by (auto simp: page_aligned_iff_dvd word_le_nat_alt word_unat_eq_iff elim!: dvdE)
        have "wp (ensure_loop wr fin (page + 4096)) (\<lambda>r s'. same_space wr s s' \<and>
            (case r of Inl errno \<Rightarrow> errno = linux_error EFAULT
             | Inr _ \<Rightarrow> \<forall>pg. page_aligned pg \<and> page \<le> pg \<and> pg \<le> page_of fin \<longrightarrow>
                 user_page_ok wr (pte_of (read_u64 (mem s')) ?r pg)))
          (\<lambda>x _. x = Panic ''COW: alloc_frame failed'' \<and> wr) s1"
        proof (rule wp_mono [OF IH])
          fix r' s'
          assume A: "same_space wr s1 s' \<and> (case r' of Inl errno \<Rightarrow> errno = linux_error EFAULT
             | Inr _ \<Rightarrow> \<forall>pg. page_aligned pg \<and> page + 4096 \<le> pg \<and> pg \<le> page_of fin \<longrightarrow>
                 user_page_ok wr (pte_of (read_u64 (mem s')) ?r pg))"
          have "user_page_ok wr (pte_of (read_u64 (mem s')) ?r page)"
            using A p1(2) cur(1) by (simp add: same_space_def)
          then show "same_space wr s s' \<and> (case r' of Inl errno \<Rightarrow> errno = linux_error EFAULT
             | Inr _ \<Rightarrow> \<forall>pg. page_aligned pg \<and> page \<le> pg \<and> pg \<le> page_of fin \<longrightarrow>
                 user_page_ok wr (pte_of (read_u64 (mem s')) ?r pg))"
            using A same_space_trans [OF p1(1)] pages by (cases r') auto
        qed
        then show ?thesis using run Val Inr False nov by (simp add: wp_def ensure_loop.simps [of wr fin page s])
      qed
    qed
  qed
qed

lemma ensure_user_range_wp:
  assumes ok: "sched_ok s" and sp: "space_ok s (cur_root s)"
  shows "wp (ensure_user_range ptr len wr) (\<lambda>r s'. same_space wr s s' \<and>
      (case r of Inl errno \<Rightarrow> errno = linux_error EFAULT
       | Inr _ \<Rightarrow> len = 0 \<or> ptr \<noteq> 0 \<and> unat ptr + unat len \<le> 2 ^ 64 \<and>
           (\<forall>a. unat ptr \<le> unat a \<and> unat a < unat ptr + unat len \<longrightarrow>
             user_page_ok wr (pte_of (read_u64 (mem s')) (cur_root s) a))))
    (\<lambda>x _. x = Panic ''COW: alloc_frame failed'' \<and> wr) s"
proof (cases "len = 0 \<or> ptr = 0 \<or> checked_add ptr (len - 1) = None")
  case True
  have "\<not> len < 1" if "len \<noteq> 0" using that by (simp add: word_less_nat_alt unat_eq_0 [symmetric])
  then show ?thesis
    using True same_space_refl [OF sp] by (auto simp: ensure_user_range_def wp_simps)
next
  case False
  then obtain fin where fin: "checked_add ptr (len - 1) = Some fin" by auto
  have l1: "unat (len - 1) = unat len - 1" "0 < unat len"
    using False by (auto simp: unat_sub word_le_nat_alt unat_eq_0 [symmetric] Suc_le_eq)
  then have uf: "unat fin + 1 = unat ptr + unat len" using checked_add_unat [OF fin] by simp
  have "\<not> len < 1" using l1(2) by (simp add: word_less_nat_alt)
  have le: "page_of ptr \<le> page_of fin"
    using uf l1 by (simp add: word_le_nat_alt unat_page_of div_le_mono)
  have all: "user_page_ok wr (pte_of rd r a)"
    if "\<forall>pg. page_aligned pg \<and> page_of ptr \<le> pg \<and> pg \<le> page_of fin \<longrightarrow> user_page_ok wr (pte_of rd r pg)"
      "unat ptr \<le> unat a \<and> unat a < unat ptr + unat len" for rd r a
  proof -
    have "page_of ptr \<le> page_of a" "page_of a \<le> page_of fin"
      using that(2) uf by (simp_all add: word_le_nat_alt unat_page_of div_le_mono)
    then have "user_page_ok wr (pte_of rd r (page_of a))" using that(1) by simp
    moreover have "same_page a (page_of a)" by (rule vpn_same_page_of) (simp add: page_of_id)
    ultimately show ?thesis using pte_same_page [of a "page_of a" rd r] by simp
  qed
  have "wp (ensure_loop wr fin (page_of ptr)) (\<lambda>r s'. same_space wr s s' \<and>
      (case r of Inl errno \<Rightarrow> errno = linux_error EFAULT
       | Inr _ \<Rightarrow> len = 0 \<or> ptr \<noteq> 0 \<and> unat ptr + unat len \<le> 2 ^ 64 \<and>
           (\<forall>a. unat ptr \<le> unat a \<and> unat a < unat ptr + unat len \<longrightarrow>
             user_page_ok wr (pte_of (read_u64 (mem s')) (cur_root s) a))))
    (\<lambda>x _. x = Panic ''COW: alloc_frame failed'' \<and> wr) s"
  proof (rule wp_mono [OF ensure_loop_wp [OF ok sp page_aligned_page_of le]])
    fix r s'
    assume "same_space wr s s' \<and> (case r of Inl errno \<Rightarrow> errno = linux_error EFAULT
       | Inr _ \<Rightarrow> \<forall>pg. page_aligned pg \<and> page_of ptr \<le> pg \<and> pg \<le> page_of fin \<longrightarrow>
           user_page_ok wr (pte_of (read_u64 (mem s')) (cur_root s) pg))"
    then show "same_space wr s s' \<and> (case r of Inl errno \<Rightarrow> errno = linux_error EFAULT
       | Inr _ \<Rightarrow> len = 0 \<or> ptr \<noteq> 0 \<and> unat ptr + unat len \<le> 2 ^ 64 \<and>
           (\<forall>a. unat ptr \<le> unat a \<and> unat a < unat ptr + unat len \<longrightarrow>
             user_page_ok wr (pte_of (read_u64 (mem s')) (cur_root s) a)))"
      using all False uf unat_usize_less [of fin] by (cases r) auto
  qed simp
  then show ?thesis
    using False fin \<open>\<not> len < 1\<close> by (simp add: ensure_user_range_def wp_simps)
qed

section \<open>Properties of user memory\<close>

text \<open>An address space for the witnesses: one page, shared by two mappings, mapped copy-on-write at
  \<open>0x20000\<close>.\<close>

definition frames2 :: frames where
  "frames2 = set_ref 0x80301000 2 (snd (alloc_result [] frames1))"

lemma frames1_next: "NEXT_FRAME frames1 = 0x80301000"
  by (simp add: frames1_def alloc_result_def frames0_def RAM_END)

lemma frames2_facts:
  "frames_inv [] frames2" "live frames2 0x80301000" "live frames2 0x80300000" "mem frames2 = (\<lambda>_. 0)"
  "frame_ref frames2 0x80301000 = 2" "frames_has 50 frames2"
proof -
  have res: "alloc_result [] frames1 = (Some 0x80301000, snd (alloc_result [] frames1))"
    using frames1_next by (simp add: alloc_result_def RAM_END)
  note sp = alloc_result_spec [OF frames1_inv res]
  have f: "frame_ok 0x80301000" "frame_ok 0x80300000" by (simp_all add: frame_ok_def is_managed_unat page_aligned_def)
  show "frame_ref frames2 0x80301000 = 2" using f by (simp add: frames2_def frame_ref_set_ref)
  then show "live frames2 0x80301000" using f by (simp add: live_def)
  show "live frames2 0x80300000"
    using f frames1_live sp(5) [OF refl f(2)] by (simp add: frames2_def live_def frame_ref_set_ref)
  show "mem frames2 = (\<lambda>_. 0)" using sp(2) by (simp add: frames2_def frames1_mem)
  have nx: "NEXT_FRAME (snd (alloc_result [] frames1)) = 0x80302000"
    using frames1_next by (simp add: alloc_result_def RAM_END)
  have ge: "frame_ref (set_ref 0x80301000 2 t) p = frame_ref t p" if "frame_ok p" "0x80302000 \<le> p" for p and t :: frames
    using that f by (auto simp: frame_ref_set_ref word_le_nat_alt)
  show inv: "frames_inv [] frames2"
    using sp(1) nx ge unfolding frames2_def frames_inv_def by simp
  show "frames_has 50 frames2"
    using inv nx by (auto simp: frames_has_def frames2_def)
qed

definition on_frames2 :: "'a frames_scheme \<Rightarrow> 'a frames_scheme" where
  "on_frames2 b = b\<lparr>mem := mem frames2, NEXT_FRAME := NEXT_FRAME frames2, FRAME_REFS := FRAME_REFS frames2,
     FREE_LIST_HEAD := FREE_LIST_HEAD frames2\<rparr>"

lemma on_frames2_facts:
  "frames_inv [] (on_frames2 b)" "live (on_frames2 b) 0x80301000" "live (on_frames2 b) 0x80300000"
  "mem (on_frames2 b) = (\<lambda>_. 0)" "frames_has 50 (on_frames2 b)" "above_frames (on_frames2 b) = above_frames b"
proof -
  have ref: "frame_ref (on_frames2 b) p = frame_ref frames2 p" for p by (simp add: frame_ref_def on_frames2_def)
  have inv: "frames_inv fl (on_frames2 b) \<longleftrightarrow> frames_inv fl frames2" for fl
    by (simp add: frames_inv_def ref) (simp add: on_frames2_def)
  note f = frames2_facts
  show "frames_inv [] (on_frames2 b)" using f(1) by (simp add: inv)
  show "live (on_frames2 b) 0x80301000" "live (on_frames2 b) 0x80300000" using f(2,3) by (simp_all add: live_def ref)
  show "mem (on_frames2 b) = (\<lambda>_. 0)" using f(4) by (simp add: on_frames2_def)
  show "frames_has 50 (on_frames2 b)" using f(6) by (simp add: frames_has_def inv) (simp add: on_frames2_def)
  show "above_frames (on_frames2 b) = above_frames b" by (simp add: on_frames2_def)
qed

lemma cow_example:
  fixes b :: "'a frames_scheme"
  obtains s ea where "space_ok s (root pt1)" "lookup_addr (read_u64 (mem s)) (root pt1) 0x20000 = Some ea"
    "is_u (read_u64 (mem s) ea)" "is_r (read_u64 (mem s) ea)" "\<not> is_w (read_u64 (mem s) ea)" "frames_has 1 s"
    "above_frames s = above_frames b"
proof -
  let ?r = "root pt1" and ?leaf = "set_cow (new_leaf 0x80301000 (PTEFlags_new True False False True))"
  let ?b = "on_frames2 b"
  note f = on_frames2_facts [of b]
  have ok: "frames_ok ?b" using f(1) by (auto simp: frames_ok_def)
  have wf: "pt_wf (live ?b) (read_u64 (mem ?b)) ?r"
    by (rule pt_wf_blank) (simp_all add: pt1_def f read_u64_zero)
  have z: "sub (read_u64 (mem ?b)) t i = None" for t i by (simp add: sub_def f(4) read_u64_zero)
  have zero: "pte_of (read_u64 (mem ?b)) ?r va = 0" for va by (simp add: pte_of_l1 l1_def z)
  have "missing (read_u64 (mem ?b)) ?r 0x20000 \<le> 2" by (auto simp: missing_def split: option.splits)
  then have h: "frames_has (1 + missing (read_u64 (mem ?b)) ?r 0x20000) ?b"
    by (intro kcount.has_weaken [OF f(5)]) simp
  have "wp (map_leaf alloc_frame pt1 0x20000 0x80301000 (PTEFlags_new True False False True) True)
      (\<lambda>_ s'. above_frames s' = above_frames b \<and> frames_has 1 s' \<and> frames_ok s' \<and>
        tree_ext (live ?b) (mem ?b) (live s') (mem s') ?r \<and>
        (\<forall>vb. pte_of (read_u64 (mem s')) ?r vb = (if same_page 0x20000 vb then ?leaf else 0))) (\<lambda>_ _. False) ?b"
    using wp_conj [OF keeps_wp [OF kabove.map_leaf_rest] wp_conj [OF kcount.map_leaf_has [OF h wf] kframes.map_leaf_wp [OF ok wf]]]
    by (rule wp_mono) (simp_all add: zero f(6))
  from wp_returns [OF this] obtain s :: "'a frames_scheme" where s: "frames_has 1 s" "frames_ok s"
      "tree_ext (live ?b) (mem ?b) (live s) (mem s) ?r" "above_frames s = above_frames b"
    and pte: "\<And>vb. pte_of (read_u64 (mem s)) ?r vb = (if same_page 0x20000 vb then ?leaf else 0)" by blast
  have leaf: "is_u ?leaf" "is_r ?leaf" "\<not> is_w ?leaf" "is_valid ?leaf" "ppn_to_addr ?leaf = 0x80301000" "\<not> is_u 0"
    by (simp_all add: pte_bits bit_cow_w bit_new_leaf bit_PTEFlags_new ppn_new_leaf page_aligned_def)
  then have ne: "?leaf \<noteq> 0" by auto
  have "\<not> is_table (read_u64 (mem ?b)) ?r 0x80301000"
    by (auto simp: is_table_def z l1_def pt1_def)
  then have nt: "\<not> is_table (read_u64 (mem s)) ?r 0x80301000"
    using s(3) f(2) by (auto simp: tree_ext_def)
  have lv: "live s 0x80301000" using s(3) f(2) by (auto simp: tree_ext_def)
  have sp: "space_ok s ?r"
    using s(2) tree_ext_wf [OF s(3)] leaf nt lv by (auto simp: space_ok_def pte split: if_splits)
  have "same_page 0x20000 0x20000" by (simp add: same_page_def)
  then have "pte_of (read_u64 (mem s)) ?r 0x20000 = ?leaf" using pte [of "0x20000"] by simp
  then obtain ea where "lookup_addr (read_u64 (mem s)) ?r 0x20000 = Some ea" "read_u64 (mem s) ea = ?leaf"
    using ne by (auto simp: pte_of_def split: option.splits)
  then show ?thesis using that [of s ea] sp leaf s(1,4) by auto
qed



text \<open>C17. The check of a user range is sound. Whatever range a program passes, \<open>ensure_user_range\<close> either
  accepts it, and then every byte of the range lies in a user page with the permission asked for
  (pages marked copy-on-write having been made private when the range is to be written), or
  returns \<open>EFAULT\<close>, or, for writes only, panics because a copy could not be allocated; what the
  program sees in its memory and the kernel state above the allocator are unchanged.\<close>

theorem ensure_user_range_sound:
  assumes "sched_ok s" and "space_ok s (cur_root s)"
  shows "(\<exists>s'. ensure_user_range ptr len wr s = (Val (Inr ()), s') \<and> same_space wr s s' \<and>
      (\<forall>a. unat ptr \<le> unat a \<and> unat a < unat ptr + unat len \<longrightarrow>
        is_u (pte_of (read_u64 (mem s')) (cur_root s) a) \<and>
        (if wr then is_w (pte_of (read_u64 (mem s')) (cur_root s) a) else is_r (pte_of (read_u64 (mem s')) (cur_root s) a)))) \<or>
    (\<exists>s'. ensure_user_range ptr len wr s = (Val (Inl (linux_error EFAULT)), s') \<and> same_space wr s s') \<or>
    wr \<and> (\<exists>s'. ensure_user_range ptr len wr s = (Exit (Panic ''COW: alloc_frame failed''), s'))"
proof -
  note w = ensure_user_range_wp [OF assms, of ptr len wr]
  obtain o1 s' where run: "ensure_user_range ptr len wr s = (o1, s')" by force
  show ?thesis
  proof (cases o1)
    case (Exit x)
    then show ?thesis using wp_Exit [OF w] run by auto
  next
    case (Val r)
    then show ?thesis using wp_Val [OF w, of r s'] run by (cases r) (auto simp: user_page_ok_def)
  qed
qed

lemma kstate0_root: "cur_root kstate0 = root pt1"
  by (simp add: cur_proc_def kstate0_def proc0_def)

theorem ensure_user_range_sound_witness:
  "\<exists>s :: kernel_state. space_ok s (cur_root s) \<and> sched_ok s \<and>
    ((\<exists>s'. ensure_user_range 0x20010 8 False s = (Val (Inr ()), s') \<and> same_space False s s') \<or>
     (\<exists>s'. ensure_user_range 0x20010 8 False s = (Val (Inl (linux_error EFAULT)), s') \<and> same_space False s s'))"
proof -
  obtain s ea where c: "space_ok s (root pt1)" "above_frames s = above_frames kstate0"
    using cow_example [of kstate0] by blast
  have ok: "sched_ok s" "cur_root s = root pt1"
    using above_frames_sched [OF c(2)] kstate0_sched kstate0_root by simp_all
  then have sp: "space_ok s (cur_root s)" using c(1) by simp
  show ?thesis
    using ensure_user_range_sound [OF ok(1) sp, of "0x20010" 8 False] ok(1) sp
    by (intro exI [of _ s]) (simp only: simp_thms, blast)
qed

end
