(* ===== verification/Vm.thy ===== *)
theory Vm
  imports UserMem
begin

text \<open>
  The heap and the anonymous mappings of a process (\<open>syscall.rs\<close>): \<open>brk\<close>, \<open>mmap\<close>,
  \<open>munmap\<close> and the page operations below them.
\<close>

definition MAP_PRIVATE :: usize where "MAP_PRIVATE = 0x02"
definition MAP_FIXED :: usize where "MAP_FIXED = 0x10"
definition MAP_ANONYMOUS :: usize where "MAP_ANONYMOUS = 0x20"

section \<open>The operations\<close>

text \<open>The loops step by a page with \<open>vaddr += PAGE_SIZE\<close>, which panics on overflow.\<close>

definition unmap_step :: "usize \<Rightarrow> ('a kernel_state_scheme, unit) kernel" where
  "unmap_step vaddr =
     kbind current (\<lambda>cur.
     kbind (lookup (page_table cur) vaddr) (\<lambda>r.
     case r of
       None \<Rightarrow> ret ()
     | Some entry \<Rightarrow>
         kbind (load64 entry) (\<lambda>e.
         if is_valid e \<and> is_u e then
           kbind (dec_ref (ppn_to_addr e)) (\<lambda>_. store64 entry pte_empty)
         else ret ())))"

function unmap_user_pages :: "usize \<Rightarrow> usize \<Rightarrow> ('a kernel_state_scheme, unit) kernel" where
  "unmap_user_pages vaddr fin s =
     (if vaddr < fin then
        (case unmap_step vaddr s of
           (Exit e, s') \<Rightarrow> (Exit e, s')
         | (Val _, s') \<Rightarrow>
             if add_overflows vaddr PAGE_SIZE then (Exit (Panic add_panic), s')
             else unmap_user_pages (vaddr + PAGE_SIZE) fin s')
      else (Val (), s))"
  by pat_completeness auto
termination
proof (relation "measure (\<lambda>(va, fin, s). 2 ^ 64 - unat va)", simp)
  fix va fin :: usize and s s' :: "'a kernel_state_scheme" and x u
  assume "\<not> add_overflows va PAGE_SIZE"
  then have "unat (va + PAGE_SIZE) = unat va + 4096" by (simp add: unat_add_no_overflow PAGE_SIZE_def)
  then show "((va + PAGE_SIZE, fin, s'), va, fin, s) \<in> measure (\<lambda>(va, fin, s). 2 ^ 64 - unat va)"
    using unat_usize_less [of "va + PAGE_SIZE"] by simp
qed

declare unmap_user_pages.simps [simp del]

text \<open>One iteration of \<open>map_zeroed_user_pages\<close>: false when the page is taken, no frame is left, or
  the tables could not be extended.\<close>

definition map_zeroed_step :: "usize \<Rightarrow> PTEFlags \<Rightarrow> ('a kernel_state_scheme, bool) kernel" where
  "map_zeroed_step vaddr flags =
     kbind current (\<lambda>cur.
     kbind (lookup (page_table cur) vaddr) (\<lambda>r.
     kbind (case r of None \<Rightarrow> ret False | Some entry \<Rightarrow> kbind (load64 entry) (\<lambda>e. ret (is_valid e))) (\<lambda>taken.
     if taken then ret False
     else
       kbind alloc_frame (\<lambda>f.
       case f of
         None \<Rightarrow> ret False
       | Some frame \<Rightarrow>
           kseq (fill_bytes frame 0 PAGE_SIZE)
           (kbind (map_page alloc_frame (page_table cur) vaddr frame flags) (\<lambda>mapped.
           if mapped then ret True
           else kseq (free_frame frame) (ret False)))))))"

function map_zeroed_loop :: "usize \<Rightarrow> usize \<Rightarrow> usize \<Rightarrow> PTEFlags \<Rightarrow> ('a kernel_state_scheme, bool) kernel" where
  "map_zeroed_loop start vaddr fin flags s =
     (if vaddr < fin then
        (case map_zeroed_step vaddr flags s of
           (Exit e, s') \<Rightarrow> (Exit e, s')
         | (Val False, s') \<Rightarrow> kseq (unmap_user_pages start vaddr) (ret False) s'
         | (Val True, s') \<Rightarrow>
             if add_overflows vaddr PAGE_SIZE then (Exit (Panic add_panic), s')
             else map_zeroed_loop start (vaddr + PAGE_SIZE) fin flags s')
      else (Val True, s))"
  by pat_completeness auto
termination
proof (relation "measure (\<lambda>(st, va, fin, fl, s). 2 ^ 64 - unat va)", simp)
  fix st va fin :: usize and fl and s s' :: "'a kernel_state_scheme" and x b
  assume "\<not> add_overflows va PAGE_SIZE"
  then have "unat (va + PAGE_SIZE) = unat va + 4096" by (simp add: unat_add_no_overflow PAGE_SIZE_def)
  then show "((st, va + PAGE_SIZE, fin, fl, s'), st, va, fin, fl, s) \<in> measure (\<lambda>(st, va, fin, fl, s). 2 ^ 64 - unat va)"
    using unat_usize_less [of "va + PAGE_SIZE"] by simp
qed

declare map_zeroed_loop.simps [simp del]

definition map_zeroed_user_pages :: "usize \<Rightarrow> usize \<Rightarrow> PTEFlags \<Rightarrow> ('a kernel_state_scheme, bool) kernel" where
  "map_zeroed_user_pages start fin flags = map_zeroed_loop start start fin flags"

definition grow_heap :: "usize \<Rightarrow> usize \<Rightarrow> ('a kernel_state_scheme, bool) kernel" where
  "grow_heap old_break new_break =
     kbind (align_up old_break) (\<lambda>start.
     kbind (align_up new_break) (\<lambda>fin.
     map_zeroed_user_pages start fin (PTEFlags_new True True False True)))"

definition shrink_heap :: "usize \<Rightarrow> usize \<Rightarrow> ('a kernel_state_scheme, unit) kernel" where
  "shrink_heap new_break old_break =
     kbind (align_up new_break) (\<lambda>start.
     kbind (align_up old_break) (\<lambda>fin.
     unmap_user_pages start fin))"

definition sys_brk :: "usize \<Rightarrow> ('a kernel_state_scheme, usize) kernel" where
  "sys_brk new_break =
     kbind current (\<lambda>cur.
     let old_break = heap_end cur in
     kbind current (\<lambda>cur.
     let start = heap_start cur;
         commit = kseq (update_current (\<lambda>p. p\<lparr>heap_end := new_break\<rparr>)) (ret new_break) in
     if new_break = 0 then ret old_break
     else if new_break < start \<or> USER_HEAP_LIMIT < new_break then ret old_break
     else if old_break < new_break then
       kbind (grow_heap old_break new_break) (\<lambda>grown.
       if \<not> grown then ret old_break
       else kbind current (\<lambda>_. commit))
     else if new_break < old_break then
       kseq (shrink_heap new_break old_break) (kbind current (\<lambda>_. commit))
     else kbind current (\<lambda>_. commit)))"

definition sys_mmap :: "usize \<Rightarrow> usize \<Rightarrow> usize \<Rightarrow> usize \<Rightarrow> usize \<Rightarrow> usize \<Rightarrow> ('a kernel_state_scheme, usize) kernel" where
  "sys_mmap addr len prot flags fd offset =
     (case checked_align_up len of
        None \<Rightarrow> ret (linux_error EINVAL)
      | Some len \<Rightarrow>
          if len = 0 then ret (linux_error EINVAL)
          else if offset AND (PAGE_SIZE - 1) \<noteq> 0 then ret (linux_error EINVAL)
          else if flags AND MAP_FIXED \<noteq> 0 then ret (linux_error ENOSYS)
          else if flags AND MAP_ANONYMOUS = 0 \<or> flags AND MAP_PRIVATE = 0 then ret (linux_error ENOSYS)
          else if flags AND NOT (MAP_PRIVATE OR MAP_FIXED OR MAP_ANONYMOUS) \<noteq> 0 then ret (linux_error ENOSYS)
          else (case pte_flags_from_prot prot of
            None \<Rightarrow> ret (linux_error EINVAL)
          | Some pflags \<Rightarrow>
              kbind (choose_mmap_addr addr len) (\<lambda>r.
              case r of
                None \<Rightarrow> ret (linux_error ENOMEM)
              | Some start \<Rightarrow>
                  kbind (uadd start len) (\<lambda>fin.
                  kbind find_free_mmap_slot (\<lambda>sl.
                  case sl of
                    None \<Rightarrow> ret (linux_error ENOMEM)
                  | Some slot \<Rightarrow>
                      kbind (map_zeroed_user_pages start fin pflags) (\<lambda>mapped.
                      if \<not> mapped then ret (linux_error ENOMEM)
                      else
                        kbind current (\<lambda>_.
                        kseq (set_area slot \<lparr>area_start = start, area_len = len, area_prot = prot,
                                             area_flags = flags, area_used = True\<rparr>)
                        (ret start))))))))"

definition sys_munmap :: "usize \<Rightarrow> usize \<Rightarrow> ('a kernel_state_scheme, usize) kernel" where
  "sys_munmap addr len =
     (if addr AND (PAGE_SIZE - 1) \<noteq> 0 then ret (linux_error EINVAL)
      else (case checked_align_up len of
        None \<Rightarrow> ret (linux_error EINVAL)
      | Some len \<Rightarrow>
          if len = 0 then ret (linux_error EINVAL)
          else (case checked_add addr len of
            None \<Rightarrow> ret (linux_error EINVAL)
          | Some fin \<Rightarrow>
              if addr < USER_MMAP_START \<or> USER_MMAP_LIMIT < fin then ret (linux_error EINVAL)
              else
                kbind (can_split_mmap_range addr fin) (\<lambda>ok.
                if \<not> ok then ret (linux_error ENOMEM)
                else
                  kseq (unmap_user_pages addr fin)
                  (kseq (remove_mmap_range addr fin)
                  (ret 0))))))"

section \<open>What the page loops leave alone\<close>

lemma keeps_unmap_step [keeps_intros]: "keeps above_next (unmap_step va)"
  unfolding unmap_step_def by (intro keeps_intros)

lemma unmap_user_pages_unfold:
  "unmap_user_pages va fin = (if va < fin
     then kbind (unmap_step va) (\<lambda>_. kbind (uadd va PAGE_SIZE) (\<lambda>va. unmap_user_pages va fin)) else ret ())"
  by (rule ext, subst unmap_user_pages.simps)
    (auto simp: kbind_def ret_def uadd_def halt_def split: prod.splits outcome.splits)

lemma keeps_unmap_user_pages [keeps_intros]: "keeps above_next (unmap_user_pages va fin)"
proof (induction va rule: page_loop_induct [folded PAGE_SIZE_def])
  case (1 va)
  then show ?case by (subst unmap_user_pages_unfold) (intro keeps_next_page [folded PAGE_SIZE_def] keeps_intros)
qed

lemma keeps_map_zeroed_step [keeps_intros]: "keeps above_next (map_zeroed_step va flags)"
  unfolding map_zeroed_step_def by (intro keeps_intros)

lemma map_zeroed_loop_unfold:
  "map_zeroed_loop st va fin flags = (if va < fin
     then kbind (map_zeroed_step va flags) (\<lambda>mapped. if mapped
       then kbind (uadd va PAGE_SIZE) (\<lambda>va. map_zeroed_loop st va fin flags)
       else kseq (unmap_user_pages st va) (ret False))
     else ret True)"
  by (rule ext, subst map_zeroed_loop.simps)
    (auto simp: kbind_def kseq_def ret_def uadd_def halt_def split: prod.splits outcome.splits bool.splits)

lemma keeps_map_zeroed [keeps_intros]: "keeps above_next (map_zeroed_user_pages st fin flags)"
proof -
  have "keeps above_next (map_zeroed_loop st va fin flags)" for va
  proof (induction va rule: page_loop_induct [folded PAGE_SIZE_def])
    case (1 va)
    then show ?case by (subst map_zeroed_loop_unfold) (intro keeps_next_page [folded PAGE_SIZE_def] keeps_intros)
  qed
  then show ?thesis by (simp add: map_zeroed_user_pages_def)
qed

lemma keeps_align_up [keeps_intros]: "keeps rest (align_up a)"
  unfolding align_up_def by (intro keeps_intros)

lemma keeps_heap [keeps_intros]: "keeps above_next (grow_heap a b)" "keeps above_next (shrink_heap b a)"
  unfolding grow_heap_def shrink_heap_def by (intro keeps_intros)+

end
