(* ===== verification/Space.thy ===== *)
theory Space
  imports Vm
begin

text \<open>
  The address spaces of all processes together. Each is a tree of page tables; the tables below
  the first \<open>KERNEL_VPN2_MIN\<close> entries of a root belong to one process, those below the others are
  shared. The invariant \<open>world_ok\<close> says that no table and no user page of one space is a table
  of another, that the count of a frame is at least the number of its user mappings, so that a
  frame is returned to the allocator only when nobody maps it, and that a page some program can
  write has count one, so that nobody else maps it.

  Over this invariant the page loops of \<open>syscall.rs\<close> are updates of a range of one address space
  that no other process can observe, and \<open>brk\<close>, \<open>mmap\<close> and \<open>munmap\<close> get specifications in
  terms of what a program sees.
\<close>

section \<open>All address spaces\<close>

abbreviation tables :: "'a hart_scheme \<Rightarrow> usize \<Rightarrow> u64" where
  "tables s \<equiv> read_u64 (mem s)"

definition user_table :: "(usize \<Rightarrow> u64) \<Rightarrow> PhysAddr \<Rightarrow> PhysAddr \<Rightarrow> bool" where
  "user_table rd r t \<longleftrightarrow> t = r \<or> (\<exists>i < 2. sub rd r i = Some t) \<or> (\<exists>i < 2. \<exists>j < 512. l1 rd r i j = Some t)"

text \<open>The user mappings of a frame in the spaces with roots \<open>R\<close>; the hart and the code look at the low
  39 bits of an address only.\<close>

definition mappings :: "(usize \<Rightarrow> u64) \<Rightarrow> PhysAddr set \<Rightarrow> PhysAddr \<Rightarrow> (PhysAddr \<times> VirtAddr) set" where
  "mappings rd R p = {(r, va). r \<in> R \<and> page_aligned va \<and> unat va < 2 ^ 39 \<and>
     is_u (pte_of rd r va) \<and> ppn_to_addr (pte_of rd r va) = p}"

definition user_leaf_ok :: "'a frames_scheme \<Rightarrow> PhysAddr set \<Rightarrow> VirtAddr \<Rightarrow> PTEntry \<Rightarrow> bool" where
  "user_leaf_ok s R va e \<longleftrightarrow> (e = 0 \<or> is_valid e) \<and>
     (is_u e \<longrightarrow> vpn va 2 < 2 \<and> live s (ppn_to_addr e) \<and> (\<forall>r\<in>R. \<not> is_table (tables s) r (ppn_to_addr e)) \<and>
       (is_w e \<longrightarrow> frame_ref s (ppn_to_addr e) = 1) \<and> (is_r e \<or> is_x e) \<and> (is_w e \<longrightarrow> is_r e))"

definition world_ok :: "'a frames_scheme \<Rightarrow> PhysAddr set \<Rightarrow> bool" where
  "world_ok s R \<longleftrightarrow> frames_ok s \<and> finite R \<and>
     (\<forall>r\<in>R. pt_wf (live s) (tables s) r \<and> links (tables s) r \<and> (\<forall>va. user_leaf_ok s R va (pte_of (tables s) r va))) \<and>
     (\<forall>r\<in>R. \<forall>r'\<in>R. \<forall>t. r \<noteq> r' \<and> user_table (tables s) r t \<longrightarrow> \<not> is_table (tables s) r' t) \<and>
     (\<forall>p. frame_ok p \<longrightarrow> card (mappings (tables s) R p) \<le> unat (frame_ref s p))"

lemma small_index: "i < 2 \<Longrightarrow> i < 512" for i :: usize
  by (simp add: word_less_nat_alt)

lemma user_table_is_table: "user_table rd r t \<Longrightarrow> is_table rd r t"
  unfolding user_table_def is_table_def using small_index by blast

lemma live_aligned: "live s t \<Longrightarrow> page_aligned t"
  using live_frame_ok [of s t] by (simp add: frame_ok_def)

lemma world_dest:
  assumes "world_ok s R"
  shows "frames_ok s" and "finite R" and "r \<in> R \<Longrightarrow> pt_wf (live s) (tables s) r"
    and "r \<in> R \<Longrightarrow> user_leaf_ok s R va (pte_of (tables s) r va)"
    and "r \<in> R \<Longrightarrow> r' \<in> R \<Longrightarrow> r \<noteq> r' \<Longrightarrow> user_table (tables s) r t \<Longrightarrow> \<not> is_table (tables s) r' t"
    and "frame_ok p \<Longrightarrow> card (mappings (tables s) R p) \<le> unat (frame_ref s p)" and "r \<in> R \<Longrightarrow> links (tables s) r"
  using assms unfolding world_ok_def by auto

lemma world_leaf:
  assumes "world_ok s R" and "r \<in> R"
  shows "pte_of (tables s) r va = 0 \<or> is_valid (pte_of (tables s) r va)"
    and "is_u (pte_of (tables s) r va) \<Longrightarrow> vpn va 2 < 2"
    and "is_u (pte_of (tables s) r va) \<Longrightarrow> live s (ppn_to_addr (pte_of (tables s) r va))"
    and "is_u (pte_of (tables s) r va) \<Longrightarrow> r' \<in> R \<Longrightarrow> \<not> is_table (tables s) r' (ppn_to_addr (pte_of (tables s) r va))"
    and "is_u (pte_of (tables s) r va) \<Longrightarrow> is_w (pte_of (tables s) r va) \<Longrightarrow> frame_ref s (ppn_to_addr (pte_of (tables s) r va)) = 1"
    and "is_u (pte_of (tables s) r va) \<Longrightarrow> is_r (pte_of (tables s) r va) \<or> is_x (pte_of (tables s) r va)"
    and "is_u (pte_of (tables s) r va) \<Longrightarrow> is_w (pte_of (tables s) r va) \<Longrightarrow> is_r (pte_of (tables s) r va)"
  using world_dest(4) [OF assms, of va] unfolding user_leaf_ok_def by auto

lemma world_table_live: "world_ok s R \<Longrightarrow> r \<in> R \<Longrightarrow> is_table (tables s) r t \<Longrightarrow> live s t"
  using is_table_live world_dest(3) by blast

lemma zero_not_u [simp]: "\<not> is_u 0"
  by (simp add: pte_bits)

lemma world_space: "world_ok s R \<Longrightarrow> r \<in> R \<Longrightarrow> space_ok s r"
  unfolding space_ok_def
proof (intro conjI allI impI)
  fix va assume W: "world_ok s R" and r: "r \<in> R" and u: "is_u (pte_of (tables s) r va)"
  show "is_valid (pte_of (tables s) r va)" using world_leaf(1) [OF W r, of va] u by auto
  show "live s (ppn_to_addr (pte_of (tables s) r va))" by (rule world_leaf(3) [OF W r u])
  show "\<not> is_table (tables s) r (ppn_to_addr (pte_of (tables s) r va))" by (rule world_leaf(4) [OF W r u r])
qed (use world_dest in blast)+

section \<open>Counting mappings\<close>

lemma finite_mappings: "finite R \<Longrightarrow> finite (mappings rd R p)"
  by (rule finite_subset [of _ "R \<times> UNIV"]) (auto simp: mappings_def)

text \<open>The page of an address as the translation sees it.\<close>

definition base_page :: "VirtAddr \<Rightarrow> VirtAddr" where
  "base_page va = page_of (take_bit 39 va)"

lemma unat_take39: "unat (take_bit 39 va :: usize) = unat va mod 2 ^ 39"
  by (subst unsigned_take_bit_eq) (simp only: take_bit_eq_mod)

lemma same_page_take: "same_page va (take_bit 39 va)"
proof -
  have m: "(0x1FF :: usize) = mask 9" by (simp add: mask_eq_exp_minus_1)
  have "vpn va l = vpn (take_bit 39 va) l" if "l \<le> 2" for l
    unfolding vpn_def m by (rule bit_word_eqI) (use that in \<open>auto simp: bit_simps\<close>)
  then show ?thesis by (simp add: same_page_def)
qed

lemma same_page_base: "same_page va (base_page va)"
proof -
  have "same_page (take_bit 39 va) (base_page va)"
    unfolding base_page_def by (rule vpn_same_page_of) (simp add: page_of_id)
  then show ?thesis using same_page_take [of va] by (simp add: same_page_def)
qed

lemma base_page_facts: "page_aligned (base_page va)" "unat (base_page va) < 2 ^ 39"
proof -
  show "page_aligned (base_page va)" by (simp add: base_page_def)
  have "unat (base_page va) \<le> unat (take_bit 39 va)" by (simp add: base_page_def unat_page_of)
  also have "\<dots> < 2 ^ 39" unfolding unat_take39 by simp
  finally show "unat (base_page va) < 2 ^ 39" .
qed

lemma pte_base: "pte_of rd r (base_page va) = pte_of rd r va"
  by (rule pte_same_page [symmetric, OF same_page_base])

lemma mappingsI: "r \<in> R \<Longrightarrow> is_u (pte_of rd r va) \<Longrightarrow> (r, base_page va) \<in> mappings rd R (ppn_to_addr (pte_of rd r va))"
  using base_page_facts [of va] by (simp add: mappings_def pte_base)

lemma same_page_eq:
  assumes "page_aligned va" "unat va < 2 ^ 39" "page_aligned vb" "unat vb < 2 ^ 39"
  shows "same_page va vb \<longleftrightarrow> va = vb"
  using same_page_iff [OF assms(2,4)] assms(1,3) by (simp add: page_of_id)

lemma mappings_update:
  assumes r: "r \<in> R" and va: "page_aligned va" "unat va < 2 ^ 39"
    and self: "\<And>vb. pte_of rd' r vb = (if same_page va vb then v else pte_of rd r vb)"
    and other: "\<And>r' vb. r' \<in> R \<Longrightarrow> r' \<noteq> r \<Longrightarrow> pte_of rd' r' vb = pte_of rd r' vb"
  shows "mappings rd' R p = mappings rd R p - {(r, va)} \<union> (if is_u v \<and> ppn_to_addr v = p then {(r, va)} else {})"
proof -
  have "(r', vb) \<in> mappings rd' R p \<longleftrightarrow> (r', vb) \<in> mappings rd R p - {(r, va)} \<union> (if is_u v \<and> ppn_to_addr v = p then {(r, va)} else {})"
    for r' vb
    using r va self [of vb] other [of r' vb] same_page_eq [OF va, of vb] by (cases "r' = r") (auto simp: mappings_def)
  then show ?thesis by auto
qed

section \<open>Changing one address space\<close>

text \<open>A change of the space at \<open>r\<close>: memory changes in its user tables, in frames that were not in use,
  and possibly in one frame \<open>z\<close> that is no table.\<close>

definition writes_in :: "PhysAddr set \<Rightarrow> PhysAddr \<Rightarrow> PhysAddr \<Rightarrow> 'a frames_scheme \<Rightarrow> 'a frames_scheme \<Rightarrow> bool" where
  "writes_in R r z s s' \<longleftrightarrow> (\<forall>r'\<in>R. \<not> is_table (tables s) r' z) \<and>
     (\<forall>x. live s (page_of x) \<and> \<not> user_table (tables s) r (page_of x) \<and> page_of x \<noteq> z \<longrightarrow> mem s' x = mem s x)"

lemma other_tables:
  assumes W: "world_ok s R" and r: "r \<in> R" "r' \<in> R" "r' \<noteq> r" and w: "writes_in R r z s s'"
  shows "pte_of (tables s') r' va = pte_of (tables s) r' va"
    and "is_table (tables s') r' t = is_table (tables s) r' t"
    and "user_table (tables s') r' t = user_table (tables s) r' t"
    and "(\<And>t. is_table (tables s) r' t \<Longrightarrow> live s' t) \<Longrightarrow> pt_wf (live s') (tables s') r'" and "links (tables s') r'"
proof -
  note wf = world_dest(3) [OF W r(2)]
  have same: "mem s' x = mem s x" if t: "is_table (tables s) r' (page_of x)" for x
  proof -
    have "live s (page_of x)" by (rule world_table_live [OF W r(2) t])
    moreover have "\<not> user_table (tables s) r (page_of x)" using world_dest(5) [OF W r(1,2)] r(3) t by blast
    moreover have "page_of x \<noteq> z" using w r(2) t unfolding writes_in_def by metis
    ultimately show ?thesis using w unfolding writes_in_def by blast
  qed
  note ts = tree_same [OF wf live_aligned [of s] same]
  show "pte_of (tables s') r' va = pte_of (tables s) r' va" by (rule ts(3))
  show "is_table (tables s') r' t = is_table (tables s) r' t" by (rule ts(4))
  show "links (tables s') r'" using ts(5) world_dest(7) [OF W r(2)] by simp
  show "user_table (tables s') r' t = user_table (tables s) r' t"
    using small_index by (auto simp: user_table_def ts(1,2))
  show "pt_wf (live s') (tables s') r'" if "\<And>t. is_table (tables s) r' t \<Longrightarrow> live s' t"
    by (rule pt_wf_cong [OF pt_wf_live [OF wf that]]) (simp_all add: ts(1,2))
qed

text \<open>One page of one space gets a new entry; the counts cover the mappings before and after.\<close>

definition page_update ::
  "PhysAddr set \<Rightarrow> PhysAddr \<Rightarrow> VirtAddr \<Rightarrow> PTEntry \<Rightarrow> PhysAddr \<Rightarrow> 'a frames_scheme \<Rightarrow> 'a frames_scheme \<Rightarrow> bool" where
  "page_update R r va v z s s' \<longleftrightarrow> world_ok s R \<and> r \<in> R \<and> page_aligned va \<and> unat va < 2 ^ 39 \<and>
     frames_ok s' \<and> pt_wf (live s') (tables s') r \<and> links (tables s') r \<and> writes_in R r z s s' \<and>
     (\<forall>t. is_table (tables s') r t \<longrightarrow> is_table (tables s) r t \<or> \<not> live s t) \<and>
     (\<forall>t. user_table (tables s') r t \<longrightarrow> user_table (tables s) r t \<or> \<not> live s t) \<and>
     (\<forall>vb. pte_of (tables s') r vb = (if same_page va vb then v else pte_of (tables s) r vb)) \<and>
     user_leaf_ok s' R va v \<and> (\<forall>p. live s p \<and> (r, va) \<notin> mappings (tables s) R p \<longrightarrow> live s' p) \<and>
     (\<forall>p. frame_ok p \<longrightarrow> card (mappings (tables s) R p - {(r, va)}) + (if is_u v \<and> ppn_to_addr v = p then 1 else 0)
        \<le> unat (frame_ref s' p)) \<and>
     (\<forall>r'\<in>R. \<forall>vb. (r' \<noteq> r \<or> \<not> same_page va vb) \<and> is_u (pte_of (tables s) r' vb) \<and> is_w (pte_of (tables s) r' vb) \<longrightarrow>
        frame_ref s' (ppn_to_addr (pte_of (tables s) r' vb)) = 1)"

lemma page_update_before:
  assumes "page_update R r va v z s s'"
  shows "world_ok s R" "r \<in> R" "page_aligned va" "unat va < 2 ^ 39"
  using assms unfolding page_update_def by blast+

lemma page_update_dest:
  assumes "page_update R r va v z s s'"
  shows "frames_ok s'" "pt_wf (live s') (tables s') r" "writes_in R r z s s'"
    "is_table (tables s') r t \<Longrightarrow> is_table (tables s) r t \<or> \<not> live s t"
    "user_table (tables s') r t \<Longrightarrow> user_table (tables s) r t \<or> \<not> live s t"
    "pte_of (tables s') r vb = (if same_page va vb then v else pte_of (tables s) r vb)"
    "user_leaf_ok s' R va v" "live s p \<Longrightarrow> (r, va) \<notin> mappings (tables s) R p \<Longrightarrow> live s' p"
    "frame_ok p \<Longrightarrow> card (mappings (tables s) R p - {(r, va)}) + (if is_u v \<and> ppn_to_addr v = p then 1 else 0) \<le> unat (frame_ref s' p)"
    "r' \<in> R \<Longrightarrow> r' \<noteq> r \<or> \<not> same_page va vb \<Longrightarrow> is_u (pte_of (tables s) r' vb) \<Longrightarrow> is_w (pte_of (tables s) r' vb) \<Longrightarrow>
        frame_ref s' (ppn_to_addr (pte_of (tables s) r' vb)) = 1"
    "links (tables s') r"
  using assms unfolding page_update_def by blast+

text \<open>A user page mapped at another place stays live: its count covers both mappings.\<close>

lemma other_mapping:
  assumes W: "world_ok s R" and r': "r' \<in> R" and u: "is_u (pte_of (tables s) r' vb)" and ne: "r' \<noteq> r \<or> \<not> same_page va vb"
  shows "1 \<le> card (mappings (tables s) R (ppn_to_addr (pte_of (tables s) r' vb)) - {(r, va)})"
proof -
  let ?M = "mappings (tables s) R (ppn_to_addr (pte_of (tables s) r' vb))"
  have "(r', base_page vb) \<in> ?M" by (rule mappingsI [OF r' u])
  moreover have "(r', base_page vb) \<noteq> (r, va)" using ne same_page_base [of vb] by (auto simp: same_page_def)
  ultimately have "{(r', base_page vb)} \<subseteq> ?M - {(r, va)}" by blast
  from card_mono [OF _ this] show ?thesis using finite_mappings [OF world_dest(2) [OF W]] by simp
qed

lemma update_live_page:
  assumes U: "page_update R r va v z s s'" and r': "r' \<in> R" and u: "is_u (pte_of (tables s) r' vb)"
    and ne: "r' \<noteq> r \<or> \<not> same_page va vb"
  shows "live s' (ppn_to_addr (pte_of (tables s) r' vb))"
proof -
  note W = page_update_before(1) [OF U]
  let ?p = "ppn_to_addr (pte_of (tables s) r' vb)"
  have ok: "frame_ok ?p" by (rule live_frame_ok [OF world_leaf(3) [OF W r' u]])
  have "unat (frame_ref s' ?p) \<noteq> 0"
    using page_update_dest(9) [OF U ok] other_mapping [OF W r' u ne] by linarith
  then show ?thesis using ok by (auto simp: live_def)
qed

text \<open>It is enough to know how the counts change: no count rises but that of the new page, and the
  counts of the old and the new page change by their mappings.\<close>

lemma card_mapping_split:
  assumes "finite R"
  shows "card (mappings rd R p - {x}) + (if x \<in> mappings rd R p then 1 else 0) = card (mappings rd R p)"
  using card_Suc_Diff1 [OF finite_mappings [OF assms], of x rd p] by simp

lemma update_counts:
  assumes W: "world_ok s R" and r: "r \<in> R"
    and rel: "\<And>p. frame_ok p \<Longrightarrow> unat (frame_ref s p) + (if is_u v \<and> ppn_to_addr v = p then 1 else 0)
        \<le> unat (frame_ref s' p) + (if (r, va) \<in> mappings (tables s) R p then 1 else 0)"
    and less: "\<And>p. live s p \<Longrightarrow> unat (frame_ref s' p) \<le> unat (frame_ref s p)"
  shows "live s p \<Longrightarrow> (r, va) \<notin> mappings (tables s) R p \<Longrightarrow> live s' p"
    and "frame_ok p \<Longrightarrow> card (mappings (tables s) R p - {(r, va)}) + (if is_u v \<and> ppn_to_addr v = p then 1 else 0) \<le> unat (frame_ref s' p)"
    and "r' \<in> R \<Longrightarrow> r' \<noteq> r \<or> \<not> same_page va vb \<Longrightarrow> is_u (pte_of (tables s) r' vb) \<Longrightarrow> is_w (pte_of (tables s) r' vb) \<Longrightarrow>
        frame_ref s' (ppn_to_addr (pte_of (tables s) r' vb)) = 1"
proof -
  note split = card_mapping_split [OF world_dest(2) [OF W], of "tables s" _ "(r, va)"]
  show cnt: "card (mappings (tables s) R p - {(r, va)}) + (if is_u v \<and> ppn_to_addr v = p then 1 else 0) \<le> unat (frame_ref s' p)"
    if "frame_ok p" for p
    using rel [OF that] world_dest(6) [OF W that] split [of p] by linarith
  show "live s' p" if lv: "live s p" and "(r, va) \<notin> mappings (tables s) R p" for p
  proof -
    have "unat (frame_ref s p) \<le> unat (frame_ref s' p)" using rel [OF live_frame_ok [OF lv]] that(2) by simp
    moreover have "unat (frame_ref s p) \<noteq> 0" using lv by (simp add: live_def unat_eq_0)
    ultimately show ?thesis using lv by (auto simp: live_def)
  qed
  show "frame_ref s' (ppn_to_addr (pte_of (tables s) r' vb)) = 1"
    if r': "r' \<in> R" and ne: "r' \<noteq> r \<or> \<not> same_page va vb" and u: "is_u (pte_of (tables s) r' vb)" and w: "is_w (pte_of (tables s) r' vb)"
  proof -
    let ?p = "ppn_to_addr (pte_of (tables s) r' vb)"
    have lv: "live s ?p" by (rule world_leaf(3) [OF W r' u])
    have "unat (frame_ref s' ?p) \<le> 1" using less [OF lv] world_leaf(5) [OF W r' u w] by simp
    moreover have "1 \<le> unat (frame_ref s' ?p)" using cnt [OF live_frame_ok [OF lv]] other_mapping [OF W r' u ne] by linarith
    ultimately have "unat (frame_ref s' ?p) = unat (1 :: u32)" by simp
    then show ?thesis by (simp add: word_unat_eq_iff)
  qed
qed

lemma update_live_table:
  assumes U: "page_update R r va v z s s'" and r': "r' \<in> R" and t: "is_table (tables s) r' t"
  shows "live s' t"
proof (rule page_update_dest(8) [OF U])
  note W = page_update_before(1) [OF U]
  show "live s t" by (rule world_table_live [OF W r' t])
  show "(r, va) \<notin> mappings (tables s) R t"
    using world_leaf(4) [OF W page_update_before(2) [OF U] _ r', of va] t by (auto simp: mappings_def)
qed

lemma update_tree:
  assumes U: "page_update R r va v z s s'" and r': "r' \<in> R"
  shows "pte_of (tables s') r' vb = (if r' = r \<and> same_page va vb then v else pte_of (tables s) r' vb)"
    and "is_table (tables s') r' t \<Longrightarrow> is_table (tables s) r' t \<or> r' = r \<and> \<not> live s t"
    and "user_table (tables s') r' t \<Longrightarrow> user_table (tables s) r' t \<or> r' = r \<and> \<not> live s t"
    and "pt_wf (live s') (tables s') r'" and "links (tables s') r'"
proof -
  note ot = other_tables [OF page_update_before(1,2) [OF U] r' _ page_update_dest(3) [OF U]]
  show "pte_of (tables s') r' vb = (if r' = r \<and> same_page va vb then v else pte_of (tables s) r' vb)"
    using page_update_dest(6) [OF U, of vb] ot(1) by (cases "r' = r") auto
  show "is_table (tables s') r' t \<Longrightarrow> is_table (tables s) r' t \<or> r' = r \<and> \<not> live s t"
    using page_update_dest(4) [OF U, of t] ot(2) by (cases "r' = r") auto
  show "user_table (tables s') r' t \<Longrightarrow> user_table (tables s) r' t \<or> r' = r \<and> \<not> live s t"
    using page_update_dest(5) [OF U, of t] ot(3) by (cases "r' = r") auto
  show "pt_wf (live s') (tables s') r'"
    using page_update_dest(2) [OF U] ot(4) [OF _ update_live_table [OF U r']] by (cases "r' = r") auto
  show "links (tables s') r'" using page_update_dest(11) [OF U] ot(5) by (cases "r' = r") auto
qed

lemma update_leaf:
  assumes U: "page_update R r va v z s s'" and r': "r' \<in> R"
  shows "user_leaf_ok s' R vb (pte_of (tables s') r' vb)"
proof (cases "r' = r \<and> same_page va vb")
  case True
  then show ?thesis
    using page_update_dest(7) [OF U] update_tree(1) [OF U r', of vb] by (simp add: user_leaf_ok_def same_page_def)
next
  case False
  note W = page_update_before(1) [OF U]
  let ?e = "pte_of (tables s) r' vb"
  have e: "pte_of (tables s') r' vb = ?e" unfolding update_tree(1) [OF U r'] using False by (simp only: if_False)
  have "\<not> is_table (tables s') r'' (ppn_to_addr ?e)" if "is_u ?e" "r'' \<in> R" for r''
    using update_tree(2) [OF U that(2)] world_leaf(3,4) [OF W r' that(1)] that(2) by blast
  moreover have "live s' (ppn_to_addr ?e)" if "is_u ?e" by (rule update_live_page [OF U r' that]) (use False in simp)
  moreover have "frame_ref s' (ppn_to_addr ?e) = 1" if "is_u ?e" "is_w ?e"
    by (rule page_update_dest(10) [OF U r' _ that]) (use False in blast)
  ultimately show ?thesis
    using world_leaf(1,2,6,7) [OF W r', of vb] unfolding e user_leaf_ok_def by auto
qed

lemma update_apart:
  assumes U: "page_update R r va v z s s'" and rs: "r1 \<in> R" "r2 \<in> R" "r1 \<noteq> r2" and t: "user_table (tables s') r1 t"
  shows "\<not> is_table (tables s') r2 t"
proof
  note W = page_update_before(1) [OF U]
  assume t2: "is_table (tables s') r2 t"
  have "live s t" if "user_table (tables s) r1 t \<or> is_table (tables s) r2 t"
    using that user_table_is_table world_table_live [OF W] rs(1,2) by blast
  then show False
    using update_tree(3) [OF U rs(1) t] update_tree(2) [OF U rs(2) t2] world_dest(5) [OF W rs] rs(3) by blast
qed

lemma update_count:
  assumes U: "page_update R r va v z s s'" and ok: "frame_ok p"
  shows "card (mappings (tables s') R p) \<le> unat (frame_ref s' p)"
proof -
  note W = page_update_before(1) [OF U] and r = page_update_before(2) [OF U] and va = page_update_before(3,4) [OF U]
  let ?M = "mappings (tables s) R p" and ?new = "is_u v \<and> ppn_to_addr v = p"
  have up: "mappings (tables s') R p = ?M - {(r, va)} \<union> (if ?new then {(r, va)} else {})"
    by (rule mappings_update [OF r va]) (simp_all add: update_tree(1) [OF U] r)
  have "card (mappings (tables s') R p) \<le> card (?M - {(r, va)}) + (if ?new then 1 else 0)"
    unfolding up by (rule order_trans [OF card_Un_le]) simp
  then show ?thesis using page_update_dest(9) [OF U ok] by linarith
qed

lemma update_world:
  assumes U: "page_update R r va v z s s'"
  shows "world_ok s' R"
  unfolding world_ok_def
  using page_update_dest(1) [OF U] world_dest(2) [OF page_update_before(1) [OF U]] update_tree(4,5) [OF U] update_leaf [OF U]
    update_apart [OF U] update_count [OF U] by blast

section \<open>Pages of the kernel\<close>

text \<open>A frame in use that is neither a table nor a user page, such as a page of a kernel stack, and
  changes that leave all of them alone.\<close>

definition kernel_page :: "'a frames_scheme \<Rightarrow> PhysAddr set \<Rightarrow> PhysAddr \<Rightarrow> bool" where
  "kernel_page s R k \<longleftrightarrow> live s k \<and> (\<forall>r\<in>R. \<not> is_table (tables s) r k) \<and>
     (\<forall>r\<in>R. \<forall>va. is_u (pte_of (tables s) r va) \<longrightarrow> ppn_to_addr (pte_of (tables s) r va) \<noteq> k)"

definition kernel_kept :: "PhysAddr set \<Rightarrow> 'a frames_scheme \<Rightarrow> 'a frames_scheme \<Rightarrow> bool" where
  "kernel_kept R s s' \<longleftrightarrow> (\<forall>k. kernel_page s R k \<longrightarrow> kernel_page s' R k \<and> (\<forall>x. page_of x = k \<longrightarrow> mem s' x = mem s x))"

lemma kernel_kept_refl: "kernel_kept R s s"
  by (simp add: kernel_kept_def)

lemma kernel_kept_trans: "kernel_kept R s t \<Longrightarrow> kernel_kept R t u \<Longrightarrow> kernel_kept R s u"
  unfolding kernel_kept_def by metis

lemma update_kernel:
  assumes U: "page_update R r va v z s s'" and z: "\<not> kernel_page s R z"
    and v: "is_u v \<Longrightarrow> \<not> kernel_page s R (ppn_to_addr v)"
  shows "kernel_kept R s s'"
  unfolding kernel_kept_def
proof (intro allI impI conjI)
  note W = page_update_before(1) [OF U] and r = page_update_before(2) [OF U]
  fix k assume k: "kernel_page s R k"
  then have un: "k \<noteq> ppn_to_addr (pte_of (tables s) r' vb)" if "r' \<in> R" "is_u (pte_of (tables s) r' vb)" for r' vb
    using that by (auto simp: kernel_page_def)
  have "live s' k" using k r by (intro page_update_dest(8) [OF U]) (auto simp: kernel_page_def mappings_def)
  moreover have "\<not> is_table (tables s') r' k" if "r' \<in> R" for r'
    using update_tree(2) [OF U that] k that by (auto simp: kernel_page_def)
  moreover have "ppn_to_addr (pte_of (tables s') r' vb) \<noteq> k" if "r' \<in> R" "is_u (pte_of (tables s') r' vb)" for r' vb
    using that update_tree(1) [OF U that(1), of vb] v un [of r' vb] k by (auto split: if_splits)
  ultimately show "kernel_page s' R k" by (simp add: kernel_page_def)
  fix x assume x: "page_of x = k"
  have "live s k" "\<not> user_table (tables s) r k" "k \<noteq> z"
    using k r z user_table_is_table by (auto simp: kernel_page_def)
  then show "mem s' x = mem s x" using page_update_dest(3) [OF U] x by (auto simp: writes_in_def)
qed

section \<open>What programs see\<close>

text \<open>Between two states, of all the address spaces in \<open>R\<close> only the one at \<open>r\<close> changed, and there only
  at the addresses \<open>A\<close>.\<close>

definition only :: "PhysAddr set \<Rightarrow> PhysAddr \<Rightarrow> VirtAddr set \<Rightarrow> 'a frames_scheme \<Rightarrow> 'a frames_scheme \<Rightarrow> bool" where
  "only R r A s s' \<longleftrightarrow> world_ok s' R \<and> above_frames s' = above_frames s \<and> kernel_kept R s s' \<and>
     (\<forall>r'\<in>R. \<forall>a. r' \<noteq> r \<or> a \<notin> A \<longrightarrow>
        pte_of (tables s') r' a = pte_of (tables s) r' a \<and> view (mem s') r' a = view (mem s) r' a)"

lemma only_refl: "world_ok s R \<Longrightarrow> only R r A s s"
  by (simp add: only_def kernel_kept_refl)

lemma onlyD:
  assumes "only R r A s s'" and "r' \<in> R" and "r' \<noteq> r \<or> a \<notin> A"
  shows "pte_of (tables s') r' a = pte_of (tables s) r' a" and "view (mem s') r' a = view (mem s) r' a"
  using assms unfolding only_def by blast+

lemma only_trans: "only R r A s t \<Longrightarrow> only R r B t u \<Longrightarrow> only R r (A \<union> B) s u"
  unfolding only_def by (metis Un_iff kernel_kept_trans)

lemma only_mono: "only R r A s t \<Longrightarrow> A \<subseteq> B \<Longrightarrow> only R r B s t"
  unfolding only_def by blast

lemma only_undone:
  assumes "only R r A s t"
    and "\<And>a. a \<in> A \<Longrightarrow> pte_of (tables t) r a = pte_of (tables s) r a \<and> view (mem t) r a = view (mem s) r a"
  shows "only R r {} s t"
  unfolding only_def
proof (intro conjI ballI allI impI)
  fix r' a assume r': "r' \<in> R"
  have "pte_of (tables t) r' a = pte_of (tables s) r' a \<and> view (mem t) r' a = view (mem s) r' a"
  proof (cases "r' = r \<and> a \<in> A")
    case False
    then show ?thesis using assms(1) r' by (auto simp: only_def)
  qed (use assms(2) in blast)
  then show "pte_of (tables t) r' a = pte_of (tables s) r' a" "view (mem t) r' a = view (mem s) r' a" by blast+
qed (use assms(1) in \<open>auto simp: only_def\<close>)

lemma page_of_mapped: "page_of (ppn_to_addr e + (a - page_of a)) = ppn_to_addr e"
  by (rule page_of_plus_offset) (simp_all add: page_of_offset_less)

lemma update_view:
  assumes U: "page_update R r va v z s s'"
    and z: "\<And>x. live s z \<Longrightarrow> page_of x = z \<Longrightarrow> mem s' x = mem s x \<or> mappings (tables s') R z = {}"
    and r': "r' \<in> R" and ne: "r' \<noteq> r \<or> \<not> same_page va a"
  shows "view (mem s') r' a = view (mem s) r' a"
proof -
  note W = page_update_before(1) [OF U] and r = page_update_before(2) [OF U]
  let ?e = "pte_of (tables s) r' a"
  have e: "pte_of (tables s') r' a = ?e" unfolding update_tree(1) [OF U r'] using ne by auto
  have "mem s' (ppn_to_addr ?e + (a - page_of a)) = mem s (ppn_to_addr ?e + (a - page_of a))" if u: "is_u ?e"
  proof (cases "ppn_to_addr ?e = z")
    case True
    then have "mappings (tables s') R z \<noteq> {}" using mappingsI [OF r', of "tables s'" a] u e by auto
    moreover have "live s z" using world_leaf(3) [OF W r' u] True by simp
    ultimately show ?thesis using z [OF _ page_of_mapped [of ?e a, unfolded True]] by (simp only: True simp_thms)
  next
    case False
    have "live s (ppn_to_addr ?e)" "\<not> user_table (tables s) r (ppn_to_addr ?e)"
      using world_leaf(3,4) [OF W r' u] r user_table_is_table by blast+
    then show ?thesis
      using page_update_dest(3) [OF U] False page_of_mapped [of ?e a] unfolding writes_in_def by metis
  qed
  then show ?thesis by (simp add: view_def e Let_def)
qed

lemma update_only:
  assumes "page_update R r va v z s s'"
    and "\<And>x. live s z \<Longrightarrow> page_of x = z \<Longrightarrow> mem s' x = mem s x \<or> mappings (tables s') R z = {}"
    and "above_frames s' = above_frames s" and "\<not> kernel_page s R z" and "is_u v \<Longrightarrow> \<not> kernel_page s R (ppn_to_addr v)"
  shows "only R r {a. same_page va a} s s'"
  unfolding only_def using update_kernel [OF assms(1,4,5)] update_world [OF assms(1)] update_tree(1) [OF assms(1)] update_view [OF assms(1,2)] assms(3)
  by auto

section \<open>Removing a page\<close>

lemma user_table_leaf:
  "l1 rd r (vpn va 2) (vpn va 1) = Some t \<Longrightarrow> vpn va 2 < 2 \<Longrightarrow> user_table rd r t"
  using vpn_bound by (auto simp: user_table_def)

text \<open>Dropping the reference of a user page and clearing its entry.\<close>

definition cleared_page :: "usize \<Rightarrow> PhysAddr \<Rightarrow> 'a frames_scheme \<Rightarrow> 'a frames_scheme" where
  "cleared_page ea p s = (let s1 = dec_ref_result p s in s1\<lparr>mem := write_u64 (mem s1) ea pte_empty\<rparr>)"

lemma cleared_page_update:
  assumes W: "world_ok s R" and r: "r \<in> R" and va: "page_aligned va" "unat va < 2 ^ 39"
    and lk: "lookup_addr (tables s) r va = Some ea" and u: "is_u (tables s ea)"
  shows "page_update R r va 0 (ppn_to_addr (tables s ea)) s (cleared_page ea (ppn_to_addr (tables s ea)) s)"
    and "i < 512 \<Longrightarrow> sub (tables (cleared_page ea (ppn_to_addr (tables s ea)) s)) r i = sub (tables s) r i"
    and "i < 512 \<Longrightarrow> j < 512 \<Longrightarrow> l1 (tables (cleared_page ea (ppn_to_addr (tables s ea)) s)) r i j = l1 (tables s) r i j"
    and "frame_ok q \<Longrightarrow> frame_ref (cleared_page ea (ppn_to_addr (tables s ea)) s) q =
      (if q = ppn_to_addr (tables s ea) then frame_ref s q - 1 else frame_ref s q)"
proof -
  let ?p = "ppn_to_addr (tables s ea)"
  define s1 where "s1 = dec_ref_result ?p s"
  define s2 where "s2 = s1\<lparr>mem := write_u64 (mem s1) ea 0\<rparr>"
  note le = lookup_entry [OF world_space [OF W r] lk] and wf = world_dest(3) [OF W r]
  obtain t where t: "l1 (tables s) r (vpn va 2) (vpn va 1) = Some t" "ea = entry_at t (vpn va 0)" using le(5) by blast
  have ue: "is_u (pte_of (tables s) r va)" using u le(4) by simp
  have p: "live s ?p" "\<And>r'. r' \<in> R \<Longrightarrow> \<not> is_table (tables s) r' ?p" and half: "vpn va 2 < 2"
    using world_leaf(2-4) [OF W r ue] le(4) by auto
  obtain fl where inv: "frames_inv fl s" using world_dest(1) [OF W] by (auto simp: frames_ok_def)
  note sp = dec_ref_result_spec [OF inv p(1), folded s1_def]
  have tp: "page_of ea = t" using l1_aligned [OF t(1)] by (simp add: t(2) unat_entry_at vpn_bound)
  have ref: "frame_ref s2 q = (if q = ?p then frame_ref s ?p - 1 else frame_ref s q)" if "frame_ok q" for q
    using sp(2) [OF that] by (simp add: s2_def)
  have tab_ne: "t' \<noteq> ?p" if "is_table (tables s) r t'" for t' using that p(2) [OF r] by blast
  have live_tab: "live s1 t'" "live s2 t'" if "is_table (tables s) r t'" for t'
    using is_table_live [OF wf that] ref [of t'] tab_ne [OF that] sp(2) [of t'] by (auto simp: live_def)
  have out: "mem s2 x = mem s x" if "page_of x \<noteq> ?p" "page_of x \<noteq> t" for x
    using that sp(3) [OF that(1)] le(1) tp by (simp add: s2_def write_u64_outside)
  have fr: "frames_ok s2"
  proof -
    have "write_u64 (mem s1) ea 0 x = mem s1 x" if "\<not> live s1 (page_of x)" for x
      using that live_tab(1) [OF le(3)] le(1) by (intro write_u64_outside) auto
    from frames_inv_mem [OF sp(1) this] show ?thesis by (auto simp: frames_ok_def s2_def)
  qed
  have w: "tables s2 (entry_at u i) = (if entry_at u i = entry_at t (vpn va 0) then 0 else tables s (entry_at u i))"
    if ut: "is_table (tables s) r u" "i < 512" for u i
  proof -
    have d: "dword_aligned (entry_at u i)" "page_of (entry_at u i) = u" using space_ok_page [OF world_space [OF W r] ut] by auto
    have "tables s1 (entry_at u i) = tables s (entry_at u i)"
      by (rule read_u64_page [OF d(1)]) (use sp(3) tab_ne [OF ut(1)] d(2) in simp)
    then show ?thesis using ram.rd_wr [OF le(1) d(1), of "mem s1" 0] by (simp add: s2_def t(2))
  qed
  note wr = write_leaf [OF wf live_aligned t(1), of _ "tables s2" 0, OF _ w]
  have wl: "pt_wf (live s) (tables s2) r" "pte_of (tables s2) r vb = (if same_page va vb then 0 else pte_of (tables s) r vb)"
    "is_table (tables s2) r t' = is_table (tables s) r t'" for vb t' by (rule wr; assumption)+
  have uts: "user_table (tables s2) r t' = user_table (tables s) r t'" for t'
    using small_index by (auto simp: user_table_def wr(5,6))
  have rel: "unat (frame_ref s q) + (if is_u 0 \<and> ppn_to_addr 0 = q then 1 else 0)
      \<le> unat (frame_ref s2 q) + (if (r, va) \<in> mappings (tables s) R q then 1 else 0)"
    and less: "unat (frame_ref s2 q) \<le> unat (frame_ref s q)" if q: "frame_ok q" for q
  proof -
    have "(r, va) \<in> mappings (tables s) R ?p" using r va ue le(4) by (simp add: mappings_def)
    moreover have "frame_ref s ?p \<noteq> 0" using p(1) by (simp add: live_def)
    then have "unat (frame_ref s ?p - 1) = unat (frame_ref s ?p) - 1" by (simp add: unat_minus_one)
    ultimately show "unat (frame_ref s q) + (if is_u 0 \<and> ppn_to_addr 0 = q then 1 else 0)
      \<le> unat (frame_ref s2 q) + (if (r, va) \<in> mappings (tables s) R q then 1 else 0)"
      "unat (frame_ref s2 q) \<le> unat (frame_ref s q)" using ref [OF q] by auto
  qed
  note uc = update_counts [OF W r, of 0 s2 va, OF rel less [OF live_frame_ok [of s]]]
  have "page_update R r va 0 ?p s s2"
    unfolding page_update_def writes_in_def
  proof (intro conjI allI impI ballI)
    show "pt_wf (live s2) (tables s2) r" by (rule pt_wf_live [OF wl(1)]) (simp add: wl(3) live_tab(2))
    show "mem s2 x = mem s x" if "live s (page_of x) \<and> \<not> user_table (tables s) r (page_of x) \<and> page_of x \<noteq> ?p" for x
      by (rule out) (use that user_table_leaf [OF t(1) half] in auto)
  qed (use W r va fr wl(2,3) uts p(2) uc wr(7) world_dest(7) [OF W r] in \<open>auto simp: user_leaf_ok_def\<close>)
  moreover have "cleared_page ea ?p s = s2" by (simp add: s2_def s1_def cleared_page_def Let_def pte_empty_def)
  ultimately show "page_update R r va 0 ?p s (cleared_page ea ?p s)"
    and "i < 512 \<Longrightarrow> sub (tables (cleared_page ea ?p s)) r i = sub (tables s) r i"
    and "i < 512 \<Longrightarrow> j < 512 \<Longrightarrow> l1 (tables (cleared_page ea ?p s)) r i j = l1 (tables s) r i j"
    and "frame_ok q \<Longrightarrow> frame_ref (cleared_page ea ?p s) q = (if q = ?p then frame_ref s q - 1 else frame_ref s q)"
    using wr(5,6) ref by simp_all
qed

lemma cleared_page_only:
  assumes W: "world_ok s R" and r: "r \<in> R" and va: "page_aligned va" "unat va < 2 ^ 39"
    and lk: "lookup_addr (tables s) r va = Some ea" and u: "is_u (tables s ea)"
  shows "only R r {a. same_page va a} s (cleared_page ea (ppn_to_addr (tables s ea)) s)"
proof (rule update_only [OF cleared_page_update(1) [OF assms]])
  let ?p = "ppn_to_addr (tables s ea)" and ?s = "cleared_page ea (ppn_to_addr (tables s ea)) s"
  note le = lookup_entry [OF world_space [OF W r] lk]
  have ue: "is_u (pte_of (tables s) r va)" using u le(4) by simp
  have p: "live s ?p" "?p \<noteq> page_of ea" using world_leaf(3,4) [OF W r ue] le(3,4) r by auto
  obtain fl where inv: "frames_inv fl s" using world_dest(1) [OF W] by (auto simp: frames_ok_def)
  fix x assume x: "page_of x = ?p"
  show "mem ?s x = mem s x \<or> mappings (tables ?s) R ?p = {}"
  proof (cases "frame_ref s ?p = 1")
    case True
    have "card (mappings (tables ?s) R ?p) \<le> unat (frame_ref ?s ?p)"
      by (rule update_count [OF cleared_page_update(1) [OF assms] live_frame_ok [OF p(1)]])
    moreover have "frame_ref ?s ?p = 0"
      using dec_ref_result_spec(2) [OF inv p(1) live_frame_ok [OF p(1)]] True by (simp add: cleared_page_def Let_def)
    ultimately show ?thesis using finite_mappings [OF world_dest(2) [OF W]] by simp
  next
    case False
    then show ?thesis
      using x p(2) le(1) by (simp add: cleared_page_def Let_def dec_ref_result_def write_u64_outside)
  qed
next
  show "above_frames (cleared_page ea (ppn_to_addr (tables s ea)) s) = above_frames s"
    by (simp add: cleared_page_def Let_def)
  show "\<not> kernel_page s R (ppn_to_addr (tables s ea))"
    using u r lookup_entry(4) [OF world_space [OF W r] lk] by (metis kernel_page_def)
qed simp

lemma only_kernel:
  assumes "only R r A s s'" and "sched_ok s"
  shows "world_ok s' R" "sched_ok s'" "cur_proc s' = cur_proc s"
  using assms above_frames_sched [of s' s] by (auto simp: only_def)

text \<open>The entries of the user pages in a range are cleared, other entries of the range stay.\<close>

definition unmapped :: "PhysAddr \<Rightarrow> VirtAddr set \<Rightarrow> (usize \<Rightarrow> u64) \<Rightarrow> (usize \<Rightarrow> u64) \<Rightarrow> bool" where
  "unmapped r A rd rd' \<longleftrightarrow> (\<forall>a\<in>A. pte_of rd' r a = (if is_u (pte_of rd r a) then 0 else pte_of rd r a))"

lemma unmapped_trans:
  assumes "only R r A s t" and r: "r \<in> R" and "unmapped r A (tables s) (tables t)" and "only R r B t u" and "unmapped r B (tables t) (tables u)"
    and dis: "A \<inter> B = {}"
  shows "unmapped r (A \<union> B) (tables s) (tables u)"
  unfolding unmapped_def
proof
  fix a assume a: "a \<in> A \<union> B"
  show "pte_of (tables u) r a = (if is_u (pte_of (tables s) r a) then 0 else pte_of (tables s) r a)"
  proof (cases "a \<in> A")
    case True
    then have "pte_of (tables u) r a = pte_of (tables t) r a" using assms(4) r dis by (auto simp: only_def)
    then show ?thesis using assms(3) True by (simp add: unmapped_def)
  next
    case False
    then have "pte_of (tables t) r a = pte_of (tables s) r a" using assms(1) r by (auto simp: only_def)
    then show ?thesis using assms(5) a False by (simp add: unmapped_def)
  qed
qed

lemma unmap_step_wp:
  assumes ok: "sched_ok s" and W: "world_ok s R" and r: "cur_root s \<in> R" and va: "page_aligned va" "unat va < 2 ^ 39"
  shows "wp (unmap_step va) (\<lambda>_ s'. only R (cur_root s) {a. same_page va a} s s' \<and>
      unmapped (cur_root s) {a. same_page va a} (tables s) (tables s')) (\<lambda>_ _. False) s"
proof (cases "lookup_addr (tables s) (cur_root s) va")
  case None
  then have "pte_of (tables s) (cur_root s) a = 0" if "same_page va a" for a
    using pte_same_page [OF that, of "tables s" "cur_root s"] by (simp add: pte_of_def)
  then show ?thesis
    using None only_refl [OF W] by (simp add: unmap_step_def wp_simps wp_current [OF ok] lookup_def unmapped_def)
next
  case (Some ea)
  let ?e = "tables s ea" and ?r = "cur_root s"
  note le = lookup_entry [OF world_space [OF W r] Some]
  have at: "pte_of (tables s) ?r a = ?e" if "same_page va a" for a
    using pte_same_page [OF that, of "tables s" ?r] le(4) by simp
  show ?thesis
  proof (cases "is_u ?e")
    case False
    then show ?thesis
      using Some only_refl [OF W] at by (simp add: unmap_step_def wp_simps wp_current [OF ok] lookup_def unmapped_def)
  next
    case True
    note up = cleared_page_update(1) [OF W r va Some True]
    have v: "is_valid ?e" "live s (ppn_to_addr ?e)"
      using world_leaf(1,3) [OF W r, of va] True le(4) by auto
    have "cleared_page ea (ppn_to_addr ?e) s = (dec_ref_result (ppn_to_addr ?e) s)\<lparr>mem := write_u64 (mem (dec_ref_result (ppn_to_addr ?e) s)) ea pte_empty\<rparr>"
      by (simp add: cleared_page_def Let_def)
    moreover have "pte_of (tables (cleared_page ea (ppn_to_addr ?e) s)) ?r a = 0" if "same_page va a" for a
      unfolding page_update_dest(6) [OF up] using that by simp
    ultimately show ?thesis
      using Some True v at cleared_page_only [OF W r va Some True]
      by (simp add: unmap_step_def wp_simps wp_current [OF ok] lookup_def wp_dec_ref [OF v(2)] unmapped_def)
  qed
qed

section \<open>Ranges of pages\<close>

definition in_pages :: "VirtAddr \<Rightarrow> VirtAddr \<Rightarrow> VirtAddr set" where
  "in_pages va fin = {a. unat va \<le> unat a mod 2 ^ 39 \<and> unat a mod 2 ^ 39 < unat fin}"

lemma same_page_range:
  assumes "page_aligned va" and "unat va < 2 ^ 39"
  shows "same_page va a \<longleftrightarrow> unat va \<le> unat a mod 2 ^ 39 \<and> unat a mod 2 ^ 39 < unat va + 4096"
proof -
  obtain k where k: "unat va = 4096 * k" using assms(1) by (auto simp: page_aligned_iff_dvd)
  have "same_page va a \<longleftrightarrow> same_page va (base_page a)" using same_page_base [of a] by (simp add: same_page_def)
  also have "\<dots> \<longleftrightarrow> va = base_page a" by (rule same_page_eq [OF assms base_page_facts])
  also have "\<dots> \<longleftrightarrow> 4096 * k = unat a mod 2 ^ 39 div 4096 * 4096"
    unfolding word_unat_eq_iff base_page_def unat_page_of unat_take39 k ..
  also have "\<dots> \<longleftrightarrow> 4096 * k \<le> unat a mod 2 ^ 39 \<and> unat a mod 2 ^ 39 < 4096 * k + 4096"
  proof -
    have "4096 * k = q * 4096 \<longleftrightarrow> 4096 * k \<le> n \<and> n < 4096 * k + 4096" if "4096 * q + m = n" "m < 4096" for q m n :: nat
    proof
      assume "4096 * k \<le> n \<and> n < 4096 * k + 4096"
      then have "\<not> k < q" "\<not> q < k" using that by linarith+
      then show "4096 * k = q * 4096" by simp
    qed (use that in linarith)
    from this [OF mult_div_mod_eq] show ?thesis by simp
  qed
  finally show ?thesis by (simp only: k)
qed

text \<open>The first page of a range and the rest.\<close>

lemma page_range_step:
  assumes al: "page_aligned va" "page_aligned fin" and lt: "va < fin" and fin: "unat fin \<le> 2 ^ 39"
  shows "unat va < 2 ^ 39" "\<not> add_overflows va PAGE_SIZE" "page_aligned (va + PAGE_SIZE)" "va + PAGE_SIZE \<le> fin"
    "unat (va + PAGE_SIZE) = unat va + 4096"
    "in_pages va fin = {a. same_page va a} \<union> in_pages (va + PAGE_SIZE) fin"
proof -
  have lt': "unat va < unat fin" using lt by (simp add: word_less_nat_alt)
  have d: "4096 dvd unat va" "4096 dvd unat fin" using al by (simp_all add: page_aligned_iff_dvd)
  then have gap: "unat va + 4096 \<le> unat fin" using lt' by (auto elim!: dvdE)
  show va: "unat va < 2 ^ 39" using lt' fin by simp
  show nov: "\<not> add_overflows va PAGE_SIZE" using gap fin by (simp add: add_overflows_def PAGE_SIZE_def)
  then show u: "unat (va + PAGE_SIZE) = unat va + 4096" by (simp add: unat_add_no_overflow PAGE_SIZE_def)
  show "page_aligned (va + PAGE_SIZE)" using d(1) by (simp add: page_aligned_iff_dvd u)
  show "va + PAGE_SIZE \<le> fin" using gap by (simp add: word_le_nat_alt u)
  show "in_pages va fin = {a. same_page va a} \<union> in_pages (va + PAGE_SIZE) fin"
    using gap by (auto simp: in_pages_def u same_page_range [OF al(1) va])
qed

lemma in_pages_empty: "fin \<le> va \<Longrightarrow> in_pages va fin = {}"
  by (auto simp: in_pages_def word_le_nat_alt)

lemma unmap_user_pages_wp:
  assumes "sched_ok s" and "world_ok s R" and "cur_root s \<in> R" and "page_aligned va" and "page_aligned fin"
    and "unat fin \<le> 2 ^ 39"
  shows "wp (unmap_user_pages va fin) (\<lambda>_ s'. only R (cur_root s) (in_pages va fin) s s' \<and>
      unmapped (cur_root s) (in_pages va fin) (tables s) (tables s')) (\<lambda>_ _. False) s"
  using assms
proof (induction va arbitrary: s rule: page_loop_induct [folded PAGE_SIZE_def])
  case (1 va)
  let ?r = "cur_root s" and ?Q = "\<lambda>s'. only R (cur_root s) (in_pages va fin) s s' \<and>
      unmapped (cur_root s) (in_pages va fin) (tables s) (tables s')"
  show ?case
  proof (cases "va < fin")
    case False
    then show ?thesis
      using only_refl [OF "1.prems"(2)]
      by (subst unmap_user_pages_unfold) (simp add: wp_simps in_pages_empty unmapped_def)
  next
    case True
    note st = page_range_step [OF "1.prems"(4,5) True "1.prems"(6)]
    have rest: "wp (unmap_user_pages (va + PAGE_SIZE) fin) (\<lambda>_. ?Q) (\<lambda>_ _. False) s1"
      if o1: "only R ?r {a. same_page va a} s s1" and p1: "unmapped ?r {a. same_page va a} (tables s) (tables s1)" for s1
    proof -
      note k = only_kernel [OF o1 "1.prems"(1)]
      have r1: "cur_root s1 \<in> R" using "1.prems"(3) k(3) by simp
      have dis: "{a. same_page va a} \<inter> in_pages (va + PAGE_SIZE) fin = {}"
        by (auto simp: in_pages_def st(5) same_page_range [OF "1.prems"(4) st(1)])
      show ?thesis
        by (rule wp_mono [OF "1.IH" [OF st(2) k(2,1) r1 st(3) "1.prems"(5,6)]], unfold k(3) st(6))
          (blast intro: only_trans [OF o1] unmapped_trans [OF o1 "1.prems"(3) p1 _ _ dis])+
    qed
    have "wp (unmap_step va) (\<lambda>_. wp (unmap_user_pages (va + PAGE_SIZE) fin) (\<lambda>_. ?Q) (\<lambda>_ _. False)) (\<lambda>_ _. False) s"
      by (rule wp_mono [OF unmap_step_wp [OF "1.prems"(1-4) st(1)]]) (blast intro: rest)+
    then show ?thesis
      by (subst unmap_user_pages_unfold) (simp add: True wp_kbind [of "unmap_step va"] kbind_uadd [OF st(2)])
  qed
qed

section \<open>Adding a page\<close>

text \<open>A frame \<open>q\<close> that was not in use is now live and mapped nowhere but possibly by the entry \<open>v\<close> of
  \<open>va\<close>; tables may have been added on the path to it.\<close>

definition fresh_page ::
  "PhysAddr set \<Rightarrow> PhysAddr \<Rightarrow> VirtAddr \<Rightarrow> PTEntry \<Rightarrow> PhysAddr \<Rightarrow> 'a frames_scheme \<Rightarrow> 'a frames_scheme \<Rightarrow> bool" where
  "fresh_page R r va v q s s' \<longleftrightarrow> frames_ok s' \<and> pt_wf (live s') (tables s') r \<and> links (tables s') r \<and> writes_in R r q s s' \<and>
     (\<forall>t. is_table (tables s') r t \<longrightarrow> is_table (tables s) r t \<or> \<not> live s t) \<and>
     (\<forall>t. user_table (tables s') r t \<longrightarrow> user_table (tables s) r t \<or> \<not> live s t) \<and>
     (\<forall>vb. pte_of (tables s') r vb = (if same_page va vb then v else pte_of (tables s) r vb)) \<and>
     (\<forall>p. live s p \<longrightarrow> frame_ref s' p = frame_ref s p) \<and>
     frame_ok q \<and> \<not> live s q \<and> frame_ref s' q = 1 \<and> \<not> is_table (tables s') r q"

lemma grows_user_table:
  assumes g: "grows lv (mem s) (mem s') r va" and t: "user_table (tables s') r t"
  shows "user_table (tables s) r t \<or> \<not> lv t"
  using t [unfolded user_table_def]
proof (elim disjE exE conjE)
  fix i assume "i < 2" "sub (tables s') r i = Some t"
  then show ?thesis using grows_dest(1) [OF g small_index, of i] by (auto simp: user_table_def)
next
  fix i j assume "i < 2" "j < 512" "l1 (tables s') r i j = Some t"
  then show ?thesis using grows_dest(2) [OF g small_index, of i j] unfolding user_table_def by (metis option.inject)
qed (simp add: user_table_def)

lemma grows_outside:
  assumes g: "grows lv (mem s) (mem s') r va" and half: "vpn va 2 < 2" and x: "lv (page_of x)" "\<not> user_table (tables s) r (page_of x)"
  shows "mem s' x = mem s x"
proof -
  have "\<not> user_table (tables s') r (page_of x)" using grows_user_table [OF g] x by blast
  then have "page_of x \<noteq> r" "sub (tables s') r (vpn va 2) \<noteq> Some (page_of x)"
    "l1 (tables s') r (vpn va 2) (vpn va 1) \<noteq> Some (page_of x)"
    using half vpn_bound [of va 1] unfolding user_table_def by blast+
  then show ?thesis by (rule grows_dest(3) [OF g])
qed

lemma fresh_page_wp:
  fixes s :: "'a frames_scheme"
  assumes W: "world_ok s R" and r: "root pt \<in> R" and half: "vpn va 2 < 2"
    and s1: "refs_ok s s1" "mem s1 = mem s" "\<not> live s q" "live s1 = (live s)(q := True)" "frame_ref s1 q = 1"
  shows "wp (map_page alloc_frame pt va q flags) (\<lambda>done s'.
      fresh_page R (root pt) va (if done then new_leaf q flags else pte_of (tables s) (root pt) va) q s s' \<and>
      (\<forall>x. page_of x = q \<longrightarrow> mem s' x = 0)) (\<lambda>_ _. False) (s1\<lparr>mem := write_bytes (mem s1) q 0 PAGE_SIZE\<rparr>)"
proof -
  let ?r = "root pt"
  define s2 where "s2 = s1\<lparr>mem := write_bytes (mem s1) q 0 PAGE_SIZE\<rparr>"
  note wf = world_dest(3) [OF W r]
  have q1: "live s1 q" using s1(4) by simp
  then have qa: "page_aligned q" and qok: "frame_ok q" using live_aligned live_frame_ok by blast+
  have m2: "mem s2 x = (if page_of x = q then 0 else mem s x)" for x
    using qa by (simp add: s2_def s1(2) write_bytes_page PAGE_SIZE_def)
  have live2: "live s2 = (live s)(q := True)" using s1(4) by (simp add: s2_def live_def fun_eq_iff)
  have ref2: "frame_ref s2 q = 1" "\<And>p. live s p \<Longrightarrow> frame_ref s2 p = frame_ref s p"
    using s1(1,5) by (simp_all add: s2_def refs_ok_def)
  have "write_bytes (mem s1) q 0 PAGE_SIZE x = mem s1 x" if "\<not> live s1 (page_of x)" for x
    using that q1 qa by (auto simp: write_bytes_page PAGE_SIZE_def)
  then have "frames_ok s2"
    unfolding s2_def using s1(1) by (intro kframes.write_live [THEN conjunct1]) (simp_all add: refs_ok_def)
  then have ok2: "refs_ok s2 s2" by (rule refs_ok_refl)
  have tab: "mem s2 x = mem s x" if "is_table (tables s) ?r (page_of x)" for x
    using is_table_live [OF wf that] s1(3) by (auto simp: m2)
  note ts = tree_same [OF wf live_aligned [of s] tab]
  have wf2: "pt_wf (live s2) (tables s2) ?r" by (rule pt_wf_cong [OF wf]) (simp_all add: ts(1,2) live2)
  have ut: "user_table (tables s2) ?r t = user_table (tables s) ?r t" for t
    using small_index by (auto simp: user_table_def ts(1,2))
  have notab: "\<not> is_table (tables s) r' q" if "r' \<in> R" for r' using world_table_live [OF W that] s1(3) by blast
  have "wp (map_page alloc_frame pt va q flags) (\<lambda>done s'. fresh_page R ?r va (if done then new_leaf q flags else pte_of (tables s) ?r va) q s s' \<and>
      (\<forall>x. page_of x = q \<longrightarrow> mem s' x = 0)) (\<lambda>_ _. False) s2"
    unfolding map_page_def
  proof (rule wp_mono [OF wp_conj [OF kref.map_leaf_wp [OF ok2 wf2] kref.map_leaf_grows [OF ok2 wf2]]])
    fix "done" s'
    assume A: "(refs_ok s2 s' \<and> tree_ext (live s2) (mem s2) (live s') (mem s') ?r \<and>
        (\<forall>vb. pte_of (tables s') ?r vb = (if done \<and> same_page va vb
          then if False then set_cow (new_leaf q flags) else new_leaf q flags else pte_of (tables s2) ?r vb))) \<and>
      grows (live s2) (mem s2) (mem s') ?r va"
    then have g: "grows (live s2) (mem s2) (mem s') ?r va" and ext: "tree_ext (live s2) (mem s2) (live s') (mem s') ?r"
      and refs: "\<And>p. live s2 p \<Longrightarrow> frame_ref s' p = frame_ref s2 p" and fr: "frames_ok s'" by (auto simp: refs_ok_def)
    have qt: "\<not> is_table (tables s') ?r q" using tree_ext_dest(5) [OF ext, of q] ts(4) notab [OF r] live2 by auto
    have "fresh_page R ?r va (if done then new_leaf q flags else pte_of (tables s) ?r va) q s s'"
      unfolding fresh_page_def writes_in_def
    proof (intro conjI allI impI ballI)
      show "pt_wf (live s') (tables s') ?r" by (rule tree_ext_wf [OF ext])
      fix t
      show "is_table (tables s) ?r t \<or> \<not> live s t" if "is_table (tables s') ?r t"
        using tree_ext_dest(5) [OF ext that] ts(4) live2 by (metis fun_upd_apply)
      show "user_table (tables s) ?r t \<or> \<not> live s t" if "user_table (tables s') ?r t"
        using grows_user_table [OF g that] ut live2 by (metis fun_upd_apply)
      fix x
      show "mem s' x = mem s x" if "live s (page_of x) \<and> \<not> user_table (tables s) ?r (page_of x) \<and> page_of x \<noteq> q"
        using grows_outside [OF g half, of x] that ut live2 m2 by auto
    next
      fix vb show "pte_of (tables s') ?r vb = (if same_page va vb then if done then new_leaf q flags else pte_of (tables s) ?r va
          else pte_of (tables s) ?r vb)"
        using A ts(3) pte_same_page [of va vb "tables s" ?r] by auto
    qed (use fr qt qok s1(3) notab refs ref2 live2 grows_dest(4) [OF g] ts(5) world_dest(7) [OF W r] in auto)
    moreover have "mem s' x = 0" if "page_of x = q" for x
      using tree_ext_dest(6) [OF ext, of x] qt that m2 by simp
    ultimately show "fresh_page R ?r va (if done then new_leaf q flags else pte_of (tables s) ?r va) q s s' \<and>
      (\<forall>x. page_of x = q \<longrightarrow> mem s' x = 0)" by blast
  qed simp
  then show ?thesis by (simp add: s2_def)
qed

lemma fresh_page_dest:
  assumes "fresh_page R r va v q s s'"
  shows "frames_ok s'" "pt_wf (live s') (tables s') r" "writes_in R r q s s'"
    "is_table (tables s') r t \<Longrightarrow> is_table (tables s) r t \<or> \<not> live s t"
    "user_table (tables s') r t \<Longrightarrow> user_table (tables s) r t \<or> \<not> live s t"
    "pte_of (tables s') r vb = (if same_page va vb then v else pte_of (tables s) r vb)"
    "live s p \<Longrightarrow> frame_ref s' p = frame_ref s p" "frame_ok q" "\<not> live s q" "frame_ref s' q = 1" "\<not> is_table (tables s') r q" "links (tables s') r"
  using assms unfolding fresh_page_def by blast+

lemma fresh_page_table:
  assumes F: "fresh_page R r va v q s s'" and W: "world_ok s R" and r: "r \<in> R" "r' \<in> R"
  shows "\<not> is_table (tables s') r' q"
proof (cases "r' = r")
  case False
  then show ?thesis
    using other_tables(2) [OF W r _ fresh_page_dest(3) [OF F]] world_table_live [OF W r(2)] fresh_page_dest(9) [OF F] by blast
qed (use fresh_page_dest(11) [OF F] in simp)

text \<open>With the entry installed, the frame is a user page of the space.\<close>

lemma fresh_page_update:
  assumes F: "fresh_page R r va v q s s'" and W: "world_ok s R" and r: "r \<in> R" and va: "page_aligned va" "unat va < 2 ^ 39"
    and v: "is_valid v" "ppn_to_addr v = q" "vpn va 2 < 2" "is_r v \<or> is_x v" "is_w v \<longrightarrow> is_r v"
  shows "page_update R r va v q s s'"
proof -
  have q: "frame_ref s q = 0" "live s' q" using fresh_page_dest(8-10) [OF F] by (simp_all add: live_def)
  have "frame_ref s p \<le> frame_ref s' p" if "p \<noteq> q" "frame_ok p" for p
    using fresh_page_dest(7) [OF F, of p] that by (cases "live s p") (simp_all add: live_def)
  then have rel: "unat (frame_ref s p) + (if is_u v \<and> ppn_to_addr v = p then 1 else 0)
      \<le> unat (frame_ref s' p) + (if (r, va) \<in> mappings (tables s) R p then 1 else 0)" if "frame_ok p" for p
    using fresh_page_dest(10) [OF F] v(2) q(1) that by (cases "p = q") (auto simp: word_le_nat_alt le_SucI)
  note uc = update_counts [OF W r, of v s' va, OF rel eq_imp_le [OF arg_cong [OF fresh_page_dest(7) [OF F]]]]
  have "user_leaf_ok s' R va v" using v q fresh_page_table [OF F W r] fresh_page_dest(10) [OF F] by (simp add: user_leaf_ok_def)
  then show ?thesis
    unfolding page_update_def using W r va fresh_page_dest(1-6,12) [OF F] uc by blast
qed

lemma fresh_page_only:
  assumes F: "fresh_page R r va v q s s'" and U: "page_update R r va v q s s'" and "above_frames s' = above_frames s"
    and v: "is_u v \<longrightarrow> ppn_to_addr v = q"
  shows "only R r {a. same_page va a} s s'"
  using fresh_page_dest(9) [OF F] v by (intro update_only [OF U _ assms(3)]) (auto simp: kernel_page_def)

text \<open>When it could not be installed, the frame goes back to the allocator.\<close>

definition freed :: "PhysAddr \<Rightarrow> 'a frames_scheme \<Rightarrow> 'a frames_scheme" where
  "freed q s = set_ref q 0 (s\<lparr>mem := write_u64 (mem s) q (FREE_LIST_HEAD s), FREE_LIST_HEAD := q\<rparr>)"

lemma freed_page_update:
  assumes F: "fresh_page R r va (pte_of (tables s) r va) q s s'" and W: "world_ok s R" and r: "r \<in> R"
    and va: "page_aligned va" "unat va < 2 ^ 39" and none: "pte_of (tables s) r va = 0"
  shows "page_update R r va 0 q s (freed q s')"
proof -
  let ?t = "freed q s'"
  note ok = fresh_page_dest(8) [OF F]
  have lv: "live s' q" using ok fresh_page_dest(10) [OF F] by (simp add: live_def)
  obtain fl where inv: "frames_inv fl s'" using fresh_page_dest(1) [OF F] by (auto simp: frames_ok_def)
  have fr: "frames_ok ?t" using frames_inv_push [OF inv lv] by (auto simp: frames_ok_def freed_def)
  have out: "mem ?t x = mem s' x" if "page_of x \<noteq> q" for x
    using that ok by (simp add: freed_def write_u64_outside frame_ok_aligned page_of_id)
  have ref: "frame_ref ?t p = (if p = q then 0 else frame_ref s' p)" if "frame_ok p" for p
    using ok that by (simp add: freed_def frame_ref_set_ref)
  have tab: "mem ?t x = mem s' x" if "is_table (tables s') r (page_of x)" for x
    by (rule out) (use that fresh_page_dest(11) [OF F] in auto)
  note ts = tree_same [OF fresh_page_dest(2) [OF F] live_aligned [of s'] tab]
  have lvt: "live ?t t" if "is_table (tables s') r t" for t
  proof -
    have "live s' t" by (rule is_table_live [OF fresh_page_dest(2) [OF F] that])
    moreover have "t \<noteq> q" using that fresh_page_dest(11) [OF F] by blast
    ultimately show ?thesis using ref [of t] by (simp add: live_def)
  qed
  have ut: "user_table (tables ?t) r t = user_table (tables s') r t" for t
    using small_index by (auto simp: user_table_def ts(1,2))
  have same: "frame_ref ?t p = frame_ref s p" if "live s p" for p
    using ref [OF live_frame_ok [OF that]] fresh_page_dest(7) [OF F that] fresh_page_dest(9) [OF F] that by auto
  have rel: "unat (frame_ref s p) + (if is_u 0 \<and> ppn_to_addr 0 = p then 1 else 0)
      \<le> unat (frame_ref ?t p) + (if (r, va) \<in> mappings (tables s) R p then 1 else 0)" if "frame_ok p" for p
    using same [of p] that by (cases "live s p") (simp_all add: live_def)
  note uc = update_counts [OF W r, of 0 ?t va, OF rel eq_imp_le [OF arg_cong [OF same]]]
  show ?thesis
    unfolding page_update_def
  proof (intro conjI allI impI ballI)
    show "pt_wf (live ?t) (tables ?t) r"
      by (rule pt_wf_cong [OF pt_wf_live [OF fresh_page_dest(2) [OF F] lvt]]) (simp_all add: ts(1,2))
    show "writes_in R r q s ?t" using fresh_page_dest(3) [OF F] out by (auto simp: writes_in_def)
    fix vb show "pte_of (tables ?t) r vb = (if same_page va vb then 0 else pte_of (tables s) r vb)"
      using ts(3) [of vb] fresh_page_dest(6) [OF F, of vb] none by simp
  qed (use W r va fr fresh_page_dest(4,5,12) [OF F] ts(4,5) ut uc in \<open>auto simp: user_leaf_ok_def\<close>)
qed

text \<open>A range of fresh, zeroed user pages.\<close>

definition zeroed :: "PhysAddr \<Rightarrow> VirtAddr set \<Rightarrow> PTEFlags \<Rightarrow> 'a hart_scheme \<Rightarrow> bool" where
  "zeroed r A flags s \<longleftrightarrow> (\<forall>a\<in>A. (\<exists>p. frame_ok p \<and> pte_of (tables s) r a = new_leaf p flags) \<and>
     pte_flags (pte_of (tables s) r a) = flags \<and> \<not> is_cow (pte_of (tables s) r a) \<and> view (mem s) r a = Some 0)"

text \<open>The first half of \<open>map_zeroed_step\<close> in terms of the entry of the page.\<close>

lemma wp_map_zeroed_step:
  assumes "sched_ok s"
  shows "wp (map_zeroed_step va flags) Q R s = (if is_valid (pte_of (tables s) (cur_root s) va) then Q False s
    else wp (kbind alloc_frame (\<lambda>f. case f of None \<Rightarrow> ret False
      | Some frame \<Rightarrow> kseq (fill_bytes frame 0 PAGE_SIZE) (kbind (map_page alloc_frame (page_table (cur_proc s)) va frame flags) (\<lambda>mapped.
          if mapped then ret True else kseq (free_frame frame) (ret False))))) Q R s)"
proof (cases "lookup_addr (tables s) (cur_root s) va")
  case None
  then show ?thesis
    by (simp add: map_zeroed_step_def wp_kbind [of current] wp_kbind [of "gets _"] wp_kbind [of "ret _"] wp_current [OF assms]
        lookup_def wp_gets wp_ret pte_of_def)
next
  case (Some ea)
  then show ?thesis
    by (simp add: map_zeroed_step_def wp_kbind [of current] wp_kbind [of "gets _"] wp_kbind [of "kbind _ _"] wp_current [OF assms]
        lookup_def wp_gets wp_kbind [of "load64 _"] wp_load64 wp_ret pte_of_def)
qed

lemma map_zeroed_step_wp:
  assumes ok: "sched_ok s" and W: "world_ok s R" and r: "cur_root s \<in> R" and va: "page_aligned va" "unat va < 2 ^ 39"
    and half: "vpn va 2 < 2" and perm: "pr \<or> px" "pw \<longrightarrow> pr"
  shows "wp (map_zeroed_step va (PTEFlags_new pr pw px True)) (\<lambda>mapped s'.
      only R (cur_root s) (if mapped then {a. same_page va a} else {}) s s' \<and>
      (mapped \<longrightarrow> pte_of (tables s) (cur_root s) va = 0 \<and>
         zeroed (cur_root s) {a. same_page va a} (PTEFlags_new pr pw px True) s')) (\<lambda>_ _. False) s"
    (is "wp _ ?Q _ _")
proof (cases "is_valid (pte_of (tables s) (cur_root s) va)")
  case True
  then show ?thesis using only_refl [OF W] by (simp add: wp_map_zeroed_step [OF ok])
next
  case False
  let ?r = "cur_root s" and ?pt = "page_table (cur_proc s)" and ?fl = "PTEFlags_new pr pw px True"
  have none: "pte_of (tables s) ?r va = 0" using world_leaf(1) [OF W r, of va] False by blast
  obtain fl where inv: "frames_inv fl s" using world_dest(1) [OF W] by (auto simp: frames_ok_def)
  obtain res s1 where al: "alloc_result fl s = (res, s1)" by force
  note sp = alloc_result_spec [OF inv al]
  have ab: "above_frames s1 = above_frames s" using al above_frames_results(2) [of fl s] by simp
  show ?thesis
  proof (cases res)
    case None
    then show ?thesis
      using False sp(3) al only_refl [OF W] by (simp add: wp_map_zeroed_step [OF ok] wp_simps wp_alloc_frame [OF inv])
  next
    case (Some q)
    have s1: "refs_ok s s1" "\<not> live s q" "live s1 = (live s)(q := True)" "frame_ref s1 q = 1"
      using wp_alloc_frame [OF inv, of "\<lambda>r s'. refs_ok s s' \<and> mem s' = mem s \<and> (case r of None \<Rightarrow> live s' = live s
         | Some p \<Rightarrow> \<not> live s p \<and> live s' = (live s)(p := True))" "\<lambda>_ _. False"]
        kref.alloc [OF refs_ok_refl [OF world_dest(1) [OF W]]] al Some sp(4) [OF Some] by auto
    let ?s2 = "s1\<lparr>mem := write_bytes (mem s1) q 0 PAGE_SIZE\<rparr>"
    have qa: "page_aligned q" "unat q < 2 ^ 60" "frame_ok q"
      using sp(4) [OF Some] by (auto simp: frame_ok_def is_managed_unat)
    note leaf = new_leaf_reads [OF qa(1,2), of pr pw px True]
    have tail: "wp (if mapped then ret True else kseq (free_frame q) (ret False)) ?Q (\<lambda>_ _. False) s3"
      if F: "fresh_page R ?r va (if mapped then new_leaf q ?fl else pte_of (tables s) ?r va) q s s3"
        and z: "\<forall>x. page_of x = q \<longrightarrow> mem s3 x = 0" and ab3: "above_frames s3 = above_frames s" for mapped s3
    proof (cases mapped)
      case True
      then have F': "fresh_page R ?r va (new_leaf q ?fl) q s s3" using F by simp
      note U = fresh_page_update [OF F' W r va leaf(3,1) half, unfolded leaf(4-6), OF perm]
      have "zeroed ?r {a. same_page va a} ?fl s3"
        using fresh_page_dest(6) [OF F'] leaf(1,2,7,8) z page_of_mapped [of "new_leaf q ?fl"] qa(3) by (auto simp: zeroed_def view_def)
      then show ?thesis using True none fresh_page_only [OF F' U ab3] leaf(1) by (simp add: wp_simps)
    next
      case False
      then have F': "fresh_page R ?r va (pte_of (tables s) ?r va) q s s3" using F by simp
      note U = freed_page_update [OF F' W r va none]
      have up: "only R ?r {a. same_page va a} s (freed q s3)"
        by (rule update_only [OF U]) (use fresh_page_dest(9) [OF F'] ab3 in \<open>simp_all add: freed_def kernel_page_def\<close>)
      have "pte_of (tables (freed q s3)) ?r a = pte_of (tables s) ?r a" for a
        using page_update_dest(6) [OF U, of a] none pte_same_page [of va a "tables s" ?r] by simp
      then have "pte_of (tables (freed q s3)) ?r a = pte_of (tables s) ?r a \<and> view (mem (freed q s3)) ?r a = view (mem s) ?r a"
        if "same_page va a" for a
        using none pte_same_page [OF that, of "tables s" ?r] by (simp add: view_def)
      then have "only R ?r {} s (freed q s3)" by (intro only_undone [OF up]) simp_all
      then show ?thesis
        using False qa(3) by (simp add: wp_simps wp_free_frame frame_ok_def freed_def)
    qed
    have "wp (map_page alloc_frame ?pt va q ?fl) (\<lambda>mapped. wp (if mapped then ret True else kseq (free_frame q) (ret False)) ?Q (\<lambda>_ _. False))
        (\<lambda>_ _. False) ?s2"
    proof -
      have "wp (map_page alloc_frame ?pt va q ?fl) (\<lambda>_ s'. above_frames s' = above_frames s) (\<lambda>_ _. True) ?s2"
        by (rule wp_mono [OF keeps_wp [OF kabove.map_rest(1)]]) (simp_all add: ab)
      from wp_conj [OF fresh_page_wp [OF W r half s1(1) sp(2) s1(2-4), of ?fl] this] show ?thesis
        by (rule wp_mono) (use tail in \<open>blast+\<close>)
    qed
    then show ?thesis
      using False al Some by (simp add: wp_map_zeroed_step [OF ok] wp_kbind [of alloc_frame] wp_alloc_frame [OF inv]
          wp_kseq [of "fill_bytes _ _ _"] wp_fill_bytes wp_kbind [of "map_page _ _ _ _ _"])
  qed
qed

lemma zeroed_only:
  assumes "zeroed r A flags s" and "only R r B s s'" and "r \<in> R" and "A \<inter> B = {}"
  shows "zeroed r A flags s'"
  unfolding zeroed_def
proof
  fix a assume a: "a \<in> A"
  then have "pte_of (tables s') r a = pte_of (tables s) r a" "view (mem s') r a = view (mem s) r a"
    using assms(2-4) by (auto simp: only_def)
  then show "(\<exists>p. frame_ok p \<and> pte_of (tables s') r a = new_leaf p flags) \<and>
      pte_flags (pte_of (tables s') r a) = flags \<and> \<not> is_cow (pte_of (tables s') r a) \<and> view (mem s') r a = Some 0"
    using assms(1) a by (simp add: zeroed_def)
qed

lemma zeroed_u: "zeroed r A flags s \<Longrightarrow> a \<in> A \<Longrightarrow> is_u (pte_of (tables s) r a)"
  by (auto simp: zeroed_def view_def Let_def split: if_splits)

lemma user_half: "unat va < 2 ^ 31 \<Longrightarrow> vpn va 2 < 2"
proof -
  assume "unat va < 2 ^ 31"
  then have "unat va div 2 ^ 30 < 2" by (simp add: less_mult_imp_div_less)
  moreover have "unat (vpn va 2) = unat va div 2 ^ 30 mod 512" by (simp add: unat_vpn)
  ultimately show ?thesis by (simp add: word_less_nat_alt)
qed

lemma in_pages_snoc:
  assumes "page_aligned va" "unat va < 2 ^ 39" "unat (va + PAGE_SIZE) = unat va + 4096" "st \<le> va"
  shows "in_pages st (va + PAGE_SIZE) = in_pages st va \<union> {a. same_page va a}" and "in_pages st va \<inter> {a. same_page va a} = {}"
  using assms(4) by (auto simp: in_pages_def assms(3) same_page_range [OF assms(1,2)] word_le_nat_alt)

text \<open>What the loop of \<open>map_zeroed_user_pages\<close> has done when it reaches \<open>va\<close>.\<close>

definition mapped_to :: "PhysAddr set \<Rightarrow> PhysAddr \<Rightarrow> PTEFlags \<Rightarrow> VirtAddr \<Rightarrow> VirtAddr \<Rightarrow> 'a frames_scheme \<Rightarrow> 'a frames_scheme \<Rightarrow> bool" where
  "mapped_to R r flags st va s0 s \<longleftrightarrow> only R r (in_pages st va) s0 s \<and> zeroed r (in_pages st va) flags s \<and>
     (\<forall>a\<in>in_pages st va. pte_of (tables s0) r a = 0)"

lemma mapped_to_step:
  assumes M: "mapped_to R r flags st va s0 s" and r: "r \<in> R"
    and st: "page_aligned va" "unat va < 2 ^ 39" "unat (va + PAGE_SIZE) = unat va + 4096" "st \<le> va"
    and S: "only R r {a. same_page va a} s s1" "pte_of (tables s) r va = 0" "zeroed r {a. same_page va a} flags s1"
  shows "mapped_to R r flags st (va + PAGE_SIZE) s0 s1"
proof -
  note sn = in_pages_snoc [OF st]
  have "pte_of (tables s0) r a = 0" if "same_page va a" for a
  proof -
    have "a \<notin> in_pages st va" using that sn(2) by blast
    then have "pte_of (tables s) r a = pte_of (tables s0) r a" using M onlyD(1) [OF _ r, of r "in_pages st va" s0 s a] by (simp add: mapped_to_def)
    then show ?thesis using S(2) pte_same_page [OF that, of "tables s" r] by simp
  qed
  moreover have "zeroed r (in_pages st va) flags s1"
    using M by (intro zeroed_only [OF _ S(1) r sn(2)]) (simp add: mapped_to_def)
  moreover have "only R r (in_pages st (va + PAGE_SIZE)) s0 s1"
    unfolding sn(1) using M by (intro only_trans [OF _ S(1)]) (simp add: mapped_to_def)
  ultimately show ?thesis using M S(3) by (auto simp: mapped_to_def sn(1) zeroed_def)
qed

lemma mapped_to_undone:
  assumes M: "mapped_to R r flags st va s0 s" and r: "r \<in> R" and e: "only R r {} s s1"
    and u: "only R r (in_pages st va) s1 s'" "unmapped r (in_pages st va) (tables s1) (tables s')"
  shows "only R r {} s0 s'"
proof (rule only_undone)
  show "only R r (in_pages st va) s0 s'"
    using M only_trans [OF only_trans [OF _ e] u(1), of "in_pages st va" s0] by (simp add: mapped_to_def)
  fix a assume a: "a \<in> in_pages st va"
  have "pte_of (tables s1) r a = pte_of (tables s) r a" using e r by (simp add: only_def)
  then have "is_u (pte_of (tables s1) r a)" using M a zeroed_u [of r "in_pages st va" flags s a] by (simp add: mapped_to_def)
  then have "pte_of (tables s') r a = 0" using u(2) a by (simp add: unmapped_def)
  then show "pte_of (tables s') r a = pte_of (tables s0) r a \<and> view (mem s') r a = view (mem s0) r a"
    using M a by (simp add: mapped_to_def view_def)
qed

lemma map_zeroed_loop_wp:
  assumes "sched_ok s" and "mapped_to R (cur_root s) (PTEFlags_new pr pw px True) st va s0 s" and "cur_root s \<in> R"
    and "page_aligned st" and "page_aligned va" and "page_aligned fin" and "st \<le> va" and "va \<le> fin" and "unat fin \<le> 2 ^ 31"
    and "pr \<or> px" and "pw \<longrightarrow> pr"
  shows "wp (map_zeroed_loop st va fin (PTEFlags_new pr pw px True)) (\<lambda>mapped s'.
      if mapped then mapped_to R (cur_root s) (PTEFlags_new pr pw px True) st fin s0 s' else only R (cur_root s) {} s0 s')
    (\<lambda>_ _. False) s"
  using assms
proof (induction va arbitrary: s rule: page_loop_induct [folded PAGE_SIZE_def])
  case (1 va)
  let ?fl = "PTEFlags_new pr pw px True"
  show ?case
  proof (cases "va < fin")
    case False
    then have "va = fin" using "1.prems"(8) by simp
    then show ?thesis using "1.prems"(2) by (subst map_zeroed_loop_unfold) (simp add: wp_simps)
  next
    case True
    have fin39: "unat fin \<le> 2 ^ 39" using "1.prems"(9) by simp
    note sg = page_range_step [OF "1.prems"(5,6) True fin39]
    have W: "world_ok s R" using "1.prems"(2) by (simp add: mapped_to_def only_def)
    have half: "vpn va 2 < 2" by (rule user_half) (use True "1.prems"(9) in \<open>simp add: word_less_nat_alt\<close>)
    let ?Q = "\<lambda>mapped s'. if mapped then mapped_to R (cur_root s) ?fl st fin s0 s' else only R (cur_root s) {} s0 s'"
    have more: "wp (map_zeroed_loop st (va + PAGE_SIZE) fin ?fl) ?Q (\<lambda>_ _. False) s1"
      if S: "only R (cur_root s) {a. same_page va a} s s1" "pte_of (tables s) (cur_root s) va = 0"
        "zeroed (cur_root s) {a. same_page va a} ?fl s1" for s1
    proof -
      note k = only_kernel [OF S(1) "1.prems"(1)]
      note m = mapped_to_step [OF "1.prems"(2,3,5) sg(1,5) "1.prems"(7) S]
      have le: "st \<le> va + PAGE_SIZE" using "1.prems"(7) sg(5) by (simp add: word_le_nat_alt)
      show ?thesis
        using "1.IH" [OF sg(2) k(2) _ _ "1.prems"(4) sg(3) "1.prems"(6) le sg(4) "1.prems"(9-11), unfolded k(3), OF m "1.prems"(3)] .
    qed
    have undo: "wp (kseq (unmap_user_pages st va) (ret False)) ?Q (\<lambda>_ _. False) s1" if e: "only R (cur_root s) {} s s1" for s1
    proof -
      note k = only_kernel [OF e "1.prems"(1)]
      have r1: "cur_root s1 \<in> R" and va39: "unat va \<le> 2 ^ 39" using "1.prems"(3) k(3) sg(1) by simp_all
      have "wp (unmap_user_pages st va) (\<lambda>_ s'. only R (cur_root s) {} s0 s') (\<lambda>_ _. False) s1"
        by (rule wp_mono [OF unmap_user_pages_wp [OF k(2,1) r1 "1.prems"(4,5) va39]], unfold k(3))
          (blast intro: mapped_to_undone [OF "1.prems"(2,3) e])+
      then show ?thesis by (simp add: wp_fun)
    qed
    have "wp (map_zeroed_step va ?fl) (\<lambda>mapped. wp (if mapped then map_zeroed_loop st (va + PAGE_SIZE) fin ?fl
        else kseq (unmap_user_pages st va) (ret False)) ?Q (\<lambda>_ _. False)) (\<lambda>_ _. False) s"
    proof (rule wp_mono [OF map_zeroed_step_wp [OF "1.prems"(1) W "1.prems"(3,5) sg(1) half "1.prems"(10,11)]])
      fix mapped s1
      assume A: "only R (cur_root s) (if mapped then {a. same_page va a} else {}) s s1 \<and>
        (mapped \<longrightarrow> pte_of (tables s) (cur_root s) va = 0 \<and> zeroed (cur_root s) {a. same_page va a} ?fl s1)"
      show "wp (if mapped then map_zeroed_loop st (va + PAGE_SIZE) fin ?fl
          else kseq (unmap_user_pages st va) (ret False)) ?Q (\<lambda>_ _. False) s1"
        using A more [of s1] undo [of s1] by (cases mapped) (simp_all only: if_True if_False simp_thms)
    qed
    then show ?thesis
      by (subst map_zeroed_loop_unfold) (simp only: True if_True wp_kbind [of "map_zeroed_step _ _"] kbind_uadd [OF sg(2)])
  qed
qed

lemma map_zeroed_user_pages_wp:
  assumes "sched_ok s" and "world_ok s R" and "cur_root s \<in> R" and "page_aligned st" and "page_aligned fin" and "st \<le> fin"
    and "unat fin \<le> 2 ^ 31" and "pr \<or> px" and "pw \<longrightarrow> pr"
  shows "wp (map_zeroed_user_pages st fin (PTEFlags_new pr pw px True)) (\<lambda>mapped s'.
      if mapped then mapped_to R (cur_root s) (PTEFlags_new pr pw px True) st fin s s' else only R (cur_root s) {} s s')
    (\<lambda>_ _. False) s"
proof -
  have "mapped_to R (cur_root s) (PTEFlags_new pr pw px True) st st s s"
    using only_refl [OF assms(2)] by (simp add: mapped_to_def in_pages_empty zeroed_def)
  from map_zeroed_loop_wp [OF assms(1) this assms(3,4,4,5) _ assms(6-9)] show ?thesis
    by (simp add: map_zeroed_user_pages_def)
qed

section \<open>Enough memory\<close>

text \<open>A page that is free takes at most three frames: itself and two tables.\<close>

lemma map_zeroed_step_has:
  assumes ok: "sched_ok s" and W: "world_ok s R" and r: "cur_root s \<in> R" and h: "frames_has (k + 3) s"
    and none: "pte_of (tables s) (cur_root s) va = 0"
  shows "wp (map_zeroed_step va flags) (\<lambda>mapped s'. mapped \<and> frames_has k s') (\<lambda>_ _. False) s"
proof -
  let ?pt = "page_table (cur_proc s)"
  have h': "frames_has (Suc (k + 2)) s" using h by (simp add: numeral_3_eq_3)
  have cont: "wp (case f of None \<Rightarrow> ret False | Some frame \<Rightarrow> kseq (fill_bytes frame 0 PAGE_SIZE)
      (kbind (map_page alloc_frame ?pt va frame flags) (\<lambda>mapped. if mapped then ret True else kseq (free_frame frame) (ret False))))
      (\<lambda>mapped s'. mapped \<and> frames_has k s') (\<lambda>_ _. False) s1"
    if A: "(f \<noteq> None \<and> frames_has (k + 2) s1) \<and> frames_ok s1 \<and> mem s1 = mem s \<and> (case f of None \<Rightarrow> live s1 = live s
         | Some p \<Rightarrow> \<not> live s p \<and> live s1 = (live s)(p := True))" for f s1
  proof -
    obtain q where f: "f = Some q" and q: "live s1 q" "frames_has (k + 2) s1" using A by auto
    let ?s2 = "s1\<lparr>mem := write_bytes (mem s1) q 0 PAGE_SIZE\<rparr>"
    have out: "write_bytes (mem s1) q 0 PAGE_SIZE x = mem s1 x" if "page_of x \<noteq> q" for x
      using that live_aligned [OF q(1)] by (simp add: write_bytes_page PAGE_SIZE_def)
    have "frames_has (k + 2) ?s2"
    proof (rule kcount.has_write [OF q(2)])
      fix x assume "\<not> live s1 (page_of x)"
      then have "page_of x \<noteq> q" using q(1) by auto
      then show "write_bytes (mem s1) q 0 PAGE_SIZE x = mem s1 x" by (rule out)
    qed
    then have h2: "frames_has (k + missing (tables ?s2) (root ?pt) va) ?s2"
      by (rule kcount.has_weaken) (simp add: missing_def split: option.splits)
    note wf = world_dest(3) [OF W r]
    have tab: "mem ?s2 x = mem s x" if "is_table (tables s) (root ?pt) (page_of x)" for x
      using is_table_live [OF wf that] A f out [of x] by auto
    note ts = tree_same [OF wf live_aligned [of s] tab]
    have "live ?s2 = live s1" by (simp add: live_def fun_eq_iff)
    then have lv: "live ?s2 t" if "live s t" for t using A f that by auto
    have "pt_wf (live ?s2) (tables ?s2) (root ?pt)" by (rule pt_wf_cong [OF wf ts(1,2) lv])
    from kcount.map_leaf_has [OF h2 this, of q flags False] show ?thesis
      unfolding f option.case wp_kseq wp_fill_bytes wp_kbind map_page_def
      by (rule wp_mono) (simp_all add: wp_simps)
  qed
  have "wp (kbind alloc_frame (\<lambda>f. case f of None \<Rightarrow> ret False | Some frame \<Rightarrow> kseq (fill_bytes frame 0 PAGE_SIZE)
      (kbind (map_page alloc_frame ?pt va frame flags) (\<lambda>mapped. if mapped then ret True else kseq (free_frame frame) (ret False)))))
      (\<lambda>mapped s'. mapped \<and> frames_has k s') (\<lambda>_ _. False) s"
    unfolding wp_kbind [of alloc_frame]
    by (rule wp_mono [OF wp_conj [OF kcount.has_alloc [OF h'] kframes.alloc [OF world_dest(1) [OF W]]]])
      (rule cont, assumption, simp)
  then show ?thesis using none by (simp add: wp_map_zeroed_step [OF ok])
qed

lemma map_zeroed_loop_has:
  assumes "sched_ok s" and "world_ok s R" and "cur_root s \<in> R" and "page_aligned va" and "page_aligned fin" and "va \<le> fin"
    and "unat fin \<le> 2 ^ 31" and "frames_has (k + 3 * ((unat fin - unat va) div 4096)) s"
    and "\<forall>a\<in>in_pages va fin. pte_of (tables s) (cur_root s) a = 0" and "pr \<or> px" and "pw \<longrightarrow> pr"
  shows "wp (map_zeroed_loop st va fin (PTEFlags_new pr pw px True)) (\<lambda>mapped s'. mapped \<and> frames_has k s') (\<lambda>_ _. False) s"
  using assms
proof (induction va arbitrary: s rule: page_loop_induct [folded PAGE_SIZE_def])
  case (1 va)
  let ?fl = "PTEFlags_new pr pw px True"
  show ?case
  proof (cases "va < fin")
    case False
    then have "frames_has k s" using "1.prems"(8) by (intro kcount.has_weaken [OF "1.prems"(8)]) simp
    then show ?thesis using False by (subst map_zeroed_loop_unfold) (simp add: wp_simps)
  next
    case True
    have fin39: "unat fin \<le> 2 ^ 39" using "1.prems"(7) by simp
    note sg = page_range_step [OF "1.prems"(4,5) True fin39]
    let ?n = "(unat fin - unat (va + PAGE_SIZE)) div 4096"
    have "unat fin - unat va = unat fin - unat (va + PAGE_SIZE) + 4096"
      using sg(4,5) by (simp add: word_le_nat_alt)
    then have "(unat fin - unat va) div 4096 = ?n + 1" by simp
    then have h: "frames_has (k + 3 * ?n + 3) s" using "1.prems"(8) by (simp only: distrib_left mult_1_right add.assoc)
    have half: "vpn va 2 < 2" by (rule user_half) (use True "1.prems"(7) in \<open>simp add: word_less_nat_alt\<close>)
    have none: "pte_of (tables s) (cur_root s) va = 0" using "1.prems"(9) sg(6) by (simp add: same_page_def)
    have more: "wp (map_zeroed_loop st (va + PAGE_SIZE) fin ?fl) (\<lambda>mapped s'. mapped \<and> frames_has k s') (\<lambda>_ _. False) s1"
      if S: "only R (cur_root s) {a. same_page va a} s s1" "frames_has (k + 3 * ?n) s1" for s1
    proof -
      note k = only_kernel [OF S(1) "1.prems"(1)]
      have dis: "\<not> same_page va a" if "a \<in> in_pages (va + PAGE_SIZE) fin" for a
        using that by (auto simp: in_pages_def sg(5) same_page_range [OF "1.prems"(4) sg(1)])
      have "\<forall>a\<in>in_pages (va + PAGE_SIZE) fin. pte_of (tables s1) (cur_root s) a = 0"
        using "1.prems"(9) sg(6) onlyD(1) [OF S(1) "1.prems"(3)] dis by simp
      then show ?thesis
        using "1.IH" [OF sg(2) k(2,1) _ sg(3) "1.prems"(5) sg(4) "1.prems"(7) S(2) _ "1.prems"(10,11), unfolded k(3), OF "1.prems"(3)] by blast
    qed
    have "wp (map_zeroed_step va ?fl) (\<lambda>mapped. wp (if mapped then map_zeroed_loop st (va + PAGE_SIZE) fin ?fl
        else kseq (unmap_user_pages st va) (ret False)) (\<lambda>mapped s'. mapped \<and> frames_has k s') (\<lambda>_ _. False)) (\<lambda>_ _. False) s"
      by (rule wp_mono [OF wp_conj [OF map_zeroed_step_wp [OF "1.prems"(1-4) sg(1) half "1.prems"(10,11)] map_zeroed_step_has [OF "1.prems"(1-3) h none]]])
        (use more in auto)
    then show ?thesis
      by (subst map_zeroed_loop_unfold) (simp only: True if_True wp_kbind [of "map_zeroed_step _ _"] kbind_uadd [OF sg(2)])
  qed
qed

text \<open>Unmapping gives frames back, if anything.\<close>

lemma unmap_step_has:
  assumes ok: "sched_ok s" and W: "world_ok s R" and r: "cur_root s \<in> R" and h: "frames_has k s"
  shows "wp (unmap_step va) (\<lambda>_. frames_has k) (\<lambda>_ _. False) s"
proof (cases "\<exists>ea. lookup_addr (tables s) (cur_root s) va = Some ea \<and> is_u (tables s ea)")
  case False
  then show ?thesis using h by (cases "lookup_addr (tables s) (cur_root s) va") (auto simp: unmap_step_def wp_simps wp_current [OF ok] lookup_def)
next
  case True
  then obtain ea where ea: "lookup_addr (tables s) (cur_root s) va = Some ea" "is_u (tables s ea)" by blast
  let ?p = "ppn_to_addr (tables s ea)" and ?d = "dec_ref_result (ppn_to_addr (tables s ea)) s"
  note le = lookup_entry [OF world_space [OF W r] ea(1)]
  have v: "is_valid (tables s ea)" "live s ?p" "\<not> is_table (tables s) (cur_root s) ?p"
    using world_leaf(1,3) [OF W r, of va] world_leaf(4) [OF W r, of va "cur_root s"] ea(2) le(4) r by auto
  obtain fl where fl: "frames_inv fl s" "4096 * k + unat (NEXT_FRAME s) \<le> 4096 * length fl + 0x88000000" using h by (auto simp: frames_has_def)
  note d = dec_ref_result_spec [OF fl(1) v(2)]
  have "NEXT_FRAME ?d = NEXT_FRAME s" by (simp add: dec_ref_result_def set_ref_def)
  then have hd: "frames_has k ?d"
    unfolding frames_has_def using d(1) fl(2) by (intro exI [of _ "if frame_ref s ?p = 1 then ?p # fl else fl"]) (simp split: if_splits)
  have "page_of ea \<noteq> ?p" using le(3) v(3) by auto
  then have "live ?d (page_of ea)" using le(2) d(2) [of "page_of ea"] live_frame_ok [OF le(2)] by (simp add: live_def)
  then have "write_u64 (mem ?d) ea w x = mem ?d x" if "\<not> live ?d (page_of x)" for w x
    using that by (intro write_u64_outside [OF le(1)]) auto
  from kcount.has_write [OF hd this] show ?thesis
    using ea v by (simp add: unmap_step_def wp_simps wp_current [OF ok] lookup_def wp_dec_ref [OF v(2)])
qed

lemma unmap_user_pages_has:
  assumes "sched_ok s" and "world_ok s R" and "cur_root s \<in> R" and "page_aligned va" and "page_aligned fin" and "unat fin \<le> 2 ^ 39" and "frames_has k s"
  shows "wp (unmap_user_pages va fin) (\<lambda>_. frames_has k) (\<lambda>_ _. False) s"
  using assms
proof (induction va arbitrary: s rule: page_loop_induct [folded PAGE_SIZE_def])
  case (1 va)
  show ?case
  proof (cases "va < fin")
    case False
    then show ?thesis using "1.prems"(7) by (subst unmap_user_pages_unfold) (simp add: wp_simps)
  next
    case True
    note st = page_range_step [OF "1.prems"(4,5) True "1.prems"(6)]
    have rest: "wp (unmap_user_pages (va + PAGE_SIZE) fin) (\<lambda>_. frames_has k) (\<lambda>_ _. False) s1"
      if o1: "only R (cur_root s) {a. same_page va a} s s1" and h: "frames_has k s1" for s1
    proof -
      note q = only_kernel [OF o1 "1.prems"(1)]
      have r1: "cur_root s1 \<in> R" using "1.prems"(3) q(3) by simp
      show ?thesis by (rule "1.IH" [OF st(2) q(2,1) r1 st(3) "1.prems"(5,6) h])
    qed
    have "wp (unmap_step va) (\<lambda>_. wp (unmap_user_pages (va + PAGE_SIZE) fin) (\<lambda>_. frames_has k) (\<lambda>_ _. False)) (\<lambda>_ _. False) s"
      by (rule wp_mono [OF wp_conj [OF unmap_step_wp [OF "1.prems"(1-4) st(1)] unmap_step_has [OF "1.prems"(1-3,7)]]]) (blast intro: rest)+
    then show ?thesis
      by (subst unmap_user_pages_unfold) (simp add: True wp_kbind [of "unmap_step va"] kbind_uadd [OF st(2)])
  qed
qed

end
