(* ===== verification/VmSpec.thy ===== *)
theory VmSpec
  imports Space
begin

text \<open>
  Specifications of \<open>brk\<close>, \<open>mmap\<close> and \<open>munmap\<close> (\<open>syscall.rs\<close>): what they return, how they change
  the memory that the calling program sees, and that no other program can tell.
\<close>

section \<open>Descriptors and address spaces\<close>

text \<open>A change of a descriptor touches no address space.\<close>

lemma frames_slot [simp]:
  "mem (update_slot i f s) = mem s" "frame_ref (update_slot i f s) p = frame_ref s p" "live (update_slot i f s) = live s"
  "frames_inv fl (update_slot i f s) = frames_inv fl s" "frames_ok (update_slot i f s) = frames_ok s"
  "world_ok (update_slot i f s) R = world_ok s R"
proof -
  show m: "mem (update_slot i f s) = mem s" and ref: "frame_ref (update_slot i f s) p = frame_ref s p" for p
    by (simp_all add: update_slot_def frame_ref_def)
  show lv: "live (update_slot i f s) = live s" by (simp add: live_def ref fun_eq_iff)
  show inv: "frames_inv fl (update_slot i f s) = frames_inv fl s" for fl
    unfolding frames_inv_def ref by (simp add: update_slot_def)
  show ok: "frames_ok (update_slot i f s) = frames_ok s" by (simp add: frames_ok_def inv)
  show "world_ok (update_slot i f s) R = world_ok s R"
    by (simp add: world_ok_def user_leaf_ok_def m ref lv ok)
qed

section \<open>brk\<close>

text \<open>The heap of a process: the pages below its break.\<close>

definition heap_bounds :: "Process \<Rightarrow> bool" where
  "heap_bounds p \<longleftrightarrow> heap_start p = USER_HEAP_START \<and> USER_HEAP_START \<le> heap_end p \<and> heap_end p \<le> USER_HEAP_LIMIT"

definition brk_view :: "usize \<Rightarrow> usize \<Rightarrow> (VirtAddr \<Rightarrow> u8 option) \<Rightarrow> VirtAddr \<Rightarrow> u8 option" where
  "brk_view old new f a = (if a \<in> in_pages (page_up old) (page_up new) then Some 0
     else if a \<in> in_pages (page_up new) (page_up old) then None else f a)"

lemma brk_view_same [simp]: "brk_view old old f = f"
  by (simp add: brk_view_def in_pages_empty fun_eq_iff)

lemma heap_page:
  assumes "x \<le> USER_HEAP_LIMIT"
  shows "unat x + 4096 < 2 ^ 64" "page_aligned (page_up x)" "unat (page_up x) \<le> 2 ^ 31" "unat (page_up x) \<le> 2 ^ 39"
proof -
  have b: "unat x \<le> 0x3e000000" using assms by (simp add: word_le_nat_alt USER_HEAP_LIMIT_def)
  then show x: "unat x + 4096 < 2 ^ 64" by simp
  show "page_aligned (page_up x)" by (rule page_up_facts(3) [OF x])
  have "unat (page_up x) < unat x + 4096" by (rule page_up_facts(5) [OF x])
  then show "unat (page_up x) \<le> 2 ^ 31" "unat (page_up x) \<le> 2 ^ 39" using b by simp_all
qed

lemma grow_heap_wp:
  assumes ok: "sched_ok s" "world_ok s R" "cur_root s \<in> R" and le: "old \<le> new" "new \<le> USER_HEAP_LIMIT"
  shows "wp (grow_heap old new) (\<lambda>grown s'. if grown
      then mapped_to R (cur_root s) (PTEFlags_new True True False True) (page_up old) (page_up new) s s'
      else only R (cur_root s) {} s s') (\<lambda>_ _. False) s"
proof -
  have "old \<le> USER_HEAP_LIMIT" using le by simp
  note o = heap_page [OF this] and n = heap_page [OF le(2)]
  show ?thesis
    unfolding grow_heap_def wp_kbind wp_align_up [OF o(1)] wp_align_up [OF n(1)]
    by (rule map_zeroed_user_pages_wp [OF ok o(2) n(2) page_up_mono [OF le(1) n(1)] n(3)]) simp_all
qed

lemma grow_heap_has:
  assumes ok: "sched_ok s" "world_ok s R" "cur_root s \<in> R" and le: "old \<le> new" "new \<le> USER_HEAP_LIMIT"
    and h: "frames_has (k + 3 * ((unat (page_up new) - unat (page_up old)) div 4096)) s"
    and free: "\<forall>a\<in>in_pages (page_up old) (page_up new). pte_of (tables s) (cur_root s) a = 0"
  shows "wp (grow_heap old new) (\<lambda>grown s'. grown \<and> frames_has k s') (\<lambda>_ _. False) s"
proof -
  have "old \<le> USER_HEAP_LIMIT" using le by simp
  note o = heap_page [OF this] and n = heap_page [OF le(2)]
  show ?thesis
    unfolding grow_heap_def wp_kbind wp_align_up [OF o(1)] wp_align_up [OF n(1)] map_zeroed_user_pages_def
    by (rule map_zeroed_loop_has [OF ok o(2) n(2) page_up_mono [OF le(1) n(1)] n(3) h free]) simp_all
qed

lemma shrink_heap_wp:
  assumes ok: "sched_ok s" "world_ok s R" "cur_root s \<in> R" and le: "new \<le> old" "old \<le> USER_HEAP_LIMIT"
  shows "wp (shrink_heap new old) (\<lambda>_ s'. only R (cur_root s) (in_pages (page_up new) (page_up old)) s s' \<and>
      unmapped (cur_root s) (in_pages (page_up new) (page_up old)) (tables s) (tables s')) (\<lambda>_ _. False) s"
proof -
  have "new \<le> USER_HEAP_LIMIT" using le by simp
  note n = heap_page [OF this] and o = heap_page [OF le(2)]
  show ?thesis
    unfolding shrink_heap_def wp_kbind wp_align_up [OF o(1)] wp_align_up [OF n(1)]
    by (rule unmap_user_pages_wp [OF ok n(2) o(2,4)])
qed

lemma shrink_heap_has:
  assumes ok: "sched_ok s" "world_ok s R" "cur_root s \<in> R" and le: "new \<le> old" "old \<le> USER_HEAP_LIMIT" and h: "frames_has k s"
  shows "wp (shrink_heap new old) (\<lambda>_. frames_has k) (\<lambda>_ _. False) s"
proof -
  have "new \<le> USER_HEAP_LIMIT" using le by simp
  note n = heap_page [OF this] and o = heap_page [OF le(2)]
  show ?thesis
    unfolding shrink_heap_def wp_kbind wp_align_up [OF o(1)] wp_align_up [OF n(1)]
    by (rule unmap_user_pages_has [OF ok n(2) o(2,4) h])
qed

lemma unmapped_view: "unmapped r A (tables s) (tables s') \<Longrightarrow> a \<in> A \<Longrightarrow> view (mem s') r a = None"
  by (auto simp: unmapped_def view_def Let_def)

text \<open>What the program sees after the heap grew or shrank.\<close>

lemma grown_view:
  assumes "mapped_to R r flags (page_up old) (page_up new) s s'" and "r \<in> R" and "old \<le> new" and "new \<le> USER_HEAP_LIMIT"
  shows "view (mem s') r a = brk_view old new (view (mem s) r) a"
proof -
  have "page_up old \<le> page_up new" by (rule page_up_mono [OF assms(3) heap_page(1) [OF assms(4)]])
  then have "in_pages (page_up new) (page_up old) = {}" by (rule in_pages_empty)
  then show ?thesis
    using assms(1) onlyD(2) [OF _ assms(2), of r "in_pages (page_up old) (page_up new)" s s' a]
    by (auto simp: brk_view_def mapped_to_def zeroed_def)
qed

lemma shrunk_view:
  assumes "only R r (in_pages (page_up new) (page_up old)) s s'"
    and "unmapped r (in_pages (page_up new) (page_up old)) (tables s) (tables s')" and "r \<in> R" and "new \<le> old" and "old \<le> USER_HEAP_LIMIT"
  shows "view (mem s') r a = brk_view old new (view (mem s) r) a"
proof -
  have "page_up new \<le> page_up old" by (rule page_up_mono [OF assms(4) heap_page(1) [OF assms(5)]])
  then have "in_pages (page_up old) (page_up new) = {}" by (rule in_pages_empty)
  then show ?thesis
    using unmapped_view [OF assms(2), of a] onlyD(2) [OF assms(1,3), of a] by (auto simp: brk_view_def)
qed

text \<open>The new break is stored in the descriptor once the pages are in place.\<close>

definition brk_done :: "PhysAddr set \<Rightarrow> 'a kernel_state_scheme \<Rightarrow> usize \<Rightarrow> 'a kernel_state_scheme \<Rightarrow> bool" where
  "brk_done R s v s' \<longleftrightarrow> world_ok s' R \<and> cur_proc s' = (cur_proc s)\<lparr>heap_end := v\<rparr> \<and>
     (\<forall>a. view (mem s') (cur_root s) a = brk_view (heap_end (cur_proc s)) v (view (mem s) (cur_root s)) a) \<and>
     (\<forall>r\<in>R. r \<noteq> cur_root s \<longrightarrow> (\<forall>a. view (mem s') r a = view (mem s) r a))"

lemma brk_commit:
  assumes ok: "sched_ok s" and o: "only R (cur_root s) A s t"
    and v: "\<And>a. view (mem t) (cur_root s) a = brk_view (heap_end (cur_proc s)) n (view (mem s) (cur_root s)) a"
    and P: "\<And>s'. brk_done R s n s' \<Longrightarrow> Q n s'"
  shows "wp (kbind current (\<lambda>_. kseq (update_current (\<lambda>p. p\<lparr>heap_end := n\<rparr>)) (ret n))) Q (\<lambda>_ _. False) t"
proof -
  note k = only_kernel [OF o ok]
  have "brk_done R s n (update_slot (unat (CURRENT t)) (\<lambda>p. p\<lparr>heap_end := n\<rparr>) t)"
    using k v onlyD(2) [OF o] by (simp add: brk_done_def cur_proc_update)
  then show ?thesis using P by (simp add: wp_simps wp_current [OF k(2)])
qed

lemma brk_unchanged:
  assumes "only R (cur_root s) {} s t" and "sched_ok s" and "cur_root s \<in> R"
  shows "brk_done R s (heap_end (cur_proc s)) t"
  using only_kernel [OF assms(1,2)] onlyD(2) [OF assms(1)] assms(3) by (simp add: brk_done_def)

lemma sys_brk_wp:
  assumes ok: "sched_ok s" "world_ok s R" "cur_root s \<in> R" and hb: "heap_bounds (cur_proc s)"
  shows "wp (sys_brk n) (\<lambda>v s'. brk_done R s v s' \<and> (v = n \<or> v = heap_end (cur_proc s)) \<and>
      (n < USER_HEAP_START \<or> USER_HEAP_LIMIT < n \<longrightarrow> v = heap_end (cur_proc s)) \<and>
      (USER_HEAP_START \<le> n \<and> n \<le> heap_end (cur_proc s) \<longrightarrow> v = n) \<and>
      (n \<le> USER_HEAP_LIMIT \<and> heap_end (cur_proc s) < n \<and>
       frames_has (3 * ((unat (page_up n) - unat (page_up (heap_end (cur_proc s)))) div 4096)) s \<and>
       (\<forall>a\<in>in_pages (page_up (heap_end (cur_proc s))) (page_up n). pte_of (tables s) (cur_root s) a = 0) \<longrightarrow> v = n))
    (\<lambda>_ _. False) s" (is "wp _ ?Q _ _")
proof -
  let ?old = "heap_end (cur_proc s)" and ?commit = "kbind current (\<lambda>_. kseq (update_current (\<lambda>p. p\<lparr>heap_end := n\<rparr>)) (ret n))"
  have h: "heap_start (cur_proc s) = USER_HEAP_START" "USER_HEAP_START \<le> ?old" "?old \<le> USER_HEAP_LIMIT"
    using hb by (simp_all add: heap_bounds_def)
  have zero: "(0 :: usize) < USER_HEAP_START" "USER_HEAP_START \<noteq> 0" by (simp_all add: USER_HEAP_START_def)
  note same = brk_unchanged [OF only_refl [OF ok(2)] ok(1,3)]
  have start: "wp (sys_brk n) Q R' s = wp (if n = 0 then ret ?old else if n < USER_HEAP_START \<or> USER_HEAP_LIMIT < n then ret ?old
      else if ?old < n then kbind (grow_heap ?old n) (\<lambda>grown. if \<not> grown then ret ?old else ?commit)
      else if n < ?old then kseq (shrink_heap n ?old) ?commit else ?commit) Q R' s" for Q R'
    by (simp add: sys_brk_def wp_kbind [of current] wp_current [OF ok(1)] Let_def h(1))
  show ?thesis
  proof (cases "n < USER_HEAP_START \<or> USER_HEAP_LIMIT < n")
    case True
    then have "?Q ?old s" using same h(2,3) by auto
    then show ?thesis unfolding start using True zero by (simp add: wp_ret)
  next
    case False
    then have n: "USER_HEAP_START \<le> n" "n \<le> USER_HEAP_LIMIT" "n \<noteq> 0" using zero by auto
    note inside = start [unfolded eq_False [THEN iffD2, OF n(3)] eq_False [THEN iffD2, OF False] if_False]
    consider "?old < n" | "n < ?old" | "n = ?old" by fastforce
    then show ?thesis
    proof cases
      case 1
      let ?C = "frames_has (3 * ((unat (page_up n) - unat (page_up ?old)) div 4096)) s \<and>
        (\<forall>a\<in>in_pages (page_up ?old) (page_up n). pte_of (tables s) (cur_root s) a = 0)"
      have le: "?old \<le> n" using 1 by simp
      have "wp (grow_heap ?old n) (\<lambda>grown _. ?C \<longrightarrow> grown) (\<lambda>_ _. False) s"
      proof (cases ?C)
        case True
        then have "wp (grow_heap ?old n) (\<lambda>grown s'. grown \<and> frames_has 0 s') (\<lambda>_ _. False) s"
          by (intro grow_heap_has [OF ok le n(2)]) auto
        then show ?thesis by (rule wp_mono) auto
      next
        case False
        show ?thesis by (rule wp_mono [OF grow_heap_wp [OF ok le n(2)]]) (use False in auto)
      qed
      note g = wp_conj [OF grow_heap_wp [OF ok le n(2)] this]
      have "wp (kbind (grow_heap ?old n) (\<lambda>grown. if \<not> grown then ret ?old else ?commit)) ?Q (\<lambda>_ _. False) s"
        unfolding wp_kbind [of "grow_heap _ _"]
      proof (rule wp_mono [OF g])
        fix grown t
        assume A: "(if grown then mapped_to R (cur_root s) (PTEFlags_new True True False True) (page_up ?old) (page_up n) s t
          else only R (cur_root s) {} s t) \<and> (?C \<longrightarrow> grown)"
        show "wp (if \<not> grown then ret ?old else ?commit) ?Q (\<lambda>_ _. False) t"
        proof (cases grown)
          case True
          then have m: "mapped_to R (cur_root s) (PTEFlags_new True True False True) (page_up ?old) (page_up n) s t" using A by simp
          then have o: "only R (cur_root s) (in_pages (page_up ?old) (page_up n)) s t" by (simp add: mapped_to_def)
          have "wp ?commit ?Q (\<lambda>_ _. False) t"
            by (rule brk_commit [OF ok(1) o grown_view [OF m ok(3) le n(2)]]) (use n 1 in auto)
          then show ?thesis using True by simp
        next
          case False
          then have "?Q ?old t" using A brk_unchanged [OF _ ok(1,3), of t] n 1 by auto
          then show ?thesis using False by (simp add: wp_ret)
        qed
      qed simp
      then show ?thesis unfolding inside if_P [OF 1] .
    next
      case 2
      then have le: "n \<le> ?old" by simp
      have "wp (kseq (shrink_heap n ?old) ?commit) ?Q (\<lambda>_ _. False) s"
        unfolding wp_kseq [of "shrink_heap _ _"]
      proof (rule wp_mono [OF shrink_heap_wp [OF ok le h(3)]])
        fix x t
        assume A: "only R (cur_root s) (in_pages (page_up n) (page_up ?old)) s t \<and>
          unmapped (cur_root s) (in_pages (page_up n) (page_up ?old)) (tables s) (tables t)"
        show "wp ?commit ?Q (\<lambda>_ _. False) t"
          by (rule brk_commit [OF ok(1) conjunct1 [OF A] shrunk_view [OF conjunct1 [OF A] conjunct2 [OF A] ok(3) le h(3)]])
            (use n 2 in auto)
      qed simp
      then show ?thesis unfolding inside if_not_P [OF less_not_sym [OF 2]] if_P [OF 2] .
    next
      case 3
      have "wp ?commit ?Q (\<lambda>_ _. False) s"
        by (rule brk_commit [OF ok(1) only_refl [OF ok(2)]]) (use 3 n in auto)
      moreover have "\<not> ?old < n" "\<not> n < ?old" using 3 by simp_all
      ultimately show ?thesis unfolding inside by (simp only: if_False)
    qed
  qed
qed

text \<open>The two ways of moving the break, with the page tables they leave.\<close>

lemma sys_brk_moves:
  fixes s :: "'a kernel_state_scheme"
  assumes ok: "sched_ok s" "world_ok s R" "cur_root s \<in> R" and hb: "heap_bounds (cur_proc s)" and n: "USER_HEAP_START \<le> n" "n \<le> USER_HEAP_LIMIT"
  shows "heap_end (cur_proc s) < n \<Longrightarrow> frames_has (k + 3 * ((unat (page_up n) - unat (page_up (heap_end (cur_proc s)))) div 4096)) s \<Longrightarrow>
      \<forall>a\<in>in_pages (page_up (heap_end (cur_proc s))) (page_up n). pte_of (tables s) (cur_root s) a = 0 \<Longrightarrow>
    wp (sys_brk n) (\<lambda>v t. v = n \<and> (\<exists>t'. mapped_to R (cur_root s) (PTEFlags_new True True False True) (page_up (heap_end (cur_proc s))) (page_up n) s t' \<and>
      frames_has k t' \<and> t = update_slot (unat (CURRENT t')) (\<lambda>p. p\<lparr>heap_end := n\<rparr>) t')) (\<lambda>_ _. False) s"
    and "n < heap_end (cur_proc s) \<Longrightarrow> frames_has k s \<Longrightarrow>
    wp (sys_brk n) (\<lambda>v t. v = n \<and> (\<exists>t'. only R (cur_root s) (in_pages (page_up n) (page_up (heap_end (cur_proc s)))) s t' \<and>
      unmapped (cur_root s) (in_pages (page_up n) (page_up (heap_end (cur_proc s)))) (tables s) (tables t') \<and>
      frames_has k t' \<and> t = update_slot (unat (CURRENT t')) (\<lambda>p. p\<lparr>heap_end := n\<rparr>) t')) (\<lambda>_ _. False) s"
proof -
  let ?old = "heap_end (cur_proc s)" and ?commit = "kbind current (\<lambda>_. kseq (update_current (\<lambda>p. p\<lparr>heap_end := n\<rparr>)) (ret n))"
  have h: "heap_start (cur_proc s) = USER_HEAP_START" "?old \<le> USER_HEAP_LIMIT" using hb by (simp_all add: heap_bounds_def)
  have "n \<noteq> 0" "\<not> (n < USER_HEAP_START \<or> USER_HEAP_LIMIT < n)" using n by (auto simp: USER_HEAP_START_def)
  then have start: "wp (sys_brk n) Q R' s = wp (if ?old < n then kbind (grow_heap ?old n) (\<lambda>grown. if \<not> grown then ret ?old else ?commit)
      else if n < ?old then kseq (shrink_heap n ?old) ?commit else ?commit) Q R' s" for Q R'
    by (simp add: sys_brk_def wp_kbind [of current] wp_current [OF ok(1)] Let_def h(1))
  have commit: "wp ?commit Q R' t = Q n (update_slot (unat (CURRENT t)) (\<lambda>p. p\<lparr>heap_end := n\<rparr>) t)" if "sched_ok t" for Q R' and t :: "'a kernel_state_scheme"
    using that by (simp add: wp_simps wp_current)
  show "wp (sys_brk n) (\<lambda>v t. v = n \<and> (\<exists>t'. mapped_to R (cur_root s) (PTEFlags_new True True False True) (page_up ?old) (page_up n) s t' \<and>
      frames_has k t' \<and> t = update_slot (unat (CURRENT t')) (\<lambda>p. p\<lparr>heap_end := n\<rparr>) t')) (\<lambda>_ _. False) s" (is "wp _ ?Q _ _")
    if g: "?old < n" "frames_has (k + 3 * ((unat (page_up n) - unat (page_up ?old)) div 4096)) s"
      "\<forall>a\<in>in_pages (page_up ?old) (page_up n). pte_of (tables s) (cur_root s) a = 0"
  proof -
    have le: "?old \<le> n" using g(1) by simp
    have "wp (grow_heap ?old n) (\<lambda>grown. wp (if \<not> grown then ret ?old else ?commit) ?Q (\<lambda>_ _. False)) (\<lambda>_ _. False) s"
    proof (rule wp_mono [OF wp_conj [OF grow_heap_wp [OF ok le n(2)] grow_heap_has [OF ok le n(2) g(2,3)]]])
      fix grown t
      assume A: "(if grown then mapped_to R (cur_root s) (PTEFlags_new True True False True) (page_up ?old) (page_up n) s t
          else only R (cur_root s) {} s t) \<and> grown \<and> frames_has k t"
      then have "sched_ok t" using only_kernel(2) [OF _ ok(1)] by (auto simp: mapped_to_def)
      then show "wp (if \<not> grown then ret ?old else ?commit) ?Q (\<lambda>_ _. False) t" using A commit by auto
    qed simp
    then show ?thesis unfolding start if_P [OF g(1)] wp_kbind [of "grow_heap _ _"] .
  qed
  show "wp (sys_brk n) (\<lambda>v t. v = n \<and> (\<exists>t'. only R (cur_root s) (in_pages (page_up n) (page_up ?old)) s t' \<and>
      unmapped (cur_root s) (in_pages (page_up n) (page_up ?old)) (tables s) (tables t') \<and>
      frames_has k t' \<and> t = update_slot (unat (CURRENT t')) (\<lambda>p. p\<lparr>heap_end := n\<rparr>) t')) (\<lambda>_ _. False) s" (is "wp _ ?Q _ _")
    if g: "n < ?old" "frames_has k s"
  proof -
    have le: "n \<le> ?old" using g(1) by simp
    have "wp (shrink_heap n ?old) (\<lambda>_. wp ?commit ?Q (\<lambda>_ _. False)) (\<lambda>_ _. False) s"
      by (rule wp_mono [OF wp_conj [OF shrink_heap_wp [OF ok le h(2)] shrink_heap_has [OF ok le h(2) g(2)]]]) (use commit only_kernel(2) [OF _ ok(1)] in auto)
    then show ?thesis unfolding start if_not_P [OF less_not_sym [OF g(1)]] if_P [OF g(1)] wp_kseq [of "shrink_heap _ _"] .
  qed
qed

section \<open>munmap\<close>

text \<open>The ranges that \<open>munmap\<close> accepts, before it looks at the table.\<close>

definition munmap_ok :: "usize \<Rightarrow> usize \<Rightarrow> bool" where
  "munmap_ok addr len \<longleftrightarrow> page_aligned addr \<and> len \<noteq> 0 \<and> 0x3e000000 \<le> unat addr \<and> unat addr + unat len \<le> 0x3f000000"

lemma checked_align_up_value: "checked_align_up len = (if unat len + 4095 < 2 ^ 64 then Some (page_up len) else None)"
proof -
  have "add_overflows len 0xFFF \<longleftrightarrow> \<not> unat len + 4095 < 2 ^ 64" by (simp add: add_overflows_def not_less)
  moreover have "len + 4096 - 1 = len + 0xFFF" by simp
  ultimately show ?thesis
    by (simp only: checked_align_up_def checked_add_def PAGE_SIZE_def page_up_def page_of_def) simp
qed

lemma page_up_fits:
  assumes "page_aligned a" and "unat len + 4096 < 2 ^ 64"
  shows "unat a + unat (page_up len) \<le> 0x3f000000 \<longleftrightarrow> unat a + unat len \<le> 0x3f000000"
proof -
  obtain k where k: "unat a = 4096 * k" using assms(1) by (auto simp: page_aligned_iff_dvd)
  obtain m where m: "unat (page_up len) = 4096 * m" using page_up_facts(3) [OF assms(2)] by (auto simp: page_aligned_iff_dvd)
  have "unat len \<le> 4096 * m" "4096 * m < unat len + 4096" using page_up_facts(4,5) [OF assms(2)] m by simp_all
  then have "k + m < 0x3f001" if "4096 * k + unat len \<le> 0x3f000000" using that by linarith
  then have "4096 * k + 4096 * m \<le> 0x3f000000" if "4096 * k + unat len \<le> 0x3f000000" using that by force
  then show ?thesis using m k page_up_facts(4) [OF assms(2)] by auto
qed

lemma sys_munmap_cases:
  "sys_munmap addr len = (if munmap_ok addr len
     then kbind (can_split_mmap_range addr (addr + page_up len)) (\<lambda>ok. if \<not> ok then ret (linux_error ENOMEM)
       else kseq (unmap_user_pages addr (addr + page_up len)) (kseq (remove_mmap_range addr (addr + page_up len)) (ret 0)))
     else ret (linux_error EINVAL))"
proof (cases "page_aligned addr")
  case True
  then have al: "addr AND (PAGE_SIZE - 1) = 0" by (simp add: page_aligned_def PAGE_SIZE_def)
  have win: "addr < USER_MMAP_START \<longleftrightarrow> unat addr < 0x3e000000" "USER_MMAP_LIMIT < f \<longleftrightarrow> 0x3f000000 < unat f" for f
    by (simp_all add: USER_MMAP_START_def USER_HEAP_LIMIT_def USER_MMAP_LIMIT_def word_less_nat_alt)
  show ?thesis
  proof (cases "unat len + 4096 < 2 ^ 64")
    case True
    have l: "checked_align_up len = Some (page_up len)" using True by (simp add: checked_align_up_value)
    note up = page_up_facts(4,5) [OF True] and fits = page_up_fits [OF \<open>page_aligned addr\<close> True]
    have z: "page_up len = 0 \<longleftrightarrow> len = 0"
    proof
      assume "page_up len = 0"
      then have "unat len = 0" using up(1) by simp
      then show "len = 0" by (simp add: unat_eq_0)
    qed (simp add: page_up_def page_of_def)
    show ?thesis
    proof (cases "checked_add addr (page_up len)")
      case None
      then have "\<not> unat addr + unat (page_up len) \<le> 0x3f000000" by (auto simp: checked_add_def add_overflows_def split: if_splits)
      then have "\<not> munmap_ok addr len" using fits by (simp add: munmap_ok_def)
      then show ?thesis using al l None by (simp add: sys_munmap_def)
    next
      case (Some f)
      then have f: "f = addr + page_up len" "unat f = unat addr + unat (page_up len)"
        using checked_add_unat [OF Some] by (auto simp: checked_add_Some_iff)
      have ok: "munmap_ok addr len \<longleftrightarrow> len \<noteq> 0 \<and> \<not> (addr < USER_MMAP_START \<or> USER_MMAP_LIMIT < f)"
        using \<open>page_aligned addr\<close> fits f(2) by (auto simp: munmap_ok_def win)
      show ?thesis unfolding ok using al l Some z f(1) by (auto simp: sys_munmap_def)
    qed
  next
    case False
    have bad: "addr < USER_MMAP_START" if "checked_align_up len = Some l" "checked_add addr l = Some f" for l f
    proof -
      have "unat l = unat (len + 4095) div 4096 * 4096" "unat (len + 4095) = unat len + 4095"
        using that(1) unat_page_of [of "len + 4095"] unat_add_no_overflow [of len 4095]
        by (auto simp: checked_align_up_def checked_add_def PAGE_SIZE_def page_of_def split: if_splits)
      then have "2 ^ 64 - 4096 \<le> unat l" using False by simp
      then show ?thesis using that(2) win(1) by (simp add: checked_add_Some_iff)
    qed
    have "\<not> munmap_ok addr len" using False by (simp add: munmap_ok_def)
    then show ?thesis using al bad by (auto simp: sys_munmap_def split: option.splits)
  qed
qed (simp add: sys_munmap_def munmap_ok_def page_aligned_def PAGE_SIZE_def)

lemma munmap_range:
  assumes "munmap_ok addr len"
  shows "unat len + 4096 < 2 ^ 64" "page_aligned (addr + page_up len)" "addr < addr + page_up len"
    "unat (addr + page_up len) = unat addr + unat (page_up len)" "unat (addr + page_up len) \<le> 0x3f000000"
proof -
  have a: "page_aligned addr" "0x3e000000 \<le> unat addr" "unat addr + unat len \<le> 0x3f000000" "0 < unat len"
    using assms by (auto simp: munmap_ok_def unat_gt_0)
  then show l: "unat len + 4096 < 2 ^ 64" by simp
  then have le: "unat addr + unat (page_up len) \<le> 0x3f000000" using page_up_fits [OF a(1)] a(3) by blast
  then show u: "unat (addr + page_up len) = unat addr + unat (page_up len)" by (intro unat_add_no_overflow) (simp add: add_overflows_def)
  then show "unat (addr + page_up len) \<le> 0x3f000000" using le by simp
  show "page_aligned (addr + page_up len)"
    using a(1) page_up_facts(3) [OF l] by (simp add: page_aligned_iff_dvd u)
  show "addr < addr + page_up len" using page_up_facts(4) [OF l] a(4) by (simp add: word_less_nat_alt u)
qed

definition munmap_done :: "PhysAddr set \<Rightarrow> usize \<Rightarrow> usize \<Rightarrow> 'a kernel_state_scheme \<Rightarrow> 'a kernel_state_scheme \<Rightarrow> bool" where
  "munmap_done R st fin s s' \<longleftrightarrow> world_ok s' R \<and>
     (\<forall>a. view (mem s') (cur_root s) a = (if a \<in> in_pages st fin then None else view (mem s) (cur_root s) a)) \<and>
     (\<forall>r\<in>R. r \<noteq> cur_root s \<longrightarrow> (\<forall>a. view (mem s') r a = view (mem s) r a)) \<and>
     (\<exists>as. cur_proc s' = (cur_proc s)\<lparr>mmap_areas := as\<rparr> \<and> areas_ok as \<and>
        (\<forall>x. area_at as x = (if unat st \<le> x \<and> x < unat fin then None else area_at (mmap_areas (cur_proc s)) x)))"

text \<open>The page tables and the table of areas after a cut.\<close>

definition munmap_cut :: "PhysAddr set \<Rightarrow> nat \<Rightarrow> usize \<Rightarrow> usize \<Rightarrow> 'a kernel_state_scheme \<Rightarrow> 'a kernel_state_scheme \<Rightarrow> bool" where
  "munmap_cut R k st fin s s' \<longleftrightarrow> (\<exists>t as. only R (cur_root s) (in_pages st fin) s t \<and>
     unmapped (cur_root s) (in_pages st fin) (tables s) (tables t) \<and> (frames_has k s \<longrightarrow> frames_has k t) \<and> s' = with_areas as t \<and> areas_ok as \<and>
     (\<forall>x. area_at as x = (if unat st \<le> x \<and> x < unat fin then None else area_at (mmap_areas (cur_proc s)) x)))"

lemma munmap_cut_done:
  assumes "munmap_cut R k st fin s s'" and ok: "sched_ok s" "cur_root s \<in> R"
  shows "munmap_done R st fin s s'"
proof -
  obtain t as1 where o: "only R (cur_root s) (in_pages st fin) s t" and u: "unmapped (cur_root s) (in_pages st fin) (tables s) (tables t)"
    and s': "s' = with_areas as1 t" and a1: "areas_ok as1"
      "\<forall>x. area_at as1 x = (if unat st \<le> x \<and> x < unat fin then None else area_at (mmap_areas (cur_proc s)) x)"
    using assms(1) unfolding munmap_cut_def by blast
  note k = only_kernel [OF o ok(1)]
  have seen: "view (mem t) (cur_root s) a = (if a \<in> in_pages st fin then None else view (mem s) (cur_root s) a)" for a
    using unmapped_view [OF u, of a] onlyD(2) [OF o ok(2), of a] by auto
  show ?thesis
    unfolding munmap_done_def using a1 k seen onlyD(2) [OF o]
    by (intro conjI exI [of _ as1]) (simp_all add: s' cur_proc_with_areas, simp add: with_areas_def)
qed

lemma munmap_core_wp:
  assumes ok: "sched_ok s" "world_ok s R" "cur_root s \<in> R" and as: "areas_ok (mmap_areas (cur_proc s))"
    and al: "page_aligned st" "page_aligned fin" and lt: "st < fin" and lim: "unat fin \<le> 2 ^ 39"
    and sp: "splittable st fin (mmap_areas (cur_proc s))"
  shows "wp (kseq (unmap_user_pages st fin) (kseq (remove_mmap_range st fin) (ret 0)))
    (\<lambda>v s'. v = (0 :: usize) \<and> munmap_cut R k st fin s s') (\<lambda>_ _. False) s"
proof -
  have has: "wp (unmap_user_pages st fin) (\<lambda>_ t. frames_has k s \<longrightarrow> frames_has k t) (\<lambda>_ _. False) s"
  proof (cases "frames_has k s")
    case True
    then show ?thesis by (intro wp_mono [OF unmap_user_pages_has [OF ok al lim]]) simp_all
  next
    case False
    then show ?thesis by (intro wp_mono [OF unmap_user_pages_wp [OF ok al lim]]) simp_all
  qed
  show ?thesis
    unfolding wp_kseq
  proof (rule wp_mono [OF wp_conj [OF unmap_user_pages_wp [OF ok al lim] has]])
    fix x t
    assume A: "(only R (cur_root s) (in_pages st fin) s t \<and> unmapped (cur_root s) (in_pages st fin) (tables s) (tables t)) \<and>
      (frames_has k s \<longrightarrow> frames_has k t)"
    then have o: "only R (cur_root s) (in_pages st fin) s t" by blast
    note q = only_kernel [OF o ok(1)]
    have as': "areas_ok (mmap_areas (cur_proc t))" using as q(3) by simp
    have pre: "can_split_mmap_range st fin t = (Val True, t)" using can_split_value [OF q(2) as' lt] sp q(3) by simp
    show "wp (remove_mmap_range st fin) (\<lambda>_. wp (ret 0) (\<lambda>v s'. v = 0 \<and> munmap_cut R k st fin s s') (\<lambda>_ _. False)) (\<lambda>_ _. False) t"
    proof (rule wp_mono [OF remove_mmap_range_wp [OF q(2) as' al lt pre]])
      fix y s'
      assume "\<exists>as'. s' = with_areas as' t \<and> areas_ok as' \<and>
        (\<forall>x. area_at as' x = (if unat st \<le> x \<and> x < unat fin then None else area_at (mmap_areas (cur_proc t)) x))"
      then have "munmap_cut R k st fin s s'" unfolding munmap_cut_def using A q(3) by (intro exI [of _ t]) auto
      then show "wp (ret 0) (\<lambda>v s'. v = 0 \<and> munmap_cut R k st fin s s') (\<lambda>_ _. False) s'" by (simp add: wp_ret)
    qed simp
  qed simp
qed

lemma sys_munmap_cut:
  assumes ok: "sched_ok s" "world_ok s R" "cur_root s \<in> R" and as: "areas_ok (mmap_areas (cur_proc s))"
  shows "wp (sys_munmap addr len) (\<lambda>v s'. if munmap_ok addr len \<and> splittable addr (addr + page_up len) (mmap_areas (cur_proc s))
      then v = 0 \<and> munmap_cut R k addr (addr + page_up len) s s'
      else v = (if munmap_ok addr len then linux_error ENOMEM else linux_error EINVAL) \<and> s' = s) (\<lambda>_ _. False) s"
proof (cases "munmap_ok addr len")
  case True
  let ?fin = "addr + page_up len"
  note m = munmap_range [OF True]
  have a: "page_aligned addr" using True by (simp add: munmap_ok_def)
  have lim: "unat ?fin \<le> 2 ^ 39" using m(5) by simp
  have "wp (can_split_mmap_range addr ?fin) Q S s = Q (splittable addr ?fin (mmap_areas (cur_proc s))) s" for Q S
    by (simp add: wp_def can_split_value [OF ok(1) as m(3)])
  then show ?thesis
    using True munmap_core_wp [OF ok as a m(2,3) lim] by (simp add: sys_munmap_cases wp_kbind [of "can_split_mmap_range _ _"] wp_ret)
qed (simp add: sys_munmap_cases wp_ret)

lemma sys_munmap_wp:
  assumes ok: "sched_ok s" "world_ok s R" "cur_root s \<in> R" and as: "areas_ok (mmap_areas (cur_proc s))"
  shows "wp (sys_munmap addr len) (\<lambda>v s'. if munmap_ok addr len \<and> splittable addr (addr + page_up len) (mmap_areas (cur_proc s))
      then v = 0 \<and> munmap_done R addr (addr + page_up len) s s'
      else v = (if munmap_ok addr len then linux_error ENOMEM else linux_error EINVAL) \<and> s' = s) (\<lambda>_ _. False) s"
  by (rule wp_mono [OF sys_munmap_cut [OF assms, where k = 0]]) (auto intro: munmap_cut_done [OF _ ok(1,3)] split: if_splits)

section \<open>mmap\<close>

text \<open>The requests that \<open>mmap\<close> serves: private anonymous memory with some permission.\<close>

definition mmap_request :: "usize \<Rightarrow> usize \<Rightarrow> usize \<Rightarrow> usize \<Rightarrow> usize + usize \<times> PTEFlags" where
  "mmap_request len prot flags offset =
     (if len = 0 \<or> 2 ^ 64 \<le> unat len + 4095 \<or> \<not> page_aligned offset then Inl EINVAL
      else if flags \<noteq> MAP_PRIVATE OR MAP_ANONYMOUS then Inl ENOSYS
      else (case pte_flags_from_prot prot of None \<Rightarrow> Inl EINVAL | Some pf \<Rightarrow> Inr (page_up len, pf)))"

lemma mmap_flags:
  "flags AND MAP_FIXED = 0 \<and> flags AND MAP_ANONYMOUS \<noteq> 0 \<and> flags AND MAP_PRIVATE \<noteq> 0 \<and>
     flags AND NOT (MAP_PRIVATE OR MAP_FIXED OR MAP_ANONYMOUS) = 0 \<longleftrightarrow> flags = MAP_PRIVATE OR MAP_ANONYMOUS"
proof -
  have e: "MAP_FIXED = push_bit 4 1" "MAP_ANONYMOUS = push_bit 5 1" "MAP_PRIVATE = push_bit 1 1"
    by (simp_all add: MAP_FIXED_def MAP_ANONYMOUS_def MAP_PRIVATE_def)
  have b: "flags AND push_bit k 1 \<noteq> 0 \<longleftrightarrow> bit flags k" for k by (simp only: bit_iff_and_push_bit_not_eq_0)
  have m: "bit (push_bit k (1 :: usize)) n \<longleftrightarrow> n = k" if "k < 64" for k n using that by (auto simp: bit_simps)
  show ?thesis
  proof
    assume "flags = MAP_PRIVATE OR MAP_ANONYMOUS"
    then show "flags AND MAP_FIXED = 0 \<and> flags AND MAP_ANONYMOUS \<noteq> 0 \<and> flags AND MAP_PRIVATE \<noteq> 0 \<and>
      flags AND NOT (MAP_PRIVATE OR MAP_FIXED OR MAP_ANONYMOUS) = 0"
      by (simp add: MAP_FIXED_def MAP_ANONYMOUS_def MAP_PRIVATE_def)
  next
    assume A: "flags AND MAP_FIXED = 0 \<and> flags AND MAP_ANONYMOUS \<noteq> 0 \<and> flags AND MAP_PRIVATE \<noteq> 0 \<and>
      flags AND NOT (MAP_PRIVATE OR MAP_FIXED OR MAP_ANONYMOUS) = 0"
    have f: "\<not> bit flags 4" "bit flags 5" "bit flags 1"
      using A b [of 4] b [of 5] b [of 1] unfolding e by simp_all
    have r: "n = 1 \<or> n = 4 \<or> n = 5" if n: "bit flags n" "n < 64" for n
    proof (rule ccontr)
      assume "\<not> (n = 1 \<or> n = 4 \<or> n = 5)"
      then have "\<not> bit (push_bit 1 1 OR push_bit 4 1 OR push_bit 5 1 :: usize) n"
        unfolding bit_or_iff using m [of 1 n] m [of 4 n] m [of 5 n] by simp
      then have "bit (flags AND NOT (MAP_PRIVATE OR MAP_FIXED OR MAP_ANONYMOUS)) n"
        unfolding e bit_and_iff bit_not_iff using n by (simp only: possible_bit_word simp_thms) simp
      then show False using A by simp
    qed
    show "flags = MAP_PRIVATE OR MAP_ANONYMOUS"
    proof (rule bit_word_eqI)
      fix n assume n: "n < LENGTH(64)"
      have "bit (push_bit 1 1 OR push_bit 5 1 :: usize) n \<longleftrightarrow> n = 1 \<or> n = 5"
        unfolding bit_or_iff using m [of 1 n] m [of 5 n] by simp
      then show "bit flags n \<longleftrightarrow> bit (MAP_PRIVATE OR MAP_ANONYMOUS) n"
        unfolding e using n f r [of n] by auto
    qed
  qed
qed

text \<open>The part of \<open>sys_mmap\<close> after its checks.\<close>

abbreviation mmap_place :: "usize \<Rightarrow> usize \<Rightarrow> usize \<Rightarrow> usize \<Rightarrow> PTEFlags \<Rightarrow> ('a kernel_state_scheme, usize) kernel" where
  "mmap_place addr n prot flags pf \<equiv> kbind (choose_mmap_addr addr n) (\<lambda>r. case r of
      None \<Rightarrow> ret (linux_error ENOMEM)
    | Some start \<Rightarrow> kbind (uadd start n) (\<lambda>fin. kbind find_free_mmap_slot (\<lambda>sl. case sl of
        None \<Rightarrow> ret (linux_error ENOMEM)
      | Some slot \<Rightarrow> kbind (map_zeroed_user_pages start fin pf) (\<lambda>mapped. if \<not> mapped then ret (linux_error ENOMEM)
          else kbind current (\<lambda>_. kseq (set_area slot \<lparr>area_start = start, area_len = n, area_prot = prot, area_flags = flags, area_used = True\<rparr>)
            (ret start))))))"

lemma page_up_zero: "unat x + 4095 < 2 ^ 64 \<Longrightarrow> page_up x = 0 \<longleftrightarrow> x = 0"
proof -
  assume x: "unat x + 4095 < 2 ^ 64"
  then have "\<not> add_overflows x 4095" by (simp add: add_overflows_def)
  from unat_add_no_overflow [OF this] have "unat (x + 4095) = unat x + 4095" by simp
  moreover have "x + 4096 - 1 = x + 4095" by simp
  ultimately have u: "unat (page_up x) = (unat x + 4095) div 4096 * 4096" by (simp only: page_up_def unat_page_of)
  have "(unat x + 4095) div 4096 = 0 \<longleftrightarrow> unat x = 0" by (simp add: div_eq_0_iff)
  then show ?thesis using u by (simp add: word_unat_eq_iff)
qed

lemma sys_mmap_cases:
  "sys_mmap addr len prot flags fd offset = (case mmap_request len prot flags offset of
     Inl e \<Rightarrow> ret (linux_error e) | Inr (n, pf) \<Rightarrow> mmap_place addr n prot flags pf)"
proof (cases "unat len + 4095 < 2 ^ 64")
  case True
  have l: "checked_align_up len = Some (page_up len)" "page_up len = 0 \<longleftrightarrow> len = 0"
    using True by (simp_all add: checked_align_up_value page_up_zero)
  have off: "offset AND (PAGE_SIZE - 1) = 0 \<longleftrightarrow> page_aligned offset" by (simp add: page_aligned_def PAGE_SIZE_def)
  show ?thesis
  proof (cases "flags = MAP_PRIVATE OR MAP_ANONYMOUS")
    case P: True
    then have f: "flags AND MAP_FIXED = 0" "flags AND MAP_ANONYMOUS \<noteq> 0" "flags AND MAP_PRIVATE \<noteq> 0"
      "flags AND NOT (MAP_PRIVATE OR MAP_FIXED OR MAP_ANONYMOUS) = 0" using mmap_flags [of flags] by blast+
    show ?thesis unfolding sys_mmap_def off l option.case mmap_request_def using P f True
      by (simp only: simp_thms if_False) (auto split: option.split)
  next
    case False
    then have "flags AND MAP_FIXED \<noteq> 0 \<or> flags AND MAP_ANONYMOUS = 0 \<or> flags AND MAP_PRIVATE = 0 \<or>
      flags AND NOT (MAP_PRIVATE OR MAP_FIXED OR MAP_ANONYMOUS) \<noteq> 0" using mmap_flags [of flags] by blast
    moreover have "\<not> 2 ^ 64 \<le> unat len + 4095" using True by simp
    ultimately show ?thesis using False unfolding sys_mmap_def off l(1) option.case l(2) mmap_request_def
      by (simp only: option.case) (auto simp only: if_True if_False simp_thms if_cancel sum.case split: if_split)
  qed
qed (simp add: sys_mmap_def checked_align_up_value mmap_request_def)

lemma pte_flags_proper:
  assumes "pte_flags_from_prot prot = Some pf"
  shows "\<exists>pr pw px. pf = PTEFlags_new pr pw px True \<and> (pr \<or> px) \<and> (pw \<longrightarrow> pr)"
proof -
  have pf: "pf = PTEFlags_new (bit prot 0 \<or> bit prot 1) (bit prot 1) (bit prot 2) True"
    and p: "prot \<noteq> 0" "\<And>n. 3 \<le> n \<Longrightarrow> \<not> bit prot n"
    using assms by (auto simp: pte_flags_from_prot_value split: if_splits)
  obtain n where n: "bit prot n" using p(1) by (auto simp: bit_eq_iff)
  then have "n < 3" using p(2) [of n] by fastforce
  then consider "n = 0" | "n = 1" | "n = 2" by linarith
  then have "(bit prot 0 \<or> bit prot 1) \<or> bit prot 2" using n by cases simp_all
  then show ?thesis using pf by blast
qed

lemma mmap_request_Inr:
  assumes "mmap_request len prot flags offset = Inr (n, pf)"
  shows "page_aligned n" "n \<noteq> 0" "\<exists>pr pw px. pf = PTEFlags_new pr pw px True \<and> (pr \<or> px) \<and> (pw \<longrightarrow> pr)"
  using assms page_up_zero [of len] pte_flags_proper [of prot pf] checked_align_up_aligned [of len n]
  by (auto simp: mmap_request_def checked_align_up_value not_le split: if_splits option.splits)

definition mmap_done :: "PhysAddr set \<Rightarrow> usize \<Rightarrow> usize \<Rightarrow> usize \<Rightarrow> usize \<Rightarrow> PTEFlags \<Rightarrow> 'a kernel_state_scheme \<Rightarrow> 'a kernel_state_scheme \<Rightarrow> bool" where
  "mmap_done R g n prot flags pf s s' \<longleftrightarrow> world_ok s' R \<and> page_aligned g \<and>
     free_at (mmap_areas (cur_proc s)) (unat n) (unat g) \<and> zeroed (cur_root s) (in_pages g (g + n)) pf s' \<and>
     (\<forall>a. a \<notin> in_pages g (g + n) \<longrightarrow> view (mem s') (cur_root s) a = view (mem s) (cur_root s) a) \<and>
     (\<forall>r\<in>R. r \<noteq> cur_root s \<longrightarrow> (\<forall>a. view (mem s') r a = view (mem s) r a)) \<and>
     (\<exists>as. cur_proc s' = (cur_proc s)\<lparr>mmap_areas := as\<rparr> \<and> areas_ok as \<and>
        (\<forall>x. area_at as x = (if unat g \<le> x \<and> x < unat (g + n) then Some (prot, flags) else area_at (mmap_areas (cur_proc s)) x)))"

definition same_view :: "PhysAddr set \<Rightarrow> 'a kernel_state_scheme \<Rightarrow> 'a kernel_state_scheme \<Rightarrow> bool" where
  "same_view R s s' \<longleftrightarrow> world_ok s' R \<and> cur_proc s' = cur_proc s \<and> (\<forall>r\<in>R. \<forall>a. view (mem s') r a = view (mem s) r a)"

text \<open>Recording the new area.\<close>

lemma area_at_insert:
  assumes as: "areas_ok as" and i: "i < 32" "\<not> area_used (as ! i)" and a: "area_used a" "area_ok a"
    and free: "free_at as (unat (area_len a)) (lo a)"
  shows "areas_ok (as[i := a])"
    and "area_at (as[i := a]) x = (if lo a \<le> x \<and> x < hi a then Some (area_prot a, area_flags a) else area_at as x)"
proof -
  show ok: "areas_ok (as[i := a])"
    by (rule areas_ok_insert [OF as i(1) a(2)]) (use free in \<open>auto simp: free_at_def lo_def hi_def\<close>)
  have len: "length as = 32" using as by (simp add: areas_ok_def)
  show "area_at (as[i := a]) x = (if lo a \<le> x \<and> x < hi a then Some (area_prot a, area_flags a) else area_at as x)"
  proof (cases "in_area a x")
    case True
    then have "area_at (as[i := a]) x = Some (area_prot a, area_flags a)"
      unfolding area_at_iff [OF ok] using i len by (intro exI [of _ i]) simp
    then show ?thesis using True by (simp add: in_area_def)
  next
    case False
    then have "area_at (as[i := a]) x = area_at as x"
      using i by (intro area_at_replace [OF as ok i(1)]) (simp_all add: in_area_def)
    then show ?thesis using False a by (auto simp: in_area_def)
  qed
qed

lemma mmap_commit:
  assumes ok: "sched_ok s" and r: "cur_root s \<in> R" and as: "areas_ok (mmap_areas (cur_proc s))"
    and sl: "slot < 32" "\<not> area_used (mmap_areas (cur_proc s) ! slot)"
    and n: "page_aligned n" "n \<noteq> 0" and g: "page_aligned g" "free_at (mmap_areas (cur_proc s)) (unat n) (unat g)"
    and m: "mapped_to R (cur_root s) pf g (g + n) s t"
  shows "wp (kbind current (\<lambda>_. kseq (set_area slot \<lparr>area_start = g, area_len = n, area_prot = prot, area_flags = flags, area_used = True\<rparr>)
      (ret g))) (\<lambda>v s'. v = g \<and> mmap_done R g n prot flags pf s s') (\<lambda>_ _. False) t"
proof -
  let ?a = "\<lparr>area_start = g, area_len = n, area_prot = prot, area_flags = flags, area_used = True\<rparr>"
  let ?as = "(mmap_areas (cur_proc s))[slot := ?a]"
  have o: "only R (cur_root s) (in_pages g (g + n)) s t" and z: "zeroed (cur_root s) (in_pages g (g + n)) pf t"
    using m by (simp_all add: mapped_to_def)
  note k = only_kernel [OF o ok]
  have a: "area_ok ?a" using n g by (simp add: area_ok_def free_at_def lo_def hi_def)
  have "areas_ok ?as" "area_at ?as x = (if unat g \<le> x \<and> x < unat (g + n) then Some (prot, flags) else area_at (mmap_areas (cur_proc s)) x)" for x
    using area_at_insert(1) [OF as sl _ a] area_at_insert(2) [OF as sl _ a, of x] g fin_of(1) [OF a] by (simp_all add: lo_def fin_of_def)
  then have "mmap_done R g n prot flags pf s (with_areas ?as t)"
    unfolding mmap_done_def using k g z onlyD(2) [OF o] r
    by (intro conjI exI [of _ ?as]) (simp_all add: cur_proc_with_areas, simp_all add: with_areas_def zeroed_def)
  then show ?thesis using k by (simp add: wp_simps wp_current wp_set_area)
qed

lemma mmap_place_wp:
  assumes ok: "sched_ok s" "world_ok s R" "cur_root s \<in> R" and as: "areas_ok (mmap_areas (cur_proc s))"
    and n: "page_aligned n" "n \<noteq> 0" and h: "unat addr + 4096 < 2 ^ 64" and perm: "pr \<or> px" "pw \<longrightarrow> pr"
  shows "wp (mmap_place addr n prot flags (PTEFlags_new pr pw px True)) (\<lambda>v s'. mmap_done R v n prot flags (PTEFlags_new pr pw px True) s s' \<or>
      v = linux_error ENOMEM \<and> same_view R s s') (\<lambda>_ _. False) s" (is "wp _ ?Q _ _")
proof -
  let ?as = "mmap_areas (cur_proc s)" and ?pf = "PTEFlags_new pr pw px True"
  have same: "same_view R s s" using ok(2) by (simp add: same_view_def)
  from choose_mmap_addr_run [OF ok(1) as h, of n] obtain r where r: "choose_mmap_addr addr n s = (Val r, s)"
    "\<forall>g. r = Some g \<longrightarrow> page_aligned g \<and> free_at ?as (unat n) (unat g)" by blast
  have fs: "wp (kbind find_free_mmap_slot f) Q E s = wp (f (position (\<lambda>area. \<not> area_used area) ?as)) Q E s"
    for f :: "_ \<Rightarrow> ('a kernel_state_scheme, usize) kernel" and Q E
    by (simp add: find_free_mmap_slot_def wp_simps wp_current [OF ok(1)])
  show ?thesis
  proof (cases r)
    case None
    then show ?thesis using r same by (simp add: wp_def [of "choose_mmap_addr _ _"] wp_kbind wp_ret)
  next
    case (Some g)
    then have g: "page_aligned g" "free_at ?as (unat n) (unat g)" using r(2) by auto
    have no: "\<not> add_overflows g n" using g(2) by (simp add: free_at_def add_overflows_def)
    note u = unat_add_no_overflow [OF no]
    have fin: "page_aligned (g + n)" "g \<le> g + n" "unat (g + n) \<le> 2 ^ 31"
      using g n u by (simp_all add: page_aligned_iff_dvd word_le_nat_alt free_at_def)
    have place: "wp (kbind (map_zeroed_user_pages g (g + n) ?pf) (\<lambda>mapped. if \<not> mapped then ret (linux_error ENOMEM)
          else kbind current (\<lambda>_. kseq (set_area slot \<lparr>area_start = g, area_len = n, area_prot = prot, area_flags = flags, area_used = True\<rparr>)
            (ret g)))) ?Q (\<lambda>_ _. False) s" if sl: "slot < 32" "\<not> area_used (?as ! slot)" for slot
      unfolding wp_kbind [of "map_zeroed_user_pages _ _ _"]
    proof (rule wp_mono [OF map_zeroed_user_pages_wp [OF ok g(1) fin perm]])
      fix mapped t
      assume A: "if mapped then mapped_to R (cur_root s) ?pf g (g + n) s t else only R (cur_root s) {} s t"
      show "wp (if \<not> mapped then ret (linux_error ENOMEM) else kbind current (\<lambda>_. kseq (set_area slot
          \<lparr>area_start = g, area_len = n, area_prot = prot, area_flags = flags, area_used = True\<rparr>) (ret g))) ?Q (\<lambda>_ _. False) t"
      proof (cases mapped)
        case True
        then have "mapped_to R (cur_root s) ?pf g (g + n) s t" using A by simp
        from mmap_commit [OF ok(1,3) as sl n g this, of prot flags] have "wp (kbind current (\<lambda>_. kseq (set_area slot
          \<lparr>area_start = g, area_len = n, area_prot = prot, area_flags = flags, area_used = True\<rparr>) (ret g))) ?Q (\<lambda>_ _. False) t"
          by (rule wp_mono) auto
        then show ?thesis using True by simp
      next
        case False
        then have o: "only R (cur_root s) {} s t" using A by simp
        then have "same_view R s t" using only_kernel [OF o ok(1)] onlyD(2) [OF o] by (simp add: same_view_def)
        then show ?thesis using False by (simp add: wp_ret)
      qed
    qed simp
    have "wp (case position (\<lambda>area. \<not> area_used area) ?as of None \<Rightarrow> ret (linux_error ENOMEM)
      | Some slot \<Rightarrow> kbind (map_zeroed_user_pages g (g + n) ?pf) (\<lambda>mapped. if \<not> mapped then ret (linux_error ENOMEM)
          else kbind current (\<lambda>_. kseq (set_area slot \<lparr>area_start = g, area_len = n, area_prot = prot, area_flags = flags, area_used = True\<rparr>)
            (ret g)))) ?Q (\<lambda>_ _. False) s"
    proof (cases "position (\<lambda>area. \<not> area_used area) ?as")
      case None
      then show ?thesis using same by (simp add: wp_ret)
    next
      case (Some slot)
      then have "slot < 32" "\<not> area_used (?as ! slot)" using as by (simp_all add: position_Some areas_ok_def)
      from place [OF this] show ?thesis by (simp only: Some option.case)
    qed
    then show ?thesis
      unfolding wp_kbind [of "choose_mmap_addr _ _"] wp_def [of "choose_mmap_addr _ _"] r(1) prod.case outcome.case Some option.case
        kbind_uadd [OF no] fs .
  qed
qed

text \<open>The table of areas accounts for the whole window: where it has no area, nothing is mapped.\<close>

definition window_tracked :: "'a kernel_state_scheme \<Rightarrow> bool" where
  "window_tracked s \<longleftrightarrow> (\<forall>a. let x = unat a mod 2 ^ 39 in 0x3e000000 \<le> x \<and> x < 0x3f000000 \<and>
     area_at (mmap_areas (cur_proc s)) x = None \<longrightarrow> pte_of (tables s) (cur_root s) a = 0)"

lemma tracked_free:
  assumes "window_tracked s" and "free_at (mmap_areas (cur_proc s)) (unat n) (unat g)" and "a \<in> in_pages g fin" and "unat fin = unat g + unat n"
  shows "pte_of (tables s) (cur_root s) a = 0"
proof -
  let ?x = "unat a mod 2 ^ 39"
  have x: "unat g \<le> ?x" "?x < unat g + unat n" using assms(3,4) by (auto simp: in_pages_def)
  then have "area_at (mmap_areas (cur_proc s)) ?x = None"
    using assms(2) by (fastforce simp: area_at_None free_at_def in_area_def)
  moreover have "0x3e000000 \<le> ?x" "?x < 0x3f000000" using x assms(2) by (simp_all add: free_at_def)
  ultimately show ?thesis using assms(1) by (simp add: window_tracked_def Let_def)
qed

lemma mmap_place_has:
  assumes ok: "sched_ok s" "world_ok s R" "cur_root s \<in> R" and as: "areas_ok (mmap_areas (cur_proc s))"
    and n: "page_aligned n" and gap: "\<exists>g. free_at (mmap_areas (cur_proc s)) (unat n) g" and sl: "\<exists>a\<in>set (mmap_areas (cur_proc s)). \<not> area_used a"
    and tr: "window_tracked s" and h: "frames_has (k + 3 * (unat n div 4096)) s" and perm: "pr \<or> px" "pw \<longrightarrow> pr"
  shows "wp (mmap_place 0 n prot flags (PTEFlags_new pr pw px True)) (\<lambda>v t. free_at (mmap_areas (cur_proc s)) (unat n) (unat v) \<and>
      (\<forall>h. free_at (mmap_areas (cur_proc s)) (unat n) h \<longrightarrow> unat v \<le> h) \<and>
      (\<exists>t' slot. mapped_to R (cur_root s) (PTEFlags_new pr pw px True) v (v + n) s t' \<and> frames_has k t' \<and> slot < 32 \<and>
         \<not> area_used (mmap_areas (cur_proc s) ! slot) \<and>
         t = with_areas ((mmap_areas (cur_proc s))[slot := \<lparr>area_start = v, area_len = n, area_prot = prot, area_flags = flags, area_used = True\<rparr>]) t'))
    (\<lambda>_ _. False) s"
    (is "wp _ ?Q _ _")
proof -
  let ?as = "mmap_areas (cur_proc s)" and ?pf = "PTEFlags_new pr pw px True"
  from find_mmap_gap_run [OF ok(1) as, of n] gap obtain g where r: "find_mmap_gap n s = (Val (Some g), s)"
    and g: "page_aligned g" "free_at ?as (unat n) (unat g)" "\<forall>h. free_at ?as (unat n) h \<longrightarrow> unat g \<le> h" by (auto split: option.splits)
  have c: "choose_mmap_addr 0 n s = (Val (Some g), s)" using r by (simp add: choose_mmap_addr_def)
  obtain slot where slot: "position (\<lambda>area. \<not> area_used area) ?as = Some slot"
    using sl position_None [of "\<lambda>area. \<not> area_used area" ?as] by (auto simp: option.distinct dest: not_None_eq [THEN iffD1])
  have fs: "wp (kbind find_free_mmap_slot f) Q E s = wp (f (Some slot)) Q E s"
    for f :: "_ \<Rightarrow> ('a kernel_state_scheme, usize) kernel" and Q E
    by (simp add: find_free_mmap_slot_def wp_simps wp_current [OF ok(1)] slot)
  have no: "\<not> add_overflows g n" using g(2) by (simp add: free_at_def add_overflows_def)
  note u = unat_add_no_overflow [OF no]
  have fin: "page_aligned (g + n)" "g \<le> g + n" "unat (g + n) \<le> 2 ^ 31"
    using g n u by (simp_all add: page_aligned_iff_dvd word_le_nat_alt free_at_def)
  have h': "frames_has (k + 3 * ((unat (g + n) - unat g) div 4096)) s" using h by (simp add: u)
  have free: "\<forall>a\<in>in_pages g (g + n). pte_of (tables s) (cur_root s) a = 0" using tracked_free [OF tr g(2) _ u] by blast
  have sl32: "slot < 32" "\<not> area_used (?as ! slot)" using slot as by (simp_all add: position_Some areas_ok_def)
  let ?new = "\<lparr>area_start = g, area_len = n, area_prot = prot, area_flags = flags, area_used = True\<rparr>"
  have commit: "wp (kbind current (\<lambda>_. kseq (set_area slot ?new) (ret g))) ?Q (\<lambda>_ _. False) t"
    if "mapped_to R (cur_root s) ?pf g (g + n) s t" "frames_has k t" for t
  proof -
    have "only R (cur_root s) (in_pages g (g + n)) s t" using that(1) by (simp add: mapped_to_def)
    note q = only_kernel [OF this ok(1)]
    show ?thesis using that g sl32 by (simp add: wp_simps wp_current [OF q(2)] wp_set_area [OF q(2)] q(3)) blast
  qed
  have "wp (map_zeroed_user_pages g (g + n) ?pf) (\<lambda>mapped t. (if mapped then mapped_to R (cur_root s) ?pf g (g + n) s t
      else only R (cur_root s) {} s t) \<and> mapped \<and> frames_has k t) (\<lambda>_ _. False) s"
    using wp_conj [OF map_zeroed_user_pages_wp [OF ok g(1) fin perm] map_zeroed_loop_has [OF ok g(1) fin h' free perm, of g, folded map_zeroed_user_pages_def]] by simp
  then have "wp (kbind (map_zeroed_user_pages g (g + n) ?pf) (\<lambda>mapped. if \<not> mapped then ret (linux_error ENOMEM)
      else kbind current (\<lambda>_. kseq (set_area slot \<lparr>area_start = g, area_len = n, area_prot = prot, area_flags = flags, area_used = True\<rparr>)
        (ret g)))) ?Q (\<lambda>_ _. False) s"
    unfolding wp_kbind [of "map_zeroed_user_pages _ _ _"]
  proof (rule wp_mono)
    fix mapped t
    assume A: "(if mapped then mapped_to R (cur_root s) ?pf g (g + n) s t else only R (cur_root s) {} s t) \<and> mapped \<and> frames_has k t"
    then show "wp (if \<not> mapped then ret (linux_error ENOMEM) else kbind current (\<lambda>_. kseq (set_area slot ?new) (ret g))) ?Q (\<lambda>_ _. False) t"
      using commit [of t] by (simp only: simp_thms if_True if_False not_True_eq_False)
  qed
  then show ?thesis
    unfolding wp_kbind [of "choose_mmap_addr _ _"] wp_def [of "choose_mmap_addr _ _"] c prod.case outcome.case option.case
      kbind_uadd [OF no] fs .
qed

text \<open>A process with an empty address space, for the witnesses.\<close>

definition blank_state :: kernel_state where
  "blank_state = on_frames2 kstate0"

lemma blank_pte: "pte_of (tables blank_state) r va = 0"
  by (auto simp: blank_state_def on_frames2_facts(4) pte_of_l1 l1_def sub_def read_u64_zero Let_def bind_eq_None_conv split: option.splits)

lemma blank_world: "world_ok blank_state {root pt1}"
  unfolding world_ok_def
proof (intro conjI ballI allI impI)
  show "frames_ok blank_state" using on_frames2_facts(1) [of kstate0] by (auto simp: blank_state_def frames_ok_def)
  fix r assume r: "r \<in> {root pt1}"
  show "pt_wf (live blank_state) (tables blank_state) r"
    using r on_frames2_facts(3,4) [of kstate0] by (intro pt_wf_blank) (simp_all add: blank_state_def pt1_def read_u64_zero)
  show "links (tables blank_state) r"
    using r on_frames2_facts(4) [of kstate0]
    by (auto simp: links_def blank_state_def pt1_def read_u64_zero pointer_def sub_def)
  show "user_leaf_ok blank_state {root pt1} va (pte_of (tables blank_state) r va)" for va
    by (simp add: blank_pte user_leaf_ok_def)
next
  show "card (mappings (tables blank_state) {root pt1} p) \<le> unat (frame_ref blank_state p)" for p
    by (simp add: mappings_def blank_pte)
qed auto

lemma blank_facts:
  "sched_ok blank_state" "cur_proc blank_state = proc0" "cur_root blank_state \<in> {root pt1}" "frames_has 50 blank_state"
  using above_frames_sched [OF on_frames2_facts(6) [of kstate0]] kstate0_sched kstate0_root on_frames2_facts(5) [of kstate0]
  by (simp_all add: blank_state_def) (simp_all add: kstate0_def cur_proc_def proc0_def)

lemma mmap_returns:
  assumes ok: "sched_ok s" "world_ok s R" "cur_root s \<in> R" and as: "areas_ok (mmap_areas (cur_proc s))"
    and n: "page_aligned n" "n \<noteq> 0" and h: "unat addr + 4096 < 2 ^ 64" and perm: "pr \<or> px" "pw \<longrightarrow> pr"
  shows "\<exists>v s'. mmap_place addr n prot flags (PTEFlags_new pr pw px True) s = (Val v, s') \<and>
    (if v = linux_error ENOMEM then same_view R s s' \<and>
       \<not> (addr = 0 \<and> (\<exists>g. free_at (mmap_areas (cur_proc s)) (unat n) g) \<and> (\<exists>a\<in>set (mmap_areas (cur_proc s)). \<not> area_used a) \<and>
          window_tracked s \<and> frames_has (3 * (unat n div 4096)) s)
     else mmap_done R v n prot flags (PTEFlags_new pr pw px True) s s')"
proof -
  let ?as = "mmap_areas (cur_proc s)" and ?pf = "PTEFlags_new pr pw px True"
  let ?C = "addr = 0 \<and> (\<exists>g. free_at ?as (unat n) g) \<and> (\<exists>a\<in>set ?as. \<not> area_used a) \<and> window_tracked s \<and> frames_has (3 * (unat n div 4096)) s"
  have e: "\<not> free_at ?as (unat n) (unat (linux_error ENOMEM))" by (simp add: free_at_def linux_error_def ENOMEM_def)
  obtain v s' where run: "mmap_place addr n prot flags ?pf s = (Val v, s')" "mmap_done R v n prot flags ?pf s s' \<or> v = linux_error ENOMEM \<and> same_view R s s'"
    using wp_returns [OF mmap_place_wp [OF ok as n h perm, where prot = prot and flags = flags]] by blast
  have "v \<noteq> linux_error ENOMEM" if ?C
    using wp_returns [OF mmap_place_has [OF ok as n(1) _ _ _ _ perm, where k = 0 and prot = prot and flags = flags]] that run(1) e by auto
  moreover have "same_view R s s'" if "v = linux_error ENOMEM" using that run(2) e by (auto simp: mmap_done_def)
  ultimately show ?thesis using run by (intro exI [of _ v] exI [of _ s']) auto
qed

section \<open>Properties of the address space calls\<close>

text \<open>C6. The break of a process. Whatever address a program asks for, \<open>brk\<close> returns the break that the
  process has afterwards: the address asked for or the old break. It is the old one for an
  address outside the heap window, the one asked for when the heap does not grow, and also when
  it grows over free pages and there are three frames left per page. The memory between the two
  breaks, rounded up to pages, reads as zeros after growing and is gone after shrinking; all
  other memory of the program, and all memory of every other program, is what it was. \<open>brk\<close> never
  panics.\<close>

theorem brk_moves_break:
  assumes "sched_ok s" and "world_ok s R" and "cur_root s \<in> R" and "heap_bounds (cur_proc s)"
  shows "\<exists>v s'. sys_brk n s = (Val v, s') \<and> world_ok s' R \<and> cur_proc s' = (cur_proc s)\<lparr>heap_end := v\<rparr> \<and>
    (\<forall>a. view (mem s') (cur_root s) a = brk_view (heap_end (cur_proc s)) v (view (mem s) (cur_root s)) a) \<and>
    (\<forall>r\<in>R. r \<noteq> cur_root s \<longrightarrow> (\<forall>a. view (mem s') r a = view (mem s) r a)) \<and>
    (v = n \<or> v = heap_end (cur_proc s)) \<and>
    (n < USER_HEAP_START \<or> USER_HEAP_LIMIT < n \<longrightarrow> v = heap_end (cur_proc s)) \<and>
    (USER_HEAP_START \<le> n \<and> n \<le> heap_end (cur_proc s) \<longrightarrow> v = n) \<and>
    (n \<le> USER_HEAP_LIMIT \<and> heap_end (cur_proc s) < n \<and>
       frames_has (3 * ((unat (page_up n) - unat (page_up (heap_end (cur_proc s)))) div 4096)) s \<and>
       (\<forall>a\<in>in_pages (page_up (heap_end (cur_proc s))) (page_up n). pte_of (tables s) (cur_root s) a = 0) \<longrightarrow> v = n)"
  using wp_returns [OF sys_brk_wp [OF assms, of n]] by (simp only: brk_done_def conj_assoc)

theorem brk_moves_break_witness:
  "\<exists>s'. sys_brk 0x21000 blank_state = (Val 0x21000, s') \<and> view (mem s') (root pt1) 0x20010 = Some 0 \<and>
     view (mem s') (root pt1) 0x21000 = None"
proof -
  have hb: "heap_bounds (cur_proc blank_state)"
    by (simp add: blank_facts heap_bounds_def proc0_def USER_HEAP_LIMIT_def USER_HEAP_START_def)
  have up: "page_up 0x21000 = 0x21000" "page_up 0x20000 = 0x20000" by (simp_all add: page_up_def page_of_def)
  have "frames_has 3 blank_state" by (rule kcount.has_weaken [OF blank_facts(4)]) simp
  then have h: "frames_has (3 * ((unat (page_up 0x21000) - unat (page_up (heap_end (cur_proc blank_state)))) div 4096)) blank_state"
    by (simp add: blank_facts proc0_def USER_HEAP_START_def up)
  have old: "heap_end proc0 = 0x20000" "(0x21000 :: usize) \<le> USER_HEAP_LIMIT" "page_table proc0 = pt1"
    by (simp_all add: proc0_def USER_HEAP_START_def USER_HEAP_LIMIT_def)
  have none: "view (mem blank_state) (root pt1) a = None" for a by (simp add: view_def blank_pte)
  show ?thesis
    using brk_moves_break [OF blank_facts(1) blank_world blank_facts(3) hb, of "0x21000"] h
    by (auto simp: blank_facts old blank_pte brk_view_def up in_pages_def none)
qed

text \<open>C8. Unmapping. \<open>munmap\<close> accepts exactly the page-aligned, non-empty ranges of the mapping window;
  for any other it returns \<open>EINVAL\<close>, and \<open>ENOMEM\<close> when an area would have to be split and the
  table has no slot for the second half, and then nothing has changed. Otherwise it returns 0:
  the pages of the range are gone from the caller's memory and from the table, every other byte
  that the caller sees and every byte that any other program sees is what it was, and so is what
  the table says of every other address. \<open>munmap\<close> never panics.\<close>

theorem munmap_unmaps:
  assumes "sched_ok s" and "world_ok s R" and "cur_root s \<in> R" and "areas_ok (mmap_areas (cur_proc s))"
  shows "\<exists>v s'. sys_munmap addr len s = (Val v, s') \<and>
    (if munmap_ok addr len \<and> splittable addr (addr + page_up len) (mmap_areas (cur_proc s))
     then v = 0 \<and> world_ok s' R \<and>
       (\<forall>a. view (mem s') (cur_root s) a =
         (if a \<in> in_pages addr (addr + page_up len) then None else view (mem s) (cur_root s) a)) \<and>
       (\<forall>r\<in>R. r \<noteq> cur_root s \<longrightarrow> (\<forall>a. view (mem s') r a = view (mem s) r a)) \<and>
       (\<exists>as. cur_proc s' = (cur_proc s)\<lparr>mmap_areas := as\<rparr> \<and> areas_ok as \<and>
          (\<forall>x. area_at as x = (if unat addr \<le> x \<and> x < unat (addr + page_up len) then None
             else area_at (mmap_areas (cur_proc s)) x)))
     else v = (if munmap_ok addr len then linux_error ENOMEM else linux_error EINVAL) \<and> s' = s)"
  using wp_returns [OF sys_munmap_wp [OF assms, of addr len]] by (simp only: munmap_done_def)

theorem munmap_unmaps_witness:
  "\<exists>s'. sys_munmap 0x3e000000 5000 blank_state = (Val 0, s') \<and> world_ok s' {root pt1} \<and>
     sys_munmap 0x3e000001 5000 blank_state = (Val (linux_error EINVAL), blank_state)"
proof -
  have as: "areas_ok (mmap_areas (cur_proc blank_state))"
    by (simp add: blank_facts proc0_def areas_ok_def MmapArea_EMPTY_def apart_def)
  have "splittable 0x3e000000 (0x3e000000 + page_up 5000) (mmap_areas (cur_proc blank_state))"
    by (simp add: blank_facts proc0_def splittable_def splits_def MmapArea_EMPTY_def)
  moreover have "munmap_ok 0x3e000000 5000" "\<not> munmap_ok 0x3e000001 5000" by (simp_all add: munmap_ok_def page_aligned_def)
  ultimately show ?thesis
    using munmap_unmaps [OF blank_facts(1) blank_world blank_facts(3) as, of "0x3e000000" 5000]
      munmap_unmaps [OF blank_facts(1) blank_world blank_facts(3) as, of "0x3e000001" 5000] by auto
qed

text \<open>C7. Mapping anonymous memory. A request that is not for private anonymous memory with some
  permission is refused with the error it deserves and changes nothing. Any other either fails
  with \<open>ENOMEM\<close>, leaving every byte that any program sees and the table of areas as they were, or
  returns a page-aligned range of the window that no area used: its pages read as zeros, carry the
  permissions asked for and belong to the caller alone, the table has the range with the given
  protection, and all other memory, the caller's and that of other programs, is what it was.
  Without a hint it does succeed when the table has a gap and a free slot and there are three
  frames left per page. \<open>mmap\<close> panics for no hint below the last page of the address space.\<close>

theorem mmap_maps_zeroed:
  assumes "sched_ok s" and "world_ok s R" and "cur_root s \<in> R" and "areas_ok (mmap_areas (cur_proc s))"
    and "unat addr + 4096 < 2 ^ 64"
  shows "\<exists>v s'. sys_mmap addr len prot flags fd offset s = (Val v, s') \<and>
    (case mmap_request len prot flags offset of Inl e \<Rightarrow> v = linux_error e \<and> s' = s
     | Inr (n, pf) \<Rightarrow> if v = linux_error ENOMEM
       then world_ok s' R \<and> cur_proc s' = cur_proc s \<and> (\<forall>r\<in>R. \<forall>a. view (mem s') r a = view (mem s) r a) \<and>
         \<not> (addr = 0 \<and> (\<exists>g. free_at (mmap_areas (cur_proc s)) (unat n) g) \<and> (\<exists>a\<in>set (mmap_areas (cur_proc s)). \<not> area_used a) \<and>
            window_tracked s \<and> frames_has (3 * (unat n div 4096)) s)
       else world_ok s' R \<and> page_aligned v \<and> free_at (mmap_areas (cur_proc s)) (unat n) (unat v) \<and>
         zeroed (cur_root s) (in_pages v (v + n)) pf s' \<and>
         (\<forall>a. a \<notin> in_pages v (v + n) \<longrightarrow> view (mem s') (cur_root s) a = view (mem s) (cur_root s) a) \<and>
         (\<forall>r\<in>R. r \<noteq> cur_root s \<longrightarrow> (\<forall>a. view (mem s') r a = view (mem s) r a)) \<and>
         (\<exists>as. cur_proc s' = (cur_proc s)\<lparr>mmap_areas := as\<rparr> \<and> areas_ok as \<and>
            (\<forall>x. area_at as x = (if unat v \<le> x \<and> x < unat (v + n) then Some (prot, flags)
               else area_at (mmap_areas (cur_proc s)) x))))"
proof (cases "mmap_request len prot flags offset")
  case (Inl e)
  then show ?thesis by (simp add: sys_mmap_cases ret_def)
next
  case (Inr np)
  obtain n pr pw px where np: "np = (n, PTEFlags_new pr pw px True)" and n: "page_aligned n" "n \<noteq> 0" and perm: "pr \<or> px" "pw \<longrightarrow> pr"
    using mmap_request_Inr [of len prot flags offset "fst np" "snd np"] Inr by (cases np) auto
  from mmap_returns [OF assms(1-4) n assms(5) perm, where prot = prot and flags = flags] show ?thesis
    by (simp only: sys_mmap_cases Inr np sum.case prod.case mmap_done_def same_view_def conj_assoc)
qed

theorem mmap_maps_zeroed_witness:
  "\<exists>v s'. sys_mmap 0 5000 3 0x22 0 0 blank_state = (Val v, s') \<and> page_aligned v \<and> 0x3e000000 \<le> unat v \<and>
     view (mem s') (root pt1) (v + 8) = Some 0 \<and> area_at (mmap_areas (cur_proc s')) (unat v + 8) = Some (3, 0x22) \<and>
     sys_mmap 0 5000 3 0x32 0 0 blank_state = (Val (linux_error ENOSYS), blank_state)"
proof -
  let ?s = blank_state and ?as = "mmap_areas (cur_proc blank_state)"
  have as: "areas_ok ?as" by (simp add: blank_facts proc0_def areas_ok_def MmapArea_EMPTY_def apart_def)
  have up: "page_up 5000 = 8192" by (simp add: page_up_def page_of_def)
  have pf: "pte_flags_from_prot 3 = Some (PTEFlags_new True True False True)"
    by (simp add: pte_flags_from_prot_def PROT_READ_def PROT_WRITE_def PROT_EXEC_def)
  have rq: "mmap_request 5000 3 0x22 0 = Inr (8192, PTEFlags_new True True False True)" "mmap_request 5000 3 0x32 0 = Inl ENOSYS"
    by (simp_all add: mmap_request_def up pf MAP_PRIVATE_def MAP_ANONYMOUS_def page_aligned_def)
  have gap: "free_at ?as (unat (8192 :: usize)) 0x3e000000" by (simp add: blank_facts proc0_def free_at_def MmapArea_EMPTY_def)
  have slot: "MmapArea_EMPTY \<in> set ?as" "\<not> area_used MmapArea_EMPTY" by (simp_all add: blank_facts proc0_def MmapArea_EMPTY_def)
  have tr: "window_tracked ?s" by (simp add: window_tracked_def blank_pte)
  have h: "frames_has (3 * (unat (8192 :: usize) div 4096)) ?s" by (rule kcount.has_weaken [OF blank_facts(4)]) simp
  have ok: "\<not> \<not> ((0 :: usize) = 0 \<and> (\<exists>g. free_at ?as (unat (8192 :: usize)) g) \<and> (\<exists>a\<in>set ?as. \<not> area_used a) \<and> window_tracked ?s \<and>
      frames_has (3 * (unat (8192 :: usize) div 4096)) ?s)" using gap slot tr h by blast
  have z: "unat (0 :: usize) + 4096 < 2 ^ 64" by simp
  note M = mmap_maps_zeroed [OF blank_facts(1) blank_world blank_facts(3) as z]
  note served = M [of 5000 3 "0x22" 0 0, unfolded rq sum.case prod.case, unfolded eq_False [THEN iffD2, OF ok], unfolded simp_thms]
  from served obtain v s' where run: "sys_mmap 0 5000 3 0x22 0 0 ?s = (Val v, s')" and v: "page_aligned v" "free_at ?as (unat (8192 :: usize)) (unat v)"
    and zs: "zeroed (cur_root ?s) (in_pages v (v + 8192)) (PTEFlags_new True True False True) s'"
    and ars: "\<exists>as. cur_proc s' = (cur_proc ?s)\<lparr>mmap_areas := as\<rparr> \<and> areas_ok as \<and> (\<forall>x. area_at as x =
      (if unat v \<le> x \<and> x < unat (v + 8192) then Some (3, 0x22) else area_at ?as x))"
    by (simp only: if_bool_eq_conj) blast
  have b: "0x3e000000 \<le> unat v" "unat v + 8192 \<le> 0x3f000000" using v(2) by (simp_all add: free_at_def)
  have u: "unat (v + 8192) = unat v + 8192" "unat (v + 8) = unat v + 8"
    using b unat_add_no_overflow [of v 8192] unat_add_no_overflow [of v 8] by (simp_all add: add_overflows_def)
  then have "v + 8 \<in> in_pages v (v + 8192)" using b by (simp add: in_pages_def)
  then have "view (mem s') (root pt1) (v + 8) = Some 0" using zs blank_facts(3) by (simp add: zeroed_def)
  moreover have "area_at (mmap_areas (cur_proc s')) (unat v + 8) = Some (3, 0x22)" using ars u by auto
  moreover have "sys_mmap 0 5000 3 0x32 0 0 ?s = (Val (linux_error ENOSYS), ?s)"
    using M [of 5000 3 "0x32" 0 0, unfolded rq(2) sum.case] by auto
  ultimately show ?thesis using run v b by blast
qed

end
