(* ===== verification/Isolation.thy ===== *)
theory Isolation
  imports VmSpec
begin

text \<open>
  Memory isolation: the pages a program can write are its own, and copying on write keeps it so.
\<close>

section \<open>Copy on write in the presence of other programs\<close>

text \<open>Nothing that any program sees has changed.\<close>

definition unseen :: "PhysAddr set \<Rightarrow> 'a frames_scheme \<Rightarrow> 'a frames_scheme \<Rightarrow> bool" where
  "unseen R s s' \<longleftrightarrow> world_ok s' R \<and> above_frames s' = above_frames s \<and> kernel_kept R s s' \<and> (\<forall>r\<in>R. \<forall>a. view (mem s') r a = view (mem s) r a)"

lemma unseen_refl: "world_ok s R \<Longrightarrow> unseen R s s"
  by (simp add: unseen_def kernel_kept_refl)

lemma unseen_trans: "unseen R s t \<Longrightarrow> unseen R t u \<Longrightarrow> unseen R s u"
  by (auto simp: unseen_def intro: kernel_kept_trans)

lemma lookup_base: "lookup_addr rd r (base_page va) = lookup_addr rd r va"
  using same_page_base [of va] by (simp add: lookup_addr_l1 same_page_def)

lemma cow_page_update:
  assumes W: "world_ok s R" and r: "r \<in> R" and lk: "lookup_addr (tables s) r va = Some ea"
    and u: "is_u (tables s ea)" and st: "cow_step ea (ppn_to_addr (tables s ea)) q s s'"
  shows "page_update R r (base_page va) (tables s' ea) q s s'"
proof -
  let ?p = "ppn_to_addr (tables s ea)" and ?va = "base_page va"
  note sp = world_space [OF W r]
  note le = lookup_entry [OF sp lk] and self = cow_step_self [OF sp lk u st]
  have ue: "is_u (pte_of (tables s) r va)" using u le(4) by simp
  have p: "live s ?p" "\<And>r'. r' \<in> R \<Longrightarrow> \<not> is_table (tables s) r' ?p" and half: "vpn va 2 < 2"
    using world_leaf(2-4) [OF W r ue] le(4) by auto
  have pe: "?p \<noteq> page_of ea" using p(2) [OF r] le(3) by auto
  have st': "frames_ok s'" "cow_resolved (tables s ea) q (tables s' ea)" "q = ?p \<or> \<not> live s q" "live s' q" "cow_refs ?p q s s'"
    using st by (auto simp: cow_step_def)
  have nt: "\<not> is_table (tables s) r' q" if "r' \<in> R" for r' using st'(3) p(2) [OF that] world_table_live [OF W that] by blast
  obtain t where t: "l1 (tables s) r (vpn va 2) (vpn va 1) = Some t" "ea = entry_at t (vpn va 0)" using le(5) by blast
  have tp: "page_of ea = t" using l1_aligned [OF t(1)] by (simp add: t(2) unat_entry_at vpn_bound)
  have out: "mem s' x = mem s x" if "live s (page_of x)" "\<not> user_table (tables s) r (page_of x)" for x
  proof (rule cow_step_keeps [OF st pe le(1,2) that(1)], rule not_in_dword [OF le(1)])
    show "page_of x \<noteq> page_of ea" using that(2) user_table_leaf [OF t(1) half] tp by auto
  qed
  have v: "is_u (tables s' ea)" "ppn_to_addr (tables s' ea) = q" "is_valid (tables s' ea)" "is_r (tables s' ea)" using st'(2) by (auto simp: cow_resolved_def)
  have w: "writes_in R r q s s'" using nt out by (auto simp: writes_in_def)
  have vb: "vpn ?va 2 < 2" using half same_page_base [of va] by (simp add: same_page_def)
  have inM: "(r, ?va) \<in> mappings (tables s) R ?p" using mappingsI [OF r ue] le(4) by simp
  have refs: "unat (frame_ref s k) + (if is_u (tables s' ea) \<and> ppn_to_addr (tables s' ea) = k then 1 else 0)
      \<le> unat (frame_ref s' k) + (if (r, ?va) \<in> mappings (tables s) R k then 1 else 0)"
    "live s k \<Longrightarrow> unat (frame_ref s' k) \<le> unat (frame_ref s k)" if k: "frame_ok k" for k
  proof -
    have "(if q = k then 1 else 0) + unat (frame_ref s k) \<le> unat (frame_ref s' k) + (if k = ?p then 1 else 0) \<and>
      (live s k \<longrightarrow> unat (frame_ref s' k) \<le> unat (frame_ref s k))"
    proof (cases "1 < frame_ref s ?p")
      case True
      then have c: "\<not> live s q" "frame_ref s' q = 1" "frame_ref s' ?p = frame_ref s ?p - 1"
        "\<And>m. frame_ok m \<and> m \<noteq> q \<and> m \<noteq> ?p \<Longrightarrow> frame_ref s' m = frame_ref s m" using st'(5) by (auto simp: cow_refs_def)
      have q0: "frame_ref s q = 0" using c(1) live_frame_ok [OF st'(4)] by (simp add: live_def)
      have dec: "unat (frame_ref s ?p - 1) + 1 = unat (frame_ref s ?p)" using True by (simp add: word_less_nat_alt unat_sub word_le_nat_alt)
      show ?thesis
      proof (cases "k = ?p")
        case True
        then show ?thesis using c(3) dec p(1) c(1) by auto
      qed (use c q0 k in auto)
    qed (use st'(5) in \<open>auto simp: cow_refs_def\<close>)
    then show "unat (frame_ref s k) + (if is_u (tables s' ea) \<and> ppn_to_addr (tables s' ea) = k then 1 else 0)
      \<le> unat (frame_ref s' k) + (if (r, ?va) \<in> mappings (tables s) R k then 1 else 0)"
      "live s k \<Longrightarrow> unat (frame_ref s' k) \<le> unat (frame_ref s k)"
      using inM v(1,2) by (cases "k = ?p"; simp; linarith)+
  qed
  note uc = update_counts [OF W r, of "tables s' ea" s' ?va, OF refs(1) refs(2) [OF live_frame_ok [of s]]]
  have one: "frame_ref s' q = 1"
  proof (cases "1 < frame_ref s ?p")
    case False
    then have "frame_ref s ?p = 1" using p(1) by (simp add: live_def not_less word_le_nat_alt word_unat_eq_iff)
    then show ?thesis using False st'(5) by (simp add: cow_refs_def)
  qed (use st'(5) in \<open>simp add: cow_refs_def\<close>)
  have leaf: "user_leaf_ok s' R ?va (tables s' ea)"
    using v vb st'(4) one nt self(4) other_tables(2) [OF W r _ _ w] r unfolding user_leaf_ok_def by metis
  have ut: "user_table (tables s') r k = user_table (tables s) r k" for k
    using small_index by (auto simp: user_table_def self(5,6))
  have pte: "pte_of (tables s') r x = (if same_page ?va x then tables s' ea else pte_of (tables s) r x)" for x
    using self(2) [of x] same_page_base [of va] by (simp add: same_page_def)
  show ?thesis
    unfolding page_update_def using W r base_page_facts [of va] st'(1) space_ok_dest(2) [OF self(1)] w self(4,7) world_dest(7) [OF W r] ut pte leaf uc by blast
qed

lemma cow_step_unseen:
  assumes W: "world_ok s R" and r: "r \<in> R" and lk: "lookup_addr (tables s) r va = Some ea"
    and u: "is_u (tables s ea)" and st: "cow_step ea (ppn_to_addr (tables s ea)) q s s'"
  shows "unseen R s s'"
proof -
  note U = cow_page_update [OF assms] and self = cow_step_self(3) [OF world_space [OF W r] lk u st]
  have z: "mem s' x = mem s x" if "live s q" "page_of x = q" for x
    using st that by (auto simp: cow_step_def)
  have "view (mem s') r' a = view (mem s) r' a" if "r' \<in> R" for r' a
    using self [of a] update_view [OF U _ that, of a] z by (cases "r' = r") auto
  moreover have "above_frames s' = above_frames s" using st by (simp add: cow_step_def)
  moreover have "kernel_kept R s s'"
  proof (rule update_kernel [OF U])
    have "is_u (pte_of (tables s) r va)" "ppn_to_addr (pte_of (tables s) r va) = ppn_to_addr (tables s ea)"
      using u lookup_entry(4) [OF world_space [OF W r] lk] by simp_all
    then have "\<not> kernel_page s R (ppn_to_addr (tables s ea))" using r by (metis kernel_page_def)
    moreover have "q = ppn_to_addr (tables s ea) \<or> \<not> live s q" using st by (simp add: cow_step_def)
    ultimately show q: "\<not> kernel_page s R q" by (auto simp: kernel_page_def)
    show "\<not> kernel_page s R (ppn_to_addr (tables s' ea))" using st q by (simp add: cow_step_def cow_resolved_def)
  qed
  ultimately show ?thesis using update_world [OF U] by (simp add: unseen_def)
qed

lemma handle_cow_fault_unseen:
  assumes W: "world_ok s R" and r: "r \<in> R" and lk: "lookup_addr (tables s) r va = Some ea"
    and e: "is_u (tables s ea)" "is_r (tables s ea)"
  shows "wp (handle_cow_fault va ea) (\<lambda>_ s'. unseen R s s' \<and> is_w (tables s' ea)) (\<lambda>x _. x = Panic ''COW: alloc_frame failed'' \<and> \<not> frames_has 1 s) s"
  by (rule wp_mono [OF handle_cow_fault_step [OF world_space [OF W r] lk e]])
    (use cow_step_unseen [OF W r lk e(1)] in \<open>auto simp: cow_step_def cow_resolved_def\<close>)

text \<open>Checking a range changes nothing that any program sees.\<close>

lemma ensure_page_unseen:
  assumes ok: "sched_ok s" and W: "world_ok s R" and r: "cur_root s \<in> R"
  shows "wp (ensure_page wr page) (\<lambda>_ s'. unseen R s s') (\<lambda>_ _. True) s"
proof (cases "lookup_addr (tables s) (cur_root s) page")
  case None
  then show ?thesis using unseen_refl [OF W] by (simp add: ensure_page_def wp_simps wp_current [OF ok] lookup_def)
next
  case (Some ea)
  let ?e = "tables s ea"
  show ?thesis
  proof (cases "wr \<and> is_u ?e \<and> is_cow ?e \<and> is_r ?e \<and> \<not> is_w ?e")
    case False
    then show ?thesis
      using unseen_refl [OF W] Some by (auto simp: ensure_page_def wp_simps wp_current [OF ok] lookup_def)
  next
    case True
    then have "wp (handle_cow_fault page ea) (\<lambda>_. wp (kbind (load64 ea) (\<lambda>e. if \<not> is_w e then ret (Inl (linux_error EFAULT)) else ret (Inr ())))
        (\<lambda>_ s'. unseen R s s') (\<lambda>_ _. True)) (\<lambda>_ _. True) s"
      by (intro wp_mono [OF handle_cow_fault_unseen [OF W r Some]]) (simp_all add: wp_simps)
    then show ?thesis using True Some by (simp add: ensure_page_def wp_simps wp_current [OF ok] lookup_def)
  qed
qed

lemma unseen_kernel:
  assumes "unseen R s s'" and "sched_ok s"
  shows "world_ok s' R" "sched_ok s'" "cur_proc s' = cur_proc s"
  using assms above_frames_sched [of s' s] by (auto simp: unseen_def)

lemma ensure_loop_unseen:
  assumes "sched_ok s" and "world_ok s R" and "cur_root s \<in> R"
  shows "wp (ensure_loop wr fin page) (\<lambda>_ s'. unseen R s s') (\<lambda>_ _. True) s"
  using assms
proof (induction page arbitrary: s rule: page_loop_induct)
  case (1 page)
  have rest: "wp (ensure_loop wr fin (page + 4096)) (\<lambda>_ s'. unseen R s s') (\<lambda>_ _. True) t"
    if "\<not> add_overflows page 4096" and u: "unseen R s t" for t
  proof -
    note k = unseen_kernel [OF u "1.prems"(1)]
    show ?thesis using "1.prems"(3) k(3) unseen_trans [OF u]
      by (intro wp_mono [OF "1.IH" [OF that(1) k(2,1)]]) auto
  qed
  show ?case
    unfolding ensure_loop_unfold [of wr fin page] wp_kbind [of "ensure_page _ _"]
    by (rule wp_mono [OF ensure_page_unseen [OF "1.prems"]]) (auto simp: wp_simps wp_uadd rest split: sum.split)
qed

lemma ensure_user_range_unseen:
  assumes "sched_ok s" and "world_ok s R" and "cur_root s \<in> R"
  shows "wp (ensure_user_range ptr len wr) (\<lambda>_ s'. unseen R s s') (\<lambda>_ _. True) s"
  using ensure_loop_unseen [OF assms] unseen_refl [OF assms(2)]
  by (auto simp: ensure_user_range_def wp_simps split: option.split)

section \<open>The translation and the page tables\<close>

text \<open>In a tree of proper links the hart finds the entry that the kernel finds.\<close>

lemma pointer_link: "is_valid e \<Longrightarrow> pointer e \<Longrightarrow> reserved_ok pbmt e \<and> \<not> is_r e \<and> \<not> is_w e \<and> \<not> is_x e"
proof -
  assume e: "is_valid e" "pointer e"
  then have z: "drop_bit 54 e = 0" by (simp add: pointer_def)
  then have "drop_bit 7 (drop_bit 54 e) = 0" by simp
  then have "drop_bit 61 e = 0" by (simp add: drop_bit_drop_bit)
  then show ?thesis using e z by (simp add: pointer_def reserved_ok_def)
qed

definition hw_leaf :: "bool \<Rightarrow> privilege \<Rightarrow> access \<Rightarrow> PTEntry \<Rightarrow> bool" where
  "hw_leaf pbmt mode acc e \<longleftrightarrow> is_valid e \<and> reserved_ok pbmt e \<and> (is_r e \<or> is_x e) \<and> (is_w e \<longrightarrow> is_r e) \<and> leaf_ok mode acc e"

lemma hw_walk_pte:
  assumes L: "links rd r"
  shows "hw_walk rd pbmt mode acc va 2 r =
    (if hw_leaf pbmt mode acc (pte_of rd r va) then Some (ppn_to_addr (pte_of rd r va) + (va - page_of va)) else None)"
proof (cases "sub rd r (vpn va 2)")
  case None
  then have "\<not> is_valid (rd (entry_at r (vpn va 2)))" by (simp add: sub_def Let_def split: if_splits)
  moreover have "pte_of rd r va = 0" using None by (simp add: pte_of_l1 l1_def)
  ultimately show ?thesis by (simp add: numeral_2_eq_2 Let_def hw_leaf_def)
next
  case (Some t)
  then have e2: "is_valid (rd (entry_at r (vpn va 2)))" "t = ppn_to_addr (rd (entry_at r (vpn va 2)))"
    by (auto simp: sub_def Let_def split: if_splits)
  have "hw_walk rd pbmt mode acc va 2 r = hw_walk rd pbmt mode acc va 1 t"
    using pointer_link [OF e2(1) links_dest(1) [OF L vpn_bound]] e2 by (simp add: numeral_2_eq_2 Let_def)
  also have "\<dots> = (if hw_leaf pbmt mode acc (pte_of rd r va) then Some (ppn_to_addr (pte_of rd r va) + (va - page_of va)) else None)"
  proof (cases "sub rd t (vpn va 1)")
    case None
    then have "\<not> is_valid (rd (entry_at t (vpn va 1)))" by (simp add: sub_def Let_def split: if_splits)
    moreover have "pte_of rd r va = 0" using Some None by (simp add: pte_of_l1 l1_def)
    ultimately show ?thesis by (simp add: Let_def hw_leaf_def)
  next
    case (Some u)
    then have e1: "is_valid (rd (entry_at t (vpn va 1)))" "u = ppn_to_addr (rd (entry_at t (vpn va 1)))"
      by (auto simp: sub_def Let_def split: if_splits)
    have "pte_of rd r va = rd (entry_at u (vpn va 0))" using Some \<open>sub rd r (vpn va 2) = Some t\<close> by (simp add: pte_of_l1 l1_def)
    then show ?thesis
      using pointer_link [OF e1(1) links_dest(2) [OF L vpn_bound vpn_bound \<open>sub rd r (vpn va 2) = Some t\<close>]] e1
      by (simp add: Let_def hw_leaf_def)
  qed
  finally show ?thesis .
qed

lemma hw_translate_pte:
  assumes W: "world_ok s R" and r: "root pt \<in> R" and satp: "csr_satp s = satp_val pt"
  shows "hw_translate mode acc va s = (if canonical va \<and> hw_leaf (svpbmt s) mode acc (pte_of (tables s) (root pt) va)
    then Some (ppn_to_addr (pte_of (tables s) (root pt) va) + (va - page_of va)) else None)"
proof -
  have "live s (root pt)" by (rule pt_wf_dest(1) [OF world_dest(3) [OF W r]])
  then have "page_aligned (root pt)" "unat (root pt) < 2 ^ 56"
    using kframes.lives_frame [OF world_dest(1) [OF W]] by auto
  from satp_val_encodes_root [OF this] show ?thesis
    using hw_walk_pte [OF world_dest(7) [OF W r]] by (simp add: hw_translate_def satp)
qed

section \<open>Writing user memory\<close>

text \<open>Writing a page that is no table leaves every address space what it is.\<close>

lemma page_write_world:
  assumes W: "world_ok s R" and p: "live s p" "\<And>r. r \<in> R \<Longrightarrow> \<not> is_table (tables s) r p"
    and m: "\<And>x. page_of x \<noteq> p \<Longrightarrow> m x = mem s x"
  shows "world_ok (s\<lparr>mem := m\<rparr>) R" and "r \<in> R \<Longrightarrow> pte_of (read_u64 m) r a = pte_of (tables s) r a"
    and "r \<in> R \<Longrightarrow> is_table (read_u64 m) r t = is_table (tables s) r t"
proof -
  let ?s = "s\<lparr>mem := m\<rparr>"
  have same: "m x = mem s x" if "r \<in> R" "is_table (tables s) r (page_of x)" for r x
    by (rule m) (use that p(2) in auto)
  have ts: "i < 512 \<Longrightarrow> sub (read_u64 m) r i = sub (tables s) r i" "i < 512 \<Longrightarrow> j < 512 \<Longrightarrow> l1 (read_u64 m) r i j = l1 (tables s) r i j"
    "pte_of (read_u64 m) r a = pte_of (tables s) r a" "is_table (read_u64 m) r t = is_table (tables s) r t"
    "links (read_u64 m) r = links (tables s) r" if "r \<in> R" for r i j a t
    by (rule tree_same [OF world_dest(3) [OF W that] live_aligned [of s] same [OF that]]; assumption)+
  show pte: "pte_of (read_u64 m) r a = pte_of (tables s) r a" if "r \<in> R" for r a by (rule ts(3) [OF that])
  show tab: "is_table (read_u64 m) r t = is_table (tables s) r t" if "r \<in> R" for r t by (rule ts(4) [OF that])
  have ut: "user_table (read_u64 m) r t = user_table (tables s) r t" if "r \<in> R" for r t
    using ts(1,2) [OF that] small_index by (auto simp: user_table_def)
  have lv: "live ?s = live s" by (simp add: live_def fun_eq_iff)
  have "m x = mem s x" if "\<not> live s (page_of x)" for x using that p(1) m by metis
  then have fr: "frames_ok ?s" using kframes.write_live [OF world_dest(1) [OF W]] by blast
  have "mappings (read_u64 m) R k = mappings (tables s) R k" for k by (auto simp: mappings_def pte)
  moreover have "pt_wf (live s) (read_u64 m) r" "links (read_u64 m) r" if "r \<in> R" for r
    using ts(1,2,5) [OF that] world_dest(7) [OF W that] by (auto intro!: pt_wf_cong [OF world_dest(3) [OF W that]])
  ultimately show "world_ok ?s R"
    using world_dest(2,4,5,6) [OF W] fr unfolding world_ok_def
    by (simp add: lv pte tab ut user_leaf_ok_def)
qed

text \<open>Two canonical addresses that the translation cannot tell apart are the same.\<close>

lemma canonical_inj:
  assumes "canonical a" and "canonical b" and "same_page a b" and "a - page_of a = b - page_of b"
  shows "a = b"
proof -
  have off: "unat (x - page_of x) = unat x mod 4096" for x :: usize
    by (simp add: unat_sub word_le_nat_alt unat_page_of modulo_nat_def)
  have "unat a mod 4096 = unat b mod 4096" using assms(4) off by metis
  moreover have "base_page a = base_page b"
  proof -
    have "same_page (base_page a) (base_page b)" using assms(3) same_page_base [of a] same_page_base [of b] by (simp add: same_page_def)
    then show ?thesis using same_page_eq base_page_facts by blast
  qed
  then have "unat a mod 2 ^ 39 div 4096 = unat b mod 2 ^ 39 div 4096"
    unfolding base_page_def by (simp add: word_unat_eq_iff unat_page_of unat_take39)
  moreover have "n mod 2 ^ 39 mod 4096 = n mod 4096" for n :: nat by (simp add: mod_mod_cancel)
  ultimately have m: "unat a mod 2 ^ 39 = unat b mod 2 ^ 39"
    by (metis div_mult_mod_eq)
  have "n mod 2 ^ 39 = (if n < 2 ^ 38 then n else n - (2 ^ 64 - 2 ^ 39))"
    if "n < 2 ^ 38 \<or> 2 ^ 64 - 2 ^ 38 \<le> n" "n < 2 ^ 64" for n :: nat
  proof (cases "n < 2 ^ 38")
    case False
    then have "n = (n - (2 ^ 64 - 2 ^ 39)) + 2 ^ 39 * (2 ^ 25 - 1)" "n - (2 ^ 64 - 2 ^ 39) < 2 ^ 39" using that by simp_all
    then have "n mod 2 ^ 39 = n - (2 ^ 64 - 2 ^ 39)" by (metis mod_less mod_mult_self2)
    then show ?thesis using False by simp
  qed simp
  from this [of "unat a"] this [of "unat b"] m assms(1,2) unat_usize_less [of a] unat_usize_less [of b]
  show ?thesis unfolding canonical_def word_unat_eq_iff by (simp split: if_splits)
qed

text \<open>A page that its program may write is mapped nowhere else.\<close>

lemma writable_private:
  assumes W: "world_ok s R" and r: "r \<in> R" "r' \<in> R" and u: "is_u (pte_of (tables s) r va)" "is_w (pte_of (tables s) r va)"
    and u': "is_u (pte_of (tables s) r' vb)" and eq: "ppn_to_addr (pte_of (tables s) r' vb) = ppn_to_addr (pte_of (tables s) r va)"
  shows "r' = r \<and> same_page va vb"
proof (rule ccontr)
  let ?p = "ppn_to_addr (pte_of (tables s) r va)"
  assume "\<not> (r' = r \<and> same_page va vb)"
  then have "\<not> (r' = r \<and> same_page (base_page va) vb)" using same_page_base [of va] by (auto simp: same_page_def)
  from other_mapping [OF W r(2) u', of r "base_page va"] this
  have "1 \<le> card (mappings (tables s) R ?p - {(r, base_page va)})" by (auto simp: eq)
  moreover have "(r, base_page va) \<in> mappings (tables s) R ?p" by (rule mappingsI [OF r(1) u(1)])
  ultimately have "2 \<le> card (mappings (tables s) R ?p)"
    using card_mapping_split [OF world_dest(2) [OF W], of "tables s" ?p "(r, base_page va)"] by simp
  then show False
    using world_dest(6) [OF W live_frame_ok [OF world_leaf(3) [OF W r(1) u(1)]]] world_leaf(5) [OF W r(1) u] by simp
qed

lemma user_write:
  assumes W: "world_ok s R" and r: "r \<in> R" and u: "is_u (pte_of (tables s) r va)" "is_w (pte_of (tables s) r va)"
    and m: "m = (mem s)(ppn_to_addr (pte_of (tables s) r va) + (va - page_of va) := b)"
  shows "world_ok (s\<lparr>mem := m\<rparr>) R" and "\<And>r' a. r' \<in> R \<Longrightarrow> pte_of (read_u64 m) r' a = pte_of (tables s) r' a"
    and "\<And>r' a. r' \<in> R \<Longrightarrow> view m r' a = (if r' = r \<and> same_page va a \<and> a - page_of a = va - page_of va then Some b else view (mem s) r' a)"
proof -
  let ?p = "ppn_to_addr (pte_of (tables s) r va)" and ?pa = "ppn_to_addr (pte_of (tables s) r va) + (va - page_of va)"
  have out: "m x = mem s x" if "page_of x \<noteq> ?p" for x using that page_of_mapped [of "pte_of (tables s) r va" va] by (auto simp: m)
  have tb: "\<not> is_table (tables s) r' ?p" if "r' \<in> R" for r' by (rule world_leaf(4) [OF W r u(1) that])
  note pw = page_write_world [of s R ?p m, OF W world_leaf(3) [OF W r u(1)] tb out]
  show "world_ok (s\<lparr>mem := m\<rparr>) R" by (rule pw(1)) simp_all
  show pte: "pte_of (read_u64 m) r' a = pte_of (tables s) r' a" if "r' \<in> R" for r' a by (rule pw(2)) (use that in simp_all)
  show "view m r' a = (if r' = r \<and> same_page va a \<and> a - page_of a = va - page_of va then Some b else view (mem s) r' a)"
    if r': "r' \<in> R" for r' a
  proof (cases "is_u (pte_of (tables s) r' a)")
    case True
    let ?k = "ppn_to_addr (pte_of (tables s) r' a)"
    show ?thesis
    proof (cases "r' = r \<and> same_page va a")
      case same: True
      then have "pte_of (tables s) r' a = pte_of (tables s) r va" using pte_same_page [of va a "tables s" r] by simp
      then have "view m r' a = Some (m (?p + (a - page_of a)))" "view (mem s) r' a = Some (mem s (?p + (a - page_of a)))"
        using u(1) by (simp_all add: view_def Let_def pte [OF r'])
      moreover have "m x = (if x = ?pa then b else mem s x)" for x by (simp add: m)
      ultimately show ?thesis using same by auto
    next
      case False
      then have "?k \<noteq> ?p" using writable_private [OF W r r' u True] by blast
      then have "m (?k + (a - page_of a)) = mem s (?k + (a - page_of a))"
        using out page_of_mapped [of "pte_of (tables s) r' a" a] by simp
      then show ?thesis using False by (auto simp: view_def Let_def pte [OF r'])
    qed
  next
    case False
    then have "\<not> (r' = r \<and> same_page va a)" using pte_same_page [of va a "tables s" r] u(1) by auto
    then show ?thesis using False by (auto simp: view_def Let_def pte [OF r'])
  qed
qed

section \<open>Writing the pages of the kernel\<close>

text \<open>The address spaces depend on memory and the allocator only.\<close>

definition frames_eq :: "'a frames_scheme \<Rightarrow> 'a frames_scheme \<Rightarrow> bool" where
  "frames_eq s s' \<longleftrightarrow> mem s' = mem s \<and> FRAME_REFS s' = FRAME_REFS s \<and> FREE_LIST_HEAD s' = FREE_LIST_HEAD s \<and> NEXT_FRAME s' = NEXT_FRAME s"

lemma world_eq:
  assumes "frames_eq s s'"
  shows "frame_ref s' p = frame_ref s p" and "live s' = live s" and "frames_ok s' = frames_ok s" and "world_ok s' R = world_ok s R"
    and "kernel_page s' R k = kernel_page s R k"
proof -
  have m: "mem s' = mem s" using assms by (simp add: frames_eq_def)
  show ref: "frame_ref s' p = frame_ref s p" for p using assms by (simp add: frames_eq_def frame_ref_def)
  show lv: "live s' = live s" by (simp add: live_def ref fun_eq_iff)
  have "frames_inv fl s' = frames_inv fl s" for fl using assms unfolding frames_inv_def ref by (simp add: frames_eq_def)
  then show ok: "frames_ok s' = frames_ok s" by (simp add: frames_ok_def)
  show "world_ok s' R = world_ok s R" "kernel_page s' R k = kernel_page s R k"
    by (simp_all add: world_ok_def user_leaf_ok_def kernel_page_def m ref lv ok)
qed

lemma kernel_write:
  assumes W: "world_ok s R" and p: "kernel_page s R p" and m: "\<And>x. page_of x \<noteq> p \<Longrightarrow> m x = mem s x"
  shows "world_ok (s\<lparr>mem := m\<rparr>) R" and "kernel_page (s\<lparr>mem := m\<rparr>) R k = kernel_page s R k"
    and "r \<in> R \<Longrightarrow> view m r a = view (mem s) r a"
proof -
  have k: "live s p" "\<And>r. r \<in> R \<Longrightarrow> \<not> is_table (tables s) r p" using p by (auto simp: kernel_page_def)
  note pw = page_write_world [OF W k m]
  show "world_ok (s\<lparr>mem := m\<rparr>) R" by (rule pw(1))
  have lv: "live (s\<lparr>mem := m\<rparr>) = live s" by (simp add: live_def fun_eq_iff)
  show "kernel_page (s\<lparr>mem := m\<rparr>) R k = kernel_page s R k" by (simp add: kernel_page_def lv pw(2,3))
  show "view m r a = view (mem s) r a" if r: "r \<in> R"
  proof -
    let ?e = "pte_of (tables s) r a"
    have "m (ppn_to_addr ?e + (a - page_of a)) = mem s (ppn_to_addr ?e + (a - page_of a))" if "is_u ?e"
      by (rule m) (use p r that page_of_mapped [of ?e a] in \<open>auto simp: kernel_page_def\<close>)
    then show ?thesis by (simp add: view_def Let_def pw(2) [OF _ _ r])
  qed
qed

text \<open>The kernel stacks of the processes are pages of the kernel; a trap frame lies in the topmost.\<close>

definition stack_page :: "Process \<Rightarrow> PhysAddr" where
  "stack_page p = kernel_sp p - 4096"

definition stacks_apart :: "'a kernel_state_scheme \<Rightarrow> PhysAddr set \<Rightarrow> bool" where
  "stacks_apart s R \<longleftrightarrow> (\<forall>p. Some p \<in> set (PROCESS_LIST s) \<and> proc_state p \<noteq> Gone \<longrightarrow> kernel_page s R (stack_page p))"

lemma frame_in_stack:
  assumes "page_aligned (stack_page p)" and "page_of x \<noteq> stack_page p"
  shows "288 \<le> unat (x - frame_base p)"
proof (rule ccontr)
  assume "\<not> 288 \<le> unat (x - frame_base p)"
  then have d: "x - frame_base p < 288" by (simp add: word_less_nat_alt)
  have "x = stack_page p + (x - frame_base p + 3808)" by (simp add: stack_page_def frame_base_def TrapFrame_SIZE_def)
  moreover have "unat (x - frame_base p + 3808) = unat (x - frame_base p) + 3808"
    using d unat_add_no_overflow [of "x - frame_base p" 3808] by (simp add: add_overflows_def word_less_nat_alt)
  then have "unat (x - frame_base p + 3808) < 4096" using d by (simp add: word_less_nat_alt)
  ultimately have "page_of x = stack_page p" using page_of_plus_offset(1) [OF assms(1)] by metis
  then show False using assms(2) by simp
qed

lemma frame_write:
  assumes W: "world_ok s R" and k: "kernel_page s R (stack_page p)" and tf: "tf_ok tf" and m: "m = write_dwords (mem s) (frame_base p) (tf_dwords tf)"
  shows "world_ok (s\<lparr>mem := m\<rparr>) R" and "kernel_page (s\<lparr>mem := m\<rparr>) R q = kernel_page s R q"
    and "r \<in> R \<Longrightarrow> view m r a = view (mem s) r a"
proof -
  have al: "page_aligned (stack_page p)" using k live_aligned by (auto simp: kernel_page_def)
  have "m x = mem s x" if "page_of x \<noteq> stack_page p" for x
    using frame_in_stack [OF al that] write_dwords_outside [of "tf_dwords tf" x] length_tf_dwords [OF tf] by (simp add: m)
  from kernel_write [OF W k this] show "world_ok (s\<lparr>mem := m\<rparr>) R" "kernel_page (s\<lparr>mem := m\<rparr>) R q = kernel_page s R q"
    "r \<in> R \<Longrightarrow> view m r a = view (mem s) r a" by blast+
qed

text \<open>Switching to another process changes nothing that a program sees.\<close>

lemma schedule_unseen:
  assumes ok: "sched_ok s" and st: "stacks_ok s" and W: "world_ok s R" and ap: "stacks_apart s R"
  shows "wp (schedule :: ('a kernel_state_scheme, 'b) kernel) (\<lambda>_ _. False) (\<lambda>e s'. (e = Shutdown \<or> (\<exists>sp addr. e = Resume sp addr)) \<and>
    world_ok s' R \<and> stacks_apart s' R \<and> (\<forall>p. frame_ref s' p = frame_ref s p) \<and> (\<forall>r\<in>R. \<forall>a. view (mem s') r a = view (mem s) r a)) s"
proof -
  have sv: "frames_eq s (saved s)" by (simp add: frames_eq_def saved_def update_slot_def)
  have nth: "\<exists>q. Some q \<in> set (PROCESS_LIST s) \<and> proc_state p = proc_state q \<and> stack_page p = stack_page q"
    if p: "Some p \<in> set (PROCESS_LIST (saved s))" for p
  proof -
    obtain k where k: "k < 32" "PROCESS_LIST (saved s) ! k = Some p" using p ok by (auto simp: in_set_conv_nth sched_ok_def)
    have mem: "PROCESS_LIST s ! k \<in> set (PROCESS_LIST s)" using k(1) ok by (simp add: sched_ok_def)
    show ?thesis
    proof (cases "k = unat (CURRENT s)")
      case True
      then show ?thesis using saved_nth [OF ok k(1)] k(2) mem sched_ok_cur [OF ok] by (intro exI [of _ "cur_proc s"]) (auto simp: stack_page_def)
    qed (use saved_nth [OF ok k(1)] k(2) mem in \<open>intro exI [of _ p], simp\<close>)
  qed
  then have apS: "stacks_apart (saved s) R" using ap unfolding stacks_apart_def world_eq(5) [OF sv] by metis
  have WS: "world_ok (saved s) R" using W world_eq(4) [OF sv] by simp
  from schedule_run [OF ok st] show ?thesis
  proof (elim disjE exE conjE)
    fix k assume k: "k < 32" "is_ready (PROCESS_LIST s ! k)"
      and run: "(schedule :: ('a kernel_state_scheme, 'b) kernel) s =
        (Exit (Resume (frame_base (the (PROCESS_LIST (saved s) ! k))) (TRAP_EXIT_RESTORE_ADDR s)), switched k (saved s))"
    have rd: "is_ready (PROCESS_LIST (saved s) ! k)" using k saved_ready [OF ok k(1)] by simp
    then obtain p where p: "PROCESS_LIST (saved s) ! k = Some p" "proc_state p = Ready" by (auto simp: is_ready_def split: option.splits)
    have pin: "Some p \<in> set (PROCESS_LIST (saved s))" using p k(1) ok nth_mem [of k "PROCESS_LIST (saved s)"] by (simp add: sched_ok_def)
    then have kp: "kernel_page (saved s) R (stack_page p)" and tf: "tf_ok (trap_frame p)"
      using apS p(2) saved_stacks [OF ok st] by (auto simp: stacks_apart_def stacks_ok_def)
    let ?m = "write_dwords (mem (saved s)) (frame_base p) (tf_dwords (trap_frame p))"
    note fw = frame_write [OF WS kp tf refl]
    have sw: "frames_eq ((saved s)\<lparr>mem := ?m\<rparr>) (switched k (saved s))"
      by (simp add: frames_eq_def switched_def p(1) Let_def update_slot_def)
    have "stacks_apart (switched k (saved s)) R"
      unfolding stacks_apart_def world_eq(5) [OF sw] fw(2)
    proof (intro allI impI)
      fix q assume q: "Some q \<in> set (PROCESS_LIST (switched k (saved s))) \<and> proc_state q \<noteq> Gone"
      then have "Some q \<in> set (PROCESS_LIST (saved s)) \<or> q = p\<lparr>proc_state := Running\<rparr>"
        using set_update_subset_insert [of "PROCESS_LIST (saved s)" k] p(1) by (auto simp: switched_def Let_def update_slot_def)
      then show "kernel_page (saved s) R (stack_page q)" using q apS kp by (auto simp: stacks_apart_def stack_page_def)
    qed
    moreover have "world_ok (switched k (saved s)) R" using fw(1) world_eq(4) [OF sw] by simp
    moreover have "frame_ref (switched k (saved s)) x = frame_ref s x" for x
      using world_eq(1) [OF sw] world_eq(1) [OF sv] by simp
    moreover have "mem (switched k (saved s)) = ?m" by (simp add: switched_def p(1) Let_def)
    ultimately show ?thesis using run fw(3) by (simp add: wp_def)
  next
    assume "(schedule :: ('a kernel_state_scheme, 'b) kernel) s =
      (Exit Shutdown, (saved s)\<lparr>sbi_log := sbi_log s @ [(SBI_EXT_SRST, SBI_SRST_RESET, SBI_RESET_SHUTDOWN, 0)]\<rparr>)" (is "_ = (_, ?t)")
    moreover have "frames_eq (saved s) ?t" by (simp add: frames_eq_def)
    note e = world_eq [OF this]
    ultimately show ?thesis using WS apS e world_eq(1) [OF sv] by (simp add: wp_def stacks_apart_def)
  qed
qed

section \<open>What a program can reach\<close>

text \<open>C2. Memory protection. While the hart runs a program on the page tables of \<open>pt\<close>, every address
  that the program can load from or fetch from is an address of its own view, and it reads there
  the byte of that view. Every address it can store to belongs to it alone: after the store it
  sees the new byte at that address and nothing else has changed in its view, no other program
  sees anything changed, and the address spaces are as well-formed as before.\<close>

theorem user_access_isolated:
  assumes "world_ok s R" and "root pt \<in> R" and "csr_satp s = satp_val pt"
  shows "(\<forall>acc va pa. hw_translate User acc va s = Some pa \<longrightarrow> view (mem s) (root pt) va = Some (mem s pa)) \<and>
    (\<forall>va pa b. hw_translate User Store va s = Some pa \<longrightarrow> world_ok (s\<lparr>mem := (mem s)(pa := b)\<rparr>) R \<and>
       (\<forall>r\<in>R. \<forall>a. canonical a \<longrightarrow>
          view ((mem s)(pa := b)) r a = (if r = root pt \<and> a = va then Some b else view (mem s) r a)))"
proof (intro conjI allI impI ballI)
  note tr = hw_translate_pte [OF assms]
  fix acc va pa assume "hw_translate User acc va s = Some pa"
  then have "is_u (pte_of (tables s) (root pt) va)" "pa = ppn_to_addr (pte_of (tables s) (root pt) va) + (va - page_of va)"
    by (auto simp: tr hw_leaf_def leaf_ok_def split: if_splits)
  then show "view (mem s) (root pt) va = Some (mem s pa)" by (simp add: view_def)
next
  note tr = hw_translate_pte [OF assms]
  fix va pa b assume st: "hw_translate User Store va s = Some pa"
  then have e: "is_u (pte_of (tables s) (root pt) va)" "is_w (pte_of (tables s) (root pt) va)" "canonical va"
    and pa: "(mem s)(pa := b) = (mem s)(ppn_to_addr (pte_of (tables s) (root pt) va) + (va - page_of va) := b)"
    by (auto simp: tr hw_leaf_def leaf_ok_def split: if_splits)
  note uw = user_write [OF assms(1,2) e(1,2) pa]
  show "world_ok (s\<lparr>mem := (mem s)(pa := b)\<rparr>) R" by (rule uw(1))
  fix r a assume "r \<in> R" "canonical a"
  then show "view ((mem s)(pa := b)) r a = (if r = root pt \<and> a = va then Some b else view (mem s) r a)"
    using uw(3) [of r a] canonical_inj [OF _ e(3), of a] by (auto simp: same_page_def)
qed

text \<open>The hart accepts a page that \<open>mmap\<close> or \<open>brk\<close> has mapped.\<close>

lemma new_leaf_reserved:
  assumes "frame_ok p"
  shows "reserved_ok pbmt (new_leaf p (PTEFlags_new r w x u))"
proof -
  have "unat p < 2 ^ 52" using assms by (simp add: frame_ok_def is_managed_unat)
  then have "\<not> bit p n" if "52 \<le> n" for n using that by (intro high_bits_zero [of p 52]) simp_all
  then have z: "drop_bit 54 (new_leaf p (PTEFlags_new r w x u)) = 0"
    by (intro bit_word_eqI) (auto simp: bit_drop_bit_eq bit_new_leaf bit_PTEFlags_new)
  then have "drop_bit 7 (drop_bit 54 (new_leaf p (PTEFlags_new r w x u))) = 0" by simp
  then have "drop_bit 61 (new_leaf p (PTEFlags_new r w x u)) = 0" by (simp add: drop_bit_drop_bit)
  then show ?thesis using z by (simp add: reserved_ok_def)
qed

lemma mapped_example:
  obtains s :: kernel_state and pa where "world_ok s {root pt1}" "csr_satp s = satp_val pt1" "hw_translate User Store 0x20008 s = Some pa"
    "view (mem s) (root pt1) 0x20008 = Some 0"
proof -
  let ?fl = "PTEFlags_new True True False True"
  have va: "page_aligned (0x20000 :: usize)" "unat (0x20000 :: usize) < 2 ^ 39" "vpn 0x20000 2 < 2"
    by (simp_all add: page_aligned_def user_half)
  have "frames_has (0 + 3) blank_state" by (rule kcount.has_weaken [OF blank_facts(4)]) simp
  note has = map_zeroed_step_has [OF blank_facts(1) blank_world blank_facts(3) this blank_pte, of "0x20000" ?fl]
  from wp_conj [OF map_zeroed_step_wp [OF blank_facts(1) blank_world blank_facts(3) va, of True False True] has]
  obtain t :: kernel_state where W: "world_ok t {root pt1}" and z: "zeroed (cur_root blank_state) (Collect (same_page 0x20000)) ?fl t"
    by (auto simp: only_def dest!: wp_returns)
  have r: "cur_root blank_state = root pt1" by (simp add: blank_facts proc0_def)
  have sp: "same_page 0x20000 0x20008" by (simp add: same_page_def vpn_def)
  obtain p where p: "frame_ok p" "pte_of (tables t) (root pt1) 0x20008 = new_leaf p ?fl" "view (mem t) (root pt1) 0x20008 = Some 0"
    using z sp unfolding zeroed_def r by blast
  let ?s = "t\<lparr>csr_satp := satp_val pt1\<rparr>"
  have "frames_eq t ?s" by (simp add: frames_eq_def)
  then have W': "world_ok ?s {root pt1}" using W world_eq(4) by blast
  have "hw_leaf (svpbmt ?s) User Store (new_leaf p ?fl)"
    using new_leaf_reserved [OF p(1)] new_leaf_reads [of p True True False True] p(1)
    by (simp add: hw_leaf_def leaf_ok_def frame_ok_def is_managed_unat)
  moreover have "canonical 0x20008" by (simp add: canonical_def)
  ultimately have "\<exists>pa. hw_translate User Store 0x20008 ?s = Some pa" using hw_translate_pte [OF W', of pt1 User Store "0x20008"] p(2) by simp
  then show ?thesis using that [OF W'] p(3) by auto
qed

theorem user_access_isolated_witness:
  "\<exists>(s :: kernel_state) pa. world_ok s {root pt1} \<and> csr_satp s = satp_val pt1 \<and> hw_translate User Store 0x20008 s = Some pa \<and>
     view (mem s) (root pt1) 0x20008 = Some 0 \<and> view ((mem s)(pa := 7)) (root pt1) 0x20008 = Some 7 \<and>
     view ((mem s)(pa := 7)) (root pt1) 0x20009 = view (mem s) (root pt1) 0x20009"
proof -
  obtain s :: kernel_state and pa where s: "world_ok s {root pt1}" "csr_satp s = satp_val pt1" "hw_translate User Store 0x20008 s = Some pa"
    "view (mem s) (root pt1) 0x20008 = Some 0" by (rule mapped_example)
  have "canonical 0x20008" "canonical 0x20009" by (simp_all add: canonical_def)
  with user_access_isolated [OF s(1) _ s(2), THEN conjunct2, rule_format, OF _ s(3), of 7] s show ?thesis by auto
qed

end
