(* ===== verification/Lifecycle.thy ===== *)
theory Lifecycle
  imports Isolation
begin

text \<open>
  The life of a process (\<open>syscall.rs\<close>): \<open>fork\<close>, which shares the user pages of the parent
  copy-on-write with a child, \<open>exit\<close>, which drops them and leaves a zombie, and \<open>wait\<close>, which
  collects a zombie child and frees its kernel stack and page tables. \<open>exit\<close> and a blocking
  \<open>wait\<close> end in the scheduler and do not return to their caller.
\<close>

section \<open>fork\<close>

text \<open>The kernel half of the root table is copied entry by entry; the tables below are shared.\<close>

definition copy_kernel_half :: "PhysAddr \<Rightarrow> PhysAddr \<Rightarrow> ('a hart_scheme, unit) kernel" where
  "copy_kernel_half parent_root child_root =
     for_each [KERNEL_VPN2_MIN..<512] (\<lambda>vpn2.
       kbind (load64 (entry_at parent_root (of_nat vpn2))) (\<lambda>pte.
       if pte \<noteq> 0 then store64 (entry_at child_root (of_nat vpn2)) pte else ret ()))"

text \<open>The two callbacks of \<open>for_each_leaf\<close>; the results of \<open>map\<close> and \<open>map_cow\<close> are ignored.\<close>

definition share_user_leaf :: "PageTable \<Rightarrow> VirtAddr \<Rightarrow> usize \<Rightarrow> ('a frames_scheme, unit) kernel" where
  "share_user_leaf child_pt vaddr entry =
     kbind (load64 entry) (\<lambda>e.
     if \<not> is_u e then ret ()
     else
       let pa = ppn_to_addr e in
       kseq (inc_ref pa)
       (kseq (if is_w e
              then kseq (store64 entry (clear_w e))
                   (kbind (load64 entry) (\<lambda>e. store64 entry (set_cow e)))
              else ret ())
       (kbind (load64 entry) (\<lambda>e.
       if is_cow e
       then kbind (map_cow alloc_frame child_pt vaddr pa (pte_flags e)) (\<lambda>_. ret ())
       else kbind (map_page alloc_frame child_pt vaddr pa (pte_flags e)) (\<lambda>_. ret ())))))"

definition share_kernel_leaf :: "PageTable \<Rightarrow> VirtAddr \<Rightarrow> usize \<Rightarrow> ('a frames_scheme, unit) kernel" where
  "share_kernel_leaf child_pt vaddr entry =
     kbind (load64 entry) (\<lambda>e.
     if is_u e then ret ()
     else kbind (map_page alloc_frame child_pt vaddr (ppn_to_addr e) (pte_flags e)) (\<lambda>_. ret ()))"

definition fork_frame :: "TrapFrame \<Rightarrow> ('s, TrapFrame) kernel" where
  "fork_frame tf =
     (let child_tf = set_a0 0 tf in
      kbind (uadd (sepc child_tf) 4) (\<lambda>pc.
      ret (child_tf\<lparr>sepc := pc, scause := 8\<rparr>)))"

definition sys_fork :: "('a kernel_state_scheme, usize) kernel" where
  "sys_fork =
     kbind find_empty_slot (\<lambda>r.
     case r of
       None \<Rightarrow> ret (linux_error EAGAIN)
     | Some idx \<Rightarrow>
         kbind alloc_pid (\<lambda>new_pid.
         kbind alloc_frame (\<lambda>f.
         kbind (expect ''fork: no frame for root page table'' f) (\<lambda>root_frame.
         kseq (fill_bytes root_frame 0 4096)
         (kbind current (\<lambda>cur.
         kseq (copy_kernel_half (root_addr (page_table cur)) root_frame)
         (kbind (alloc_contiguous_frames KERNEL_STACK_PAGES) (\<lambda>st.
         kbind (expect ''fork: no frames for kernel stack'' st) (\<lambda>kernel_stack.
         kseq (fill_bytes kernel_stack 0 KERNEL_STACK_SIZE)
         (kbind (uadd kernel_stack KERNEL_STACK_SIZE) (\<lambda>ksp.
         kbind current (\<lambda>cur.
         kbind (fork_frame (trap_frame cur)) (\<lambda>child_tf.
         let child_pt = \<lparr>root = root_frame\<rparr> in
         kbind current (\<lambda>cur.
         kseq (for_each_leaf (page_table cur) 0 KERNEL_VPN2_MIN (share_user_leaf child_pt))
         (kbind current (\<lambda>cur.
         kseq (for_each_leaf (page_table cur) 0 KERNEL_VPN2_MIN (share_kernel_leaf child_pt))
         (kbind current (\<lambda>cur.
         let child = \<lparr>pid = new_pid, parent_pid = pid cur, proc_state = Ready, page_table = child_pt,
                      trap_frame = child_tf, kernel_sp = ksp, kernel_stack_frame = kernel_stack,
                      heap_start = heap_start cur, heap_end = heap_end cur, mmap_areas = mmap_areas cur\<rparr> in
         kseq (modify (\<lambda>s. s\<lparr>PROCESS_LIST := (PROCESS_LIST s)[unat idx := Some child]\<rparr>))
         (ret new_pid)))))))))))))))))))"

section \<open>exit\<close>

definition drop_user_leaf :: "VirtAddr \<Rightarrow> usize \<Rightarrow> ('a frames_scheme, unit) kernel" where
  "drop_user_leaf vaddr entry =
     kbind (load64 entry) (\<lambda>e.
     if \<not> flags_is_u (pte_flags e) then ret ()
     else kbind (dec_ref (ppn_to_addr e)) (\<lambda>_. store64 entry pte_empty))"

definition sys_exit :: "usize \<Rightarrow> ('a kernel_state_scheme, 'b) kernel" where
  "sys_exit code =
     kseq reparent_orphans_to_init
     (kbind current (\<lambda>cur.
     kseq (for_each_leaf (page_table cur) 0 KERNEL_VPN2_MIN drop_user_leaf)
     (kbind current (\<lambda>_.
     kseq (update_current (\<lambda>p. p\<lparr>proc_state := Zombie code\<rparr>))
     (kseq wake_parent
     schedule)))))"

section \<open>wait\<close>

definition free_l2 :: "PhysAddr \<Rightarrow> ('a frames_scheme, unit) kernel" where
  "free_l2 l2_addr =
     for_each [0..<512] (\<lambda>vpn1.
       kbind (load64 (entry_at l2_addr (of_nat vpn1))) (\<lambda>e.
       if \<not> is_valid e then ret ()
       else if \<not> is_r e \<and> \<not> is_w e \<and> \<not> is_x e then free_frame (ppn_to_addr e)
       else ret ()))"

definition free_intermediate_frames :: "PhysAddr \<Rightarrow> nat \<Rightarrow> nat \<Rightarrow> ('a frames_scheme, unit) kernel" where
  "free_intermediate_frames rt vpn2_min vpn2_max =
     for_each [vpn2_min..<vpn2_max] (\<lambda>vpn2.
       kbind (load64 (entry_at rt (of_nat vpn2))) (\<lambda>e.
       if \<not> is_valid e then ret ()
       else kseq (free_l2 (ppn_to_addr e)) (free_frame (ppn_to_addr e))))"

definition free_user_pt_resources :: "Process \<Rightarrow> ('a frames_scheme, unit) kernel" where
  "free_user_pt_resources child =
     kseq (for_each [0..<unat KERNEL_STACK_PAGES] (\<lambda>i.
       kbind (umul (of_nat i) PAGE_SIZE) (\<lambda>off.
       kbind (uadd (kernel_stack_frame child) off) free_frame)))
     (kseq (free_intermediate_frames (root_addr (page_table child)) 0 KERNEL_VPN2_MIN)
     (free_frame (root_addr (page_table child))))"

definition zombie_child :: "usize \<Rightarrow> Process option \<Rightarrow> bool" where
  "zombie_child ppid slot \<longleftrightarrow> (case slot of None \<Rightarrow> False
     | Some c \<Rightarrow> parent_pid c = ppid \<and> (case proc_state c of Zombie code \<Rightarrow> True | _ \<Rightarrow> False))"

definition running_child :: "usize \<Rightarrow> Process option \<Rightarrow> bool" where
  "running_child ppid slot \<longleftrightarrow> (case slot of None \<Rightarrow> False
     | Some c \<Rightarrow> parent_pid c = ppid \<and> proc_state c \<noteq> Gone \<and>
         (case proc_state c of Zombie code \<Rightarrow> False | _ \<Rightarrow> True))"

text \<open>Delivering the exit code: a shared page is made private first, the pointer is not checked
  otherwise.\<close>

definition store_exit_code :: "usize \<Rightarrow> usize \<Rightarrow> ('a kernel_state_scheme, unit) kernel" where
  "store_exit_code exit_code_ptr code =
     (if exit_code_ptr = 0 then ret ()
      else
        kbind current (\<lambda>cur.
        kbind (lookup (page_table cur) exit_code_ptr) (\<lambda>r.
        kseq (case r of
            None \<Rightarrow> ret ()
          | Some entry \<Rightarrow>
              kbind (load64 entry) (\<lambda>e.
              if is_cow e \<and> is_r e \<and> \<not> is_w e \<and> is_u e
              then handle_cow_fault exit_code_ptr entry else ret ()))
        (with_user_access (user_store64 exit_code_ptr code)))))"

definition exit_code :: "Process \<Rightarrow> usize" where
  "exit_code c = (case proc_state c of Zombie code \<Rightarrow> code | _ \<Rightarrow> 0)"

definition sys_wait :: "usize \<Rightarrow> ('a kernel_state_scheme, usize) kernel" where
  "sys_wait exit_code_ptr =
     kbind current (\<lambda>cur.
     let cur_pid = pid cur in
     kbind (gets PROCESS_LIST) (\<lambda>l.
     case position (zombie_child cur_pid) l of
       Some idx \<Rightarrow>
         kseq (store_exit_code exit_code_ptr (exit_code (the (l ! idx))))
         (kbind (gets PROCESS_LIST) (\<lambda>l.
         kbind (expect ''wait: zombie slot disappeared'' (l ! idx)) (\<lambda>child.
         kseq (free_user_pt_resources child)
         (kseq (modify (update_slot idx (\<lambda>p. p\<lparr>proc_state := Gone\<rparr>)))
         (ret (pid child))))))
     | None \<Rightarrow>
         (case position (running_child cur_pid) l of
            Some i \<Rightarrow>
              kbind current (\<lambda>_.
              kseq (update_current (\<lambda>p. p\<lparr>proc_state := Blocked\<rparr>))
              schedule)
          | None \<Rightarrow> ret (linux_error ECHILD))))"

section \<open>What the steps leave alone\<close>

lemma keeps_fork_steps [keeps_intros]:
  "keeps above_next (copy_kernel_half a b)" "keeps above_next (share_user_leaf pt va ea)"
  "keeps above_next (share_kernel_leaf pt va ea)"
  unfolding copy_kernel_half_def share_user_leaf_def share_kernel_leaf_def by (intro keeps_intros)+

lemma keeps_release [keeps_intros]:
  "keeps above_next (drop_user_leaf va ea)" "keeps above_next (free_user_pt_resources c)"
  unfolding drop_user_leaf_def free_user_pt_resources_def free_intermediate_frames_def free_l2_def
  by (intro keeps_intros)+

section \<open>Waiting and exiting\<close>

lemma stacks_ok_update:
  assumes "stacks_ok s" and f: "\<And>p. kernel_sp (f p) = kernel_sp p \<and> trap_frame (f p) = trap_frame p"
  shows "stacks_ok (update_slot i f s)"
proof (cases "i < length (PROCESS_LIST s)")
  case True
  have "\<exists>p. Some p \<in> set (PROCESS_LIST s) \<and> kernel_sp q = kernel_sp p \<and> trap_frame q = trap_frame p"
    if "Some q \<in> set (PROCESS_LIST (update_slot i f s))" for q
  proof -
    have "Some q = map_option f (PROCESS_LIST s ! i) \<or> Some q \<in> set (PROCESS_LIST s)"
      using that set_update_subset_insert [of "PROCESS_LIST s" i] by (auto simp: update_slot_def)
    then show ?thesis
    proof
      assume "Some q = map_option f (PROCESS_LIST s ! i)"
      then obtain p where "PROCESS_LIST s ! i = Some p" "q = f p" by (cases "PROCESS_LIST s ! i") auto
      then show ?thesis using nth_mem [OF True] f by metis
    qed blast
  qed
  then show ?thesis using assms(1) unfolding stacks_ok_def by metis
qed (use assms(1) in \<open>simp add: stacks_ok_def update_slot_def list_update_beyond\<close>)

lemma schedule_from:
  fixes s :: "'a kernel_state_scheme"
  assumes "sched_ok s" and "stacks_ok s" and "j < 32" and "is_ready (PROCESS_LIST s ! j)"
    and c: "\<not> is_ready (PROCESS_LIST s ! unat (CURRENT s))"
    and Q: "\<And>k s'. k < 32 \<Longrightarrow> is_ready (PROCESS_LIST s ! k) \<Longrightarrow> k \<noteq> unat (CURRENT s) \<Longrightarrow> unat (CURRENT s') = k \<Longrightarrow>
      (\<And>i. i < 32 \<Longrightarrow> PROCESS_LIST s' ! i = (if i = k then map_option (\<lambda>p. p\<lparr>proc_state := Running\<rparr>) (PROCESS_LIST s ! k)
         else if i = unat (CURRENT s) then Some ((cur_proc s)\<lparr>trap_frame := stack_frame (mem s) (kernel_sp (cur_proc s) - 288)\<rparr>)
         else PROCESS_LIST s ! i)) \<Longrightarrow>
      R (Resume (kernel_sp (the (PROCESS_LIST s ! k)) - 288) (TRAP_EXIT_RESTORE_ADDR s)) s'"
  shows "wp (schedule :: ('a kernel_state_scheme, 'b) kernel) Q' R s"
proof -
  from schedule_run [OF assms(1,2), where 'b = 'b] assms(3,4) obtain k where k: "k < 32" "is_ready (PROCESS_LIST s ! k)"
    and run: "(schedule :: ('a kernel_state_scheme, 'b) kernel) s =
      (Exit (Resume (frame_base (the (PROCESS_LIST (saved s) ! k))) (TRAP_EXIT_RESTORE_ADDR s)), switched k (saved s))" by blast
  have kc: "k \<noteq> unat (CURRENT s)" using k c by auto
  have ok: "sched_ok (saved s)" using assms(1) by simp
  have sk: "PROCESS_LIST (saved s) ! k = PROCESS_LIST s ! k" using saved_nth [OF assms(1) k(1)] kc by simp
  have "unat (CURRENT (switched k (saved s))) = k" using k(1) by (simp add: switched_def Let_def)
  moreover have "PROCESS_LIST (switched k (saved s)) ! i = (if i = k then map_option (\<lambda>p. p\<lparr>proc_state := Running\<rparr>) (PROCESS_LIST s ! k)
         else if i = unat (CURRENT s) then Some ((cur_proc s)\<lparr>trap_frame := stack_frame (mem s) (kernel_sp (cur_proc s) - 288)\<rparr>)
         else PROCESS_LIST s ! i)" if "i < 32" for i
    using switched_nth [OF ok k(1) that] saved_nth [OF assms(1) that] sk by (simp add: frame_base_def TrapFrame_SIZE_def)
  ultimately have "R (Resume (kernel_sp (the (PROCESS_LIST s ! k)) - 288) (TRAP_EXIT_RESTORE_ADDR s)) (switched k (saved s))"
    by (rule Q [OF k kc])
  then show ?thesis by (simp add: wp_def run sk frame_base_def TrapFrame_SIZE_def)
qed

text \<open>Waiting without children: when every process whose parent is the caller has already been
  collected, \<open>wait\<close> returns \<open>ECHILD\<close> and changes nothing.\<close>

lemma wait_without_children:
  assumes "sched_ok s"
    and "\<forall>i<32. \<forall>p. PROCESS_LIST s ! i = Some p \<and> parent_pid p = pid (cur_proc s) \<longrightarrow> proc_state p = Gone"
  shows "sys_wait ptr s = (Val (linux_error ECHILD), s)"
proof -
  have len: "length (PROCESS_LIST s) = 32" using assms(1) by (simp add: sched_ok_def)
  have gone: "proc_state p = Gone" if "x \<in> set (PROCESS_LIST s)" "x = Some p" "parent_pid p = pid (cur_proc s)" for x p
    using that assms(2) len by (auto simp: in_set_conv_nth)
  have "position (zombie_child (pid (cur_proc s))) (PROCESS_LIST s) = None"
    "position (running_child (pid (cur_proc s))) (PROCESS_LIST s) = None"
    unfolding position_None zombie_child_def running_child_def using gone by (auto split: option.splits)
  then show ?thesis
    using current_run [OF assms(1)] by (simp add: sys_wait_def kbind_def Let_def gets_def ret_def)
qed


text \<open>The end of an exiting process whose parent waits for it.\<close>

lemma zombie_handover:
  fixes t :: "'a kernel_state_scheme"
  assumes ok: "sched_ok t" "stacks_ok t" and j: "j < 32" "j \<noteq> unat (CURRENT t)"
    and par: "PROCESS_LIST t ! j = Some par" "pid par = parent_pid (cur_proc t)" "proc_state par = Blocked"
    and uniq: "\<And>i p. i < 32 \<Longrightarrow> PROCESS_LIST t ! i = Some p \<Longrightarrow> pid p = pid par \<Longrightarrow> i = j"
  shows "wp (kseq (update_current (\<lambda>p. p\<lparr>proc_state := Zombie code\<rparr>)) (kseq wake_parent (schedule :: ('a kernel_state_scheme, 'b) kernel)))
      (\<lambda>_ _. False) (\<lambda>e s'. (\<exists>sp. e = Resume sp (TRAP_EXIT_RESTORE_ADDR t)) \<and>
        (\<exists>p. PROCESS_LIST s' ! j = Some p \<and> pid p = pid par \<and> proc_state p \<in> {Ready, Running} \<and> trap_frame p = trap_frame par) \<and>
        (\<exists>z. PROCESS_LIST s' ! unat (CURRENT t) = Some z \<and> proc_state z = Zombie code \<and> parent_pid z = pid par)) t"
    (is "wp _ _ ?R t")
proof -
  let ?c = "unat (CURRENT t)" and ?z = "(cur_proc t)\<lparr>proc_state := Zombie code\<rparr>"
  let ?u = "update_slot ?c (\<lambda>p. p\<lparr>proc_state := Zombie code\<rparr>) t"
  let ?v = "update_slot j (\<lambda>p. p\<lparr>proc_state := Ready\<rparr>) ?u"
  have len: "length (PROCESS_LIST t) = 32" and c: "?c < 32" using ok(1) by (simp_all add: sched_ok_def)
  have cu: "sched_ok ?u" "cur_proc ?u = ?z" using ok(1) cur_proc_update [OF ok(1)] by simp_all
  have nu: "PROCESS_LIST ?u ! k = (if k = ?c then Some ?z else PROCESS_LIST t ! k)" if "k < 32" for k
    using that len sched_ok_cur [OF ok(1)] by (simp add: update_slot_nth)
  have nv: "PROCESS_LIST ?v ! k = (if k = j then Some (par\<lparr>proc_state := Ready\<rparr>) else if k = ?c then Some ?z else PROCESS_LIST t ! k)"
    if "k < 32" for k
    using that len nu j par(1) by (simp add: update_slot_nth)
  have "position (wakes (pid par)) (PROCESS_LIST ?u) = Some j"
    unfolding position_Some
  proof (intro conjI allI impI)
    show "wakes (pid par) (PROCESS_LIST ?u ! j)" using nu [OF j(1)] j par by (simp add: wakes_def)
    fix k assume k: "k < j"
    show "\<not> wakes (pid par) (PROCESS_LIST ?u ! k)"
    proof (cases "k = ?c")
      case True
      then show ?thesis using nu [OF c] by (simp add: wakes_def)
    next
      case False
      then show ?thesis using nu [of k] k j(1) uniq [of k] by (auto simp: wakes_def split: option.splits)
    qed
  qed (use len j in simp)
  then have wake: "wake_result (parent_pid (cur_proc ?u)) ?u = ?v" using par(2) cu(2) by (simp add: wake_result_def)
  have "wp (schedule :: ('a kernel_state_scheme, 'b) kernel) (\<lambda>_ _. False) ?R ?v"
  proof (rule schedule_from [OF _ _ j(1)])
    show "sched_ok ?v" using ok(1) by simp
    show "stacks_ok ?v" by (intro stacks_ok_update ok(2)) simp_all
    show "is_ready (PROCESS_LIST ?v ! j)" using nv [OF j(1)] by (simp add: is_ready_def)
    show "\<not> is_ready (PROCESS_LIST ?v ! unat (CURRENT ?v))" using nv [OF c] j by (simp add: is_ready_def)
    fix k and s' :: "'a kernel_state_scheme"
    assume k: "k < 32" "k \<noteq> unat (CURRENT ?v)"
      and l: "\<And>i. i < 32 \<Longrightarrow> PROCESS_LIST s' ! i = (if i = k then map_option (\<lambda>p. p\<lparr>proc_state := Running\<rparr>) (PROCESS_LIST ?v ! k)
         else if i = unat (CURRENT ?v) then Some ((cur_proc ?v)\<lparr>trap_frame := stack_frame (mem ?v) (kernel_sp (cur_proc ?v) - 288)\<rparr>)
         else PROCESS_LIST ?v ! i)"
    have cv: "cur_proc ?v = ?z" using nv [OF c] j by (simp add: cur_proc_def)
    have "PROCESS_LIST s' ! j = Some (if j = k then par\<lparr>proc_state := Running\<rparr> else par\<lparr>proc_state := Ready\<rparr>)"
      using l [OF j(1)] nv [OF j(1)] j(2) by (cases "j = k") auto
    moreover have "PROCESS_LIST s' ! ?c = Some (?z\<lparr>trap_frame := stack_frame (mem ?v) (kernel_sp (cur_proc ?v) - 288)\<rparr>)"
      using l [OF c] k cv by simp
    ultimately show "?R (Resume (kernel_sp (the (PROCESS_LIST ?v ! k)) - 288) (TRAP_EXIT_RESTORE_ADDR ?v)) s'"
      using par(2) by simp
  qed
  then show ?thesis
    unfolding wp_kseq wp_update_current
    by (intro wp_mono [OF wp_wake_parent [OF cu(1)]]) (simp_all add: wake)
qed

text \<open>C38. No wake-up is lost. When a process exits while its parent is blocked in \<open>wait\<close>, then unless the
  release of its pages panics, another process is resumed (the machine does not go idle), the
  parent is ready or running again with its saved trap frame untouched, and the exited process is
  a zombie child of that parent carrying the exit code, so that the repeated \<open>wait\<close> finds it.\<close>

theorem exit_wakes_parent:
  fixes s :: "'a kernel_state_scheme"
  assumes "sched_ok s" and "stacks_ok s" and "j < 32" and "j \<noteq> unat (CURRENT s)"
    and "PROCESS_LIST s ! j = Some par" and "pid par = parent_pid (cur_proc s)" and "proc_state par = Blocked"
    and "\<forall>i<32. \<forall>p. PROCESS_LIST s ! i = Some p \<and> pid p = pid par \<longrightarrow> i = j" and "pid par \<noteq> pid (cur_proc s)"
  shows "case (sys_exit code :: ('a kernel_state_scheme, 'b) kernel) s of
      (Exit (Resume sp addr), s') \<Rightarrow> addr = TRAP_EXIT_RESTORE_ADDR s \<and>
        (\<exists>p. PROCESS_LIST s' ! j = Some p \<and> pid p = pid par \<and> proc_state p \<in> {Ready, Running} \<and> trap_frame p = trap_frame par) \<and>
        zombie_child (pid par) (PROCESS_LIST s' ! unat (CURRENT s)) \<and>
        exit_code (the (PROCESS_LIST s' ! unat (CURRENT s))) = code
    | (Exit e, s') \<Rightarrow> e \<noteq> Shutdown
    | (Val _, s') \<Rightarrow> False"
proof -
  let ?c = "unat (CURRENT s)" and ?q = "pid (cur_proc s)"
  let ?P = "\<lambda>addr s'. addr = TRAP_EXIT_RESTORE_ADDR s \<and>
        (\<exists>p. PROCESS_LIST s' ! j = Some p \<and> pid p = pid par \<and> proc_state p \<in> {Ready, Running} \<and> trap_frame p = trap_frame par) \<and>
        zombie_child (pid par) (PROCESS_LIST s' ! ?c) \<and> exit_code (the (PROCESS_LIST s' ! ?c)) = code"
  let ?R = "\<lambda>e s'. case e of Resume sp addr \<Rightarrow> ?P addr s' | e \<Rightarrow> e \<noteq> Shutdown"
  let ?l = "List.map (map_option (reparent ?q)) (PROCESS_LIST s)"
  have len: "length (PROCESS_LIST s) = 32" and c: "?c < 32" using assms(1) by (simp_all add: sched_ok_def)
  have tail: "wp (kbind current (\<lambda>_. kseq (update_current (\<lambda>p. p\<lparr>proc_state := Zombie code\<rparr>)) (kseq wake_parent (schedule :: ('a kernel_state_scheme, 'b) kernel))))
      (\<lambda>_ _. False) ?R t"
    if t: "PROCESS_LIST t = ?l" "CURRENT t = CURRENT s" "TRAP_EXIT_RESTORE_ADDR t = TRAP_EXIT_RESTORE_ADDR s" for t
  proof -
    have nth: "PROCESS_LIST t ! i = map_option (reparent ?q) (PROCESS_LIST s ! i)" if "i < 32" for i using that len t by simp
    have cur: "cur_proc t = reparent ?q (cur_proc s)" using nth [OF c] sched_ok_cur [OF assms(1)] t by (simp add: cur_proc_def [of t])
    have ok: "sched_ok t" using assms(1) nth [OF c] t sched_ok_cur [OF assms(1)] by (simp add: sched_ok_def)
    have "\<exists>p. Some p \<in> set (PROCESS_LIST s) \<and> q = reparent ?q p" if "Some q \<in> set (PROCESS_LIST t)" for q
    proof -
      have "Some q \<in> map_option (reparent ?q) ` set (PROCESS_LIST s)" using that t(1) by simp
      then obtain x where x: "x \<in> set (PROCESS_LIST s)" "Some q = map_option (reparent ?q) x" by (rule imageE)
      show ?thesis using x(1) x(2) [symmetric] by (auto simp: map_option_eq_Some)
    qed
    then have st: "stacks_ok t" using assms(2) by (fastforce simp: stacks_ok_def reparent_def)
    have "parent_pid (cur_proc t) = pid par" using cur assms(6,9) by (simp add: reparent_def)
    moreover have "PROCESS_LIST t ! j = Some (reparent ?q par)" using nth [OF assms(3)] assms(5) by simp
    moreover have "i = j" if "i < 32" "PROCESS_LIST t ! i = Some p" "pid p = pid (reparent ?q par)" for i p
      using that nth [OF that(1)] assms(8) by (auto simp: reparent_def split: if_splits)
    ultimately show ?thesis
      unfolding wp_kbind wp_current [OF ok]
      by (intro wp_mono [OF zombie_handover [OF ok st assms(3), of "reparent ?q par"]])
        (use assms(4,7) t in \<open>auto simp: reparent_def zombie_child_def exit_code_def\<close>)
  qed
  have drop: "keeps above_next (for_each_leaf pt 0 KERNEL_VPN2_MIN drop_user_leaf)" for pt by (intro keeps_intros)
  have "wp (kbind current (\<lambda>cur. kseq (for_each_leaf (page_table cur) 0 KERNEL_VPN2_MIN drop_user_leaf)
      (kbind current (\<lambda>_. kseq (update_current (\<lambda>p. p\<lparr>proc_state := Zombie code\<rparr>)) (kseq wake_parent (schedule :: ('a kernel_state_scheme, 'b) kernel))))))
      (\<lambda>_ _. False) ?R (s\<lparr>PROCESS_LIST := ?l\<rparr>)" (is "wp _ _ _ ?s1")
  proof -
    have ok1: "sched_ok ?s1" using assms(1) by (simp add: sched_ok_def)
    show ?thesis
      unfolding wp_kbind [of current] wp_current [OF ok1] kseq_def [of "for_each_leaf _ _ _ _"]
    proof (rule keeps_step [OF drop])
      fix t :: "'a kernel_state_scheme" assume "above_next t = above_next ?s1"
      then have "above_frames t = above_frames ?s1" by (simp add: above_next_def)
      from above_frames_kernel [OF this]
      show "wp (kbind current (\<lambda>_. kseq (update_current (\<lambda>p. p\<lparr>proc_state := Zombie code\<rparr>)) (kseq wake_parent (schedule :: ('a kernel_state_scheme, 'b) kernel))))
        (\<lambda>_ _. False) ?R t" by (intro tail) simp_all
    next
      fix e and t :: "'a kernel_state_scheme" assume "stuck e"
      then show "?R e t" by (cases e) simp_all
    qed
  qed
  then have "wp (sys_exit code :: ('a kernel_state_scheme, 'b) kernel) (\<lambda>_ _. False) ?R s"
    unfolding sys_exit_def wp_kseq [of reparent_orphans_to_init]
    by (intro wp_mono [OF wp_reparent [OF assms(1)]]) simp_all
  then show ?thesis by (auto simp: wp_def split: prod.splits outcome.splits stop.splits)
qed

lemma kstate0_child: "sched_ok (kstate0\<lparr>CURRENT := 1\<rparr>)" "stacks_ok (kstate0\<lparr>CURRENT := 1\<rparr>)"
    "cur_proc (kstate0\<lparr>CURRENT := 1\<rparr>) = proc1"
  using kstate0_stacks by (simp_all add: sched_ok_def kstate0_def cur_proc_def stacks_ok_def)

lemma kstate0_nth_some: "i < 32 \<Longrightarrow> PROCESS_LIST kstate0 ! i = Some p \<longleftrightarrow> i = 0 \<and> p = proc0 \<or> i = 1 \<and> p = proc1"
  by (auto simp: kstate0_def nth_Cons split: nat.splits)


theorem exit_wakes_parent_witness:
  "case (sys_exit 7 :: (kernel_state, unit) kernel) (kstate0\<lparr>CURRENT := 1\<rparr>) of
      (Exit (Resume sp addr), s') \<Rightarrow> addr = 0x80200100 \<and> zombie_child 1 (PROCESS_LIST s' ! 1)
    | (Exit e, s') \<Rightarrow> e \<noteq> Shutdown
    | (Val _, s') \<Rightarrow> False"
proof -
  let ?s = "kstate0\<lparr>CURRENT := 1\<rparr>"
  have n: "PROCESS_LIST ?s ! 0 = Some proc0" "unat (CURRENT ?s) = 1" "TRAP_EXIT_RESTORE_ADDR ?s = 0x80200100" by (simp_all add: kstate0_def)
  have p: "pid proc0 = parent_pid (cur_proc ?s)" "proc_state proc0 = Blocked" "pid proc0 \<noteq> pid (cur_proc ?s)" "pid proc0 = 1"
    unfolding kstate0_child(3) by (simp_all add: proc0_def proc1_def)
  have u: "\<forall>i<32. \<forall>p. PROCESS_LIST ?s ! i = Some p \<and> pid p = pid proc0 \<longrightarrow> i = 0"
    by (auto simp: kstate0_nth_some) (simp_all add: proc0_def proc1_def)
  show ?thesis
    using exit_wakes_parent [OF kstate0_child(1,2) _ _ n(1) p(1,2) u p(3), where 'b = unit, of 7]
    by (auto simp: n p(4) split: prod.splits outcome.splits stop.splits)
qed

end
