(* ===== verification/LifeSpec.thy ===== *)
theory LifeSpec
  imports Lifecycle
begin

text \<open>
  The loop \<open>for_each_leaf\<close> as a loop over pages, for every callback that keeps the tables of the
  tree (the contract \<open>page_visitor\<close>), and with it the specification of \<open>exit\<close> in terms of what
  programs see.
\<close>

section \<open>Visiting the pages of a program\<close>

text \<open>The pages of the user half in the order of \<open>for_each_leaf\<close>.\<close>

definition nth_page :: "nat \<Rightarrow> VirtAddr" where
  "nth_page n = of_nat (4096 * n)"

lemma unat_nth_page: "n < 2 ^ 52 \<Longrightarrow> unat (nth_page n) = 4096 * n"
  unfolding nth_page_def unat_of_nat by (simp add: take_bit_nat_eq_self)

lemma nth_page_facts:
  assumes "n < 2 ^ 19"
  shows "page_aligned (nth_page n)" "unat (nth_page n) < 2 ^ 31" "unat (nth_page n) < 2 ^ 39" "vpn (nth_page n) 2 < 2"
proof -
  have u: "unat (nth_page n) = 4096 * n" using assms by (intro unat_nth_page) simp
  show "page_aligned (nth_page n)" by (simp add: page_aligned_iff_dvd u)
  show h: "unat (nth_page n) < 2 ^ 31" "unat (nth_page n) < 2 ^ 39" using assms by (simp_all add: u)
  show "vpn (nth_page n) 2 < 2" by (rule user_half [OF h(1)])
qed

lemma disjoint_add: "(\<And>n. \<not> bit a n \<or> \<not> bit b n) \<Longrightarrow> a OR b = a + b" for a b :: usize
  by (metis disjunctive_add)

lemma leaf_vaddr_nth:
  assumes "i < 2" "j < 512" "m < 512"
  shows "leaf_vaddr i j m = nth_page ((i * 512 + j) * 512 + m)"
    and "vpn (leaf_vaddr i j m) 2 = of_nat i" "vpn (leaf_vaddr i j m) 1 = of_nat j" "vpn (leaf_vaddr i j m) 0 = of_nat m"
proof -
  let ?n = "(i * 512 + j) * 512 + m"
  have sm: "\<not> bit (of_nat k :: usize) b" if "k < 512" "9 \<le> b" for k b
    by (rule high_bits_zero [OF _ that(2)]) (use that(1) in \<open>simp add: unat_of_nat take_bit_nat_eq_self\<close>)
  have "push_bit 30 (of_nat i :: usize) OR push_bit 21 (of_nat j) = push_bit 30 (of_nat i) + push_bit 21 (of_nat j)"
    by (rule disjoint_add) (use sm [OF assms(2)] in \<open>auto simp: bit_push_bit_iff\<close>)
  moreover have "push_bit 30 (of_nat i :: usize) OR push_bit 21 (of_nat j) OR push_bit 12 (of_nat m) =
      (push_bit 30 (of_nat i) OR push_bit 21 (of_nat j)) + push_bit 12 (of_nat m)"
    unfolding or.assoc [symmetric]
    by (rule disjoint_add) (use sm [OF assms(3)] in \<open>auto simp: bit_push_bit_iff bit_or_iff\<close>)
  ultimately show eq: "leaf_vaddr i j m = nth_page ?n"
    by (simp add: leaf_vaddr_def nth_page_def push_bit_eq_mult algebra_simps)
  have n: "?n < 2 ^ 19" using assms by simp
  then have u: "unat (leaf_vaddr i j m) = 4096 * ?n" unfolding eq by (intro unat_nth_page) simp
  have q: "unat (leaf_vaddr i j m) div 4096 = ?n" by (simp add: u)
  have "?n div 512 = i * 512 + j" using assms(3) by simp
  moreover have "?n mod 512 = m" using assms(3) mod_mult_self3 [of "i * 512 + j" 512 m] by simp
  ultimately have "unat (vpn (leaf_vaddr i j m) 2) = i" "unat (vpn (leaf_vaddr i j m) 1) = j" "unat (vpn (leaf_vaddr i j m) 0) = m"
    unfolding vpn_digits q using assms by simp_all
  then show "vpn (leaf_vaddr i j m) 2 = of_nat i" "vpn (leaf_vaddr i j m) 1 = of_nat j" "vpn (leaf_vaddr i j m) 0 = of_nat m"
    by (metis of_nat_unat ucast_id)+
qed

text \<open>The loop as a loop over pages: \<open>I n\<close> holds when the pages before the \<open>n\<close>-th have been visited.
  The callback may change the leaf entries of the tree, not its tables.\<close>

definition is_leaf :: "PTEntry \<Rightarrow> bool" where
  "is_leaf e \<longleftrightarrow> is_valid e \<and> (is_r e \<or> is_w e \<or> is_x e)"

lemma small_bound: "i < 512 \<Longrightarrow> of_nat i < (512 :: usize)"
  by (simp add: word_less_nat_alt unat_of_nat take_bit_nat_eq_self)

locale page_visitor =
  fixes pt :: PageTable and subs :: "usize \<Rightarrow> PhysAddr option" and leaves :: "usize \<Rightarrow> usize \<Rightarrow> PhysAddr option"
    and I :: "nat \<Rightarrow> 'a hart_scheme \<Rightarrow> bool" and visitor :: "VirtAddr \<Rightarrow> usize \<Rightarrow> ('a hart_scheme, unit) kernel"
    and E :: "stop \<Rightarrow> 'a hart_scheme \<Rightarrow> bool"
  assumes proper: "I n t \<Longrightarrow> links (tables t) (root pt)"
    and subs: "I n t \<Longrightarrow> i < 512 \<Longrightarrow> sub (tables t) (root pt) i = subs i"
    and leaves: "I n t \<Longrightarrow> i < 512 \<Longrightarrow> j < 512 \<Longrightarrow> l1 (tables t) (root pt) i j = leaves i j"
    and skip: "n < 2 ^ 19 \<Longrightarrow> I n t \<Longrightarrow> \<not> is_leaf (pte_of (tables t) (root pt) (nth_page n)) \<Longrightarrow> I (Suc n) t"
    and visit: "n < 2 ^ 19 \<Longrightarrow> I n t \<Longrightarrow> lookup_addr (tables t) (root pt) (nth_page n) = Some ea \<Longrightarrow>
      is_leaf (tables t ea) \<Longrightarrow> wp (visitor (nth_page n) ea) (\<lambda>_. I (Suc n)) E t"
begin

lemma skip_many:
  "I n t \<Longrightarrow> n + k \<le> 2 ^ 19 \<Longrightarrow> (\<And>x. n \<le> x \<Longrightarrow> x < n + k \<Longrightarrow> \<not> is_leaf (pte_of (tables t) (root pt) (nth_page x))) \<Longrightarrow> I (n + k) t"
  by (induction k) (auto intro!: skip)

lemma no_table:
  assumes n: "n < 2 ^ 19" and l: "l1 (tables t) (root pt) (of_nat (n div 512 div 512)) (of_nat (n div 512 mod 512)) = None"
  shows "\<not> is_leaf (pte_of (tables t) (root pt) (nth_page n))"
proof -
  have "n = (n div 512 div 512 * 512 + n div 512 mod 512) * 512 + n mod 512" by simp
  moreover have "n div 512 div 512 < 2" using n by (simp add: div_mult2_eq [symmetric] less_mult_imp_div_less)
  ultimately have "vpn (nth_page n) 2 = of_nat (n div 512 div 512)" "vpn (nth_page n) 1 = of_nat (n div 512 mod 512)"
    using leaf_vaddr_nth [of "n div 512 div 512" "n div 512 mod 512" "n mod 512"] by simp_all
  then show ?thesis using l by (simp add: pte_of_l1 is_leaf_def)
qed

text \<open>One leaf table.\<close>

lemma visit_leaf_table:
  assumes ij: "i < 2" "j < 512" and u: "leaves (of_nat i) (of_nat j) = Some u" and t: "I ((i * 512 + j) * 512) t"
  shows "wp (for_each [0..<512] (\<lambda>m. let l1_entry = entry_at u (of_nat m) in kbind (load64 l1_entry) (\<lambda>l1. if \<not> is_valid l1 then ret ()
        else if \<not> is_r l1 \<and> \<not> is_w l1 \<and> \<not> is_x l1 then ret () else visitor (leaf_vaddr i j m) l1_entry)))
      (\<lambda>_. I ((i * 512 + j) * 512 + 512)) E t"
proof (rule wp_for_upt [where I = "\<lambda>m. I ((i * 512 + j) * 512 + m)"])
  fix m t1 assume m: "m < 512" and t1: "I ((i * 512 + j) * 512 + m) t1"
  let ?n = "(i * 512 + j) * 512 + m"
  have n: "?n < 2 ^ 19" using ij m by simp
  note lv = leaf_vaddr_nth [OF ij m]
  have b: "of_nat i < (512 :: usize)" "of_nat j < (512 :: usize)" using ij by (simp_all add: small_bound)
  have lk: "lookup_addr (tables t1) (root pt) (nth_page ?n) = Some (entry_at u (of_nat m))"
    unfolding lookup_addr_l1 lv(1) [symmetric] lv(2-4) leaves [OF t1 b] u by simp
  have pte: "pte_of (tables t1) (root pt) (nth_page ?n) = tables t1 (entry_at u (of_nat m))" unfolding pte_of_def lk by simp
  show "wp (let l1_entry = entry_at u (of_nat m) in kbind (load64 l1_entry) (\<lambda>l1. if \<not> is_valid l1 then ret ()
    else if \<not> is_r l1 \<and> \<not> is_w l1 \<and> \<not> is_x l1 then ret () else visitor (leaf_vaddr i j m) l1_entry)) (\<lambda>_. I ((i * 512 + j) * 512 + Suc m)) E t1"
    using skip [OF n t1] visit [OF n t1 lk] lv(1) unfolding pte is_leaf_def Let_def wp_kbind wp_load64
    by (auto simp: wp_simps)
qed (use t in simp_all)

text \<open>The leaf tables below one entry of the root.\<close>

lemma visit_root_entry:
  assumes i: "i < 2" and w: "subs (of_nat i) = Some w" and t: "I (i * 512 * 512) t"
  shows "wp (for_each [0..<512] (\<lambda>j. let l2_entry = entry_at w (of_nat j) in kbind (load64 l2_entry) (\<lambda>l2.
        if \<not> is_valid l2 then ret ()
        else if is_r l2 \<or> is_w l2 \<or> is_x l2 then visitor (push_bit 30 (of_nat i) OR push_bit 21 (of_nat j)) l2_entry
        else for_each [0..<512] (\<lambda>m. let l1_entry = entry_at (ppn_to_addr l2) (of_nat m) in kbind (load64 l1_entry) (\<lambda>l1. if \<not> is_valid l1 then ret ()
          else if \<not> is_r l1 \<and> \<not> is_w l1 \<and> \<not> is_x l1 then ret () else visitor (leaf_vaddr i j m) l1_entry)))))
      (\<lambda>_. I ((i * 512 + 512) * 512)) E t"
proof (rule wp_for_upt [where I = "\<lambda>j. I ((i * 512 + j) * 512)"])
  fix j t1 assume j: "j < 512" and t1: "I ((i * 512 + j) * 512) t1"
  let ?e = "tables t1 (entry_at w (of_nat j))"
  have b: "of_nat i < (512 :: usize)" "of_nat j < (512 :: usize)" using i j by (simp_all add: small_bound)
  have w1: "sub (tables t1) (root pt) (of_nat i) = Some w" using subs [OF t1 b(1)] w by simp
  show "wp (let l2_entry = entry_at w (of_nat j) in kbind (load64 l2_entry) (\<lambda>l2.
    if \<not> is_valid l2 then ret ()
    else if is_r l2 \<or> is_w l2 \<or> is_x l2 then visitor (push_bit 30 (of_nat i) OR push_bit 21 (of_nat j)) l2_entry
    else for_each [0..<512] (\<lambda>m. let l1_entry = entry_at (ppn_to_addr l2) (of_nat m) in kbind (load64 l1_entry) (\<lambda>l1. if \<not> is_valid l1 then ret ()
      else if \<not> is_r l1 \<and> \<not> is_w l1 \<and> \<not> is_x l1 then ret () else visitor (leaf_vaddr i j m) l1_entry))))
    (\<lambda>_. I ((i * 512 + Suc j) * 512)) E t1"
  proof (cases "is_valid ?e")
    case True
    have "\<not> is_r ?e" "\<not> is_w ?e" "\<not> is_x ?e" using links_dest(2) [OF proper [OF t1] b(2,1) w1] True by (auto simp: pointer_def)
    moreover have "leaves (of_nat i) (of_nat j) = Some (ppn_to_addr ?e)"
      unfolding leaves [OF t1 b, symmetric] using w1 True by (simp add: l1_def sub_def [of _ w])
    ultimately show ?thesis
      using visit_leaf_table [OF i j _ t1] True by (simp add: Let_def wp_kbind [of "load64 _"] wp_load64 algebra_simps)
  next
    case False
    then have l: "l1 (tables t1) (root pt) (of_nat i) (of_nat j) = None" using w1 by (simp add: l1_def sub_def [of _ w])
    have "I ((i * 512 + j) * 512 + 512) t1"
    proof (rule skip_many [OF t1])
      fix x assume x: "(i * 512 + j) * 512 \<le> x" "x < (i * 512 + j) * 512 + 512"
      then have d: "x div 512 = i * 512 + j" by (intro div_nat_eqI) simp_all
      then have "x div 512 div 512 = i" "x div 512 mod 512 = j" using j by simp_all
      then show "\<not> is_leaf (pte_of (tables t1) (root pt) (nth_page x))" using x i j l by (intro no_table) simp_all
    qed (use i j in simp)
    then show ?thesis using False by (simp add: Let_def wp_kbind [of "load64 _"] wp_load64 wp_ret algebra_simps)
  qed
qed (use t in simp_all)

lemma visit_pages:
  assumes start: "I 0 s"
  shows "wp (for_each_leaf pt 0 KERNEL_VPN2_MIN visitor) (\<lambda>_. I (2 ^ 19)) E s"
proof -
  have "wp (for_each_leaf pt 0 2 visitor) (\<lambda>_. I (2 * 512 * 512)) E s"
    unfolding for_each_leaf_def
  proof (rule wp_for_upt [where I = "\<lambda>i. I (i * 512 * 512)"])
    fix i t assume i: "i < 2" and t: "I (i * 512 * 512) t"
    let ?e = "tables t (entry_at (root pt) (of_nat i))"
    have bi: "of_nat i < (512 :: usize)" using i by (simp add: small_bound)
    show "wp (kbind (load64 (entry_at (root pt) (of_nat i))) (\<lambda>root_entry. if \<not> is_valid root_entry then ret ()
        else for_each [0..<512] (\<lambda>j. let l2_entry = entry_at (ppn_to_addr root_entry) (of_nat j) in kbind (load64 l2_entry) (\<lambda>l2.
          if \<not> is_valid l2 then ret ()
          else if is_r l2 \<or> is_w l2 \<or> is_x l2 then visitor (push_bit 30 (of_nat i) OR push_bit 21 (of_nat j)) l2_entry
          else for_each [0..<512] (\<lambda>m. let l1_entry = entry_at (ppn_to_addr l2) (of_nat m) in kbind (load64 l1_entry) (\<lambda>l1.
            if \<not> is_valid l1 then ret () else if \<not> is_r l1 \<and> \<not> is_w l1 \<and> \<not> is_x l1 then ret () else visitor (leaf_vaddr i j m) l1_entry))))))
      (\<lambda>_. I (Suc i * 512 * 512)) E t"
    proof (cases "is_valid ?e")
      case True
      then have "subs (of_nat i) = Some (ppn_to_addr ?e)" unfolding subs [OF t bi, symmetric] by (simp add: sub_def)
      from visit_root_entry [OF i this t] show ?thesis using True by (simp add: wp_kbind [of "load64 _"] wp_load64 algebra_simps)
    next
      case False
      then have l: "l1 (tables t) (root pt) (of_nat i) k = None" for k by (simp add: l1_def sub_def)
      have "I (i * 512 * 512 + 512 * 512) t"
      proof (rule skip_many [OF t])
        fix x assume x: "i * 512 * 512 \<le> x" "x < i * 512 * 512 + 512 * 512"
        then have "x div (512 * 512) = i" by (intro div_nat_eqI) simp_all
        then have "x div 512 div 512 = i" by (simp only: div_mult2_eq [symmetric])
        then show "\<not> is_leaf (pte_of (tables t) (root pt) (nth_page x))" using x i l by (intro no_table) simp_all
      qed (use i in simp)
      then show ?thesis using False by (simp add: wp_kbind [of "load64 _"] wp_load64 wp_ret algebra_simps)
    qed
  qed (use start in simp_all)
  then show ?thesis by (simp add: KERNEL_VPN2_MIN_def)
qed

end

section \<open>Dropping the pages of a program\<close>

definition user_frame :: "(usize \<Rightarrow> u64) \<Rightarrow> PhysAddr \<Rightarrow> PhysAddr \<Rightarrow> nat \<Rightarrow> bool" where
  "user_frame rd r p n \<longleftrightarrow> is_u (pte_of rd r (nth_page n)) \<and> ppn_to_addr (pte_of rd r (nth_page n)) = p"

text \<open>The first \<open>n\<close> pages are gone; the count of each frame has dropped by the number of times they
  mapped it.\<close>

definition dropped :: "PhysAddr set \<Rightarrow> PhysAddr \<Rightarrow> 'a frames_scheme \<Rightarrow> nat \<Rightarrow> 'a frames_scheme \<Rightarrow> bool" where
  "dropped R r s n t \<longleftrightarrow> world_ok s R \<and> r \<in> R \<and> only R r (in_pages 0 (nth_page n)) s t \<and>
     unmapped r (in_pages 0 (nth_page n)) (tables s) (tables t) \<and>
     (\<forall>i < 512. sub (tables t) r i = sub (tables s) r i) \<and> (\<forall>i < 512. \<forall>j < 512. l1 (tables t) r i j = l1 (tables s) r i j) \<and>
     (\<forall>p. frame_ok p \<longrightarrow> unat (frame_ref t p) + card {x. x < n \<and> user_frame (tables s) r p x} = unat (frame_ref s p))"

lemma dropped_start: "world_ok s R \<Longrightarrow> r \<in> R \<Longrightarrow> dropped R r s 0 s"
  by (simp add: dropped_def only_refl unmapped_def in_pages_def nth_page_def)

lemma page_step:
  assumes "n < 2 ^ 19"
  shows "in_pages 0 (nth_page (Suc n)) = in_pages 0 (nth_page n) \<union> {a. same_page (nth_page n) a}"
    and "in_pages 0 (nth_page n) \<inter> {a. same_page (nth_page n) a} = {}"
proof -
  note f = nth_page_facts [OF assms]
  have "unat (nth_page n + PAGE_SIZE) = unat (nth_page n) + 4096"
    using f(2) unat_add_no_overflow [of "nth_page n" PAGE_SIZE] by (simp add: add_overflows_def PAGE_SIZE_def)
  moreover have "nth_page (Suc n) = nth_page n + PAGE_SIZE" by (simp add: nth_page_def PAGE_SIZE_def algebra_simps)
  ultimately show "in_pages 0 (nth_page (Suc n)) = in_pages 0 (nth_page n) \<union> {a. same_page (nth_page n) a}"
    and "in_pages 0 (nth_page n) \<inter> {a. same_page (nth_page n) a} = {}"
    using in_pages_snoc [OF f(1,3), of 0] by simp_all
qed

lemma count_step:
  "card {x. x < Suc n \<and> P x} = card {x. x < n \<and> P x} + (if P n then 1 else 0)"
proof -
  have "{x. x < Suc n \<and> P x} = {x. x < n \<and> P x} \<union> (if P n then {n} else {})" by (auto simp: less_Suc_eq)
  then show ?thesis by simp
qed

lemma dropped_page:
  assumes D: "dropped R r s n t" and n: "n < 2 ^ 19"
  shows "pte_of (tables t) r (nth_page n) = pte_of (tables s) r (nth_page n)"
proof -
  have "nth_page n \<notin> in_pages 0 (nth_page n)" using page_step(2) [OF n] by (auto simp: same_page_def)
  then show ?thesis using D onlyD(1) [of R r "in_pages 0 (nth_page n)" s t r "nth_page n"] by (simp add: dropped_def)
qed

lemma dropped_skip:
  assumes D: "dropped R r s n t" and n: "n < 2 ^ 19" and u: "\<not> is_u (pte_of (tables t) r (nth_page n))"
  shows "dropped R r s (Suc n) t"
proof -
  have "unmapped r {a. same_page (nth_page n) a} (tables t) (tables t)"
    using u by (auto simp: unmapped_def dest: pte_same_page [of _ _ "tables t" r])
  moreover have W: "world_ok t R" using D by (simp add: dropped_def only_def)
  ultimately have "unmapped r (in_pages 0 (nth_page (Suc n))) (tables s) (tables t)" "only R r (in_pages 0 (nth_page (Suc n))) s t"
    unfolding page_step(1) [OF n]
    using D unmapped_trans [OF _ _ _ only_refl [OF W] _ page_step(2) [OF n]] only_trans [OF _ only_refl [OF W]] by (auto simp: dropped_def)
  moreover have "\<not> user_frame (tables s) r p n" for p using u dropped_page [OF D n] by (simp add: user_frame_def)
  ultimately show ?thesis using D by (simp add: dropped_def count_step)
qed

lemma dropped_clear:
  assumes D: "dropped R r s n t" and n: "n < 2 ^ 19" and lk: "lookup_addr (tables t) r (nth_page n) = Some ea"
    and u: "is_u (tables t ea)"
  shows "live t (ppn_to_addr (tables t ea))" and "dropped R r s (Suc n) (cleared_page ea (ppn_to_addr (tables t ea)) t)"
proof -
  let ?p = "ppn_to_addr (tables t ea)" and ?t = "cleared_page ea (ppn_to_addr (tables t ea)) t"
  have W: "world_ok t R" and r: "r \<in> R" and o: "only R r (in_pages 0 (nth_page n)) s t"
    and un: "unmapped r (in_pages 0 (nth_page n)) (tables s) (tables t)" using D by (auto simp: dropped_def only_def)
  note f = nth_page_facts [OF n]
  note up = cleared_page_update [OF W r f(1,3) lk u] and oc = cleared_page_only [OF W r f(1,3) lk u]
  have e: "pte_of (tables t) r (nth_page n) = tables t ea" using lookup_entry(4) [OF world_space [OF W r] lk] .
  show lv: "live t ?p" using world_leaf(3) [OF W r, of "nth_page n"] u e by simp
  have "pte_of (tables ?t) r a = 0" "is_u (pte_of (tables t) r a)" if "same_page (nth_page n) a" for a
    using page_update_dest(6) [OF up(1), of a] pte_same_page [OF that, of "tables t" r] e u that by simp_all
  then have "unmapped r {a. same_page (nth_page n) a} (tables t) (tables ?t)" by (simp add: unmapped_def)
  note un2 = unmapped_trans [OF o r un oc this page_step(2) [OF n]]
  have uf: "user_frame (tables s) r q n \<longleftrightarrow> q = ?p" for q using dropped_page [OF D n] e u by (auto simp: user_frame_def)
  have cnt: "unat (frame_ref ?t q) + card {x. x < Suc n \<and> user_frame (tables s) r q x} = unat (frame_ref s q)" if q: "frame_ok q" for q
  proof -
    have "unat (frame_ref t q) + card {x. x < n \<and> user_frame (tables s) r q x} = unat (frame_ref s q)" using D q by (simp add: dropped_def)
    moreover have "unat (frame_ref ?t q) + (if q = ?p then 1 else 0) = unat (frame_ref t q)"
      using up(4) [OF q] lv by (auto simp: live_def unat_minus_one unat_gt_0 Suc_leI)
    ultimately show ?thesis unfolding count_step uf by linarith
  qed
  show "dropped R r s (Suc n) ?t"
    unfolding dropped_def page_step(1) [OF n]
    using D r un2 only_trans [OF o oc] up(2,3) cnt by (auto simp: dropped_def)
qed

lemma flags_u: "flags_is_u (pte_flags e) = is_u e"
  by (simp add: flags_bits pte_bits bit_pte_flags)

interpretation drops: page_visitor pt "sub (tables s) (root pt)" "l1 (tables s) (root pt)" "dropped R (root pt) s" drop_user_leaf "\<lambda>_ _. False"
  for pt :: PageTable and s :: "'a frames_scheme" and R
proof (unfold_locales)
  fix n i j and t :: "'a frames_scheme" assume D: "dropped R (root pt) s n t"
  then have W: "world_ok t R" and r: "root pt \<in> R" by (auto simp: dropped_def only_def)
  show "links (tables t) (root pt)" by (rule world_dest(7) [OF W r])
  show "i < 512 \<Longrightarrow> sub (tables t) (root pt) i = sub (tables s) (root pt) i"
    "i < 512 \<Longrightarrow> j < 512 \<Longrightarrow> l1 (tables t) (root pt) i j = l1 (tables s) (root pt) i j" using D by (simp_all add: dropped_def)
  assume n: "n < 2 ^ 19"
  show "dropped R (root pt) s (Suc n) t" if "\<not> is_leaf (pte_of (tables t) (root pt) (nth_page n))"
    using that world_leaf(1,6) [OF W r, of "nth_page n"] by (intro dropped_skip [OF D n]) (auto simp: is_leaf_def)
  fix ea assume lk: "lookup_addr (tables t) (root pt) (nth_page n) = Some ea"
  have e: "pte_of (tables t) (root pt) (nth_page n) = tables t ea" using lookup_entry(4) [OF world_space [OF W r] lk] .
  show "wp (drop_user_leaf (nth_page n) ea) (\<lambda>_. dropped R (root pt) s (Suc n)) (\<lambda>_ _. False) t"
  proof (cases "is_u (tables t ea)")
    case True
    note d = dropped_clear [OF D n lk True]
    then show ?thesis using True
      by (simp add: drop_user_leaf_def wp_simps flags_u wp_dec_ref [OF d(1)] cleared_page_def Let_def)
  next
    case False
    then show ?thesis using dropped_skip [OF D n] e by (simp add: drop_user_leaf_def wp_simps flags_u)
  qed
qed

section \<open>exit\<close>

lemma half_pages:
  assumes "vpn a 2 < 2"
  shows "a \<in> in_pages 0 (nth_page (2 ^ 19))"
proof -
  have "unat a mod (2 ^ 30 * 512) = 2 ^ 30 * (unat a div 2 ^ 30 mod 512) + unat a mod 2 ^ 30" by (rule mod_mult2_eq)
  moreover have "unat a div 2 ^ 30 mod 512 < 2" using assms by (simp add: word_less_nat_alt unat_vpn)
  moreover have "unat a mod 2 ^ 30 < 2 ^ 30" by simp
  ultimately have "unat a mod 2 ^ 39 < 2 ^ 31" by (simp del: mod_less_divisor)
  then show ?thesis by (simp add: in_pages_def unat_nth_page)
qed

lemma all_user_pages: "world_ok s R \<Longrightarrow> r \<in> R \<Longrightarrow> is_u (pte_of (tables s) r a) \<Longrightarrow> a \<in> in_pages 0 (nth_page (2 ^ 19))"
  using world_leaf(2) by (blast intro: half_pages)

text \<open>Counting the pages is counting the mappings.\<close>

lemma count_mappings:
  assumes W: "world_ok s R" and r: "r \<in> R"
  shows "card {n. n < 2 ^ 19 \<and> user_frame (tables s) r p n} = card {va. (r, va) \<in> mappings (tables s) R p}"
proof (rule bij_betw_same_card [OF bij_betw_imageI])
  have u: "unat (nth_page n) = 4096 * n" if "n < 2 ^ 19" for n using that by (intro unat_nth_page) simp
  show "inj_on nth_page {n. n < 2 ^ 19 \<and> user_frame (tables s) r p n}"
  proof (rule inj_onI)
    fix m n assume "m \<in> {n. n < 2 ^ 19 \<and> user_frame (tables s) r p n}" "n \<in> {n. n < 2 ^ 19 \<and> user_frame (tables s) r p n}" 
      and eq: "nth_page m = nth_page n"
    then have "unat (nth_page m) = 4096 * m" "unat (nth_page n) = 4096 * n" by (blast intro: u)+
    then have "4096 * m = 4096 * n" unfolding eq by (rule trans [OF sym])
    then show "m = n" by simp
  qed
  show "nth_page ` {n. n < 2 ^ 19 \<and> user_frame (tables s) r p n} = {va. (r, va) \<in> mappings (tables s) R p}"
  proof (intro equalityI subsetI)
    fix va assume "va \<in> nth_page ` {n. n < 2 ^ 19 \<and> user_frame (tables s) r p n}"
    then show "va \<in> {va. (r, va) \<in> mappings (tables s) R p}"
      using r nth_page_facts by (auto simp: mappings_def user_frame_def)
  next
    fix va assume "va \<in> {va. (r, va) \<in> mappings (tables s) R p}"
    then have m: "page_aligned va" "unat va < 2 ^ 39" "is_u (pte_of (tables s) r va)" "ppn_to_addr (pte_of (tables s) r va) = p"
      by (auto simp: mappings_def)
    have lt: "unat va < 2 ^ 31" using all_user_pages [OF W r m(3)] m(2) by (simp add: in_pages_def unat_nth_page)
    obtain n where n: "unat va = 4096 * n" using m(1) by (auto simp: page_aligned_iff_dvd)
    then have "n < 2 ^ 19" "va = nth_page n" using lt u [of n] by (simp_all add: word_unat_eq_iff)
    then show "va \<in> nth_page ` {n. n < 2 ^ 19 \<and> user_frame (tables s) r p n}" using m by (auto simp: user_frame_def)
  qed
qed

lemma stacks_apart_update:
  assumes "stacks_apart s R" and f: "\<And>p. PROCESS_LIST s ! i = Some p \<Longrightarrow> kernel_sp (f p) = kernel_sp p \<and> (proc_state (f p) \<noteq> Gone \<longrightarrow> proc_state p \<noteq> Gone)"
  shows "stacks_apart (update_slot i f s) R"
proof (cases "i < length (PROCESS_LIST s)")
  case True
  have fe: "frames_eq s (update_slot i f s)" by (simp add: frames_eq_def update_slot_def)
  show ?thesis
    unfolding stacks_apart_def world_eq(5) [OF fe]
  proof (intro allI impI)
    fix q assume q: "Some q \<in> set (PROCESS_LIST (update_slot i f s)) \<and> proc_state q \<noteq> Gone"
    then have "Some q = map_option f (PROCESS_LIST s ! i) \<or> Some q \<in> set (PROCESS_LIST s)"
      using set_update_subset_insert [of "PROCESS_LIST s" i] by (auto simp: update_slot_def)
    then show "kernel_page s R (stack_page q)"
    proof
      assume "Some q = map_option f (PROCESS_LIST s ! i)"
      then obtain p where p: "PROCESS_LIST s ! i = Some p" "q = f p" by (cases "PROCESS_LIST s ! i") auto
      then have "Some p \<in> set (PROCESS_LIST s)" "proc_state p \<noteq> Gone" "stack_page p = stack_page q"
        using nth_mem [OF True] f [OF p(1)] q by (auto simp: stack_page_def)
      then show ?thesis using assms(1) by (auto simp: stacks_apart_def)
    qed (use assms(1) q in \<open>simp add: stacks_apart_def\<close>)
  qed
qed (use assms(1) in \<open>simp add: stacks_apart_def update_slot_def list_update_beyond kernel_page_def live_def frame_ref_def\<close>)

lemma reparented_ok:
  assumes ok: "sched_ok s" and st: "stacks_ok s" and ap: "stacks_apart s R" and t: "t = s\<lparr>PROCESS_LIST := List.map (map_option (reparent q)) (PROCESS_LIST s)\<rparr>"
  shows "sched_ok t" "stacks_ok t" "stacks_apart t R" "frames_eq s t" "cur_proc t = reparent q (cur_proc s)"
proof -
  have c: "unat (CURRENT s) < length (PROCESS_LIST s)" and so: "PROCESS_LIST s ! unat (CURRENT s) = Some (cur_proc s)"
    using ok sched_ok_cur [OF ok] by (simp_all add: sched_ok_def)
  have n: "PROCESS_LIST t ! unat (CURRENT s) = Some (reparent q (cur_proc s))" "CURRENT t = CURRENT s" using c so by (simp_all add: t)
  then show "sched_ok t" "cur_proc t = reparent q (cur_proc s)" using ok by (simp_all add: sched_ok_def cur_proc_def [of t]) (simp add: t)
  show fe: "frames_eq s t" by (simp add: frames_eq_def t)
  have "\<exists>p. Some p \<in> set (PROCESS_LIST s) \<and> x = reparent q p" if "Some x \<in> set (PROCESS_LIST t)" for x
  proof -
    have "Some x \<in> map_option (reparent q) ` set (PROCESS_LIST s)" using that t by simp
    then obtain y where y: "y \<in> set (PROCESS_LIST s)" "Some x = map_option (reparent q) y" by (rule imageE)
    show ?thesis using y(1) y(2) [symmetric] by (auto simp: map_option_eq_Some)
  qed
  then show "stacks_ok t" "stacks_apart t R"
    using st ap unfolding stacks_ok_def stacks_apart_def world_eq(5) [OF fe] by (fastforce simp: reparent_def stack_page_def split: if_splits)+
qed

lemma wake_result_ok:
  assumes "sched_ok s" and "stacks_ok s" and "stacks_apart s R"
  shows "sched_ok (wake_result q s)" "stacks_ok (wake_result q s)" "stacks_apart (wake_result q s) R" "frames_eq s (wake_result q s)"
proof -
  consider "wake_result q s = s" | i p where "PROCESS_LIST s ! i = Some p" "proc_state p = Blocked" "wake_result q s = update_slot i (\<lambda>p. p\<lparr>proc_state := Ready\<rparr>) s"
    by (cases "position (wakes q) (PROCESS_LIST s)") (auto simp: wake_result_def position_Some wakes_def split: option.splits)
  then have "sched_ok (wake_result q s) \<and> stacks_ok (wake_result q s) \<and> stacks_apart (wake_result q s) R \<and> frames_eq s (wake_result q s)"
  proof cases
    case 2
    then show ?thesis
      using assms stacks_ok_update [OF assms(2)] stacks_apart_update [OF assms(3), of i "\<lambda>p. p\<lparr>proc_state := Ready\<rparr>"]
      by (simp add: frames_eq_def update_slot_def [of i _ s, symmetric]) (simp add: update_slot_def)
  qed (use assms in \<open>simp add: frames_eq_def\<close>)
  then show "sched_ok (wake_result q s)" "stacks_ok (wake_result q s)" "stacks_apart (wake_result q s) R" "frames_eq s (wake_result q s)" by blast+
qed

text \<open>Handing over after the pages are gone.\<close>

definition gone_view :: "PhysAddr set \<Rightarrow> PhysAddr \<Rightarrow> 'a frames_scheme \<Rightarrow> 'a frames_scheme \<Rightarrow> bool" where
  "gone_view R r s s' \<longleftrightarrow> r \<in> R \<and> world_ok s' R \<and> (\<forall>a. view (mem s') r a = None) \<and>
     (\<forall>r'\<in>R. r' \<noteq> r \<longrightarrow> (\<forall>a. view (mem s') r' a = view (mem s) r' a)) \<and>
     (\<forall>p. frame_ok p \<longrightarrow> unat (frame_ref s' p) + card {va. (r, va) \<in> mappings (tables s) R p} = unat (frame_ref s p))"

lemma dropped_all:
  assumes D: "dropped R r s (2 ^ 19) t"
  shows "gone_view R r s t"
proof -
  have W: "world_ok s R" "world_ok t R" and r: "r \<in> R" and o: "only R r (in_pages 0 (nth_page (2 ^ 19))) s t"
    and un: "unmapped r (in_pages 0 (nth_page (2 ^ 19))) (tables s) (tables t)" using D by (auto simp: dropped_def only_def)
  have "\<not> is_u (pte_of (tables t) r a)" for a
  proof
    assume u: "is_u (pte_of (tables t) r a)"
    note a = all_user_pages [OF W(2) r u]
    then show False using un u by (auto simp: unmapped_def split: if_splits)
  qed
  then have "view (mem t) r a = None" for a by (simp add: view_def)
  then show ?thesis
    using W D onlyD(2) [OF o] count_mappings [OF W(1) r] unfolding gone_view_def dropped_def by auto
qed

lemma exit_tail:
  fixes t :: "'a kernel_state_scheme"
  assumes ok: "sched_ok t" and st: "stacks_ok t" and ap: "stacks_apart t R" and cur: "proc_state (cur_proc t) \<noteq> Gone" and g: "gone_view R r s t"
  shows "wp (kbind current (\<lambda>_. kseq (update_current (\<lambda>p. p\<lparr>proc_state := Zombie code\<rparr>)) (kseq wake_parent (schedule :: ('a kernel_state_scheme, 'b) kernel))))
    (\<lambda>_ _. False) (\<lambda>e s'. (e = Shutdown \<or> (\<exists>sp addr. e = Resume sp addr)) \<and> gone_view R r s s') t"
proof -
  let ?u = "update_slot (unat (CURRENT t)) (\<lambda>p. p\<lparr>proc_state := Zombie code\<rparr>) t"
  let ?w = "wake_result (parent_pid (cur_proc ?u)) ?u"
  have u: "sched_ok ?u" "stacks_ok ?u" using ok stacks_ok_update [OF st] by auto
  have au: "stacks_apart ?u R" by (rule stacks_apart_update [OF ap]) (use cur sched_ok_cur [OF ok] in auto)
  have "frames_eq t ?u" by (simp add: frames_eq_def update_slot_def)
  note w = wake_result_ok [OF u au, of "parent_pid (cur_proc ?u)"]
  have fe: "frames_eq t ?w" using w(4) \<open>frames_eq t ?u\<close> by (simp add: frames_eq_def)
  have W: "world_ok ?w R" using g world_eq(4) [OF fe] by (simp add: gone_view_def)
  have m: "mem ?w = mem t" and fr: "frame_ref ?w p = frame_ref t p" for p using fe world_eq(1) [OF fe] by (simp_all add: frames_eq_def)
  have "wp (schedule :: ('a kernel_state_scheme, 'b) kernel) (\<lambda>_ _. False) (\<lambda>e s'. (e = Shutdown \<or> (\<exists>sp addr. e = Resume sp addr)) \<and> gone_view R r s s') ?w"
    by (rule wp_mono [OF schedule_unseen [OF w(1,2) W w(3)]]) (use g in \<open>auto simp: gone_view_def m fr\<close>)
  then have "wp wake_parent (\<lambda>_. wp (schedule :: ('a kernel_state_scheme, 'b) kernel) (\<lambda>_ _. False)
      (\<lambda>e s'. (e = Shutdown \<or> (\<exists>sp addr. e = Resume sp addr)) \<and> gone_view R r s s'))
      (\<lambda>e s'. (e = Shutdown \<or> (\<exists>sp addr. e = Resume sp addr)) \<and> gone_view R r s s') ?u"
    by (intro wp_mono [OF wp_wake_parent [OF u(1)]]) simp_all
  then show ?thesis by (simp add: wp_kbind [of current] wp_current [OF ok] wp_kseq wp_update_current)
qed

text \<open>C10. \<open>exit\<close> releases the memory of the process. It never panics: it ends in another process or in
  the shutdown of the machine. Then the process sees no memory any more, every frame it had mapped
  is referenced less often by exactly the number of times the process mapped it (so a frame that
  only it used is free again), every byte that any other program sees is what it was, and the
  invariant of the address spaces holds.\<close>

theorem exit_releases_memory:
  fixes s :: "'a kernel_state_scheme"
  assumes "sched_ok s" and "stacks_ok s" and "world_ok s R" and "cur_root s \<in> R" and "stacks_apart s R" and "proc_state (cur_proc s) \<noteq> Gone"
  shows "\<exists>e s'. (sys_exit code :: ('a kernel_state_scheme, 'b) kernel) s = (Exit e, s') \<and> (e = Shutdown \<or> (\<exists>sp addr. e = Resume sp addr)) \<and>
    world_ok s' R \<and> (\<forall>a. view (mem s') (cur_root s) a = None) \<and>
    (\<forall>r\<in>R. r \<noteq> cur_root s \<longrightarrow> (\<forall>a. view (mem s') r a = view (mem s) r a)) \<and>
    (\<forall>p. frame_ok p \<longrightarrow> unat (frame_ref s' p) + card {va. (cur_root s, va) \<in> mappings (tables s) R p} = unat (frame_ref s p))"
proof -
  let ?s = "s\<lparr>PROCESS_LIST := List.map (map_option (reparent (pid (cur_proc s)))) (PROCESS_LIST s)\<rparr>" and ?r = "cur_root s"
  let ?E = "\<lambda>e s'. (e = Shutdown \<or> (\<exists>sp addr. e = Resume sp addr)) \<and> gone_view R ?r s s'"
  note re = reparented_ok [OF assms(1,2,5) refl, of "pid (cur_proc s)"]
  have W: "world_ok ?s R" using assms(3) world_eq(4) [OF re(4)] by simp
  have cs: "page_table (cur_proc ?s) = page_table (cur_proc s)" "proc_state (cur_proc ?s) = proc_state (cur_proc s)"
    unfolding re(5) by (simp_all add: reparent_def)
  have "wp (for_each_leaf (page_table (cur_proc s)) 0 KERNEL_VPN2_MIN drop_user_leaf)
      (\<lambda>_. wp (kbind current (\<lambda>_. kseq (update_current (\<lambda>p. p\<lparr>proc_state := Zombie code\<rparr>)) (kseq wake_parent (schedule :: ('a kernel_state_scheme, 'b) kernel))))
        (\<lambda>_ _. False) ?E) ?E ?s"
  proof (rule wp_mono [OF drops.visit_pages [OF dropped_start [OF W assms(4)]]])
    fix x and t :: "'a kernel_state_scheme" assume D: "dropped R ?r ?s (2 ^ 19) t"
    then have o: "only R ?r (in_pages 0 (nth_page (2 ^ 19))) ?s t" by (simp add: dropped_def)
    then have af: "above_frames t = above_frames ?s" and kk: "kernel_kept R ?s t" by (simp_all add: only_def)
    note k = only_kernel [OF o re(1)] and ak = above_frames_kernel [OF af]
    have "gone_view R ?r s t" using dropped_all [OF D] world_eq(1) [OF re(4)] by (simp add: gone_view_def)
    moreover have "stacks_ok t" "stacks_apart t R"
      using re(2,3) kk unfolding stacks_ok_def stacks_apart_def kernel_kept_def ak(1) by blast+
    ultimately show "wp (kbind current (\<lambda>_. kseq (update_current (\<lambda>p. p\<lparr>proc_state := Zombie code\<rparr>)) (kseq wake_parent (schedule :: ('a kernel_state_scheme, 'b) kernel))))
        (\<lambda>_ _. False) ?E t"
      using assms(6) k(2,3) cs(2) by (intro exit_tail) simp_all
  qed simp
  then have "wp (sys_exit code :: ('a kernel_state_scheme, 'b) kernel) (\<lambda>_ _. False) ?E s"
    unfolding sys_exit_def wp_kseq [of reparent_orphans_to_init]
    by (intro wp_mono [OF wp_reparent [OF assms(1)]]) (simp_all add: wp_kbind [of current] wp_current [OF re(1)] cs(1) wp_kseq [of "for_each_leaf _ _ _ _"])
  then show ?thesis unfolding gone_view_def by (auto simp: wp_def split: prod.splits outcome.splits)
qed

text \<open>A process whose kernel stack lies in the pages that are in use, for the witnesses.\<close>

definition lone_proc :: Process where
  "lone_proc = proc0\<lparr>proc_state := Running, kernel_sp := 0x80302000\<rparr>"

definition lone_state :: kernel_state where
  "lone_state = on_frames2 (kstate0\<lparr>PROCESS_LIST := Some lone_proc # replicate 31 None\<rparr>)"

lemma lone_facts:
  "sched_ok lone_state" "cur_proc lone_state = lone_proc" "stacks_ok lone_state" "world_ok lone_state {root pt1}"
  "stacks_apart lone_state {root pt1}" "page_table lone_proc = pt1" "proc_state lone_proc \<noteq> Gone"
proof -
  have l: "PROCESS_LIST lone_state = Some lone_proc # replicate 31 None" "CURRENT lone_state = 0" "mem lone_state = (\<lambda>_. 0)"
    by (simp_all add: lone_state_def on_frames2_facts) (simp_all add: on_frames2_def kstate0_def)
  show "sched_ok lone_state" "cur_proc lone_state = lone_proc" "page_table lone_proc = pt1" "proc_state lone_proc \<noteq> Gone"
    by (simp_all add: sched_ok_def cur_proc_def l lone_proc_def proc0_def)
  show "stacks_ok lone_state" using kstate0_stacks by (simp add: stacks_ok_def l lone_proc_def dword_aligned_def) (simp add: kstate0_def)
  have fe: "frames_eq blank_state lone_state" by (simp add: frames_eq_def blank_state_def lone_state_def on_frames2_def)
  show "world_ok lone_state {root pt1}" using blank_world world_eq(4) [OF fe] by simp
  have "live lone_state 0x80301000" using on_frames2_facts(2) by (simp add: lone_state_def)
  moreover have "pte_of (tables lone_state) r va = 0" for r va using blank_pte fe by (simp add: frames_eq_def)
  moreover have "\<not> is_table (tables lone_state) (root pt1) 0x80301000" by (simp add: is_table_def l1_def sub_def l(3) read_u64_zero pt1_def)
  ultimately show "stacks_apart lone_state {root pt1}"
    by (simp add: stacks_apart_def l stack_page_def lone_proc_def kernel_page_def)
qed

theorem exit_releases_memory_witness:
  "\<exists>e s'. (sys_exit 7 :: (kernel_state, unit) kernel) lone_state = (Exit e, s') \<and> world_ok s' {root pt1} \<and> view (mem s') (root pt1) 0x20000 = None"
  using exit_releases_memory [OF lone_facts(1,3,4) _ lone_facts(5), where 'b = unit, of 7] lone_facts(6,7) by (auto simp: lone_facts(2))

end
