(* ===== verification/ForkSpec.thy ===== *)
theory ForkSpec
  imports LifeSpec
begin

text \<open>
  \<open>fork\<close> in terms of what programs see: the child sees the memory of its parent. The proof follows
  the code: a root table that shares the kernel half (\<open>world_insert\<close>), a kernel stack, a pass that
  shares the user pages copy-on-write (\<open>sharing\<close>) and a pass over the pages of the kernel
  (\<open>joining\<close>), both loops over the pages of the parent by \<open>page_visitor\<close>.
\<close>

section \<open>Frames that come into use\<close>

text \<open>Taking frames that were not in use, and writing them, leaves every address space alone.\<close>

definition fresh_frames :: "'a frames_scheme \<Rightarrow> 'a frames_scheme \<Rightarrow> bool" where
  "fresh_frames s s' \<longleftrightarrow> frames_ok s' \<and> (\<forall>p. live s p \<longrightarrow> live s' p \<and> frame_ref s' p = frame_ref s p) \<and>
     (\<forall>x. live s (page_of x) \<longrightarrow> mem s' x = mem s x)"

lemma fresh_frames_trans: "fresh_frames s t \<Longrightarrow> fresh_frames t u \<Longrightarrow> fresh_frames s u"
  by (auto simp: fresh_frames_def)

lemma fresh_tree:
  assumes W: "world_ok s R" and F: "fresh_frames s s'" and r: "r \<in> R"
  shows "i < 512 \<Longrightarrow> sub (tables s') r i = sub (tables s) r i"
    and "i < 512 \<Longrightarrow> j < 512 \<Longrightarrow> l1 (tables s') r i j = l1 (tables s) r i j"
    and "pte_of (tables s') r va = pte_of (tables s) r va"
    and "is_table (tables s') r t = is_table (tables s) r t" and "links (tables s') r = links (tables s) r"
  by (rule tree_same [OF world_dest(3) [OF W r] live_aligned [of s]]; use world_table_live [OF W r] F in \<open>simp add: fresh_frames_def\<close>)+

lemma fresh_world:
  assumes W: "world_ok s R" and F: "fresh_frames s s'"
  shows "world_ok s' R" and "r \<in> R \<Longrightarrow> view (mem s') r a = view (mem s) r a" and "kernel_kept R s s'"
    and "live s' k \<Longrightarrow> \<not> live s k \<Longrightarrow> kernel_page s' R k"
proof -
  note ft = fresh_tree [OF W F]
  have lv: "live s p \<Longrightarrow> live s' p" "live s p \<Longrightarrow> frame_ref s' p = frame_ref s p"
    and m: "live s (page_of x) \<Longrightarrow> mem s' x = mem s x" for p x using F by (simp_all add: fresh_frames_def)
  have ut: "user_table (tables s') r t = user_table (tables s) r t" if "r \<in> R" for r t
    using ft(1,2) [OF that] small_index by (auto simp: user_table_def)
  have mp: "mappings (tables s') R p = mappings (tables s) R p" for p by (auto simp: mappings_def ft(3))
  have "card (mappings (tables s') R p) \<le> unat (frame_ref s' p)" if p: "frame_ok p" for p
  proof (cases "live s p")
    case True
    then show ?thesis using world_dest(6) [OF W p] lv(2) by (simp add: mp)
  qed (use world_dest(6) [OF W p] p in \<open>simp add: mp live_def\<close>)
  moreover have "user_leaf_ok s' R va (pte_of (tables s') r va)" if r: "r \<in> R" for r va
  proof -
    have "live s' (ppn_to_addr (pte_of (tables s) r va))" "frame_ref s' (ppn_to_addr (pte_of (tables s) r va)) = frame_ref s (ppn_to_addr (pte_of (tables s) r va))"
      if "is_u (pte_of (tables s) r va)" using world_leaf(3) [OF W r that] lv by blast+
    then show ?thesis using world_dest(4) [OF W r, of va] ft(4) by (auto simp: user_leaf_ok_def ft(3) [OF r])
  qed
  moreover have "pt_wf (live s') (tables s') r" "links (tables s') r" if r: "r \<in> R" for r
    using ft(1,2,5) [OF r] world_dest(7) [OF W r] lv(1) by (auto intro!: pt_wf_cong [OF world_dest(3) [OF W r]])
  ultimately show "world_ok s' R"
    using F world_dest(2,5) [OF W] ut ft(4) unfolding world_ok_def fresh_frames_def by blast
  show "view (mem s') r a = view (mem s) r a" if r: "r \<in> R"
  proof -
    have "mem s' (ppn_to_addr (pte_of (tables s) r a) + (a - page_of a)) = mem s (ppn_to_addr (pte_of (tables s) r a) + (a - page_of a))"
      if "is_u (pte_of (tables s) r a)" by (rule m) (use world_leaf(3) [OF W r that] in \<open>simp add: page_of_mapped\<close>)
    then show ?thesis by (simp add: view_def Let_def ft(3) [OF r])
  qed
  show "kernel_kept R s s'" using lv(1) m ft(3,4) unfolding kernel_kept_def kernel_page_def by auto
  show "kernel_page s' R k" if "live s' k" "\<not> live s k"
    using that world_table_live [OF W] world_leaf(3) [OF W] ft(3,4) unfolding kernel_page_def by metis
qed

section \<open>A second root over the same kernel half\<close>

lemma world_insert:
  assumes W: "world_ok s R" and r: "r \<in> R" and c: "kernel_page s R c"
    and copy: "\<And>i. i < 512 \<Longrightarrow> tables s (entry_at c i) = (if i < 2 then 0 else tables s (entry_at r i))"
  shows "world_ok s (insert c R)" and "pte_of (tables s) c a = (if vpn a 2 < 2 then 0 else pte_of (tables s) r a)"
    and "sub (tables s) c 0 = None" "sub (tables s) c 1 = None"
    and "kernel_page s R k \<Longrightarrow> k \<noteq> c \<Longrightarrow> kernel_page s (insert c R) k"
proof -
  note wf = world_dest(3) [OF W r]
  have lc: "live s c" and nt: "\<And>r'. r' \<in> R \<Longrightarrow> \<not> is_table (tables s) r' c"
    and nu: "\<And>r' va. r' \<in> R \<Longrightarrow> is_u (pte_of (tables s) r' va) \<Longrightarrow> ppn_to_addr (pte_of (tables s) r' va) \<noteq> c"
    using c by (auto simp: kernel_page_def)
  have sub: "sub (tables s) c i = (if i < 2 then None else sub (tables s) r i)" if "i < 512" for i
    using copy [OF that] by (simp add: sub_def)
  have l1: "l1 (tables s) c i j = (if i < 2 then None else l1 (tables s) r i j)" if "i < 512" for i j
    using sub [OF that] by (simp add: l1_def)
  show "sub (tables s) c 0 = None" "sub (tables s) c 1 = None" using sub by simp_all
  show pte: "pte_of (tables s) c a = (if vpn a 2 < 2 then 0 else pte_of (tables s) r a)" for a
    by (simp add: pte_of_l1 l1 vpn_bound)
  have un: "\<not> is_u (pte_of (tables s) c a)" for a using pte [of a] world_leaf(2) [OF W r, of a] by auto
  have tab: "t = c \<or> is_table (tables s) r t" if "is_table (tables s) c t" for t
    using that sub l1 by (auto simp: is_table_def split: if_splits)
  have ut: "user_table (tables s) c t \<longleftrightarrow> t = c" for t using sub l1 small_index by (auto simp: user_table_def)
  have half: "\<not> is_table (tables s) c t" if "user_table (tables s) r t" for t
  proof
    assume tc: "is_table (tables s) c t"
    have "t \<noteq> c" using nt [OF r] user_table_is_table [OF that] by blast
    then consider i where "i < 512" "\<not> i < 2" "sub (tables s) r i = Some t"
      | i j where "i < 512" "\<not> i < 2" "j < 512" "l1 (tables s) r i j = Some t"
      using tc sub l1 by (auto simp: is_table_def split: if_splits)
    then show False
    proof cases
      case 1
      then show False using that pt_wf_dest(3,6,7) [OF wf] small_index unfolding user_table_def by metis
    next
      case 2
      then show False using that pt_wf_dest(5,6,8) [OF wf] small_index unfolding user_table_def by metis
    qed
  qed
  have wc: "pt_wf (live s) (tables s) c"
  proof (rule pt_wfI)
    show "live s c" by (rule lc)
    show "live s t" "t \<noteq> c" if "i < 512" "sub (tables s) c i = Some t" for i t
      using that sub pt_wf_dest(2) [OF wf] nt [OF r] by (auto simp: is_table_def split: if_splits)
    show "live s u" "u \<noteq> c" if "i < 512" "j < 512" "l1 (tables s) c i j = Some u" for i j u
      using that l1 pt_wf_dest(4) [OF wf] nt [OF r] by (auto simp: is_table_def split: if_splits)
    show "sub (tables s) c k \<noteq> Some u" if "i < 512" "j < 512" "k < 512" "l1 (tables s) c i j = Some u" for i j k u
      using that l1 sub pt_wf_dest(6) [OF wf, of i j k u] by (auto split: if_splits)
    show "i = i'" if "i < 512" "i' < 512" "sub (tables s) c i = Some t" "sub (tables s) c i' = Some t" for i i' t
      using that sub pt_wf_dest(7) [OF wf, of i i' t] by (auto split: if_splits)
    show "i = i' \<and> j = j'" if "i < 512" "j < 512" "i' < 512" "j' < 512" "l1 (tables s) c i j = Some u" "l1 (tables s) c i' j' = Some u" for i j i' j' u
      using that l1 pt_wf_dest(8) [OF wf, of i j i' j' u] by (auto split: if_splits)
  qed
  have lc: "links (tables s) c"
    using links_dest [OF world_dest(7) [OF W r]] sub copy by (auto simp: links_def pointer_def pte_bits split: if_splits)
  have "mappings (tables s) (insert c R) p = mappings (tables s) R p" for p using un by (auto simp: mappings_def)
  moreover have "user_leaf_ok s (insert c R) va (pte_of (tables s) r' va)" if "r' \<in> R" for r' va
    using world_dest(4) [OF W that, of va] nu [OF that] tab r by (auto simp: user_leaf_ok_def)
  moreover have "user_leaf_ok s (insert c R) va (pte_of (tables s) c va)" for va
    using world_leaf(1) [OF W r, of va] un [of va] pte [of va] by (auto simp: user_leaf_ok_def)
  moreover have "\<not> is_table (tables s) r2 t" if "r1 \<in> insert c R" "r2 \<in> insert c R" "r1 \<noteq> r2" "user_table (tables s) r1 t" for r1 r2 t
    using that ut nt half tab world_dest(5) [OF W _ _ _ that(4), of r] world_dest(5) [OF W _ _ _ that(4), of r2] r user_table_is_table [OF that(4)]
    by (cases "r1 = r") auto
  ultimately show "world_ok s (insert c R)"
    using world_dest(1,2,3,6,7) [OF W] wc lc unfolding world_ok_def by (simp add: Ball_def)
  show "kernel_page s (insert c R) k" if "kernel_page s R k" "k \<noteq> c"
    using that un tab r by (auto simp: kernel_page_def)
qed

section \<open>Sharing a page\<close>

text \<open>First the count rises and the entry of the parent loses its write permission. \<open>page_update\<close> is
  used with frame 0, which is not in use: no page is written but tables.\<close>

lemma zero_not_live: "\<not> live s 0"
  by (simp add: live_def frame_ok_def is_managed_unat)

lemma frames_inv_ref: "frames_inv fl s \<Longrightarrow> live s p \<Longrightarrow> frames_inv fl (set_ref p v s)"
  by (auto simp: frames_inv_def live_def frame_ref_set_ref)

lemma frames_has_ref: "frames_has n s \<Longrightarrow> live s p \<Longrightarrow> frames_has n (set_ref p v s)"
  using frames_inv_ref by (fastforce simp: frames_has_def)

lemma frames_ok_ref: "frames_ok s \<Longrightarrow> live s p \<Longrightarrow> frames_ok (set_ref p v s)"
  unfolding frames_ok_def using frames_inv_ref by blast

definition shared_entry :: "PTEntry \<Rightarrow> PTEntry" where
  "shared_entry e = (if is_w e then set_cow (clear_w e) else e)"

lemma marked_page_update:
  assumes W: "world_ok s R" and r: "r \<in> R" and va: "page_aligned va" "unat va < 2 ^ 39"
    and lk: "lookup_addr (tables s) r va = Some ea" and u: "is_u (tables s ea)" and lim: "unat (frame_ref s (ppn_to_addr (tables s ea))) + 1 < 2 ^ 32"
    and s': "s' = (set_ref (ppn_to_addr (tables s ea)) (frame_ref s (ppn_to_addr (tables s ea)) + 1) s)\<lparr>mem := write_u64 (mem s) ea (shared_entry (tables s ea))\<rparr>"
  shows "page_update R r va (shared_entry (tables s ea)) 0 s s'"
    and "i < 512 \<Longrightarrow> sub (tables s') r i = sub (tables s) r i"
    and "i < 512 \<Longrightarrow> j < 512 \<Longrightarrow> l1 (tables s') r i j = l1 (tables s) r i j"
    and "frame_ok q \<Longrightarrow> frame_ref s' q = (if q = ppn_to_addr (tables s ea) then frame_ref s q + 1 else frame_ref s q)"
proof -
  let ?p = "ppn_to_addr (tables s ea)" and ?v = "shared_entry (tables s ea)"
  note le = lookup_entry [OF world_space [OF W r] lk] and wf = world_dest(3) [OF W r]
  obtain t where t: "l1 (tables s) r (vpn va 2) (vpn va 1) = Some t" "ea = entry_at t (vpn va 0)" using le(5) by blast
  have ue: "is_u (pte_of (tables s) r va)" using u le(4) by simp
  have p: "live s ?p" "\<And>r'. r' \<in> R \<Longrightarrow> \<not> is_table (tables s) r' ?p" and half: "vpn va 2 < 2"
    and perm: "is_r (tables s ea) \<or> is_x (tables s ea)" "is_w (tables s ea) \<longrightarrow> is_r (tables s ea)" "is_valid (tables s ea)"
    using world_leaf(1-4,6,7) [OF W r, of va] le(4) ue by auto
  note pok = live_frame_ok [OF p(1)]
  have v: "is_u ?v" "ppn_to_addr ?v = ?p" "is_valid ?v" "\<not> is_w ?v" "is_r ?v \<or> is_x ?v"
    using u perm by (auto simp: shared_entry_def pte_bits bit_cow_w)
  have tp: "page_of ea = t" using l1_aligned [OF t(1)] by (simp add: t(2) unat_entry_at vpn_bound)
  have m: "mem s' = write_u64 (mem s) ea ?v" by (simp add: s')
  show ref: "frame_ref s' q = (if q = ?p then frame_ref s q + 1 else frame_ref s q)" if "frame_ok q" for q
    using frame_ref_set_ref [OF pok that, of "frame_ref s ?p + 1" s] by (simp add: s' frame_ref_def)
  have n: "unat (frame_ref s ?p + 1) = unat (frame_ref s ?p) + 1" using lim by (simp add: unat_word_ariths)
  then have n0: "frame_ref s ?p + 1 \<noteq> 0" by (metis unat_0 add_eq_0_iff_both_eq_0 one_neq_zero)
  have lv: "live s' q = live s q" for q
    using ref [of q] n0 p(1) by (cases "frame_ok q") (auto simp: live_def)
  have fr: "frames_ok s'"
  proof -
    have "write_u64 (mem s) ea ?v x = mem (set_ref ?p (frame_ref s ?p + 1) s) x" if "\<not> live (set_ref ?p (frame_ref s ?p + 1) s) (page_of x)" for x
    proof -
      have "live (set_ref ?p (frame_ref s ?p + 1) s) (page_of ea)" using lv [of "page_of ea"] world_table_live [OF W r le(3)] by (simp add: s' live_def frame_ref_def)
      then have "page_of x \<noteq> page_of ea" using that by auto
      then show ?thesis using le(1) by (simp add: write_u64_outside)
    qed
    then show ?thesis unfolding s' using kframes.write_live [OF frames_ok_ref [OF world_dest(1) [OF W] p(1)]] by simp
  qed
  have w: "tables s' (entry_at u' i) = (if entry_at u' i = entry_at t (vpn va 0) then ?v else tables s (entry_at u' i))"
    if ut: "is_table (tables s) r u'" "i < 512" for u' i
    using space_ok_page [OF world_space [OF W r] ut] ram.rd_wr [OF le(1), of "entry_at u' i" "mem s" ?v] by (simp add: m t(2))
  note wr = write_leaf [OF wf live_aligned t(1), of _ "tables s'" ?v, OF _ w]
  have wl: "pt_wf (live s) (tables s') r" "pte_of (tables s') r vb = (if same_page va vb then ?v else pte_of (tables s) r vb)"
    "is_table (tables s') r t' = is_table (tables s) r t'" for vb t' by (rule wr; assumption)+
  show "i < 512 \<Longrightarrow> sub (tables s') r i = sub (tables s) r i"
    "i < 512 \<Longrightarrow> j < 512 \<Longrightarrow> l1 (tables s') r i j = l1 (tables s) r i j" using wr(5,6) by simp_all
  have uts: "user_table (tables s') r t' = user_table (tables s) r t'" for t'
    using small_index by (auto simp: user_table_def wr(5,6))
  have out: "mem s' x = mem s x" if "page_of x \<noteq> t" for x using that le(1) tp by (simp add: m write_u64_outside)
  have tabs: "\<not> is_table (tables s) r' 0" if "r' \<in> R" for r' using world_table_live [OF W that] zero_not_live by blast
  have wi: "writes_in R r 0 s s'"
    unfolding writes_in_def using tabs out user_table_leaf [OF t(1) half] by metis
  have inM: "(r, va) \<in> mappings (tables s) R ?p" using r va ue le(4) by (simp add: mappings_def)
  have cnt: "card (mappings (tables s) R q - {(r, va)}) + (if is_u ?v \<and> ppn_to_addr ?v = q then 1 else 0) \<le> unat (frame_ref s' q)"
    if "frame_ok q" for q
    using world_dest(6) [OF W that] card_mapping_split [OF world_dest(2) [OF W], of "tables s" q "(r, va)"] ref [OF that] v(1,2) inM n
    by (cases "q = ?p") auto
  have priv: "frame_ref s' (ppn_to_addr (pte_of (tables s) r' vb)) = 1"
    if r': "r' \<in> R" and ne: "r' \<noteq> r \<or> \<not> same_page va vb" and uw: "is_u (pte_of (tables s) r' vb)" "is_w (pte_of (tables s) r' vb)" for r' vb
  proof -
    have "ppn_to_addr (pte_of (tables s) r' vb) \<noteq> ?p"
      using writable_private [OF W r' r uw ue] ne le(4) by (auto simp: same_page_def)
    then show ?thesis using ref [OF live_frame_ok [OF world_leaf(3) [OF W r' uw(1)]]] world_leaf(5) [OF W r' uw] by simp
  qed
  have leaf: "user_leaf_ok s' R va ?v"
    using v half p lv wl(3) other_tables(2) [OF W r _ _ wi] r unfolding user_leaf_ok_def by metis
  have "live s' = live s" using lv by auto
  then have wf': "pt_wf (live s') (tables s') r" using wl(1) by simp
  show "page_update R r va ?v 0 s s'"
    unfolding page_update_def
  proof (intro conjI allI impI ballI)
    show "links (tables s') r" using wr(7) world_dest(7) [OF W r] by simp
    show "is_table (tables s) r t' \<or> \<not> live s t'" if "is_table (tables s') r t'" for t' using that wl(3) by simp
    show "user_table (tables s) r t' \<or> \<not> live s t'" if "user_table (tables s') r t'" for t' using that uts by simp
  qed (use W r va fr wf' wi wl(2) leaf lv cnt priv in blast)+
qed

text \<open>Then the child gets an entry: for a frame that is in use and whose count exceeds the number of its
  mappings, or one that is not for user mode. Tables of the child are added as needed.\<close>

lemma shared_map_wp:
  fixes s :: "'a frames_scheme"
  assumes W: "world_ok s R" and c: "root pt \<in> R" and va: "page_aligned va" "unat va < 2 ^ 39" and half: "vpn va 2 < 2"
    and has: "frames_has (k + 2) s" and v: "v = (if cow then set_cow (new_leaf pa flags) else new_leaf pa flags)" "is_valid v"
    and none: "pte_of (tables s) (root pt) va = 0"
    and user: "is_u v \<Longrightarrow> ppn_to_addr v = p \<and> live s p \<and> (\<forall>r\<in>R. \<not> is_table (tables s) r p) \<and> \<not> is_w v \<and> (is_r v \<or> is_x v) \<and>
      card (mappings (tables s) R p) < unat (frame_ref s p)"
  shows "wp (map_leaf alloc_frame pt va pa flags cow) (\<lambda>_ s'. page_update R (root pt) va v 0 s s' \<and> frames_has k s' \<and>
      above_frames s' = above_frames s \<and> (\<forall>p. live s p \<longrightarrow> frame_ref s' p = frame_ref s p) \<and>
      (\<forall>x. live s (page_of x) \<and> \<not> user_table (tables s) (root pt) (page_of x) \<longrightarrow> mem s' x = mem s x)) (\<lambda>_ _. False) s"
proof -
  let ?c = "root pt"
  note wf = world_dest(3) [OF W c] and ok = refs_ok_refl [OF world_dest(1) [OF W]]
  have "missing (tables s) ?c va \<le> 2" by (auto simp: missing_def split: option.splits)
  then have h: "frames_has (k + missing (tables s) ?c va) s" by (intro kcount.has_weaken [OF has]) simp
  have ab: "wp (map_leaf alloc_frame pt va pa flags cow) (\<lambda>_ s'. above_frames s' = above_frames s) (\<lambda>_ _. True) s"
    by (rule wp_mono [OF keeps_wp [OF kabove.map_leaf_rest]]) simp_all
  show ?thesis
  proof (rule wp_mono [OF wp_conj [OF wp_conj [OF kref.map_leaf_wp [OF ok wf] kref.map_leaf_grows [OF ok wf]] wp_conj [OF kcount.map_leaf_has [OF h wf] ab]]])
    fix "done" and s' :: "'a frames_scheme"
    assume A: "((refs_ok s s' \<and> tree_ext (live s) (mem s) (live s') (mem s') ?c \<and>
        (\<forall>vb. pte_of (tables s') ?c vb = (if done \<and> same_page va vb then if cow then set_cow (new_leaf pa flags) else new_leaf pa flags
          else pte_of (tables s) ?c vb))) \<and> grows (live s) (mem s) (mem s') ?c va) \<and> (done \<and> frames_has k s') \<and> above_frames s' = above_frames s"
    then have g: "grows (live s) (mem s) (mem s') ?c va" and ext: "tree_ext (live s) (mem s) (live s') (mem s') ?c"
      and refs: "\<And>p. live s p \<Longrightarrow> frame_ref s' p = frame_ref s p" and fr: "frames_ok s'"
      and pte: "\<And>vb. pte_of (tables s') ?c vb = (if same_page va vb then v else pte_of (tables s) ?c vb)" by (auto simp: refs_ok_def v(1))
    have lv: "live s' q" if "live s q" for q using that refs [OF that] by (simp add: live_def)
    have out: "mem s' x = mem s x" if "live s (page_of x)" "\<not> user_table (tables s) ?c (page_of x)" for x
      using grows_outside [OF g half, of x] that by auto
    have wi: "writes_in R ?c 0 s s'" using out world_table_live [OF W] zero_not_live by (auto simp: writes_in_def)
    have tab: "is_table (tables s) ?c t \<or> \<not> live s t" if "is_table (tables s') ?c t" for t using tree_ext_dest(5) [OF ext that] .
    have leaf: "user_leaf_ok s' R va v"
    proof (cases "is_u v")
      case True
      then have "\<not> is_table (tables s') r' p" if "r' \<in> R" for r'
        using user [OF True] tab [of p] other_tables(2) [OF W c that _ wi, of p] that by (cases "r' = ?c") auto
      then show ?thesis using user [OF True] v(2) lv half by (simp add: user_leaf_ok_def)
    qed (use v(2) in \<open>simp add: user_leaf_ok_def\<close>)
    have "(?c, va) \<notin> mappings (tables s) R q" for q using none by (simp add: mappings_def)
    then have cnt: "card (mappings (tables s) R q - {(?c, va)}) + (if is_u v \<and> ppn_to_addr v = q then 1 else 0) \<le> unat (frame_ref s' q)"
      if q: "frame_ok q" for q
      using world_dest(6) [OF W q] user refs [of q] q by (cases "live s q") (auto simp: live_def Suc_leI)
    have priv: "frame_ref s' (ppn_to_addr (pte_of (tables s) r' vb)) = 1"
      if "r' \<in> R" "is_u (pte_of (tables s) r' vb)" "is_w (pte_of (tables s) r' vb)" for r' vb
      using refs [OF world_leaf(3) [OF W that(1,2)]] world_leaf(5) [OF W that] by simp
    have "page_update R ?c va v 0 s s'"
      unfolding page_update_def using W c va fr tree_ext_wf [OF ext] grows_dest(4) [OF g world_dest(7) [OF W c]] wi tab
        grows_user_table [OF g] pte leaf lv cnt priv by blast
    then show "page_update R ?c va v 0 s s' \<and> frames_has k s' \<and> above_frames s' = above_frames s \<and> (\<forall>p. live s p \<longrightarrow> frame_ref s' p = frame_ref s p) \<and>
      (\<forall>x. live s (page_of x) \<and> \<not> user_table (tables s) ?c (page_of x) \<longrightarrow> mem s' x = mem s x)"
      using A refs out by blast
  qed simp
qed

text \<open>Both together: the child sees at one more page what the parent sees there, and nothing else
  changes for anybody.\<close>

lemma write_read_u64: "write_u64 m a (read_u64 m a) = m"
proof
  fix x
  show "write_u64 m a (read_u64 m a) x = m x"
  proof (cases "x - a < 8")
    case True
    then have k: "unat (x - a) < 8" by (simp add: word_less_nat_alt)
    then have "ucast (drop_bit (8 * unat (x - a)) (read_u64 m a)) = m x"
      by (intro bit_word_eqI) (auto simp: bit_simps bit_read_u64)
    then show ?thesis using True by (simp add: write_u64_def)
  qed (simp add: write_u64_def)
qed

lemma other_links:
  assumes W: "world_ok s R" and r: "r \<in> R" "r' \<in> R" "r' \<noteq> r" and w: "writes_in R r z s s'"
  shows "i < 512 \<Longrightarrow> sub (tables s') r' i = sub (tables s) r' i"
    and "i < 512 \<Longrightarrow> j < 512 \<Longrightarrow> l1 (tables s') r' i j = l1 (tables s) r' i j"
proof -
  have same: "mem s' x = mem s x" if t: "is_table (tables s) r' (page_of x)" for x
    using world_table_live [OF W r(2) t] world_dest(5) [OF W r(1,2)] r(3) t w r(2) unfolding writes_in_def by metis
  note ts = tree_same [OF world_dest(3) [OF W r(2)] live_aligned [of s] same]
  show "i < 512 \<Longrightarrow> sub (tables s') r' i = sub (tables s) r' i" "i < 512 \<Longrightarrow> j < 512 \<Longrightarrow> l1 (tables s') r' i j = l1 (tables s) r' i j"
    by (rule ts; assumption)+
qed

lemma mapped_not_kernel: "r \<in> R \<Longrightarrow> is_u (pte_of (tables s) r va) \<Longrightarrow> \<not> kernel_page s R (ppn_to_addr (pte_of (tables s) r va))"
  by (metis kernel_page_def)

definition copied :: "PTEntry \<Rightarrow> PTEntry" where
  "copied e = (if is_cow (shared_entry e) then set_cow (new_leaf (ppn_to_addr e) (pte_flags (shared_entry e)))
     else new_leaf (ppn_to_addr e) (pte_flags (shared_entry e)))"

lemma copied_bits:
  assumes "unat (ppn_to_addr e) < 2 ^ 60"
  shows "is_u (copied e) = is_u e" "is_valid (copied e) = is_valid e" "is_r (copied e) = is_r e" "is_x (copied e) = is_x e" "\<not> is_w (copied e)"
    "ppn_to_addr (copied e) = ppn_to_addr e"
proof -
  have al: "page_aligned (ppn_to_addr e)" by simp
  show "is_u (copied e) = is_u e" "is_valid (copied e) = is_valid e" "is_r (copied e) = is_r e" "is_x (copied e) = is_x e" "\<not> is_w (copied e)"
    by (auto simp: copied_def shared_entry_def pte_bits bit_cow_w bit_new_leaf bit_pte_flags)
  show "ppn_to_addr (copied e) = ppn_to_addr e" using ppn_new_leaf [OF al assms] by (simp add: copied_def)
qed

definition shared_page :: "PhysAddr set \<Rightarrow> PhysAddr \<Rightarrow> PhysAddr \<Rightarrow> VirtAddr \<Rightarrow> PTEntry \<Rightarrow> 'a frames_scheme \<Rightarrow> 'a frames_scheme \<Rightarrow> bool" where
  "shared_page R r c va e s s' \<longleftrightarrow> world_ok s' R \<and> above_frames s' = above_frames s \<and> kernel_kept R s s' \<and>
     (\<forall>r'\<in>R. \<forall>a. view (mem s') r' a = (if r' = c \<and> same_page va a then view (mem s) r a else view (mem s) r' a)) \<and>
     (\<forall>a. pte_of (tables s') r a = (if same_page va a then shared_entry e else pte_of (tables s) r a)) \<and>
     (\<forall>a. pte_of (tables s') c a = (if same_page va a then copied e else pte_of (tables s) c a)) \<and>
     (\<forall>i < 512. sub (tables s') r i = sub (tables s) r i) \<and> (\<forall>i < 512. \<forall>j < 512. l1 (tables s') r i j = l1 (tables s) r i j) \<and>
     (\<forall>p. live s p \<longrightarrow> frame_ref s' p = (if p = ppn_to_addr e then frame_ref s p + 1 else frame_ref s p))"

lemma share_user_leaf_wp:
  fixes s :: "'a frames_scheme"
  assumes W: "world_ok s R" and r: "r \<in> R" and c: "root pt \<in> R" "r \<noteq> root pt" and va: "page_aligned va" "unat va < 2 ^ 39"
    and lk: "lookup_addr (tables s) r va = Some ea" and u: "is_u (tables s ea)" and lim: "unat (frame_ref s (ppn_to_addr (tables s ea))) + 1 < 2 ^ 32"
    and none: "pte_of (tables s) (root pt) va = 0" and has: "frames_has (k + 2) s"
  shows "wp (share_user_leaf pt va ea) (\<lambda>_ s'. shared_page R r (root pt) va (tables s ea) s s' \<and> frames_has k s') (\<lambda>_ _. False) s"
proof -
  let ?c = "root pt" and ?e = "tables s ea" and ?p = "ppn_to_addr (tables s ea)"
  define s1 where "s1 = (set_ref ?p (frame_ref s ?p + 1) s)\<lparr>mem := write_u64 (mem s) ea (shared_entry ?e)\<rparr>"
  note le = lookup_entry [OF world_space [OF W r] lk]
  note mk = marked_page_update [OF W r va lk u lim s1_def] and W1 = update_world [OF marked_page_update(1) [OF W r va lk u lim s1_def]]
  have ue: "is_u (pte_of (tables s) r va)" "pte_of (tables s) r va = ?e" using u le(4) by simp_all
  have p: "live s ?p" "\<And>r'. r' \<in> R \<Longrightarrow> \<not> is_table (tables s) r' ?p" and half: "vpn va 2 < 2" and perm: "is_r ?e \<or> is_x ?e" "is_valid ?e"
    using world_leaf(1-4,6) [OF W r, of va] ue by auto
  have pm: "is_managed ?p" "unat ?p < 2 ^ 60" using live_frame_ok [OF p(1)] by (auto simp: frame_ok_def is_managed_unat)
  note cb = copied_bits [OF pm(2)]
  have sb: "is_u (shared_entry ?e)" "ppn_to_addr (shared_entry ?e) = ?p" using u by (auto simp: shared_entry_def pte_bits bit_cow_w)
  have n: "unat (frame_ref s ?p + 1) = unat (frame_ref s ?p) + 1" using lim by (simp add: unat_word_ariths)
  have ref1: "frame_ref s1 q = (if q = ?p then frame_ref s q + 1 else frame_ref s q)" if "live s q" for q by (rule mk(4) [OF live_frame_ok [OF that]])
  have "frame_ref s ?p + 1 \<noteq> 0" using n by (metis unat_0 add_eq_0_iff_both_eq_0 one_neq_zero)
  then have lv1: "live s1 q" if "live s q" for q using that ref1 [OF that] by (auto simp: live_def)
  have t1: "is_table (tables s1) r' t \<Longrightarrow> is_table (tables s) r' t \<or> \<not> live s t" if "r' \<in> R" for r' t using update_tree(2) [OF mk(1) that] by blast
  have m1: "mem s1 x = mem s x" if "live s (page_of x)" "\<not> is_table (tables s) r (page_of x)" for x
    using page_update_dest(3) [OF mk(1)] that user_table_is_table zero_not_live unfolding writes_in_def by metis
  have pg: "mem s1 x = mem s x" if "page_of x = ?p" for x using m1 p r that by simp
  have v1: "view (mem s1) r' a = view (mem s) r' a" if r': "r' \<in> R" for r' a
  proof (cases "r' = r \<and> same_page va a")
    case True
    then show ?thesis
      using update_tree(1) [OF mk(1) r', of a] pte_same_page [of va a "tables s" r] ue sb u pg [OF page_of_mapped [of ?e a]] by (simp add: view_def)
  qed (use update_view [OF mk(1) _ r', of a] zero_not_live in auto)
  have mp: "mappings (tables s1) R ?p = mappings (tables s) R ?p"
  proof -
    have "mappings (tables s1) R ?p = mappings (tables s) R ?p - {(r, va)} \<union> (if is_u (shared_entry ?e) \<and> ppn_to_addr (shared_entry ?e) = ?p then {(r, va)} else {})"
      by (rule mappings_update [OF r va]) (simp_all add: update_tree(1) [OF mk(1)] r)
    moreover have "(r, va) \<in> mappings (tables s) R ?p" using r va ue by (simp add: mappings_def)
    ultimately show ?thesis using sb by auto
  qed
  have user: "ppn_to_addr (copied ?e) = ?p \<and> live s1 ?p \<and> (\<forall>r\<in>R. \<not> is_table (tables s1) r ?p) \<and> \<not> is_w (copied ?e) \<and> (is_r (copied ?e) \<or> is_x (copied ?e)) \<and>
      card (mappings (tables s1) R ?p) < unat (frame_ref s1 ?p)"
    using cb perm lv1 [OF p(1)] t1 p world_dest(6) [OF W live_frame_ok [OF p(1)]] ref1 [OF p(1)] n by (auto simp: mp)
  have none1: "pte_of (tables s1) ?c va = 0" using update_tree(1) [OF mk(1) c(1), of va] none c(2) by simp
  have kk1: "kernel_kept R s s1"
    by (rule update_kernel [OF mk(1)]) (use mapped_not_kernel [OF r ue(1)] ue(2) sb(2) in \<open>simp_all add: kernel_page_def [of _ _ 0] zero_not_live\<close>)
  have ab1: "above_frames s1 = above_frames s" by (simp add: s1_def set_ref_def)
  have has1: "frames_has (k + 2) s1"
  proof -
    have "write_u64 (mem s) ea (shared_entry ?e) x = mem (set_ref ?p (frame_ref s ?p + 1) s) x" if "\<not> live (set_ref ?p (frame_ref s ?p + 1) s) (page_of x)" for x
    proof -
      have "live s1 (page_of ea)" by (rule lv1 [OF world_table_live [OF W r le(3)]])
      then have "page_of x \<noteq> page_of ea" using that by (auto simp: s1_def live_def frame_ref_def)
      then show ?thesis using le(1) by (simp add: write_u64_outside)
    qed
    then show ?thesis unfolding s1_def using kcount.has_write [OF frames_has_ref [OF has p(1)]] by simp
  qed
  have fin: "shared_page R r ?c va ?e s s2 \<and> frames_has k s2"
    if A: "page_update R ?c va (copied ?e) 0 s1 s2 \<and> frames_has k s2 \<and> above_frames s2 = above_frames s1 \<and> (\<forall>p. live s1 p \<longrightarrow> frame_ref s2 p = frame_ref s1 p) \<and>
      (\<forall>x. live s1 (page_of x) \<and> \<not> user_table (tables s1) ?c (page_of x) \<longrightarrow> mem s2 x = mem s1 x)" for s2
  proof -
    have U: "page_update R ?c va (copied ?e) 0 s1 s2" using A by blast
    have pg2: "mem s2 x = mem s x" if "page_of x = ?p" for x
      using A user c(1) user_table_is_table pg [OF that] that by metis
    have view: "view (mem s2) r' a = (if r' = ?c \<and> same_page va a then view (mem s) r a else view (mem s) r' a)" if r': "r' \<in> R" for r' a
    proof (cases "r' = ?c \<and> same_page va a")
      case True
      then show ?thesis
        using update_tree(1) [OF U r', of a] pte_same_page [of va a "tables s" r] ue cb(1,6) u pg2 [OF page_of_mapped [of ?e a]] by (simp add: view_def)
    next
      case False
      then have "view (mem s2) r' a = view (mem s1) r' a" using update_view [OF U _ r', of a] zero_not_live by auto
      then show ?thesis using v1 [OF r'] False by auto
    qed
    have "is_u (pte_of (tables s1) r va)" "ppn_to_addr (pte_of (tables s1) r va) = ?p"
      using update_tree(1) [OF mk(1) r, of va] sb by (simp_all add: same_page_def)
    then have "\<not> kernel_page s1 R (ppn_to_addr (copied ?e))" using mapped_not_kernel [OF r, of s1 va] cb(6) by simp
    then have "kernel_kept R s1 s2" by (intro update_kernel [OF U]) (simp_all add: kernel_page_def zero_not_live)
    moreover have "pte_of (tables s2) r a = (if same_page va a then shared_entry ?e else pte_of (tables s) r a)"
      "pte_of (tables s2) ?c a = (if same_page va a then copied ?e else pte_of (tables s) ?c a)" for a
      using update_tree(1) [OF U r, of a] update_tree(1) [OF U c(1), of a] update_tree(1) [OF mk(1) r, of a] update_tree(1) [OF mk(1) c(1), of a] c(2) by auto
    moreover have "i < 512 \<Longrightarrow> sub (tables s2) r i = sub (tables s) r i" "i < 512 \<Longrightarrow> j < 512 \<Longrightarrow> l1 (tables s2) r i j = l1 (tables s) r i j" for i j
      using other_links [OF W1 c(1) r c(2) page_update_dest(3) [OF U]] mk(2,3) by simp_all
    ultimately show ?thesis
      using A update_world [OF U] kernel_kept_trans [OF kk1] ab1 view ref1 lv1 unfolding shared_page_def by simp
  qed
  have "wp (map_leaf alloc_frame pt va ?p (pte_flags (shared_entry ?e)) (is_cow (shared_entry ?e))) (\<lambda>_ s2. shared_page R r ?c va ?e s s2 \<and> frames_has k s2) (\<lambda>_ _. False) s1"
    by (rule wp_mono [OF shared_map_wp [OF W1 c(1) va half has1 _ _ none1, of "copied ?e"]]) (use fin cb perm user in \<open>auto simp: copied_def\<close>)
  note run = this [unfolded s1_def]
  have rt: "wp (ret ()) Q E = Q ()" for Q :: "unit \<Rightarrow> 'a frames_scheme \<Rightarrow> bool" and E by (simp add: fun_eq_iff wp_ret)
  have cow: "is_cow (set_cow e)" for e by (simp add: pte_bits bit_cow_w)
  show ?thesis
  proof (cases "is_w ?e")
    case True
    then show ?thesis
      using u pm(1) run by (simp add: share_user_leaf_def wp_simps wp_inc_ref Let_def map_cow_def shared_entry_def write_u64_twice read_write_u64_same cow rt)
  next
    case False
    have m: "(set_ref ?p (frame_ref s ?p + 1) s)\<lparr>mem := mem s\<rparr> = set_ref ?p (frame_ref s ?p + 1) s" by (simp add: set_ref_def)
    have "wp (map_leaf alloc_frame pt va ?p (pte_flags ?e) (is_cow ?e)) (\<lambda>_ s2. shared_page R r ?c va ?e s s2 \<and> frames_has k s2) (\<lambda>_ _. False)
        (set_ref ?p (frame_ref s ?p + 1) s)"
      using run by (simp only: shared_entry_def False if_False write_read_u64 m)
    then show ?thesis
      using False u pm(1) by (cases "is_cow ?e") (simp_all add: share_user_leaf_def wp_simps wp_inc_ref Let_def map_cow_def map_page_def rt)
  qed
qed

section \<open>Sharing all pages\<close>

text \<open>The number of pages from the \<open>n\<close>-th on whose entry satisfies \<open>P\<close>.\<close>

definition pages_left :: "(PTEntry \<Rightarrow> bool) \<Rightarrow> (usize \<Rightarrow> u64) \<Rightarrow> PhysAddr \<Rightarrow> nat \<Rightarrow> nat" where
  "pages_left P rd r n = card {x. n \<le> x \<and> x < 2 ^ 19 \<and> P (pte_of rd r (nth_page x))}"

lemma pages_left_step:
  assumes "n < 2 ^ 19"
  shows "pages_left P rd r n = pages_left P rd r (Suc n) + (if P (pte_of rd r (nth_page n)) then 1 else 0)"
proof -
  have "{x. n \<le> x \<and> x < 2 ^ 19 \<and> P (pte_of rd r (nth_page x))} =
      {x. Suc n \<le> x \<and> x < 2 ^ 19 \<and> P (pte_of rd r (nth_page x))} \<union> (if P (pte_of rd r (nth_page n)) then {n} else {})"
    using assms by (auto simp: Suc_le_eq order_le_less)
  moreover have "finite {x. Suc n \<le> x \<and> x < 2 ^ 19 \<and> P (pte_of rd r (nth_page x))}" by (rule finite_subset [of _ "{..<2 ^ 19}"]) auto
  ultimately show ?thesis by (simp add: pages_left_def)
qed

definition count_room :: "'a frames_scheme \<Rightarrow> bool" where
  "count_room s \<longleftrightarrow> (\<forall>p. live s p \<longrightarrow> unat (frame_ref s p) + 2 ^ 19 < 2 ^ 32)"

text \<open>The first \<open>n\<close> pages of the parent \<open>r\<close> have been shared with the child \<open>c\<close>.\<close>

definition sharing :: "PhysAddr set \<Rightarrow> PhysAddr \<Rightarrow> PhysAddr \<Rightarrow> nat \<Rightarrow> 'a frames_scheme \<Rightarrow> nat \<Rightarrow> 'a frames_scheme \<Rightarrow> bool" where
  "sharing R r c k s n t \<longleftrightarrow> world_ok t R \<and> world_ok s R \<and> r \<in> R \<and> c \<in> R \<and> r \<noteq> c \<and> count_room s \<and> (\<forall>a. vpn a 2 < 2 \<longrightarrow> pte_of (tables s) c a = 0) \<and>
     above_frames t = above_frames s \<and> kernel_kept R s t \<and> frames_has (k + 2 * pages_left is_u (tables s) r n) t \<and>
     (\<forall>r'\<in>R. r' \<noteq> c \<longrightarrow> (\<forall>a. view (mem t) r' a = view (mem s) r' a)) \<and>
     (\<forall>a. view (mem t) c a = (if a \<in> in_pages 0 (nth_page n) then view (mem s) r a else None)) \<and>
     (\<forall>a. \<not> (a \<in> in_pages 0 (nth_page n) \<and> is_u (pte_of (tables s) r a)) \<longrightarrow>
        pte_of (tables t) r a = pte_of (tables s) r a \<and> pte_of (tables t) c a = pte_of (tables s) c a) \<and>
     (\<forall>a. is_u (pte_of (tables t) r a) = is_u (pte_of (tables s) r a)) \<and>
     (\<forall>i < 512. sub (tables t) r i = sub (tables s) r i) \<and> (\<forall>i < 512. \<forall>j < 512. l1 (tables t) r i j = l1 (tables s) r i j) \<and>
     (\<forall>p. live s p \<longrightarrow> live t p \<and> unat (frame_ref t p) \<le> unat (frame_ref s p) + n)"

lemma sharing_dest:
  assumes "sharing R r c k s n t"
  shows "world_ok t R" "r \<in> R" "c \<in> R" "r \<noteq> c" "count_room s" "vpn a 2 < 2 \<Longrightarrow> pte_of (tables s) c a = 0"
    "above_frames t = above_frames s" "kernel_kept R s t" "frames_has (k + 2 * pages_left is_u (tables s) r n) t"
    "r' \<in> R \<Longrightarrow> r' \<noteq> c \<Longrightarrow> view (mem t) r' a = view (mem s) r' a"
    "view (mem t) c a = (if a \<in> in_pages 0 (nth_page n) then view (mem s) r a else None)"
    "a \<notin> in_pages 0 (nth_page n) \<or> \<not> is_u (pte_of (tables s) r a) \<Longrightarrow>
        pte_of (tables t) r a = pte_of (tables s) r a \<and> pte_of (tables t) c a = pte_of (tables s) c a"
    "is_u (pte_of (tables t) r a) = is_u (pte_of (tables s) r a)"
    "i < 512 \<Longrightarrow> sub (tables t) r i = sub (tables s) r i" "i < 512 \<Longrightarrow> j < 512 \<Longrightarrow> l1 (tables t) r i j = l1 (tables s) r i j"
    "live s p \<Longrightarrow> live t p \<and> unat (frame_ref t p) \<le> unat (frame_ref s p) + n"
    "world_ok s R"
  using assms unfolding sharing_def by blast+

lemma sharing_page:
  assumes "sharing R r c k s n t" and "n < 2 ^ 19"
  shows "pte_of (tables t) r (nth_page n) = pte_of (tables s) r (nth_page n)" "pte_of (tables t) c (nth_page n) = 0"
proof -
  have "nth_page n \<notin> in_pages 0 (nth_page n)" using page_step(2) [OF assms(2)] by (auto simp: same_page_def)
  then show "pte_of (tables t) r (nth_page n) = pte_of (tables s) r (nth_page n)" "pte_of (tables t) c (nth_page n) = 0"
    using sharing_dest(6,12) [OF assms(1)] nth_page_facts(4) [OF assms(2)] by auto
qed

lemma sharing_skip:
  assumes S: "sharing R r c k s n t" and n: "n < 2 ^ 19" and u: "\<not> is_u (pte_of (tables t) r (nth_page n))"
  shows "sharing R r c k s (Suc n) t"
proof -
  note d = sharing_dest [OF S] and pg = sharing_page [OF S n]
  have same: "\<not> is_u (pte_of (tables s) r a)" if "same_page (nth_page n) a" for a
    using u pg(1) pte_same_page [OF that, of "tables s" r] by simp
  have "view (mem t) c a = (if a \<in> in_pages 0 (nth_page (Suc n)) then view (mem s) r a else None)" for a
    using d(11) [of a] same [of a] unfolding page_step(1) [OF n] by (auto simp: view_def)
  moreover have "pages_left is_u (tables s) r n = pages_left is_u (tables s) r (Suc n)" using pages_left_step [OF n, of is_u] u pg(1) by simp
  moreover have "pte_of (tables t) r a = pte_of (tables s) r a \<and> pte_of (tables t) c a = pte_of (tables s) c a"
    if "\<not> (a \<in> in_pages 0 (nth_page (Suc n)) \<and> is_u (pte_of (tables s) r a))" for a
    using d(12) [of a] that unfolding page_step(1) [OF n] by blast
  ultimately show ?thesis
    unfolding sharing_def using d by (simp add: le_SucI)
qed

lemma sharing_shared:
  assumes S: "sharing R r c k s n t" and n: "n < 2 ^ 19" and u: "is_u (pte_of (tables t) r (nth_page n))"
    and P: "shared_page R r c (nth_page n) (pte_of (tables t) r (nth_page n)) t t'" and h: "frames_has (k + 2 * pages_left is_u (tables s) r (Suc n)) t'"
  shows "sharing R r c k s (Suc n) t'"
proof -
  let ?va = "nth_page n" and ?e = "pte_of (tables t) r (nth_page n)"
  note d = sharing_dest [OF S] and pg = sharing_page [OF S n] and st = page_step [OF n]
  have p: "world_ok t' R" "above_frames t' = above_frames t" "kernel_kept R t t'"
    "\<And>r' a. r' \<in> R \<Longrightarrow> view (mem t') r' a = (if r' = c \<and> same_page ?va a then view (mem t) r a else view (mem t) r' a)"
    "\<And>a. pte_of (tables t') r a = (if same_page ?va a then shared_entry ?e else pte_of (tables t) r a)"
    "\<And>a. pte_of (tables t') c a = (if same_page ?va a then copied ?e else pte_of (tables t) c a)"
    "\<And>i. i < 512 \<Longrightarrow> sub (tables t') r i = sub (tables t) r i" "\<And>i j. i < 512 \<Longrightarrow> j < 512 \<Longrightarrow> l1 (tables t') r i j = l1 (tables t) r i j"
    "\<And>p. live t p \<Longrightarrow> frame_ref t' p = (if p = ppn_to_addr ?e then frame_ref t p + 1 else frame_ref t p)"
    using P by (auto simp: shared_page_def)
  have us: "is_u (shared_entry ?e)" using u by (auto simp: shared_entry_def pte_bits bit_cow_w)
  have uo: "is_u (pte_of (tables s) r a)" if "same_page ?va a" for a using u pg(1) pte_same_page [OF that, of "tables s" r] by simp
  have view: "view (mem t') c a = (if a \<in> in_pages 0 (nth_page (Suc n)) then view (mem s) r a else None)" for a
    using p(4) [OF d(3), of a] d(10) [OF d(2,4), of a] d(11) [of a] st(2) unfolding st(1) by auto
  have "view (mem t') r' a = view (mem s) r' a" if "r' \<in> R" "r' \<noteq> c" for r' a using p(4) [OF that(1)] d(10) [OF that] that by simp
  moreover have "pte_of (tables t') r a = pte_of (tables s) r a \<and> pte_of (tables t') c a = pte_of (tables s) c a"
    if "\<not> (a \<in> in_pages 0 (nth_page (Suc n)) \<and> is_u (pte_of (tables s) r a))" for a
    using d(12) [of a] that uo [of a] unfolding st(1) p(5,6) by auto
  moreover have "is_u (pte_of (tables t') r a) = is_u (pte_of (tables s) r a)" for a
    using d(13) [of a] us uo [of a] unfolding p(5) by auto
  moreover have "live t' q \<and> unat (frame_ref t' q) \<le> unat (frame_ref s q) + Suc n" if q: "live s q" for q
  proof -
    have t: "live t q" "unat (frame_ref t q) \<le> unat (frame_ref s q) + n" using d(16) [OF q] by auto
    have "unat (frame_ref s q) + 2 ^ 19 < 2 ^ 32" using d(5) q by (simp add: count_room_def)
    then have "unat (frame_ref t q + 1) = unat (frame_ref t q) + 1" using t(2) n by (simp add: unat_word_ariths)
    moreover from this have "frame_ref t q + 1 \<noteq> 0" by (metis unat_0 add_eq_0_iff_both_eq_0 one_neq_zero)
    ultimately show ?thesis using p(9) [OF t(1)] t by (auto simp: live_def)
  qed
  ultimately show ?thesis
    unfolding sharing_def using d p(1,2,7,8) kernel_kept_trans [OF d(8) p(3)] view h by simp
qed

lemma sharing_start:
  assumes "world_ok s R" and "r \<in> R" and "c \<in> R" and "r \<noteq> c" and "count_room s" and "\<forall>a. vpn a 2 < 2 \<longrightarrow> pte_of (tables s) c a = 0"
    and "frames_has (k + 2 * pages_left is_u (tables s) r 0) s"
  shows "sharing R r c k s 0 s"
proof -
  have "\<not> is_u (pte_of (tables s) c a)" for a using assms(6) world_leaf(2) [OF assms(1,3), of a] by auto
  then show ?thesis using assms by (simp add: sharing_def kernel_kept_refl in_pages_def nth_page_def view_def)
qed

interpretation shares: page_visitor pt "sub (tables s) (root pt)" "l1 (tables s) (root pt)" "sharing R (root pt) (root pc) k s" "share_user_leaf pc" "\<lambda>_ _. False"
  for pt pc :: PageTable and s :: "'a frames_scheme" and R k
proof (unfold_locales)
  fix n i j and t :: "'a frames_scheme" assume S: "sharing R (root pt) (root pc) k s n t"
  note d = sharing_dest [OF S]
  show "links (tables t) (root pt)" by (rule world_dest(7) [OF d(1,2)])
  show "i < 512 \<Longrightarrow> sub (tables t) (root pt) i = sub (tables s) (root pt) i"
    "i < 512 \<Longrightarrow> j < 512 \<Longrightarrow> l1 (tables t) (root pt) i j = l1 (tables s) (root pt) i j" using d(14,15) by blast+
  assume n: "n < 2 ^ 19"
  note pg = sharing_page [OF S n]
  show "sharing R (root pt) (root pc) k s (Suc n) t" if "\<not> is_leaf (pte_of (tables t) (root pt) (nth_page n))"
    using that world_leaf(1,6) [OF d(1,2), of "nth_page n"] by (intro sharing_skip [OF S n]) (auto simp: is_leaf_def)
  fix ea assume lk: "lookup_addr (tables t) (root pt) (nth_page n) = Some ea"
  have e: "pte_of (tables t) (root pt) (nth_page n) = tables t ea" using lookup_entry(4) [OF world_space [OF d(1,2)] lk] .
  show "wp (share_user_leaf pc (nth_page n) ea) (\<lambda>_. sharing R (root pt) (root pc) k s (Suc n)) (\<lambda>_ _. False) t"
  proof (cases "is_u (tables t ea)")
    case True
    note f = nth_page_facts [OF n]
    let ?p = "ppn_to_addr (tables t ea)"
    have "live s ?p" using world_leaf(3) [OF d(17,2), of "nth_page n"] True e pg(1) by simp
    then have lim: "unat (frame_ref t ?p) + 1 < 2 ^ 32" using d(5,16) n by (fastforce simp: count_room_def)
    have has: "frames_has ((k + 2 * pages_left is_u (tables s) (root pt) (Suc n)) + 2) t"
      using d(9) pages_left_step [OF n, of is_u "tables s" "root pt"] pg(1) e True by simp
    show ?thesis
      by (rule wp_mono [OF share_user_leaf_wp [OF d(1-4) f(1,3) lk True lim pg(2) has]]) (use sharing_shared [OF S n] e True in auto)
  next
    case False
    then show ?thesis using sharing_skip [OF S n] e by (simp add: share_user_leaf_def wp_simps)
  qed
qed

section \<open>The kernel's pages in the user half\<close>

definition kernel_leaf :: "PTEntry \<Rightarrow> bool" where
  "kernel_leaf e \<longleftrightarrow> is_leaf e \<and> \<not> is_u e"

text \<open>The first \<open>n\<close> pages have been visited; the child maps what the kernel had mapped there, and nobody
  sees a difference.\<close>

definition joining :: "PhysAddr set \<Rightarrow> PhysAddr \<Rightarrow> PhysAddr \<Rightarrow> nat \<Rightarrow> 'a frames_scheme \<Rightarrow> nat \<Rightarrow> 'a frames_scheme \<Rightarrow> bool" where
  "joining R r c k s n t \<longleftrightarrow> world_ok t R \<and> r \<in> R \<and> c \<in> R \<and> r \<noteq> c \<and> (\<forall>a. vpn a 2 < 2 \<and> \<not> is_u (pte_of (tables s) r a) \<longrightarrow> pte_of (tables s) c a = 0) \<and>
     above_frames t = above_frames s \<and> kernel_kept R s t \<and> frames_has (k + 2 * pages_left kernel_leaf (tables s) r n) t \<and>
     (\<forall>r'\<in>R. \<forall>a. view (mem t) r' a = view (mem s) r' a) \<and> (\<forall>a. pte_of (tables t) r a = pte_of (tables s) r a) \<and>
     (\<forall>a. pte_of (tables t) c a = (if a \<in> in_pages 0 (nth_page n) \<and> kernel_leaf (pte_of (tables s) r a)
        then new_leaf (ppn_to_addr (pte_of (tables s) r a)) (pte_flags (pte_of (tables s) r a)) else pte_of (tables s) c a)) \<and>
     (\<forall>i < 512. sub (tables t) r i = sub (tables s) r i) \<and> (\<forall>i < 512. \<forall>j < 512. l1 (tables t) r i j = l1 (tables s) r i j)"

lemma joining_dest:
  assumes "joining R r c k s n t"
  shows "world_ok t R" "r \<in> R" "c \<in> R" "r \<noteq> c" "vpn a 2 < 2 \<Longrightarrow> \<not> is_u (pte_of (tables s) r a) \<Longrightarrow> pte_of (tables s) c a = 0"
    "above_frames t = above_frames s" "kernel_kept R s t" "frames_has (k + 2 * pages_left kernel_leaf (tables s) r n) t"
    "r' \<in> R \<Longrightarrow> view (mem t) r' a = view (mem s) r' a" "pte_of (tables t) r a = pte_of (tables s) r a"
    "pte_of (tables t) c a = (if a \<in> in_pages 0 (nth_page n) \<and> kernel_leaf (pte_of (tables s) r a)
        then new_leaf (ppn_to_addr (pte_of (tables s) r a)) (pte_flags (pte_of (tables s) r a)) else pte_of (tables s) c a)"
    "i < 512 \<Longrightarrow> sub (tables t) r i = sub (tables s) r i" "i < 512 \<Longrightarrow> j < 512 \<Longrightarrow> l1 (tables t) r i j = l1 (tables s) r i j"
  using assms unfolding joining_def by blast+

lemma joining_skip:
  assumes J: "joining R r c k s n t" and n: "n < 2 ^ 19" and u: "\<not> kernel_leaf (pte_of (tables t) r (nth_page n))"
  shows "joining R r c k s (Suc n) t"
proof -
  note d = joining_dest [OF J]
  have same: "\<not> kernel_leaf (pte_of (tables s) r a)" if "same_page (nth_page n) a" for a
    using u d(10) pte_same_page [OF that, of "tables s" r] by simp
  have "pages_left kernel_leaf (tables s) r n = pages_left kernel_leaf (tables s) r (Suc n)" using pages_left_step [OF n, of kernel_leaf] u d(10) by simp
  moreover have "(a \<in> in_pages 0 (nth_page (Suc n)) \<and> kernel_leaf (pte_of (tables s) r a)) = (a \<in> in_pages 0 (nth_page n) \<and> kernel_leaf (pte_of (tables s) r a))" for a
    using same [of a] unfolding page_step(1) [OF n] by blast
  ultimately show ?thesis unfolding joining_def using d by simp
qed

lemma share_kernel_leaf_wp:
  assumes J: "joining R r (root pc) k s n t" and n: "n < 2 ^ 19" and lk: "lookup_addr (tables t) r (nth_page n) = Some ea" and kl: "kernel_leaf (tables t ea)"
  shows "wp (share_kernel_leaf pc (nth_page n) ea) (\<lambda>_. joining R r (root pc) k s (Suc n)) (\<lambda>_ _. False) t"
proof -
  let ?c = "root pc" and ?va = "nth_page n" and ?v = "new_leaf (ppn_to_addr (tables t ea)) (pte_flags (tables t ea))"
  note d = joining_dest [OF J] and f = nth_page_facts [OF n] and st = page_step [OF n]
  have e: "pte_of (tables t) r ?va = tables t ea" using lookup_entry(4) [OF world_space [OF d(1,2)] lk] .
  have v: "is_valid ?v" "\<not> is_u ?v" using kl by (auto simp: kernel_leaf_def is_leaf_def pte_bits bit_new_leaf bit_pte_flags)
  have out: "?va \<notin> in_pages 0 ?va" using st(2) by (auto simp: same_page_def)
  have nu: "\<not> is_u (pte_of (tables s) r ?va)" using kl e d(10) by (simp add: kernel_leaf_def)
  have none: "pte_of (tables t) ?c ?va = 0" using d(11) [of ?va] d(5) [OF f(4) nu] out by simp
  have has: "frames_has ((k + 2 * pages_left kernel_leaf (tables s) r (Suc n)) + 2) t"
    using d(8) pages_left_step [OF n, of kernel_leaf "tables s" r] d(10) [of ?va] e kl by simp
  have fin: "joining R r ?c k s (Suc n) t'" if U: "page_update R ?c ?va ?v 0 t t'" and A: "frames_has (k + 2 * pages_left kernel_leaf (tables s) r (Suc n)) t'"
    "above_frames t' = above_frames t" for t'
  proof -
    have eq: "pte_of (tables s) r a = tables t ea" if "same_page ?va a" for a using e d(10) pte_same_page [OF that, of "tables s" r] by simp
    have pc: "pte_of (tables t') ?c a = (if a \<in> in_pages 0 (nth_page (Suc n)) \<and> kernel_leaf (pte_of (tables s) r a)
        then new_leaf (ppn_to_addr (pte_of (tables s) r a)) (pte_flags (pte_of (tables s) r a)) else pte_of (tables s) ?c a)" for a
      using update_tree(1) [OF U d(3), of a] d(11) [of a] eq [of a] kl unfolding st(1) by (cases "same_page ?va a") auto
    have "view (mem t') r' a = view (mem s) r' a" if r': "r' \<in> R" for r' a
    proof (cases "r' = ?c \<and> same_page ?va a")
      case True
      have "pte_of (tables t) ?c a = 0" using none pte_same_page [of ?va a "tables t" ?c] True by simp
      then have "view (mem t) ?c a = None" by (simp add: view_def)
      moreover have "view (mem t') ?c a = None" using update_tree(1) [OF U d(3), of a] v(2) True by (simp add: view_def)
      ultimately show ?thesis using d(9) [OF r', of a] True by simp
    next
      case False
      then show ?thesis using update_view [OF U _ r', of a] zero_not_live d(9) [OF r', of a] by auto
    qed
    moreover have "kernel_kept R t t'" by (rule update_kernel [OF U]) (use v(2) in \<open>simp_all add: kernel_page_def zero_not_live\<close>)
    ultimately show ?thesis
      unfolding joining_def
      using d update_world [OF U] A kernel_kept_trans [OF d(7)] update_tree(1) [OF U d(2)] pc other_links [OF d(1,3,2) _ page_update_dest(3) [OF U]] by simp
  qed
  have "wp (map_leaf alloc_frame pc ?va (ppn_to_addr (tables t ea)) (pte_flags (tables t ea)) False) (\<lambda>_. joining R r ?c k s (Suc n)) (\<lambda>_ _. False) t"
    by (rule wp_mono [OF shared_map_wp [OF d(1,3) f(1,3,4) has _ v(1) none]]) (use fin v(2) in auto)
  moreover have "wp (ret ()) Q E = Q ()" for Q :: "unit \<Rightarrow> 'a frames_scheme \<Rightarrow> bool" and E by (simp add: fun_eq_iff wp_ret)
  ultimately show ?thesis using kl by (simp add: share_kernel_leaf_def kernel_leaf_def wp_simps map_page_def)
qed

interpretation joins: page_visitor pt "sub (tables s) (root pt)" "l1 (tables s) (root pt)" "joining R (root pt) (root pc) k s" "share_kernel_leaf pc" "\<lambda>_ _. False"
  for pt pc :: PageTable and s :: "'a frames_scheme" and R k
proof (unfold_locales)
  fix n i j and t :: "'a frames_scheme" assume J: "joining R (root pt) (root pc) k s n t"
  note d = joining_dest [OF J]
  show "links (tables t) (root pt)" by (rule world_dest(7) [OF d(1,2)])
  show "i < 512 \<Longrightarrow> sub (tables t) (root pt) i = sub (tables s) (root pt) i"
    "i < 512 \<Longrightarrow> j < 512 \<Longrightarrow> l1 (tables t) (root pt) i j = l1 (tables s) (root pt) i j" using d(12,13) by blast+
  assume n: "n < 2 ^ 19"
  show "joining R (root pt) (root pc) k s (Suc n) t" if "\<not> is_leaf (pte_of (tables t) (root pt) (nth_page n))"
    using that by (intro joining_skip [OF J n]) (simp add: kernel_leaf_def)
  fix ea assume lk: "lookup_addr (tables t) (root pt) (nth_page n) = Some ea" and lf: "is_leaf (tables t ea)"
  have e: "pte_of (tables t) (root pt) (nth_page n) = tables t ea" using lookup_entry(4) [OF world_space [OF d(1,2)] lk] .
  show "wp (share_kernel_leaf pc (nth_page n) ea) (\<lambda>_. joining R (root pt) (root pc) k s (Suc n)) (\<lambda>_ _. False) t"
  proof (cases "is_u (tables t ea)")
    case True
    then show ?thesis using joining_skip [OF J n] e by (simp add: share_kernel_leaf_def kernel_leaf_def wp_simps)
  qed (use share_kernel_leaf_wp [OF J n lk] lf in \<open>simp add: kernel_leaf_def\<close>)
qed

section \<open>The root and the kernel stack of the child\<close>

text \<open>The part of RAM that the bump pointer has not reached.\<close>

definition free_ram :: "nat \<Rightarrow> 'a frames_scheme \<Rightarrow> bool" where
  "free_ram n s \<longleftrightarrow> frames_ok s \<and> unat (NEXT_FRAME s) + 4096 * n \<le> 0x88000000"

lemma free_ram_has: "free_ram n s \<Longrightarrow> frames_has n s"
  by (auto simp: free_ram_def frames_ok_def frames_has_def)

lemma alloc_zeroed_wp:
  fixes s :: "'a frames_scheme"
  assumes "free_ram (Suc n) s"
  shows "wp alloc_frame (\<lambda>f s1. \<exists>c. f = Some c \<and> \<not> live s c \<and> (\<forall>s2. s2 = s1\<lparr>mem := write_bytes (mem s1) c 0 4096\<rparr> \<longrightarrow>
    fresh_frames s s2 \<and> live s2 c \<and> free_ram n s2 \<and> above_frames s2 = above_frames s \<and> (\<forall>x. page_of x = c \<longrightarrow> mem s2 x = 0) \<and>
    (\<forall>q. live s2 q \<longrightarrow> \<not> live s q \<longrightarrow> frame_ref s2 q = 1))) (\<lambda>_ _. False) s"
proof -
  obtain fl where inv: "frames_inv fl s" and ram: "unat (NEXT_FRAME s) + 4096 * Suc n \<le> 0x88000000" using assms by (auto simp: free_ram_def frames_ok_def)
  obtain f s1 where res: "alloc_result fl s = (f, s1)" by force
  note sp = alloc_result_spec [OF inv res]
  have lt: "NEXT_FRAME s < RAM_BASE + RAM_SIZE" using ram by (simp add: word_less_nat_alt RAM_END)
  then obtain c where f: "f = Some c" using sp(3) by (cases f) auto
  note c = sp(4) [OF f]
  have nf: "unat (NEXT_FRAME s1) \<le> unat (NEXT_FRAME s) + 4096"
    using res lt unat_add_no_overflow [of "NEXT_FRAME s" 4096] by (auto simp: alloc_result_def split: list.splits if_splits) (simp add: unat_word_ariths)
  have ref: "frame_ref s1 q = frame_ref s q" if "live s q" for q using sp(5) [OF f live_frame_ok [OF that]] c that by auto
  have c1: "live s1 c" "page_aligned c" using c by (auto simp: live_def frame_ok_def)
  let ?s = "s1\<lparr>mem := write_bytes (mem s1) c 0 4096\<rparr>"
  have m: "mem ?s x = (if page_of x = c then 0 else mem s x)" for x using c1(2) sp(2) by (simp add: write_bytes_page)
  have "frames_inv (tl fl) ?s" by (rule frames_inv_mem [OF sp(1)]) (use c1 in \<open>auto simp: write_bytes_page\<close>)
  then have ok: "frames_ok ?s" by (auto simp: frames_ok_def)
  moreover have "live ?s q \<and> frame_ref ?s q = frame_ref s q" if "live s q" for q using ref [OF that] that by (simp add: live_def)
  ultimately have "fresh_frames s ?s" using m c by (auto simp: fresh_frames_def)
  moreover have "live ?s c" using c1 by (simp add: live_def)
  moreover have "free_ram n ?s" using ok nf ram by (simp add: free_ram_def)
  moreover have "above_frames ?s = above_frames s" using res above_frames_results(2) [of fl s] by simp
  moreover have "frame_ref ?s q = 1" if "live ?s q" "\<not> live s q" for q
    using that c sp(5) [OF f, of q] by (cases "q = c") (auto simp: live_def)
  ultimately show ?thesis using c m by (simp add: wp_alloc_frame [OF inv] res f)
qed

lemma copy_kernel_half_wp:
  assumes al: "page_aligned r" "page_aligned c" "r \<noteq> c" and z: "\<And>x. page_of x = c \<Longrightarrow> mem s x = 0"
  shows "wp (copy_kernel_half r c) (\<lambda>_ s'. \<exists>m. s' = s\<lparr>mem := m\<rparr> \<and> (\<forall>x. page_of x \<noteq> c \<longrightarrow> m x = mem s x) \<and>
      (\<forall>i < 512. read_u64 m (entry_at c i) = (if i < 2 then 0 else tables s (entry_at r i)))) (\<lambda>_ _. False) s"
proof -
  have e: "dword_aligned (entry_at t i)" "page_of (entry_at t i) = t" if "page_aligned t" "i < 512" for t i
    using that by (simp_all add: unat_entry_at)
  have z0: "tables s (entry_at c i) = 0" if "i < 512" for i
    using e [OF al(2) that] z by (intro bit_word_eqI) (simp add: bit_read_u64 dword_page)
  define J where "J = (\<lambda>k m. (\<forall>x. page_of x \<noteq> c \<longrightarrow> m x = mem s x) \<and>
      (\<forall>i < 512. read_u64 m (entry_at c i) = (if i < 2 \<or> of_nat k \<le> i then 0 else tables s (entry_at r i))))"
  let ?I = "\<lambda>k t. \<exists>m. t = s\<lparr>mem := m\<rparr> \<and> J k m"
  have run: "wp (copy_kernel_half r c) (\<lambda>_. ?I 512) (\<lambda>_ _. False) s"
    unfolding copy_kernel_half_def
  proof (rule wp_for_upt [where I = ?I])
    show "?I KERNEL_VPN2_MIN s" using z0 by (intro exI [of _ "mem s"]) (auto simp: KERNEL_VPN2_MIN_def J_def)
    fix k t assume k: "KERNEL_VPN2_MIN \<le> k" "k < 512" and "?I k t"
    then obtain m where t: "t = s\<lparr>mem := m\<rparr>" and out: "\<And>x. page_of x \<noteq> c \<Longrightarrow> m x = mem s x"
      and en: "\<And>i. i < 512 \<Longrightarrow> read_u64 m (entry_at c i) = (if i < 2 \<or> of_nat k \<le> i then 0 else tables s (entry_at r i))" unfolding J_def by blast
    let ?k = "of_nat k :: usize"
    have uk: "unat ?k = k" "?k < 512" "\<not> ?k < 2" using k by (simp_all add: KERNEL_VPN2_MIN_def word_less_nat_alt unat_of_nat take_bit_nat_eq_self)
    have rd: "read_u64 m (entry_at r ?k) = tables s (entry_at r ?k)"
      by (rule read_u64_page [OF e(1) [OF al(1) uk(2)]]) (use e(2) [OF al(1) uk(2)] al(3) out in simp)
    have "unat (of_nat (Suc k) :: usize) = Suc k" using k by (simp add: unat_of_nat take_bit_nat_eq_self del: of_nat_Suc)
    then have sk: "of_nat (Suc k) \<le> i \<longleftrightarrow> ?k \<le> i \<and> i \<noteq> ?k" for i :: usize
      by (simp add: word_le_nat_alt word_unat_eq_iff uk(1) del: of_nat_Suc) arith
    let ?m = "if read_u64 m (entry_at r ?k) \<noteq> 0 then write_u64 m (entry_at c ?k) (read_u64 m (entry_at r ?k)) else m"
    have "read_u64 ?m (entry_at c i) = (if i < 2 \<or> of_nat (Suc k) \<le> i then 0 else tables s (entry_at r i))" if i: "i < 512" for i
    proof -
      have "read_u64 (write_u64 m (entry_at c ?k) v) (entry_at c i) = (if i = ?k then v else read_u64 m (entry_at c i))" for v
        using ram.rd_wr [OF e(1) [OF al(2) uk(2)] e(1) [OF al(2) i], of m v] entry_at_inj [OF al(2,2) uk(2) i] by auto
      then show ?thesis using en [OF i] rd uk(3) unfolding sk by auto
    qed
    moreover have "?m x = mem s x" if "page_of x \<noteq> c" for x
      using out [OF that] that e [OF al(2) uk(2)] by (simp add: write_u64_outside)
    ultimately have "J (Suc k) ?m" unfolding J_def by blast
    then show "wp (kbind (load64 (entry_at r ?k)) (\<lambda>pte. if pte \<noteq> 0 then store64 (entry_at c ?k) pte else ret ())) (\<lambda>_. ?I (Suc k)) (\<lambda>_ _. False) t"
      by (cases "read_u64 m (entry_at r ?k) = 0") (auto simp: wp_simps t)
  qed (simp add: KERNEL_VPN2_MIN_def)
  have fin: "J 512 m \<Longrightarrow> (\<forall>x. page_of x \<noteq> c \<longrightarrow> m x = mem s x) \<and>
      (\<forall>i < 512. read_u64 m (entry_at c i) = (if i < 2 then 0 else tables s (entry_at r i)))" for m
    unfolding J_def by (auto simp: not_le)
  show ?thesis by (rule wp_mono [OF run]) (use fin in blast)+
qed

lemma fork_root_wp:
  fixes s :: "'a kernel_state_scheme"
  assumes W: "world_ok s R" and r: "cur_root s \<in> R" and ok: "sched_ok s" and ram: "free_ram (Suc n) s"
    and rest: "\<And>c t. \<not> live s c \<Longrightarrow> world_ok t (insert c R) \<Longrightarrow> above_frames t = above_frames s \<Longrightarrow> free_ram n t \<Longrightarrow>
      (\<And>r a. r \<in> R \<Longrightarrow> view (mem t) r a = view (mem s) r a \<and> pte_of (tables t) r a = pte_of (tables s) r a) \<Longrightarrow>
      (\<And>a. pte_of (tables t) c a = (if vpn a 2 < 2 then 0 else pte_of (tables s) (cur_root s) a)) \<Longrightarrow>
      (\<And>p. live t p \<Longrightarrow> frame_ref t p = (if live s p then frame_ref s p else 1)) \<Longrightarrow>
      (\<And>k. kernel_page s R k \<Longrightarrow> kernel_page t (insert c R) k) \<Longrightarrow> wp (k c) Q E t"
  shows "wp (kbind alloc_frame (\<lambda>f. kbind (expect msg f) (\<lambda>root_frame. kseq (fill_bytes root_frame 0 4096)
      (kbind current (\<lambda>cur. kseq (copy_kernel_half (root_addr (page_table cur)) root_frame) (k root_frame)))))) Q E s"
proof -
  let ?r = "cur_root s"
  have tail: "wp (kseq (fill_bytes c 0 4096) (kbind current (\<lambda>cur. kseq (copy_kernel_half (root_addr (page_table cur)) c) (k c)))) Q E s1"
    if c: "\<not> live s c" and s2: "\<And>s2. s2 = s1\<lparr>mem := write_bytes (mem s1) c 0 4096\<rparr> \<Longrightarrow>
      fresh_frames s s2 \<and> live s2 c \<and> free_ram n s2 \<and> above_frames s2 = above_frames s \<and> (\<forall>x. page_of x = c \<longrightarrow> mem s2 x = 0) \<and>
      (\<forall>q. live s2 q \<longrightarrow> \<not> live s q \<longrightarrow> frame_ref s2 q = 1)" for c s1
  proof -
    define t where "t = s1\<lparr>mem := write_bytes (mem s1) c 0 4096\<rparr>"
    have t: "fresh_frames s t" "live t c" "free_ram n t" "above_frames t = above_frames s" "\<And>x. page_of x = c \<Longrightarrow> mem t x = 0"
      "\<And>q. live t q \<Longrightarrow> \<not> live s q \<Longrightarrow> frame_ref t q = 1" using s2 [OF t_def] by blast+
    note fw = fresh_world [OF W t(1)] and ft = fresh_tree [OF W t(1)]
    have kc: "kernel_page t R c" by (rule fw(4) [OF t(2) c])
    have sok: "sched_ok t" "cur_proc t = cur_proc s" using ok above_frames_sched [OF t(4)] by simp_all
    have lr: "live s ?r" by (rule pt_wf_dest(1) [OF world_dest(3) [OF W r]])
    have ne: "?r \<noteq> c" using lr c by auto
    have "wp (copy_kernel_half ?r c) (\<lambda>_. wp (k c) Q E) E t"
    proof (rule wp_mono [OF copy_kernel_half_wp [OF live_aligned [OF lr] live_aligned [OF t(2)] ne t(5)]])
      fix x t' assume "\<exists>m. t' = t\<lparr>mem := m\<rparr> \<and> (\<forall>x. page_of x \<noteq> c \<longrightarrow> m x = mem t x) \<and>
        (\<forall>i < 512. read_u64 m (entry_at c i) = (if i < 2 then 0 else tables t (entry_at ?r i)))"
      then obtain m where t': "t' = t\<lparr>mem := m\<rparr>" and out: "\<And>x. page_of x \<noteq> c \<Longrightarrow> m x = mem t x"
        and en: "\<And>i. i < 512 \<Longrightarrow> read_u64 m (entry_at c i) = (if i < 2 then 0 else tables t (entry_at ?r i))" by blast
      note kw = kernel_write [OF fw(1) kc out, folded t']
      have "kernel_page t' R c" using kw(2) kc by simp
      have "tables t' (entry_at c i) = (if i < 2 then 0 else tables t' (entry_at ?r i))" if i: "i < 512" for i
      proof -
        have "tables t' (entry_at ?r i) = tables t (entry_at ?r i)"
          by (rule read_u64_page) (use live_aligned [OF lr] i ne out in \<open>simp_all add: unat_entry_at t'\<close>)
        then show ?thesis using en [OF i] by (simp add: t')
      qed
      note wi = world_insert [OF kw(1) r \<open>kernel_page t' R c\<close> this]
      have pte: "pte_of (tables t') r' a = pte_of (tables s) r' a" if "r' \<in> R" for r' a
        using page_write_world(2) [OF fw(1) t(2) _ out that] kc ft(3) [OF that] by (simp add: t' kernel_page_def)
      show "wp (k c) Q E t'"
      proof (rule rest [OF c wi(1)])
        show "above_frames t' = above_frames s" using t(4) by (simp add: t')
        show "free_ram n t'" using t(3) world_dest(1) [OF kw(1)] by (simp add: free_ram_def t')
        fix r' a assume "r' \<in> R"
        then show "view (mem t') r' a = view (mem s) r' a \<and> pte_of (tables t') r' a = pte_of (tables s) r' a"
          using kw(3) fw(2) pte by (simp add: t')
      next
        fix a show "pte_of (tables t') c a = (if vpn a 2 < 2 then 0 else pte_of (tables s) ?r a)" using wi(2) pte [OF r] by simp
      next
        fix p assume "live t' p"
        then have "live t p" by (simp add: t' live_def)
        then show "frame_ref t' p = (if live s p then frame_ref s p else 1)" using t(1,6) by (simp add: t' fresh_frames_def)
      next
        fix q assume q: "kernel_page s R q"
        then have "kernel_page t R q" using fw(3) by (simp add: kernel_kept_def)
        moreover have "q \<noteq> c" using q c by (auto simp: kernel_page_def)
        ultimately show "kernel_page t' (insert c R) q" using wi(5) kw(2) by simp
      qed
    qed simp_all
    then show ?thesis
      by (simp add: wp_kseq [of "fill_bytes _ _ _"] wp_fill_bytes t_def [symmetric] wp_kbind [of current] wp_current [OF sok(1)] sok(2)
          root_addr_def wp_kseq [of "copy_kernel_half _ _"])
  qed
  have "wp alloc_frame (\<lambda>f. wp (kbind (expect msg f) (\<lambda>root_frame. kseq (fill_bytes root_frame 0 4096)
      (kbind current (\<lambda>cur. kseq (copy_kernel_half (root_addr (page_table cur)) root_frame) (k root_frame))))) Q E) E s"
  proof (rule wp_mono [OF alloc_zeroed_wp [OF ram]])
    fix f and s1 :: "'a kernel_state_scheme"
    assume "\<exists>c. f = Some c \<and> \<not> live s c \<and> (\<forall>s2. s2 = s1\<lparr>mem := write_bytes (mem s1) c 0 4096\<rparr> \<longrightarrow>
      fresh_frames s s2 \<and> live s2 c \<and> free_ram n s2 \<and> above_frames s2 = above_frames s \<and> (\<forall>x. page_of x = c \<longrightarrow> mem s2 x = 0) \<and>
      (\<forall>q. live s2 q \<longrightarrow> \<not> live s q \<longrightarrow> frame_ref s2 q = 1))"
    then show "wp (kbind (expect msg f) (\<lambda>root_frame. kseq (fill_bytes root_frame 0 4096)
      (kbind current (\<lambda>cur. kseq (copy_kernel_half (root_addr (page_table cur)) root_frame) (k root_frame))))) Q E s1"
      using tail by (auto simp: wp_kbind [of "expect _ _"] wp_expect)
  qed blast
  then show ?thesis by (simp add: wp_kbind [of alloc_frame])
qed

lemma fork_stack_wp:
  fixes s :: "'a frames_scheme"
  assumes W: "world_ok s R" and ram: "free_ram (n + 8) s"
    and rest: "\<And>p t. fresh_frames s t \<Longrightarrow> above_frames t = above_frames s \<Longrightarrow> free_ram n t \<Longrightarrow> p = NEXT_FRAME s \<Longrightarrow>
      kernel_page t R (p + 7 * 4096) \<Longrightarrow> (\<And>q. live t q \<Longrightarrow> \<not> live s q \<Longrightarrow> frame_ref t q = 1) \<Longrightarrow> \<not> add_overflows p KERNEL_STACK_SIZE \<Longrightarrow> wp (k p) Q E t"
  shows "wp (kbind (alloc_contiguous_frames KERNEL_STACK_PAGES) (\<lambda>st. kbind (expect msg st) (\<lambda>kernel_stack.
      kseq (fill_bytes kernel_stack 0 KERNEL_STACK_SIZE) (k kernel_stack)))) Q E s"
proof -
  obtain fl where inv: "frames_inv fl s" and rm: "unat (NEXT_FRAME s) + 4096 * (n + 8) \<le> 0x88000000" using ram by (auto simp: free_ram_def frames_ok_def)
  let ?p = "NEXT_FRAME s"
  have pages: "0 < unat KERNEL_STACK_PAGES" "unat KERNEL_STACK_PAGES \<le> 0x8000" "unat KERNEL_STACK_PAGES = 8" by (simp_all add: KERNEL_STACK_PAGES_def)
  have fits: "unat ?p + 8 * 4096 \<le> 0x88000000" using rm by simp
  note cf = contiguous_frame [OF inv fits]
  have sz: "KERNEL_STACK_SIZE = 32768" by (simp add: KERNEL_STACK_SIZE_def KERNEL_STACK_PAGES_def)
  have tail: "wp (k ?p) Q E (t\<lparr>mem := write_bytes (mem t) ?p 0 KERNEL_STACK_SIZE\<rparr>)"
    if t: "frames_inv fl t" "mem t = mem s" "unat (NEXT_FRAME t) = unat ?p + 8 * 4096"
      "\<forall>q. frame_ok q \<longrightarrow> frame_ref t q = contiguous_ref ?p {..<8} s q" and ab: "above_frames t = above_frames s" for t
  proof -
    let ?t = "t\<lparr>mem := write_bytes (mem t) ?p 0 KERNEL_STACK_SIZE\<rparr>"
    have lo: "\<not> live s (?p + of_nat i * 4096)" if "i < 8" for i
    proof -
      have "unat ?p \<le> unat (?p + of_nat i * 4096)" using cf(1) [OF that] by simp
      then show ?thesis using live_below_next [OF inv] by (metis word_le_nat_alt not_le)
    qed
    have ref: "frame_ref t q = frame_ref s q" if "live s q" for q
      using t(4) live_frame_ok [OF that] lo that by (auto simp: contiguous_ref_def)
    have new: "live t (?p + of_nat i * 4096)" if "i < 8" for i
      using t(4) cf(2) [OF that] that by (auto simp: live_def contiguous_ref_def)
    have one: "frame_ref t q = 1" if "live t q" "\<not> live s q" for q
      using t(4) that by (auto simp: live_def contiguous_ref_def split: if_splits)
    have inside: "\<exists>i < 8. page_of x = ?p + of_nat i * 4096" if d: "x - ?p < 32768" for x
    proof -
      define i where "i = unat (x - ?p) div 4096"
      have i: "i < 8" using d by (simp add: i_def word_less_nat_alt less_mult_imp_div_less)
      then have "unat (of_nat i * 4096 :: usize) = i * 4096" by (simp add: unat_word_ariths unat_of_nat take_bit_nat_eq_self)
      moreover have "i * 4096 \<le> unat (x - ?p)" by (simp add: i_def)
      ultimately have "unat (x - ?p - of_nat i * 4096) = unat (x - ?p) mod 4096"
        by (simp add: unat_sub word_le_nat_alt i_def minus_div_mult_eq_mod)
      then have "unat (x - ?p - of_nat i * 4096) < 4096" by simp
      moreover have "page_aligned (?p + of_nat i * 4096)" using cf(2) [OF i] by (simp add: frame_ok_def)
      ultimately have "page_of (?p + of_nat i * 4096 + (x - ?p - of_nat i * 4096)) = ?p + of_nat i * 4096" by (intro page_of_plus_offset(1))
      then show ?thesis using i by (intro exI [of _ i]) simp
    qed
    have "write_bytes (mem t) ?p 0 KERNEL_STACK_SIZE x = mem t x" if "\<not> live t (page_of x)" for x
      using that inside [of x] new unfolding write_bytes_def sz by auto
    then have ok: "frames_ok ?t" using frames_inv_mem [OF t(1)] by (auto simp: frames_ok_def)
    have ref': "frame_ref ?t q = frame_ref t q" "live ?t q = live t q" for q by (simp_all add: live_def)
    have "mem ?t x = mem s x" if "live s (page_of x)" for x
      using that inside [of x] lo t(2) by (auto simp: write_bytes_def sz)
    moreover have "live t q" if "live s q" for q using ref [OF that] that by (simp add: live_def)
    ultimately have F: "fresh_frames s ?t" using ok ref by (simp add: fresh_frames_def ref')
    have "kernel_page ?t R (?p + 7 * 4096)"
      using fresh_world(4) [OF W F, of "?p + 7 * 4096"] new [of 7] lo [of 7] by (simp add: ref')
    moreover have "free_ram n ?t" using ok t(3) rm by (simp add: free_ram_def)
    moreover have "\<not> add_overflows ?p KERNEL_STACK_SIZE" using fits by (simp add: add_overflows_def sz)
    ultimately show ?thesis using F ab one by (intro rest) (simp_all add: ref')
  qed
  have ab: "wp (alloc_contiguous_frames KERNEL_STACK_PAGES) (\<lambda>r t. above_frames t = above_frames s) (\<lambda>_ _. True) s"
    by (rule wp_mono [OF alloc_contiguous_next]) (simp_all add: above_next_def)
  have "wp (alloc_contiguous_frames KERNEL_STACK_PAGES) (\<lambda>st. wp (kbind (expect msg st) (\<lambda>kernel_stack.
      kseq (fill_bytes kernel_stack 0 KERNEL_STACK_SIZE) (k kernel_stack))) Q E) E s"
    by (rule wp_mono [OF wp_conj [OF wp_alloc_contiguous [OF inv pages(1,2)] ab]])
      (use fits tail in \<open>auto simp: pages(3) wp_kbind [of "expect _ _"] wp_expect wp_kseq [of "fill_bytes _ _ _"] wp_fill_bytes\<close>)
  then show ?thesis by (simp add: wp_kbind [of "alloc_contiguous_frames _"])
qed

section \<open>fork\<close>

lemma unat_ppn: "unat (ppn_to_addr e) < 2 ^ 60"
proof -
  have m: "(0xFFFFFFFFFFFF :: u64) = mask 48" by (simp add: mask_eq_exp_minus_1)
  have "take_bit 60 (ppn_to_addr e) = ppn_to_addr e"
    unfolding ppn_to_addr_def m by (rule bit_word_eqI) (auto simp: bit_simps)
  then have "unat (ppn_to_addr e) = take_bit 60 (unat (ppn_to_addr e))" by (metis unsigned_take_bit_eq)
  then show ?thesis by (metis take_bit_nat_less_exp)
qed

lemma pages_left_cong: "(\<And>a. P (pte_of rd' r a) = P (pte_of rd r a)) \<Longrightarrow> pages_left P rd' r n = pages_left P rd r n"
  by (simp add: pages_left_def)

lemma pages_left_end: "pages_left P rd r (2 ^ 19) = 0"
proof -
  have "{x. 2 ^ 19 \<le> x \<and> x < (2 :: nat) ^ 19 \<and> P (pte_of rd r (nth_page x))} = {}" using not_le by blast
  then show ?thesis unfolding pages_left_def by (simp only: card.empty)
qed

lemma pages_left_split:
  assumes "world_ok s R" and "r \<in> R"
  shows "pages_left is_leaf (tables s) r n = pages_left is_u (tables s) r n + pages_left kernel_leaf (tables s) r n"
proof -
  let ?A = "\<lambda>P. {x. n \<le> x \<and> x < 2 ^ 19 \<and> P (pte_of (tables s) r (nth_page x))}"
  have "is_leaf e \<longleftrightarrow> is_u e \<or> kernel_leaf e" if "e = pte_of (tables s) r a" for a e
    using world_leaf(1,6) [OF assms, of a] that by (auto simp: kernel_leaf_def is_leaf_def)
  then have "?A is_leaf = ?A is_u \<union> ?A kernel_leaf" by blast
  moreover have "?A is_u \<inter> ?A kernel_leaf = {}" by (auto simp: kernel_leaf_def)
  moreover have "finite (?A P)" for P by (rule finite_subset [of _ "{..<2 ^ 19}"]) auto
  ultimately show ?thesis unfolding pages_left_def by (simp add: card_Un_disjoint)
qed

text \<open>The two passes over the leaf entries of the parent.\<close>

lemma fork_share_wp:
  fixes s :: "'a kernel_state_scheme"
  assumes W: "world_ok s R" and ok: "sched_ok s" and r: "cur_root s \<in> R" and c: "root pc \<in> R" "cur_root s \<noteq> root pc" and room: "count_room s"
    and has: "frames_has (2 * pages_left is_leaf (tables s) (cur_root s) 0) s"
    and child: "\<And>a. pte_of (tables s) (root pc) a = (if vpn a 2 < 2 then 0 else pte_of (tables s) (cur_root s) a)"
    and rest: "\<And>t. world_ok t R \<Longrightarrow> above_frames t = above_frames s \<Longrightarrow> kernel_kept R s t \<Longrightarrow>
      (\<And>r' a. r' \<in> R \<Longrightarrow> view (mem t) r' a = view (mem s) (if r' = root pc then cur_root s else r') a) \<Longrightarrow>
      (\<And>a. kernel_leaf (pte_of (tables s) (cur_root s) a) \<Longrightarrow> ppn_to_addr (pte_of (tables t) (root pc) a) = ppn_to_addr (pte_of (tables s) (cur_root s) a) \<and>
         pte_flags (pte_of (tables t) (root pc) a) = pte_flags (pte_of (tables s) (cur_root s) a)) \<Longrightarrow> wp k Q E t"
  shows "wp (kbind current (\<lambda>cur. kseq (for_each_leaf (page_table cur) 0 KERNEL_VPN2_MIN (share_user_leaf pc))
    (kbind current (\<lambda>cur. kseq (for_each_leaf (page_table cur) 0 KERNEL_VPN2_MIN (share_kernel_leaf pc)) k)))) Q E s"
proof -
  let ?pt = "page_table (cur_proc s)" and ?c = "root pc"
  let ?r = "root ?pt" and ?K = "2 * pages_left kernel_leaf (tables s) (root ?pt) 0"
  have h: "frames_has (?K + 2 * pages_left is_u (tables s) ?r 0) s" using has by (simp add: pages_left_split [OF W r] add.commute)
  have start: "sharing R ?r ?c ?K s 0 s" using child by (intro sharing_start [OF W r c room _ h]) simp
  have second: "wp (for_each_leaf ?pt 0 KERNEL_VPN2_MIN (share_kernel_leaf pc)) (\<lambda>_. wp k Q E) E t"
    if S: "sharing R ?r ?c ?K s (2 ^ 19) t" for t
  proof -
    note d = sharing_dest [OF S]
    have pt: "pte_of (tables t) ?r a = pte_of (tables s) ?r a" "pte_of (tables t) ?c a = pte_of (tables s) ?c a" if "\<not> is_u (pte_of (tables s) ?r a)" for a
      using d(12) [of a] that by auto
    have kl: "kernel_leaf (pte_of (tables t) ?r a) = kernel_leaf (pte_of (tables s) ?r a)" for a
      using pt(1) [of a] d(13) [of a] by (cases "is_u (pte_of (tables s) ?r a)") (simp_all add: kernel_leaf_def)
    have "frames_has (0 + 2 * pages_left kernel_leaf (tables t) ?r 0) t"
      using d(9) unfolding pages_left_end pages_left_cong [of kernel_leaf, OF kl] by simp
    then have J: "joining R ?r ?c 0 t 0 t"
      using d(1-4) pt d(13) child by (simp add: joining_def kernel_kept_refl in_pages_def nth_page_def)
    show ?thesis
    proof (rule wp_mono [OF joins.visit_pages [OF J]])
      fix x u assume "joining R ?r ?c 0 t (2 ^ 19) u"
      note j = joining_dest [OF this]
      show "wp k Q E u"
      proof (rule rest [OF j(1)])
        show "above_frames u = above_frames s" using j(6) d(7) by simp
        show "kernel_kept R s u" by (rule kernel_kept_trans [OF d(8) j(7)])
        fix r' a assume r': "r' \<in> R"
        have "view (mem s) ?r a = None" if "a \<notin> in_pages 0 (nth_page (2 ^ 19))" using that all_user_pages [OF W r, of a] by (auto simp: view_def Let_def)
        then show "view (mem u) r' a = view (mem s) (if r' = ?c then ?r else r') a"
          using j(9) [OF r', of a] d(10) [OF r', of a] d(11) [of a] by auto
      next
        fix a assume k: "kernel_leaf (pte_of (tables s) ?r a)"
        let ?e = "pte_of (tables s) ?r a"
        have nu: "\<not> is_u ?e" using k by (simp add: kernel_leaf_def)
        note b = unat_ppn [of ?e]
        have "pte_flags (new_leaf (ppn_to_addr ?e) (pte_flags ?e)) = pte_flags ?e"
          by (intro bit_word_eqI) (auto simp: bit_pte_flags bit_new_leaf)
        moreover have "ppn_to_addr (new_leaf (ppn_to_addr ?e) (pte_flags ?e)) = ppn_to_addr ?e" by (rule ppn_new_leaf [OF _ b]) simp
        moreover have "pte_of (tables u) ?c a = new_leaf (ppn_to_addr ?e) (pte_flags ?e) \<or> pte_of (tables u) ?c a = ?e"
          using j(11) [of a] pt [OF nu] k child [of a] half_pages [of a] by (cases "vpn a 2 < 2") auto
        ultimately show "ppn_to_addr (pte_of (tables u) ?c a) = ppn_to_addr ?e \<and> pte_flags (pte_of (tables u) ?c a) = pte_flags ?e" by auto
      qed
    qed simp
  qed
  have "wp (for_each_leaf ?pt 0 KERNEL_VPN2_MIN (share_user_leaf pc)) (\<lambda>_. wp (kbind current (\<lambda>cur.
      kseq (for_each_leaf (page_table cur) 0 KERNEL_VPN2_MIN (share_kernel_leaf pc)) k)) Q E) E s"
  proof (rule wp_mono [OF shares.visit_pages [OF start]])
    fix x and t :: "'a kernel_state_scheme" assume S: "sharing R ?r ?c ?K s (2 ^ 19) t"
    have "sched_ok t" "cur_proc t = cur_proc s" using above_frames_sched [OF sharing_dest(7) [OF S]] ok by simp_all
    then show "wp (kbind current (\<lambda>cur. kseq (for_each_leaf (page_table cur) 0 KERNEL_VPN2_MIN (share_kernel_leaf pc)) k)) Q E t"
      using second [OF S] by (simp add: wp_kbind [of current] wp_current wp_kseq [of "for_each_leaf _ _ _ _"])
  qed simp
  then show ?thesis by (simp add: wp_kbind [of current] wp_current [OF ok] wp_kseq [of "for_each_leaf _ _ _ _"])
qed

text \<open>What \<open>fork\<close> promises: a child in slot \<open>i\<close> that differs from its parent in its identity and in
  the trap frame, and whose memory is that of the parent.\<close>

definition forked :: "PhysAddr set \<Rightarrow> nat \<Rightarrow> 'a kernel_state_scheme \<Rightarrow> Process \<Rightarrow> 'a kernel_state_scheme \<Rightarrow> bool" where
  "forked R i s child s' \<longleftrightarrow> (let cur = cur_proc s; c = root (page_table child) in
     PROCESS_LIST s' = (PROCESS_LIST s)[i := Some child] \<and> CURRENT s' = CURRENT s \<and>
     pid child = NEXT_PID s \<and> parent_pid child = pid cur \<and> proc_state child = Ready \<and>
     trap_frame child = (set_a0 0 (trap_frame cur))\<lparr>sepc := sepc (trap_frame cur) + 4, scause := 8\<rparr> \<and>
     heap_start child = heap_start cur \<and> heap_end child = heap_end cur \<and> mmap_areas child = mmap_areas cur \<and>
     \<not> live s c \<and> world_ok s' (insert c R) \<and> stacks_apart s' (insert c R) \<and>
     (\<forall>r\<in>R. \<forall>a. view (mem s') r a = view (mem s) r a) \<and> (\<forall>a. view (mem s') c a = view (mem s) (cur_root s) a) \<and>
     (\<forall>a. kernel_leaf (pte_of (tables s) (cur_root s) a) \<longrightarrow> ppn_to_addr (pte_of (tables s') c a) = ppn_to_addr (pte_of (tables s) (cur_root s) a) \<and>
        pte_flags (pte_of (tables s') c a) = pte_flags (pte_of (tables s) (cur_root s) a)))"

lemma stacks_apart_insert:
  assumes "stacks_apart s R" and kp: "\<And>k. kernel_page s R k \<Longrightarrow> kernel_page t R' k" and "kernel_page t R' (stack_page child)"
    and "PROCESS_LIST s' = (PROCESS_LIST s)[i := Some child]" and "frames_eq t s'"
  shows "stacks_apart s' R'"
  unfolding stacks_apart_def world_eq(5) [OF assms(5)]
proof (intro allI impI)
  fix p assume p: "Some p \<in> set (PROCESS_LIST s') \<and> proc_state p \<noteq> Gone"
  then have "p = child \<or> Some p \<in> set (PROCESS_LIST s)" using assms(4) set_update_subset_insert [of "PROCESS_LIST s" i "Some child"] by auto
  then show "kernel_page t R' (stack_page p)" using assms(1,3) kp p by (auto simp: stacks_apart_def)
qed

text \<open>The stages of \<open>fork\<close>: the descriptor of the child, the copy of the address space, and the whole.\<close>

definition fork_child :: "usize \<Rightarrow> PhysAddr \<Rightarrow> usize \<Rightarrow> TrapFrame \<Rightarrow> Process \<Rightarrow> Process" where
  "fork_child new_pid c p tf cur = \<lparr>pid = new_pid, parent_pid = pid cur, proc_state = Ready, page_table = \<lparr>root = c\<rparr>,
     trap_frame = tf, kernel_sp = p + KERNEL_STACK_SIZE, kernel_stack_frame = p,
     heap_start = heap_start cur, heap_end = heap_end cur, mmap_areas = mmap_areas cur\<rparr>"

definition fork_install :: "usize \<Rightarrow> usize \<Rightarrow> PhysAddr \<Rightarrow> usize \<Rightarrow> TrapFrame \<Rightarrow> ('a kernel_state_scheme, usize) kernel" where
  "fork_install idx new_pid c p tf = kbind current (\<lambda>cur.
     kseq (modify (\<lambda>s. s\<lparr>PROCESS_LIST := (PROCESS_LIST s)[unat idx := Some (fork_child new_pid c p tf cur)]\<rparr>)) (ret new_pid))"

definition fork_copy :: "usize \<Rightarrow> usize \<Rightarrow> PhysAddr \<Rightarrow> usize \<Rightarrow> ('a kernel_state_scheme, usize) kernel" where
  "fork_copy idx new_pid c p = kbind (uadd p KERNEL_STACK_SIZE) (\<lambda>_. kbind current (\<lambda>cur. kbind (fork_frame (trap_frame cur)) (\<lambda>tf.
     kbind current (\<lambda>cur. kseq (for_each_leaf (page_table cur) 0 KERNEL_VPN2_MIN (share_user_leaf \<lparr>root = c\<rparr>))
     (kbind current (\<lambda>cur. kseq (for_each_leaf (page_table cur) 0 KERNEL_VPN2_MIN (share_kernel_leaf \<lparr>root = c\<rparr>))
     (fork_install idx new_pid c p tf)))))))"

lemma uadd_kbind: "kbind (uadd a b) f = kbind (uadd a b) (\<lambda>_. f (a + b))"
  by (simp add: fun_eq_iff kbind_def uadd_def ret_def halt_def)

lemma sys_fork_stages:
  "sys_fork = kbind find_empty_slot (\<lambda>r. case r of None \<Rightarrow> ret (linux_error EAGAIN) | Some idx \<Rightarrow> kbind alloc_pid (\<lambda>new_pid.
     kbind alloc_frame (\<lambda>f. kbind (expect ''fork: no frame for root page table'' f) (\<lambda>c. kseq (fill_bytes c 0 4096)
     (kbind current (\<lambda>cur. kseq (copy_kernel_half (root_addr (page_table cur)) c)
     (kbind (alloc_contiguous_frames KERNEL_STACK_PAGES) (\<lambda>st. kbind (expect ''fork: no frames for kernel stack'' st) (\<lambda>p.
     kseq (fill_bytes p 0 KERNEL_STACK_SIZE) (fork_copy idx new_pid c p))))))))))"
  unfolding sys_fork_def fork_copy_def fork_install_def fork_child_def Let_def by (subst uadd_kbind) (rule refl)

lemma fork_install_wp:
  fixes s :: "'a kernel_state_scheme"
  assumes ok: "sched_ok s" and ap: "stacks_apart s R" and i: "i < 32" and c: "\<not> live s c"
    and t: "world_ok t (insert c R)" "PROCESS_LIST t = PROCESS_LIST s" "CURRENT t = CURRENT s"
    and kp: "\<And>k. kernel_page s R k \<Longrightarrow> kernel_page t (insert c R) k" and st: "kernel_page t (insert c R) (p + 7 * 4096)"
    and v: "\<And>r' a. r' \<in> R \<Longrightarrow> view (mem t) r' a = view (mem s) r' a" "\<And>a. view (mem t) c a = view (mem s) (cur_root s) a"
    and kl: "\<And>a. kernel_leaf (pte_of (tables s) (cur_root s) a) \<Longrightarrow> ppn_to_addr (pte_of (tables t) c a) = ppn_to_addr (pte_of (tables s) (cur_root s) a) \<and>
        pte_flags (pte_of (tables t) c a) = pte_flags (pte_of (tables s) (cur_root s) a)"
    and tf: "tf = (set_a0 0 (trap_frame (cur_proc s)))\<lparr>sepc := sepc (trap_frame (cur_proc s)) + 4, scause := 8\<rparr>"
  shows "wp (fork_install (of_nat i) (NEXT_PID s) c p tf) (\<lambda>v s'. v = NEXT_PID s \<and> (\<exists>child. forked R i s child s')) (\<lambda>_ _. False) t"
proof -
  let ?child = "fork_child (NEXT_PID s) c p tf (cur_proc s)"
  let ?t = "t\<lparr>PROCESS_LIST := (PROCESS_LIST t)[i := Some ?child]\<rparr>"
  have fe: "frames_eq t ?t" by (simp add: frames_eq_def)
  have sp: "stack_page ?child = p + 7 * 4096" by (simp add: stack_page_def fork_child_def KERNEL_STACK_SIZE_def KERNEL_STACK_PAGES_def)
  have "stacks_apart ?t (insert c R)" by (rule stacks_apart_insert [OF ap kp _ _ fe, of ?child i]) (use st sp t(2) in simp_all)
  moreover have "world_ok ?t (insert c R)" using t(1) world_eq(4) [OF fe] by simp
  moreover have "root (page_table ?child) = c" by (simp add: fork_child_def)
  ultimately have "forked R i s ?child ?t"
    unfolding forked_def Let_def using v kl t(2,3) c by (simp add: fork_child_def tf)
  moreover have "sched_ok t" "cur_proc t = cur_proc s" using ok t(2,3) by (simp_all add: sched_ok_def cur_proc_def)
  moreover have "unat (of_nat i :: usize) = i" using i by (simp add: unat_of_nat take_bit_nat_eq_self)
  ultimately show ?thesis by (auto simp: fork_install_def wp_kbind [of current] wp_current wp_kseq wp_modify wp_ret)
qed

lemma sys_fork_wp:
  fixes s :: "'a kernel_state_scheme"
  assumes ok: "sched_ok s" and W: "world_ok s R" and r: "cur_root s \<in> R" and ap: "stacks_apart s R"
    and slot: "position slot_empty (PROCESS_LIST s) = Some i" and pid: "\<not> add_overflows (NEXT_PID s) 1"
    and pc: "\<not> add_overflows (sepc (trap_frame (cur_proc s))) 4" and room: "count_room s"
    and ram: "free_ram (9 + 2 * pages_left is_leaf (tables s) (cur_root s) 0) s"
  shows "wp sys_fork (\<lambda>v s'. v = NEXT_PID s \<and> (\<exists>child. forked R i s child s')) (\<lambda>_ _. False) s" (is "wp _ ?Q _ _")
proof -
  let ?s = "s\<lparr>NEXT_PID := NEXT_PID s + 1\<rparr>" and ?cur = "cur_proc s"
  let ?n = "2 * pages_left is_leaf (tables s) (cur_root s) 0"
  have fe: "frames_eq s ?s" by (simp add: frames_eq_def)
  note we = world_eq [OF fe]
  have W1: "world_ok ?s R" using W we(4) by simp
  have k1: "sched_ok ?s" "cur_proc ?s = ?cur" using ok by (simp_all add: sched_ok_def cur_proc_def)
  have r1: "cur_root ?s \<in> R" using r k1(2) by simp
  have ram1: "free_ram (Suc (?n + 8)) ?s" using ram we(3) by (simp add: free_ram_def)
  have i: "i < 32" using slot ok by (simp add: position_Some sched_ok_def)
  have copy: "wp (fork_copy (of_nat i) (NEXT_PID s) c p) ?Q (\<lambda>_ _. False) u"
    if c: "\<not> live s c" "world_ok t (insert c R)" "above_frames t = above_frames ?s"
      and v: "\<And>r a. r \<in> R \<Longrightarrow> view (mem t) r a = view (mem ?s) r a \<and> pte_of (tables t) r a = pte_of (tables ?s) r a"
      and pte: "\<And>a. pte_of (tables t) c a = (if vpn a 2 < 2 then 0 else pte_of (tables ?s) (cur_root ?s) a)"
      and ref: "\<And>p. live t p \<Longrightarrow> frame_ref t p = (if live ?s p then frame_ref ?s p else 1)"
      and kp: "\<And>k. kernel_page ?s R k \<Longrightarrow> kernel_page t (insert c R) k"
      and F: "fresh_frames t u" and af: "above_frames u = above_frames t" and ramu: "free_ram ?n u"
      and kpu: "kernel_page u (insert c R) (p + 7 * 4096)" and one: "\<And>q. live u q \<Longrightarrow> \<not> live t q \<Longrightarrow> frame_ref u q = 1"
      and ov: "\<not> add_overflows p KERNEL_STACK_SIZE" for c p t u
  proof -
    note fw = fresh_world [OF c(2) F] and ft = fresh_tree [OF c(2) F]
    let ?tf = "(set_a0 0 (trap_frame ?cur))\<lparr>sepc := sepc (trap_frame ?cur) + 4, scause := 8\<rparr>"
    have ab: "above_frames u = above_frames ?s" using af c(3) by simp
    have sok: "sched_ok u" "cur_proc u = ?cur" using above_frames_sched [OF ab] k1 by simp_all
    have cn: "c \<notin> R" using pt_wf_dest(1) [OF world_dest(3) [OF W]] c(1) by auto
    have rc: "cur_root u \<in> insert c R" "cur_root u \<noteq> root \<lparr>root = c\<rparr>" using r cn sok(2) by auto
    have ptu: "pte_of (tables u) r' a = pte_of (tables s) r' a" if "r' \<in> R" for r' a using ft(3) [of r' a] v [OF that] that by simp
    have vu: "view (mem u) r' a = view (mem s) r' a" if "r' \<in> R" for r' a using fw(2) [of r' a] v [OF that] that by simp
    have cu: "pte_of (tables u) (root \<lparr>root = c\<rparr>) a = (if vpn a 2 < 2 then 0 else pte_of (tables u) (cur_root u) a)" for a
      using ft(3) [of c a] pte [of a] ptu [OF r] k1(2) sok(2) by simp
    have "frame_ref u q = 1 \<or> live s q \<and> frame_ref u q = frame_ref s q" if "live u q" for q
      using one [OF that] ref [of q] F we(1,2) that by (cases "live t q") (auto simp: fresh_frames_def)
    then have ru: "count_room u" using room by (fastforce simp: count_room_def)
    have "pages_left is_leaf (tables u) (cur_root s) 0 = pages_left is_leaf (tables s) (cur_root s) 0"
      by (rule pages_left_cong) (simp add: ptu [OF r])
    then have hu: "frames_has (2 * pages_left is_leaf (tables u) (cur_root u) 0) u" using free_ram_has [OF ramu] sok(2) by simp
    have "wp (kbind current (\<lambda>cur. kseq (for_each_leaf (page_table cur) 0 KERNEL_VPN2_MIN (share_user_leaf \<lparr>root = c\<rparr>)) (kbind current (\<lambda>cur.
      kseq (for_each_leaf (page_table cur) 0 KERNEL_VPN2_MIN (share_kernel_leaf \<lparr>root = c\<rparr>)) (fork_install (of_nat i) (NEXT_PID s) c p ?tf))))) ?Q (\<lambda>_ _. False) u"
    proof (rule fork_share_wp [OF fw(1) sok(1) rc(1) _ rc(2) ru hu cu])
      fix w assume w: "world_ok w (insert c R)" "above_frames w = above_frames u" "kernel_kept (insert c R) u w"
        and vw: "\<And>r' a. r' \<in> insert c R \<Longrightarrow> view (mem w) r' a = view (mem u) (if r' = root \<lparr>root = c\<rparr> then cur_root u else r') a"
        and kw: "\<And>a. kernel_leaf (pte_of (tables u) (cur_root u) a) \<Longrightarrow> ppn_to_addr (pte_of (tables w) (root \<lparr>root = c\<rparr>) a) = ppn_to_addr (pte_of (tables u) (cur_root u) a) \<and>
         pte_flags (pte_of (tables w) (root \<lparr>root = c\<rparr>) a) = pte_flags (pte_of (tables u) (cur_root u) a)"
      have "above_frames w = above_frames ?s" using w(2) ab by simp
      note kk = above_frames_kernel [OF this]
      have vr: "view (mem w) r' a = view (mem s) r' a" if "r' \<in> R" for r' a
      proof -
        have "r' \<noteq> c" using that cn by auto
        then show ?thesis using vw [of r' a] vu [OF that] that by simp
      qed
      show "wp (fork_install (of_nat i) (NEXT_PID s) c p ?tf) ?Q (\<lambda>_ _. False) w"
        by (rule fork_install_wp [OF ok ap i c(1) w(1) _ _ _ _ vr])
          (use kk(1,2) we(5) kp fw(3) w(3) kpu vw [of c] vu [OF r] sok(2) kw ptu [OF r] in \<open>simp_all add: kernel_kept_def\<close>)
    qed simp
    then show ?thesis
      using ov pc sok by (simp add: fork_copy_def wp_kbind [of "uadd _ _"] wp_uadd wp_kbind [of current] wp_current fork_frame_def
          wp_kbind [of "kbind _ _"] wp_kbind [of "ret _"] wp_ret Let_def set_a0_def)
  qed
  have "wp (kbind alloc_frame (\<lambda>f. kbind (expect ''fork: no frame for root page table'' f) (\<lambda>c. kseq (fill_bytes c 0 4096)
      (kbind current (\<lambda>cur. kseq (copy_kernel_half (root_addr (page_table cur)) c)
      (kbind (alloc_contiguous_frames KERNEL_STACK_PAGES) (\<lambda>st. kbind (expect ''fork: no frames for kernel stack'' st) (\<lambda>p.
      kseq (fill_bytes p 0 KERNEL_STACK_SIZE) (fork_copy (of_nat i) (NEXT_PID s) c p))))))))) ?Q (\<lambda>_ _. False) ?s"
  proof (rule fork_root_wp [OF W1 r1 k1(1) ram1])
    fix c t
    assume c: "\<not> live ?s c" "world_ok t (insert c R)" "above_frames t = above_frames ?s" "free_ram (?n + 8) t"
      and A: "\<And>r a. r \<in> R \<Longrightarrow> view (mem t) r a = view (mem ?s) r a \<and> pte_of (tables t) r a = pte_of (tables ?s) r a"
        "\<And>a. pte_of (tables t) c a = (if vpn a 2 < 2 then 0 else pte_of (tables ?s) (cur_root ?s) a)"
        "\<And>p. live t p \<Longrightarrow> frame_ref t p = (if live ?s p then frame_ref ?s p else 1)"
        "\<And>k. kernel_page ?s R k \<Longrightarrow> kernel_page t (insert c R) k"
    have cl: "\<not> live s c" using c(1) we(2) by simp
    show "wp (kbind (alloc_contiguous_frames KERNEL_STACK_PAGES) (\<lambda>st. kbind (expect ''fork: no frames for kernel stack'' st) (\<lambda>p.
      kseq (fill_bytes p 0 KERNEL_STACK_SIZE) (fork_copy (of_nat i) (NEXT_PID s) c p)))) ?Q (\<lambda>_ _. False) t"
      by (rule fork_stack_wp [OF c(2,4)], rule copy [OF cl c(2,3) A]) assumption+
  qed
  then show ?thesis
    using slot pid by (simp add: sys_fork_stages find_empty_slot_def alloc_pid_def wp_kbind [of "gets _"] wp_gets wp_kbind [of "kbind _ _"] wp_kbind [of "uadd _ _"]
        wp_uadd wp_kseq [of "modify _"] wp_modify wp_ret wp_kbind [of "kseq _ _"])
qed

text \<open>C9. \<open>fork\<close> duplicates the process. With no slot free in the table it returns \<open>EAGAIN\<close> and changes
  nothing. Otherwise, with nine frames and two more per page of the parent left in RAM, it returns
  the identity of a new process: a ready child of the caller with the same heap and mappings, whose
  trap frame is the caller's with 0 in \<open>a0\<close>, behind the \<open>ecall\<close>. The child has an address space of
  its own in which it sees, at every address, the byte that the parent saw; every page that the
  kernel had mapped for itself is mapped there with the same frame and permissions; no program,
  the parent included, sees a change of its memory; and the invariant of the address spaces now
  holds with the child, whose kernel stack belongs to the kernel.\<close>

theorem fork_duplicates:
  fixes s :: "'a kernel_state_scheme"
  assumes "sched_ok s" and "world_ok s R" and "cur_root s \<in> R" and "stacks_apart s R" and "count_room s"
    and "\<not> add_overflows (NEXT_PID s) 1" and "\<not> add_overflows (sepc (trap_frame (cur_proc s))) 4"
    and "free_ram (9 + 2 * pages_left is_leaf (tables s) (cur_root s) 0) s"
  shows "case position slot_empty (PROCESS_LIST s) of None \<Rightarrow> sys_fork s = (Val (linux_error EAGAIN), s)
    | Some i \<Rightarrow> \<exists>child c s'. sys_fork s = (Val (NEXT_PID s), s') \<and> PROCESS_LIST s' = (PROCESS_LIST s)[i := Some child] \<and> CURRENT s' = CURRENT s \<and>
        pid child = NEXT_PID s \<and> parent_pid child = pid (cur_proc s) \<and> proc_state child = Ready \<and>
        trap_frame child = (set_a0 0 (trap_frame (cur_proc s)))\<lparr>sepc := sepc (trap_frame (cur_proc s)) + 4, scause := 8\<rparr> \<and>
        heap_start child = heap_start (cur_proc s) \<and> heap_end child = heap_end (cur_proc s) \<and> mmap_areas child = mmap_areas (cur_proc s) \<and>
        c = root (page_table child) \<and> \<not> live s c \<and> world_ok s' (insert c R) \<and> stacks_apart s' (insert c R) \<and>
        (\<forall>r\<in>R. \<forall>a. view (mem s') r a = view (mem s) r a) \<and> (\<forall>a. view (mem s') c a = view (mem s) (cur_root s) a) \<and>
        (\<forall>a. kernel_leaf (pte_of (tables s) (cur_root s) a) \<longrightarrow> ppn_to_addr (pte_of (tables s') c a) = ppn_to_addr (pte_of (tables s) (cur_root s) a) \<and>
           pte_flags (pte_of (tables s') c a) = pte_flags (pte_of (tables s) (cur_root s) a))"
proof (cases "position slot_empty (PROCESS_LIST s)")
  case None
  then show ?thesis by (simp add: sys_fork_def find_empty_slot_def gets_def kbind_def ret_def)
next
  case (Some i)
  from wp_returns [OF sys_fork_wp [OF assms(1-4) Some assms(6,7,5,8)]] show ?thesis
    unfolding Some option.case forked_def Let_def by blast
qed

theorem fork_duplicates_witness:
  "\<exists>child s'. sys_fork lone_state = (Val 3, s') \<and> PROCESS_LIST s' ! 1 = Some child \<and> parent_pid child = 1 \<and>
     world_ok s' {root (page_table child), root pt1}"
proof -
  let ?s = lone_state
  have l: "PROCESS_LIST ?s = Some lone_proc # replicate 31 None" "NEXT_PID ?s = 3" "mem ?s = (\<lambda>_. 0)"
    by (simp_all add: lone_state_def on_frames2_facts) (simp_all add: on_frames2_def kstate0_def)
  have slot: "position slot_empty (PROCESS_LIST ?s) = Some 1" by (simp add: l(1) slot_empty_def lone_proc_def numeral_eq_Suc)
  have "unat (frame_ref ?s p) \<le> 2" for p
    by (simp add: lone_state_def on_frames2_def frame_ref_def frames2_def set_ref_def frames1_def alloc_result_def frames0_def RAM_END)
  then have "unat (frame_ref ?s p) + 2 ^ 19 < 2 ^ 32" for p by (rule le_less_trans [OF add_right_mono]) simp
  then have room: "count_room ?s" unfolding count_room_def by blast
  have p0: "\<not> is_leaf (pte_of (tables ?s) r a)" for r a
    by (simp add: is_leaf_def pte_of_l1 l1_def sub_def l(3) read_u64_zero pte_bits)
  then have "pages_left is_leaf (tables ?s) r n = 0" for r n by (simp add: pages_left_def)
  moreover have "NEXT_FRAME ?s = 0x80302000"
    by (simp add: lone_state_def on_frames2_def frames2_def frames1_def alloc_result_def frames0_def RAM_END)
  moreover have "frames_ok ?s" using world_dest(1) [OF lone_facts(4)] .
  ultimately have ram: "free_ram (9 + 2 * pages_left is_leaf (tables ?s) (cur_root ?s) 0) ?s" by (simp add: free_ram_def)
  have ov: "\<not> add_overflows (NEXT_PID ?s) 1" "\<not> add_overflows (sepc (trap_frame (cur_proc ?s))) 4"
    unfolding lone_facts(2) l(2) by (simp_all add: add_overflows_def lone_proc_def proc0_def new_user_def)
  have r: "cur_root ?s \<in> {root pt1}" by (simp add: lone_facts(2,6))
  from fork_duplicates [OF lone_facts(1,4) r lone_facts(5) room ov ram] show ?thesis
    unfolding slot option.case by (auto simp: l lone_facts(2) lone_proc_def proc0_def)
qed

end
