(* ===== verification/Syscall.thy ===== *)
theory Syscall
  imports Lifecycle
begin

text \<open>
  The remaining system calls and the dispatch table of \<open>syscall.rs\<close>. A buffer of the user
  program is read and written byte by byte through the translation of \<open>UserMem\<close>.
\<close>

definition SYS_GETCWD :: usize where "SYS_GETCWD = 17"
definition SYS_READ :: usize where "SYS_READ = 63"
definition SYS_WRITE :: usize where "SYS_WRITE = 64"
definition SYS_EXIT :: usize where "SYS_EXIT = 93"
definition SYS_EXIT_GROUP :: usize where "SYS_EXIT_GROUP = 94"
definition SYS_UNAME :: usize where "SYS_UNAME = 160"
definition SYS_MUNMAP :: usize where "SYS_MUNMAP = 215"
definition SYS_GETPID :: usize where "SYS_GETPID = 172"
definition SYS_GETPPID :: usize where "SYS_GETPPID = 173"
definition SYS_GETUID :: usize where "SYS_GETUID = 174"
definition SYS_GETEUID :: usize where "SYS_GETEUID = 175"
definition SYS_GETGID :: usize where "SYS_GETGID = 176"
definition SYS_GETEGID :: usize where "SYS_GETEGID = 177"
definition SYS_GETTID :: usize where "SYS_GETTID = 178"
definition SYS_BRK :: usize where "SYS_BRK = 214"
definition SYS_MMAP :: usize where "SYS_MMAP = 222"
definition SYS_FORK :: usize where "SYS_FORK = 220"
definition SYS_EXEC :: usize where "SYS_EXEC = 221"
definition SYS_WAIT :: usize where "SYS_WAIT = 260"

definition UTS_FIELD_LEN :: usize where "UTS_FIELD_LEN = 65"
definition UTS_FIELDS :: usize where "UTS_FIELDS = 6"
definition UTS_SIZE :: usize where "UTS_SIZE = UTS_FIELD_LEN * UTS_FIELDS"

text \<open>\<open>ptr::write_bytes\<close> and \<open>ptr::copy_nonoverlapping\<close> with a user buffer as destination.\<close>

definition user_fill :: "VirtAddr \<Rightarrow> u8 \<Rightarrow> usize \<Rightarrow> ('a hart_scheme, unit) kernel" where
  "user_fill buf b n = for_each [0..<unat n] (\<lambda>i. user_store (buf + of_nat i) b)"

definition user_copy :: "u8 list \<Rightarrow> VirtAddr \<Rightarrow> ('a hart_scheme, unit) kernel" where
  "user_copy bs buf = for_each [0..<length bs] (\<lambda>i. user_store (buf + of_nat i) (bs ! i))"

definition sys_read :: "usize \<Rightarrow> VirtAddr \<Rightarrow> usize \<Rightarrow> ('a kernel_state_scheme, usize) kernel" where
  "sys_read fd buf len =
     (if fd \<noteq> 0 then ret (linux_error EBADF)
      else
        kbind (ensure_user_range buf len True) (\<lambda>r.
        case r of
          Inl errno \<Rightarrow> ret errno
        | Inr _ \<Rightarrow>
            kseq (with_user_access (for_each [0..<unat len] (\<lambda>i.
              kbind read_char (\<lambda>c. user_store (buf + of_nat i) c))))
            (ret len)))"

definition sys_write :: "usize \<Rightarrow> VirtAddr \<Rightarrow> usize \<Rightarrow> ('a kernel_state_scheme, usize) kernel" where
  "sys_write fd buf len =
     (if fd \<noteq> 1 \<and> fd \<noteq> 2 then ret (linux_error EBADF)
      else
        kbind (ensure_user_range buf len False) (\<lambda>r.
        case r of
          Inl errno \<Rightarrow> ret errno
        | Inr _ \<Rightarrow>
            kseq (with_user_access (for_each [0..<unat len] (\<lambda>i.
              kbind (user_load (buf + of_nat i)) putchar)))
            (ret len)))"

definition CWD :: "u8 list" where
  "CWD = bytes_of ''/'' @ [0]"

definition sys_getcwd :: "VirtAddr \<Rightarrow> usize \<Rightarrow> ('a kernel_state_scheme, usize) kernel" where
  "sys_getcwd buf buf_size =
     (if unat buf_size < length CWD then ret (linux_error ERANGE)
      else
        kbind (ensure_user_range buf (of_nat (length CWD)) True) (\<lambda>r.
        case r of
          Inl errno \<Rightarrow> ret errno
        | Inr _ \<Rightarrow>
            kseq (with_user_access (user_copy CWD buf))
            (ret (of_nat (length CWD)))))"

definition write_uts_field :: "VirtAddr \<Rightarrow> usize \<Rightarrow> u8 list \<Rightarrow> ('a hart_scheme, unit) kernel" where
  "write_uts_field buf index val =
     (let len = min (length val) (unat (UTS_FIELD_LEN - 1)) in
      kbind (umul index UTS_FIELD_LEN) (\<lambda>off.
      user_copy (take len val) (buf + off)))"

definition sys_uname :: "VirtAddr \<Rightarrow> ('a kernel_state_scheme, usize) kernel" where
  "sys_uname buf =
     kbind (ensure_user_range buf UTS_SIZE True) (\<lambda>r.
     case r of
       Inl errno \<Rightarrow> ret errno
     | Inr _ \<Rightarrow>
         kseq (with_user_access
           (kseq (user_fill buf 0 UTS_SIZE)
           (kseq (write_uts_field buf 0 (bytes_of ''Unit00''))
           (kseq (write_uts_field buf 1 (bytes_of ''unit00''))
           (kseq (write_uts_field buf 2 (bytes_of ''0.1.0''))
           (kseq (write_uts_field buf 3 (bytes_of ''oskernel-2026 stage-1''))
           (kseq (write_uts_field buf 4 (bytes_of ''riscv64''))
           (write_uts_field buf 5 (bytes_of ''localdomain'')))))))))
         (ret 0))"

text \<open>The stub for \<open>exec\<close> resets the descriptor.\<close>

definition exec_stub :: "Process \<Rightarrow> Process" where
  "exec_stub cur = cur\<lparr>trap_frame := set_sp 0x3F001000 ((trap_frame cur)\<lparr>sepc := 0x10000\<rparr>),
     heap_end := heap_start cur, mmap_areas := replicate MAX_MMAP_AREAS MmapArea_EMPTY\<rparr>"

text \<open>\<open>dispatch\<close> takes the array of six arguments.\<close>

definition dispatch :: "usize \<Rightarrow> usize list \<Rightarrow> ('a kernel_state_scheme, usize) kernel" where
  "dispatch syscall_no args =
     (let arg0 = args ! 0; arg1 = args ! 1; arg2 = args ! 2; arg3 = args ! 3; arg4 = args ! 4; arg5 = args ! 5 in
      if syscall_no = SYS_GETCWD then sys_getcwd arg0 arg1
      else if syscall_no = SYS_READ then sys_read arg0 arg1 arg2
      else if syscall_no = SYS_WRITE then sys_write arg0 arg1 arg2
      else if syscall_no = SYS_EXIT \<or> syscall_no = SYS_EXIT_GROUP then sys_exit arg0
      else if syscall_no = SYS_UNAME then sys_uname arg0
      else if syscall_no = SYS_MUNMAP then sys_munmap arg0 arg1
      else if syscall_no = SYS_GETPID then kbind current (\<lambda>cur. ret (pid cur))
      else if syscall_no = SYS_GETPPID then kbind current (\<lambda>cur. ret (parent_pid cur))
      else if syscall_no = SYS_GETUID \<or> syscall_no = SYS_GETEUID \<or> syscall_no = SYS_GETGID \<or> syscall_no = SYS_GETEGID
        then ret 0
      else if syscall_no = SYS_GETTID then kbind current (\<lambda>cur. ret (pid cur))
      else if syscall_no = SYS_BRK then sys_brk arg0
      else if syscall_no = SYS_FORK then sys_fork
      else if syscall_no = SYS_EXEC then kbind current (\<lambda>_. kseq (update_current exec_stub) (ret 0))
      else if syscall_no = SYS_MMAP then sys_mmap arg0 arg1 arg2 arg3 arg4 arg5
      else if syscall_no = SYS_WAIT then sys_wait arg0
      else ret (linux_error ENOSYS))"

section \<open>What the buffer calls leave alone\<close>

text \<open>Access to user memory changes the status register, so the buffer calls keep a smaller part of the
  state: the process table, the page table in use and the alignment of the bump pointer.\<close>

definition kernel_rest :: "'a kernel_state_scheme \<Rightarrow> Process option list \<times> usize list \<times> nat" where
  "kernel_rest s = (PROCESS_LIST s, [CURRENT s, NEXT_PID s, TICK_COUNT s, TRAP_EXIT_RESTORE_ADDR s, csr_satp s],
     unat (NEXT_FRAME s) mod 4096)"

lemma above_next_rest: "above_next s' = above_next s \<Longrightarrow> kernel_rest s' = kernel_rest s"
  using above_frames_kernel [of s' s] by (simp add: above_next_def kernel_rest_def)

lemma keeps_rest: "keeps above_next m \<Longrightarrow> keeps kernel_rest m"
  by (erule keeps_weaken) (rule above_next_rest)

lemmas keeps_buffer_steps [keeps_intros] =
  keeps_rest [OF keeps_ensure_user_range] keeps_user_access [THEN keeps_rest] keeps_console [THEN keeps_rest]
  keeps_rest [OF keeps_cow_fault] keeps_rest [OF knext.lookup_rest] knext.memory_rest [THEN keeps_rest]

lemma keeps_read_char [keeps_intros]: "keeps kernel_rest read_char"
proof (rule keeps_rest, rule keepsI)
  fix s :: "'a kernel_state_scheme"
  have "wp (read_reg UART 0) (\<lambda>_ s'. above_next s' = above_next s) (\<lambda>e s'. above_next s' = above_next s \<and> stuck e) t"
    if "above_next t = above_next s" for t
    using that by (auto simp: wp_def read_reg_def split: list.splits)
  then show "wp read_char (\<lambda>_ s'. above_next s' = above_next s) (\<lambda>e s'. above_next s' = above_next s \<and> stuck e) s"
    unfolding read_char_def Uart_read_char_def wp_kbind
    by (intro wp_mono [OF poll_lsr_wp]) (auto simp: sent_def dest!: uart_only_next)
qed

lemma keeps_with_user_access [keeps_intros]: "keeps kernel_rest m \<Longrightarrow> keeps kernel_rest (with_user_access m)"
  unfolding with_user_access_def by (intro keeps_intros) (simp_all add: kernel_rest_def)

lemma keeps_user_buffers [keeps_intros]: "keeps kernel_rest (user_fill a b n)" "keeps kernel_rest (user_copy bs a)"
  unfolding user_fill_def user_copy_def by (intro keeps_intros)+

lemma keeps_buffer_calls [keeps_intros]:
  "keeps kernel_rest (sys_read fd a n)" "keeps kernel_rest (sys_write fd a n)" "keeps kernel_rest (sys_getcwd a n)"
  "keeps kernel_rest (sys_uname a)" "keeps kernel_rest (store_exit_code a c)"
  unfolding sys_read_def sys_write_def sys_getcwd_def sys_uname_def write_uts_field_def store_exit_code_def
  by (intro keeps_intros)+

end
