(* ===== verification/Trap.thy ===== *)
theory Trap
  imports Syscall
begin

text \<open>
  Traps: the handlers of \<open>trap.rs\<close> and the assembly of \<open>main.rs\<close> that saves the registers of
  the interrupted program on its kernel stack, calls \<open>trap_handler\<close> and restores a program.

  A program is what the hart holds for it when it runs: the 32 registers, the program counter
  and the status register. \<open>trap_entry\<close> is entered with the program's registers, the cause and
  the faulting address; its result is the program that runs next, which is another one when the
  handler went through the scheduler. The values the assembly keeps in temporaries are the
  bound variables here; the stack used by compiled Rust code below the trap frame is not modelled.
\<close>

section \<open>Handlers (trap.rs)\<close>

definition trap_init :: "usize \<Rightarrow> ('a hart_scheme, unit) kernel" where
  "trap_init addr = modify (\<lambda>s. s\<lparr>csr_stvec := addr\<rparr>)"

text \<open>The control registers that the handler reads are arguments.\<close>

definition kernel_trap_handler :: "usize \<Rightarrow> usize \<Rightarrow> usize \<Rightarrow> usize \<Rightarrow> ('a hart_scheme, 'b) kernel" where
  "kernel_trap_handler cause pc tval status =
     kseq (puts (nl @ ''[KERNEL TRAP]'' @ nl))
     (kseq (puts '' scause=0x'') (kseq (print_hex cause)
     (kseq (puts '' sepc=0x'') (kseq (print_hex pc)
     (kseq (puts '' stval=0x'') (kseq (print_hex tval)
     (kseq (puts '' sstatus=0x'') (kseq (print_hex status)
     (kseq (puts nl)
     shutdown)))))))))"

definition do_segfault :: "usize \<Rightarrow> usize \<Rightarrow> ('a kernel_state_scheme, unit) kernel" where
  "do_segfault cause tval =
     kseq (puts (nl @ ''[SEGFAULT] scause=0x''))
     (kseq (print_hex cause)
     (kseq (puts '' stval=0x'')
     (kseq (print_hex tval)
     (kseq (puts nl)
     (kbind current (\<lambda>_.
     kseq reparent_orphans_to_init
     (kseq (update_current (\<lambda>p. p\<lparr>proc_state := Zombie 1\<rparr>))
     (kseq wake_parent
     schedule))))))))"

definition page_fault_handler :: "usize \<Rightarrow> usize \<Rightarrow> ('a kernel_state_scheme, usize) kernel" where
  "page_fault_handler cause tval =
     (if cause \<noteq> 15 then kseq (do_segfault cause tval) (ret 0)
      else
        kbind current (\<lambda>cur.
        kbind (lookup (page_table cur) tval) (\<lambda>r.
        case r of
          Some entry \<Rightarrow>
            kbind (load64 entry) (\<lambda>e.
            if is_cow e \<and> is_r e \<and> \<not> is_w e \<and> is_u e
            then kseq (handle_cow_fault tval entry) (ret 0)
            else kseq (do_segfault cause tval) (ret 0))
        | None \<Rightarrow> kseq (do_segfault cause tval) (ret 0))))"

definition timer_tick :: "('a kernel_state_scheme, usize) kernel" where
  "timer_tick =
     kbind (gets TICK_COUNT) (\<lambda>t.
     kbind (uadd t 1) (\<lambda>t'.
     kseq (modify (\<lambda>s. s\<lparr>TICK_COUNT := t'\<rparr>))
     (kseq (puts ''tick '')
     (kbind (gets TICK_COUNT) (\<lambda>t.
     kseq (print_hex t)
     (kseq (puts nl)
     (kbind read_time (\<lambda>now.
     kbind (uadd now 10000000) (\<lambda>nxt.
     kseq (set_timer nxt)
     (ret 0))))))))))"

text \<open>The body of \<open>trap_handler\<close>, once the descriptor holds the frame.\<close>

definition handle_trap :: "usize \<Rightarrow> usize \<Rightarrow> ('a kernel_state_scheme, usize) kernel" where
  "handle_trap cause tval =
     (if drop_bit 63 cause = 1 then timer_tick
      else if cause = 8 then
        kbind current (\<lambda>cur.
        let r = regs (trap_frame cur) in
        dispatch (r ! 17) [r ! 10, r ! 11, r ! 12, r ! 13, r ! 14, r ! 15])
      else if cause = 12 \<or> cause = 13 \<or> cause = 15 then page_fault_handler cause tval
      else
        kseq (puts (nl @ ''[TRAP]'' @ nl @ '' scause: 0x''))
        (kseq (print_hex cause)
        (kseq (puts nl)
        shutdown)))"

definition trap_handler :: "usize \<Rightarrow> usize \<Rightarrow> ('a kernel_state_scheme, usize) kernel" where
  "trap_handler cause tval =
     kbind current (\<lambda>proc.
     kbind (usub (kernel_sp proc) TrapFrame_SIZE) (\<lambda>fb.
     kbind (read_from_stack fb) (\<lambda>tf.
     kseq (update_current (\<lambda>p. p\<lparr>trap_frame := tf\<rparr>))
     (handle_trap cause tval))))"

section \<open>Entry and exit (main.rs)\<close>

record program =
  gpr :: "usize list"
  pc :: usize
  status :: usize

text \<open>The stores of \<open>trap_entry\<close>: register \<open>xi\<close> at offset \<open>8 * i\<close> (\<open>x0\<close> as zero), then \<open>sstatus\<close>,
  \<open>sepc\<close>, \<open>scause\<close> and \<open>stval\<close>. The interrupted \<open>t0\<close> is fetched back from \<open>sscratch\<close>, where
  the entry swapped it.\<close>

definition save_registers :: "usize \<Rightarrow> program \<Rightarrow> usize \<Rightarrow> usize \<Rightarrow> ('a hart_scheme, unit) kernel" where
  "save_registers t0 prog cause tval =
     kseq (store64 t0 0)
     (kseq (for_each [1..<32] (\<lambda>i. store64 (t0 + of_nat (8 * i)) (gpr prog ! i)))
     (kseq (store64 (t0 + 256) (status prog))
     (kseq (store64 (t0 + 264) (pc prog))
     (kseq (store64 (t0 + 272) cause)
     (store64 (t0 + 280) tval)))))"

text \<open>\<open>trap_exit_restore\<close>: \<open>sepc\<close> and \<open>sstatus\<close> are loaded from the frame, the registers from
  their slots, and \<open>sscratch\<close> gets the top of the kernel stack in exchange for the user stack
  pointer. \<open>sret\<close> then runs the program.\<close>

definition trap_exit_restore :: "usize \<Rightarrow> ('a hart_scheme, program) kernel" where
  "trap_exit_restore sp =
     kbind (load64 (sp + 264)) (\<lambda>new_pc.
     kbind (load64 (sp + 256)) (\<lambda>new_status.
     kseq (modify (\<lambda>s. s\<lparr>csr_sstatus := new_status\<rparr>))
     (kbind (load64 (sp + 16)) (\<lambda>user_sp.
     kbind (gets (\<lambda>s. read_dwords (mem s) sp 32)) (\<lambda>slots.
     kseq (modify (\<lambda>s. s\<lparr>csr_sscratch := sp + 288\<rparr>))
     (ret \<lparr>gpr = slots[0 := 0, 2 := user_sp], pc = new_pc, status = new_status\<rparr>))))))"

text \<open>The end of \<open>trap_entry\<close>: a system call's result is put in the frame and the program resumed.\<close>

definition leave :: "usize \<Rightarrow> usize \<Rightarrow> ('a hart_scheme, program) kernel" where
  "leave sp a0 =
     kbind (load64 (sp + 272)) (\<lambda>t0.
     kseq (if t0 = 8
           then kseq (store64 (sp + 80) a0)
                (kbind (load64 (sp + 264)) (\<lambda>t0. store64 (sp + 264) (t0 + 4)))
           else ret ())
     (trap_exit_restore sp))"

text \<open>\<open>schedule\<close> leaves the handler by jumping to the restore path with another stack pointer.\<close>

definition resume :: "usize \<Rightarrow> ('a hart_scheme, program) kernel \<Rightarrow> ('a hart_scheme, program) kernel" where
  "resume restore_label m = (\<lambda>s. case m s of
       (Exit (Resume sp addr), s') \<Rightarrow>
         if addr = restore_label then trap_exit_restore sp s' else (Exit (Resume sp addr), s')
     | r \<Rightarrow> r)"

definition trap_entry :: "usize \<Rightarrow> program \<Rightarrow> usize \<Rightarrow> usize \<Rightarrow> ('a kernel_state_scheme, program) kernel" where
  "trap_entry restore_label prog cause tval =
     kbind (gets csr_sscratch) (\<lambda>ksp.
     if ksp = 0 then kernel_trap_handler cause (pc prog) tval (status prog)
     else
       let sp = ksp - 288 in
       kseq (save_registers sp prog cause tval)
       (kseq (modify (\<lambda>s. s\<lparr>csr_sscratch := 0\<rparr>))
       (kbind (load64 (sp + 272)) (\<lambda>a0.
       kbind (load64 (sp + 280)) (\<lambda>a6.
       resume restore_label (kbind (trap_handler a0 a6) (leave sp)))))))"

section \<open>Saving and restoring a program\<close>

definition frame_of :: "program \<Rightarrow> usize \<Rightarrow> usize \<Rightarrow> TrapFrame" where
  "frame_of prog cause tval = \<lparr>regs = (gpr prog)[0 := 0], sstatus = status prog, sepc = pc prog, scause = cause, stval = tval\<rparr>"

definition program_of :: "TrapFrame \<Rightarrow> program" where
  "program_of tf = \<lparr>gpr = (regs tf)[0 := 0], pc = sepc tf, status = sstatus tf\<rparr>"

text \<open>The programs of the hart: 32 registers of which the first is zero.\<close>

definition program_ok :: "program \<Rightarrow> bool" where
  "program_ok prog \<longleftrightarrow> length (gpr prog) = 32 \<and> gpr prog ! 0 = 0"

lemma program_of_ok: "tf_ok tf \<Longrightarrow> program_ok (program_of tf)"
  by (simp add: program_ok_def program_of_def tf_ok_def)


lemma tf_ok_frame_of: "program_ok prog \<Longrightarrow> tf_ok (frame_of prog cause tval)"
  by (simp add: program_ok_def tf_ok_def frame_of_def)

lemma write_dwords_snoc:
  "write_dwords m a (vs @ [v]) = write_u64 (write_dwords m a vs) (a + of_nat (8 * length vs)) v"
  by (induction vs arbitrary: m a) (simp_all add: algebra_simps)

lemma wp_save_registers:
  assumes "program_ok prog"
  shows "wp (save_registers a prog cause tval) Q R s =
    Q () (s\<lparr>mem := write_dwords (mem s) a (tf_dwords (frame_of prog cause tval))\<rparr>)"
proof -
  let ?vs = "(gpr prog)[0 := 0]"
  let ?I = "\<lambda>i t. t = s\<lparr>mem := write_dwords (mem s) a (take i ?vs)\<rparr>"
  let ?body = "\<lambda>i. store64 (a + of_nat (8 * i)) (gpr prog ! i) :: ('a hart_scheme, unit) kernel"
  let ?s1 = "s\<lparr>mem := write_u64 (mem s) a 0\<rparr>"
  have len: "length ?vs = 32" using assms by (simp add: program_ok_def)
  have "take 1 ?vs = [0]" using assms by (cases "gpr prog") (auto simp: program_ok_def)
  then have start: "?I 1 ?s1" by simp
  have "wp (for_each [1..<32] ?body) (\<lambda>_. ?I 32) (\<lambda>_ _. False) ?s1"
  proof (rule wp_for_upt [where I = ?I, OF _ start])
    fix i t assume i: "1 \<le> i" "i < (32 :: nat)" and t: "?I i t"
    have "take (Suc i) ?vs = take i ?vs @ [gpr prog ! i]" using i len by (simp add: take_Suc_conv_app_nth)
    then show "wp (?body i) (\<lambda>_. ?I (Suc i)) (\<lambda>_ _. False) t"
      using t i len by (simp add: wp_simps write_dwords_snoc min_absorb1)
  qed simp
  then have loop: "for_each [1..<32] ?body ?s1 = (Val (), s\<lparr>mem := write_dwords (mem s) a ?vs\<rparr>)"
    using wp_returns len by fastforce
  have "tf_dwords (frame_of prog cause tval) = (((?vs @ [status prog]) @ [pc prog]) @ [cause]) @ [tval]"
    by (simp add: tf_dwords_def frame_of_def)
  then have w: "write_dwords (mem s) a (tf_dwords (frame_of prog cause tval)) =
      write_u64 (write_u64 (write_u64 (write_u64 (write_dwords (mem s) a ?vs) (a + 256) (status prog)) (a + 264) (pc prog))
        (a + 272) cause) (a + 280) tval"
    using len by (simp only: write_dwords_snoc) (simp add: add.commute)
  have "wp (for_each [1..<32] ?body) Q' R ?s1 = Q' () (s\<lparr>mem := write_dwords (mem s) a ?vs\<rparr>)" for Q'
    by (simp only: wp_def loop) simp
  then show ?thesis
    unfolding save_registers_def w by (simp only: wp_kseq wp_store64) simp
qed

lemma stack_frame_slots:
  "read_u64 m (a + 264) = sepc (stack_frame m a)" "read_u64 m (a + 256) = sstatus (stack_frame m a)"
  "read_u64 m (a + 272) = scause (stack_frame m a)" "read_u64 m (a + 280) = stval (stack_frame m a)"
  "read_u64 m (a + 16) = regs (stack_frame m a) ! 2" "read_dwords m a 32 = regs (stack_frame m a)"
proof -
  have "read_dwords m a 32 = take 32 (read_dwords m a 36)"
    by (rule nth_equalityI) (simp_all add: nth_read_dwords)
  then show "read_dwords m a 32 = regs (stack_frame m a)" by (simp add: stack_frame_def tf_of_dwords_def)
qed (simp_all add: stack_frame_def tf_of_dwords_def nth_read_dwords)

lemma update_0_2: "xs[0 := z, 2 := xs ! 2] = xs[0 := z]"
proof -
  have "xs[0 := z, 2 := xs ! 2] = xs[2 := xs ! 2, 0 := z]" by (rule list_update_swap) simp
  then show ?thesis by simp
qed

lemma wp_trap_exit_restore [wp_simps]:
  "wp (trap_exit_restore sp) Q R s = Q (program_of (stack_frame (mem s) sp))
     (s\<lparr>csr_sstatus := sstatus (stack_frame (mem s) sp), csr_sscratch := sp + 288\<rparr>)"
  by (simp add: trap_exit_restore_def wp_simps stack_frame_slots program_of_def update_0_2)

lemma wp_resume [wp_simps]:
  "wp (resume label m) Q R s = wp m Q (\<lambda>e t. case e of
      Resume sp addr \<Rightarrow> if addr = label then wp (trap_exit_restore sp) Q R t else R e t | _ \<Rightarrow> R e t) s"
  by (auto simp: wp_def resume_def split: prod.splits outcome.splits stop.splits)

section \<open>The path through the kernel\<close>

text \<open>What holds whenever a user program runs: the hart finds the kernel stack of the current process
  in \<open>sscratch\<close>.\<close>

definition stack_ready :: "'a kernel_state_scheme \<Rightarrow> bool" where
  "stack_ready s \<longleftrightarrow> sched_ok s \<and> csr_sscratch s = kernel_sp (cur_proc s) \<and>
     288 \<le> unat (kernel_sp (cur_proc s)) \<and> dword_aligned (kernel_sp (cur_proc s))"

definition entered :: "program \<Rightarrow> usize \<Rightarrow> usize \<Rightarrow> 'a kernel_state_scheme \<Rightarrow> 'a kernel_state_scheme" where
  "entered prog cause tval s = update_slot (unat (CURRENT s)) (\<lambda>p. p\<lparr>trap_frame := frame_of prog cause tval\<rparr>)
     (s\<lparr>mem := write_dwords (mem s) (frame_base (cur_proc s)) (tf_dwords (frame_of prog cause tval)), csr_sscratch := 0\<rparr>)"

lemma entered_frame:
  assumes "stack_ready s" and "program_ok prog"
  shows "stack_frame (mem (entered prog cause tval s)) (frame_base (cur_proc s)) = frame_of prog cause tval"
  using assms by (simp add: entered_def stack_frame_write frame_base_aligned tf_ok_frame_of stack_ready_def)

lemma entered_sched: "sched_ok (entered prog cause tval s) = sched_ok s"
  by (simp add: entered_def) (simp add: sched_ok_def)

lemma entered_cur:
  assumes "sched_ok s"
  shows "cur_proc (entered prog cause tval s) = (cur_proc s)\<lparr>trap_frame := frame_of prog cause tval\<rparr>"
proof -
  let ?t = "s\<lparr>mem := write_dwords (mem s) (frame_base (cur_proc s)) (tf_dwords (frame_of prog cause tval)), csr_sscratch := 0\<rparr>"
  have "sched_ok ?t" "cur_proc ?t = cur_proc s" "CURRENT ?t = CURRENT s"
    using assms by (simp_all add: sched_ok_def cur_proc_def)
  then show ?thesis using cur_proc_update [of ?t] by (simp add: entered_def)
qed

lemma wp_trap_entry:
  assumes r: "stack_ready s" and p: "program_ok prog"
  shows "wp (trap_entry label prog cause tval) Q R s =
    wp (resume label (kbind (handle_trap cause tval) (leave (frame_base (cur_proc s))))) Q R (entered prog cause tval s)"
proof -
  let ?sp = "frame_base (cur_proc s)" and ?f = "frame_of prog cause tval"
  let ?s1 = "s\<lparr>mem := write_dwords (mem s) ?sp (tf_dwords ?f), csr_sscratch := 0\<rparr>"
  have ok: "sched_ok s" "csr_sscratch s = kernel_sp (cur_proc s)" "\<not> kernel_sp (cur_proc s) < TrapFrame_SIZE"
    and ne: "kernel_sp (cur_proc s) \<noteq> 0" and sp: "kernel_sp (cur_proc s) - 288 = ?sp"
    using r by (auto simp: stack_ready_def TrapFrame_SIZE_def word_less_nat_alt frame_base_def)
  have fr: "stack_frame (mem ?s1) ?sp = ?f"
    using entered_frame [OF r p, of cause tval] by (simp add: entered_def)
  have ok1: "sched_ok ?s1" "cur_proc ?s1 = cur_proc s" using ok(1) by (simp_all add: sched_ok_def cur_proc_def)
  have h: "wp (trap_handler cause tval) Q' R' ?s1 = wp (handle_trap cause tval) Q' R' (entered prog cause tval s)" for Q' R'
    using ok(3) fr by (simp add: trap_handler_def wp_simps wp_current [OF ok1(1)] ok1(2) frame_base_def [symmetric] entered_def)
  have slots: "read_u64 (mem ?s1) (?sp + 272) = cause" "read_u64 (mem ?s1) (?sp + 280) = tval"
    using fr by (simp_all only: stack_frame_slots) (simp_all add: frame_of_def)
  show ?thesis
    using ne slots unfolding trap_entry_def Let_def
    by (simp add: wp_simps wp_save_registers [OF p] ok(2) sp h)
qed

lemma frame_store:
  assumes "dword_aligned a" and "i < 36"
  shows "stack_frame (write_u64 m (a + of_nat (8 * i)) v) a = tf_of_dwords ((read_dwords m a 36)[i := v])"
proof -
  have ne: "a + of_nat (8 * j) \<noteq> a + of_nat (8 * i)" if "j < 36" "j \<noteq> i" for j
  proof
    assume "a + of_nat (8 * j) = a + of_nat (8 * i)"
    then have "unat (of_nat (8 * j) :: usize) = unat (of_nat (8 * i) :: usize)" by simp
    then show False using that assms(2) by (simp add: unat_of_nat take_bit_eq_mod del: of_nat_mult)
  qed
  have "read_dwords (write_u64 m (a + of_nat (8 * i)) v) a 36 = (read_dwords m a 36)[i := v]"
  proof (rule nth_equalityI)
    fix j assume "j < length (read_dwords (write_u64 m (a + of_nat (8 * i)) v) a 36)"
    then have j: "j < 36" by simp
    show "read_dwords (write_u64 m (a + of_nat (8 * i)) v) a 36 ! j = (read_dwords m a 36)[i := v] ! j"
    proof (cases "j = i")
      case True
      then show ?thesis using j by (simp add: nth_read_dwords read_write_u64_same del: of_nat_mult)
    next
      case False
      then show ?thesis
        using j ne [OF j False] assms
        by (simp add: nth_read_dwords read_write_u64_other del: of_nat_mult)
    qed
  qed simp
  then show ?thesis by (simp add: stack_frame_def)
qed

lemma wp_leave:
  assumes "dword_aligned sp"
  shows "wp (leave sp a0) Q R s = (let f = stack_frame (mem s) sp;
      g = (if scause f = 8 then f\<lparr>regs := (regs f)[10 := a0], sepc := sepc f + 4\<rparr> else f);
      m = (if scause f = 8 then write_u64 (write_u64 (mem s) (sp + 80) a0) (sp + 264) (sepc f + 4) else mem s) in
    Q (program_of g) (s\<lparr>mem := m, csr_sstatus := sstatus f, csr_sscratch := sp + 288\<rparr>))"
proof (cases "scause (stack_frame (mem s) sp) = 8")
  case False
  then show ?thesis by (simp add: leave_def wp_simps stack_frame_slots Let_def)
next
  case True
  let ?m1 = "write_u64 (mem s) (sp + 80) a0"
  let ?ws = "read_dwords (mem s) sp 36"
  have ds: "read_dwords m sp 36 = tf_dwords (stack_frame m sp)" for m
    by (simp add: stack_frame_def tf_dwords_inverse)
  have f: "stack_frame (mem s) sp = tf_of_dwords ?ws" by (simp add: stack_frame_def)
  have f1: "stack_frame ?m1 sp = tf_of_dwords (?ws[10 := a0])"
    using frame_store [OF assms, of 10 "mem s" a0] by simp
  have f2: "stack_frame (write_u64 ?m1 (sp + 264) v) sp = tf_of_dwords (?ws[10 := a0, 33 := v])" for v
    using frame_store [OF assms, of 33 ?m1 v] ds [of ?m1] f1 by (simp add: tf_dwords_inverse)
  have pc: "read_u64 ?m1 (sp + 264) = sepc (stack_frame (mem s) sp)"
    by (simp add: stack_frame_slots f1 f) (simp add: tf_of_dwords_def)
  have g: "tf_of_dwords (?ws[10 := a0, 33 := v]) = (tf_of_dwords ?ws)\<lparr>regs := (regs (tf_of_dwords ?ws))[10 := a0], sepc := v\<rparr>" for v
    by (simp add: tf_of_dwords_def take_update_swap list_update_beyond)
  have "read_u64 (mem s) (sp + 272) = 8" using True by (simp add: stack_frame_slots)
  then show ?thesis
    using True by (simp add: leave_def wp_simps pc f2 g f Let_def)
qed

section \<open>The timer\<close>



section \<open>Properties of traps\<close>


text \<open>A running user program for the witnesses: process 1 of the table above, with its kernel stack in
  \<open>sscratch\<close>.\<close>

definition kstate2 :: kernel_state where
  "kstate2 = kstate0\<lparr>csr_sscratch := 0x80408000\<rparr>"

definition program1 :: "usize \<Rightarrow> program" where
  "program1 nr = \<lparr>gpr = (replicate 32 7)[0 := 0, 17 := nr], pc = 0x10008, status = 0x20\<rparr>"

lemma program1_ok: "program_ok (program1 nr)"
  by (simp add: program_ok_def program1_def)

lemma kstate2_cur: "cur_proc kstate2 = proc0" "sched_ok kstate2"
  by (simp_all add: cur_proc_def sched_ok_def kstate2_def kstate0_def)

lemma kstate2_ready: "stack_ready kstate2"
  using kstate2_cur by (simp add: stack_ready_def) (simp add: kstate2_def proc0_def dword_aligned_def)


lemma syscall_returns:
  assumes "stack_ready s" and "program_ok prog"
    and "dispatch (gpr prog ! 17) [gpr prog ! 10, gpr prog ! 11, gpr prog ! 12, gpr prog ! 13, gpr prog ! 14, gpr prog ! 15]
      (entered prog 8 tval s) = (Val v, t)"
    and "\<forall>x. unat (x - (kernel_sp (cur_proc s) - 288)) < 288 \<longrightarrow> mem t x = mem (entered prog 8 tval s) x"
  shows "\<exists>s'. trap_entry label prog 8 tval s = (Val (prog\<lparr>gpr := (gpr prog)[10 := v], pc := pc prog + 4\<rparr>), s') \<and>
    csr_sscratch s' = kernel_sp (cur_proc s) \<and> PROCESS_LIST s' = PROCESS_LIST t \<and> CURRENT s' = CURRENT t"
proof -
  let ?e = "entered prog 8 tval s" and ?sp = "frame_base (cur_proc s)" and ?r = "gpr prog"
  let ?Q = "\<lambda>p' s'. p' = prog\<lparr>gpr := (gpr prog)[10 := v], pc := pc prog + 4\<rparr> \<and>
    csr_sscratch s' = kernel_sp (cur_proc s) \<and> PROCESS_LIST s' = PROCESS_LIST t \<and> CURRENT s' = CURRENT t"
  have ok: "sched_ok s" "dword_aligned ?sp" "?sp = kernel_sp (cur_proc s) - 288"
    using assms(1) by (simp_all add: stack_ready_def frame_base_aligned) (simp add: frame_base_def TrapFrame_SIZE_def)
  have len: "length ?r = 32" "?r[0 := 0] = ?r" using assms(2) by (auto simp: program_ok_def list_update_same_conv)
  have "stack_frame (mem t) ?sp = stack_frame (mem ?e) ?sp"
    by (rule stack_frame_cong) (use assms(4) ok(3) in auto)
  then have fr: "stack_frame (mem t) ?sp = frame_of prog 8 tval" using entered_frame [OF assms(1,2)] by simp
  have "program_of ((frame_of prog 8 tval)\<lparr>regs := (regs (frame_of prog 8 tval))[10 := v], sepc := pc prog + 4\<rparr>)
      = prog\<lparr>gpr := ?r[10 := v], pc := pc prog + 4\<rparr>"
    using len list_update_swap [of 10 0 ?r v 0] by (simp add: program_of_def frame_of_def)
  moreover have "?sp + 288 = kernel_sp (cur_proc s)" by (simp add: ok(3))
  ultimately have lv: "wp (leave ?sp v) ?Q R t" for R
    by (simp add: wp_leave [OF ok(2)] fr Let_def) (simp add: frame_of_def)
  have cur: "wp current Q R ?e = Q ((cur_proc s)\<lparr>trap_frame := frame_of prog 8 tval\<rparr>) ?e" for Q R
    using wp_current [of ?e] entered_sched [of prog 8 tval s] entered_cur [OF ok(1)] ok(1) by simp
  have "wp (trap_entry label prog 8 tval) ?Q (\<lambda>_ _. False) s"
    unfolding wp_trap_entry [OF assms(1,2)] wp_resume wp_kbind handle_trap_def
    using assms(3) lv by (simp add: wp_simps cur Let_def frame_of_def len(2)) (simp add: wp_def [of "dispatch _ _"])
  then show ?thesis using wp_returns by fastforce
qed

text \<open>C34. The calling convention of system calls. When the call that the program's register \<open>a7\<close> selects
  returns \<open>v\<close> for the arguments in \<open>a0\<close> to \<open>a5\<close>, and leaves the trap frame on the kernel stack
  alone, the program continues after the \<open>ecall\<close> with \<open>v\<close> in \<open>a0\<close> and with every other register
  and the status register as they were.\<close>

theorem syscall_return:
  assumes "stack_ready s" and "program_ok prog"
    and "dispatch (gpr prog ! 17) [gpr prog ! 10, gpr prog ! 11, gpr prog ! 12, gpr prog ! 13, gpr prog ! 14, gpr prog ! 15]
      (entered prog 8 tval s) = (Val v, t)"
    and "\<forall>x. unat (x - (kernel_sp (cur_proc s) - 288)) < 288 \<longrightarrow> mem t x = mem (entered prog 8 tval s) x"
  shows "\<exists>s'. trap_entry label prog 8 tval s = (Val (prog\<lparr>gpr := (gpr prog)[10 := v], pc := pc prog + 4\<rparr>), s') \<and>
    csr_sscratch s' = kernel_sp (cur_proc s) \<and> PROCESS_LIST s' = PROCESS_LIST t \<and> CURRENT s' = CURRENT t"
  using assms by (rule syscall_returns)



theorem syscall_return_witness:
  "\<exists>s'. trap_entry 0x80200100 (program1 172) 8 0 kstate2
     = (Val ((program1 172)\<lparr>gpr := (gpr (program1 172))[10 := 1], pc := 0x1000C\<rparr>), s')"
proof -
  let ?e = "entered (program1 172) 8 0 kstate2"
  have "sched_ok ?e" "pid (cur_proc ?e) = 1"
    using kstate2_cur entered_cur [OF kstate2_cur(2)] by (simp_all add: entered_sched proc0_def)
  then have "dispatch (gpr (program1 172) ! 17) args ?e = (Val 1, ?e)" for args
    by (simp add: program1_def dispatch_def Let_def current_run kbind_def ret_def SYS_GETCWD_def SYS_READ_def SYS_WRITE_def
        SYS_EXIT_def SYS_EXIT_GROUP_def SYS_UNAME_def SYS_MUNMAP_def SYS_GETPID_def)
  from syscall_return [OF kstate2_ready program1_ok this, of "0x80200100"] show ?thesis
    by (auto simp: program1_def)
qed

text \<open>C39. A trap taken in the kernel is fatal. When \<open>sscratch\<close> is zero the trap came from supervisor mode:
  no program is resumed, no memory is written, and the kernel powers the machine off after
  reporting the trap on the console (or waits for the console for ever).\<close>

theorem kernel_trap_fatal:
  fixes s :: "'a kernel_state_scheme"
  assumes "csr_sscratch s = 0"
  shows "case trap_entry label prog cause tval s of
      (Val prog', s') \<Rightarrow> False
    | (Exit e, s') \<Rightarrow> mem s' = mem s \<and> (e = Device_wait \<or>
        e = Shutdown \<and> sbi_log s' = sbi_log s @ [(SBI_EXT_SRST, SBI_SRST_RESET, SBI_RESET_SHUTDOWN, 0)])"
proof -
  let ?R = "\<lambda>e s'. mem s' = mem s \<and> (e = Device_wait \<or>
        e = Shutdown \<and> sbi_log s' = sbi_log s @ [(SBI_EXT_SRST, SBI_SRST_RESET, SBI_RESET_SHUTDOWN, 0)])"
  have keep: "mem t = mem s \<and> sbi_log t = sbi_log s" if u: "uart_only s t" for t :: "'a kernel_state_scheme"
  proof -
    obtain i ou where "t = s\<lparr>uart_in := i, uart_out := ou\<rparr>" using u unfolding uart_only_def by blast
    then show ?thesis by simp
  qed
  have off: "wp (shutdown :: ('a kernel_state_scheme, program) kernel) (\<lambda>_ _. False) ?R t" if "uart_only s t" for t
    using keep [OF that] by (simp add: shutdown_def sbi_call_def wp_simps)
  have wt: "?R Device_wait t" if "uart_only s t" for t :: "'a kernel_state_scheme" using keep [OF that] by simp
  note chain = wp_uart_from [where R = ?R and ?s0.0 = s, OF emits_puts]
    wp_uart_from [where R = ?R and ?s0.0 = s, OF emits_print_hex]
  have "wp (kernel_trap_handler cause (pc prog) tval (status prog) :: ('a kernel_state_scheme, program) kernel) (\<lambda>_ _. False) ?R s"
    unfolding kernel_trap_handler_def
    by (rule chain, rule uart_only_refl, (rule chain, assumption)+, rule off, assumption, (rule wt, assumption)+)
  then have "wp (trap_entry label prog cause tval) (\<lambda>_ _. False) ?R s"
    using assms by (simp add: trap_entry_def wp_kbind [of "gets _"] wp_gets)
  then show ?thesis by (simp add: wp_def)
qed

theorem kernel_trap_fatal_witness:
  "case trap_entry 0x80200100 (program1 0) 13 0 kstate0 of
      (Val prog', s') \<Rightarrow> False
    | (Exit e, s') \<Rightarrow> mem s' = mem kstate0 \<and> e \<in> {Device_wait, Shutdown}"
  using kernel_trap_fatal [of kstate0 "0x80200100" "program1 0" 13 0]
  by (auto simp: kstate0_def split: prod.splits outcome.splits)

end
