(* ===== verification/Boot.thy ===== *)
theory Boot
  imports Trap
begin

text \<open>
  The start of the kernel (\<open>main.rs\<close>): the entry code that clears the uninitialised statics, the
  panic handler, and \<open>rust_main\<close>, which builds the kernel page table, loads the built-in user
  program and starts it as process 1.

  The addresses that the linker provides (\<open>_bss_start\<close>, \<open>_bss_end\<close>, \<open>_kernel_end\<close>, the bounds
  of the user program and the two trap labels) are arguments.
\<close>

section \<open>Entry (_start)\<close>

text \<open>The loop compares addresses as signed numbers (\<open>bge\<close>) and stores eight bytes at a time.\<close>

partial_function (option) zero_bss :: "usize \<Rightarrow> usize \<Rightarrow> memory \<Rightarrow> memory option" where
  "zero_bss t0 t1 m = (if t1 \<le>s t0 then Some m else zero_bss (t0 + 8) t1 (write_u64 m t0 0))"

section \<open>The panic handler\<close>

definition panic_handler :: "(string \<times> u32) option \<Rightarrow> ('a hart_scheme, 'b) kernel" where
  "panic_handler location =
     kseq (puts (nl @ ''[PANIC]''))
     (kseq (case location of
        None \<Rightarrow> ret ()
      | Some (file, line) \<Rightarrow>
          kseq (puts '' at '')
          (kseq (puts file)
          (kseq (puts '':0x'')
          (print_hex (ucast line)))))
     (kseq (puts nl)
     shutdown))"

section \<open>rust_main\<close>

definition USER_CODE_BASE :: usize where "USER_CODE_BASE = 0x10000"

text \<open>The copy of the user program, a page at a time; the result of \<open>map\<close> is ignored.\<close>

definition load_code_page :: "PageTable \<Rightarrow> usize \<Rightarrow> usize \<Rightarrow> usize \<Rightarrow> ('a frames_scheme, unit) kernel" where
  "load_code_page pt prog_start prog_len copied =
     kbind alloc_frame (\<lambda>r.
     kbind (expect ''no frame for user code'' r) (\<lambda>code_page.
     kseq (fill_bytes code_page 0 PAGE_SIZE)
     (kbind (usub prog_len copied) (\<lambda>left.
     let chunk = min PAGE_SIZE left in
     kbind (uadd prog_start copied) (\<lambda>src.
     kseq (copy_bytes src code_page chunk)
     (kbind (uadd USER_CODE_BASE copied) (\<lambda>va.
     kbind (map_page alloc_frame pt va code_page (PTEFlags_new True False True True)) (\<lambda>_.
     ret ()))))))))"

function load_code :: "PageTable \<Rightarrow> usize \<Rightarrow> usize \<Rightarrow> usize \<Rightarrow> ('a frames_scheme, unit) kernel" where
  "load_code pt prog_start prog_len copied s =
     (if copied < prog_len then
        (case load_code_page pt prog_start prog_len copied s of
           (Exit e, s') \<Rightarrow> (Exit e, s')
         | (Val _, s') \<Rightarrow>
             if add_overflows copied PAGE_SIZE then (Exit (Panic add_panic), s')
             else load_code pt prog_start prog_len (copied + PAGE_SIZE) s')
      else (Val (), s))"
  by pat_completeness auto
termination
proof (relation "measure (\<lambda>(pt, st, len, c, s). 2 ^ 64 - unat c)", simp)
  fix pt :: PageTable and st len c :: usize and s s' :: "'a frames_scheme" and x u
  assume "\<not> add_overflows c PAGE_SIZE"
  then have "unat (c + PAGE_SIZE) = unat c + 4096" by (simp add: unat_add_no_overflow PAGE_SIZE_def)
  then show "((pt, st, len, c + PAGE_SIZE, s'), pt, st, len, c, s) \<in> measure (\<lambda>(pt, st, len, c, s). 2 ^ 64 - unat c)"
    using unat_usize_less [of "c + PAGE_SIZE"] by simp
qed

declare load_code.simps [simp del]

text \<open>The statements of \<open>rust_main\<close> in three parts: the first address space, the trap and timer
  set-up, and the first process.\<close>

definition build_address_space :: "PhysAddr \<Rightarrow> usize \<Rightarrow> usize \<Rightarrow> ('a frames_scheme, PageTable) kernel" where
  "build_address_space kernel_end prog_start prog_end =
     kseq (frame_init kernel_end)
     (kbind (init_kernel RAM_BASE kernel_end alloc_frame) (\<lambda>(pt, satp).
     kbind (map_page alloc_frame pt UART0 UART0 (PTEFlags_new True True False False)) (\<lambda>_.
     kbind (usub prog_end prog_start) (\<lambda>prog_len.
     kbind (uadd prog_len PAGE_SIZE) (\<lambda>n.
     kbind (usub n 1) (\<lambda>n.
     let mapped_len = n AND NOT (PAGE_SIZE - 1) in
     kbind (uadd USER_CODE_BASE mapped_len) (\<lambda>code_end.
     kseq (if code_end \<le> USER_HEAP_START then ret ()
           else halt (Panic ''assertion failed: USER_CODE_BASE + mapped_len <= crate::task::process::USER_HEAP_START''))
     (kseq (load_code pt prog_start prog_len 0)
     (kbind alloc_frame (\<lambda>r.
     kbind (expect ''no frame for user stack'' r) (\<lambda>stack_page.
     kbind (map_page alloc_frame pt 0x3F000000 stack_page (PTEFlags_new True True False True)) (\<lambda>_.
     kseq (modify (\<lambda>s. s\<lparr>csr_satp := satp\<rparr>))
     (ret pt)))))))))))))"

definition enable_traps :: "usize \<Rightarrow> usize \<Rightarrow> ('a kernel_state_scheme, unit) kernel" where
  "enable_traps trap_entry_addr restore_addr =
     kseq (trap_init trap_entry_addr)
     (kseq (modify (\<lambda>s. s\<lparr>TRAP_EXIT_RESTORE_ADDR := restore_addr\<rparr>))
     (kseq (modify (\<lambda>s. s\<lparr>csr_sscratch := 0\<rparr>))
     (kbind read_time (\<lambda>now.
     kbind (uadd now 10000000) (\<lambda>nxt.
     kseq (set_timer nxt)
     (modify (\<lambda>s. s\<lparr>csr_sie := csr_sie s OR push_bit 5 1\<rparr>)))))))"

definition start_init :: "PageTable \<Rightarrow> ('a kernel_state_scheme, 'b) kernel" where
  "start_init pt =
     kbind (alloc_contiguous_frames KERNEL_STACK_PAGES) (\<lambda>r.
     kbind (expect ''no frames for init kernel stack'' r) (\<lambda>kernel_stack.
     kseq (fill_bytes kernel_stack 0 KERNEL_STACK_SIZE)
     (kbind (uadd kernel_stack KERNEL_STACK_SIZE) (\<lambda>ksp.
     let init_satp = satp_val pt in
     kbind alloc_pid (\<lambda>new_pid.
     let init = \<lparr>pid = new_pid, parent_pid = 0, proc_state = Running, page_table = pt,
                 trap_frame = new_user USER_CODE_BASE 0x3F001000, kernel_sp = ksp,
                 kernel_stack_frame = kernel_stack, heap_start = USER_HEAP_START, heap_end = USER_HEAP_START,
                 mmap_areas = replicate MAX_MMAP_AREAS MmapArea_EMPTY\<rparr> in
     kseq (modify (\<lambda>s. s\<lparr>PROCESS_LIST := (PROCESS_LIST s)[0 := Some init]\<rparr>))
     (kseq (modify (\<lambda>s. s\<lparr>CURRENT := 0\<rparr>))
     (kbind current (\<lambda>init.
     kseq (modify (\<lambda>s. s\<lparr>csr_satp := init_satp\<rparr>))
     (kbind (usub (kernel_sp init) TrapFrame_SIZE) (\<lambda>new_sp.
     kseq (write_to_stack (trap_frame init) new_sp)
     (kbind (gets TRAP_EXIT_RESTORE_ADDR) (\<lambda>addr.
     halt (Resume new_sp addr)))))))))))))"

definition rust_main :: "PhysAddr \<Rightarrow> usize \<Rightarrow> usize \<Rightarrow> usize \<Rightarrow> usize \<Rightarrow> ('a kernel_state_scheme, 'b) kernel" where
  "rust_main kernel_end prog_start prog_end trap_entry_addr restore_addr =
     kseq (puts (''Unit00 booting...'' @ nl))
     (kbind (build_address_space kernel_end prog_start prog_end) (\<lambda>pt.
     kseq (enable_traps trap_entry_addr restore_addr)
     (start_init pt)))"

text \<open>\<open>_start\<close>: none when the loop over the statics does not end.\<close>

definition start_kernel ::
  "usize \<Rightarrow> usize \<Rightarrow> PhysAddr \<Rightarrow> usize \<Rightarrow> usize \<Rightarrow> usize \<Rightarrow> usize \<Rightarrow> 'a kernel_state_scheme
    \<Rightarrow> ('b outcome \<times> 'a kernel_state_scheme) option" where
  "start_kernel bss_start bss_end kernel_end prog_start prog_end trap_entry_addr restore_addr s =
     map_option (\<lambda>m. rust_main kernel_end prog_start prog_end trap_entry_addr restore_addr
       (s\<lparr>mem := m, csr_sscratch := 0\<rparr>)) (zero_bss bss_start bss_end (mem s))"

section \<open>Clearing the statics\<close>

lemma sle_small:
  fixes a b :: usize
  assumes "unat a < 2 ^ 63" and "unat b < 2 ^ 63"
  shows "a \<le>s b \<longleftrightarrow> unat a \<le> unat b"
proof -
  have "sint w = uint w" if "unat w < 2 ^ 63" for w :: usize
  proof -
    have "uint w < int (2 ^ 63)" using that unfolding uint_nat of_nat_less_iff .
    then have "uint w < 2 ^ 63" by simp
    moreover have "- (2 ^ 63) \<le> uint w" using uint_ge_0 [of w] by (rule order_trans [rotated]) simp
    ultimately have "signed_take_bit 63 (uint w) = uint w" by (rule signed_take_bit_int_eq_self [rotated])
    moreover have "LENGTH(64) - Suc 0 = 63" by simp
    ultimately show ?thesis unfolding sint_uint by (simp only:)
  qed
  then have "a \<le>s b \<longleftrightarrow> a \<le> b" using assms by (simp add: word_sle_eq word_le_def)
  then show ?thesis by (simp add: word_le_nat_alt)
qed

text \<open>The range that the loop clears: the statics, rounded up to a multiple of eight bytes.\<close>

definition cleared :: "usize \<Rightarrow> usize \<Rightarrow> usize \<Rightarrow> bool" where
  "cleared bss_start bss_end x \<longleftrightarrow> unat bss_start \<le> unat x \<and>
     unat x < unat bss_start + 8 * ((unat bss_end - unat bss_start + 7) div 8)"

lemma zero_bss_run:
  "unat bss_end + 8 \<le> 2 ^ 63 \<Longrightarrow> unat bss_start \<le> unat bss_end + 7 \<Longrightarrow>
    zero_bss bss_start bss_end m = Some (\<lambda>x. if cleared bss_start bss_end x then 0 else m x)"
proof (induction "unat bss_end - unat bss_start" arbitrary: bss_start m rule: less_induct)
  case less
  show ?case
  proof (cases "unat bss_end \<le> unat bss_start")
    case True
    then have "bss_end \<le>s bss_start" using less.prems by (subst sle_small) auto
    moreover have "\<not> cleared bss_start bss_end x" for x using True by (simp add: cleared_def)
    ultimately show ?thesis by (subst zero_bss.simps) simp
  next
    case False
    then have ns: "\<not> bss_end \<le>s bss_start" using less.prems by (subst sle_small) auto
    have u: "unat (bss_start + 8) = unat bss_start + 8"
      using False less.prems by (simp add: unat_word_ariths)
    have ih: "zero_bss (bss_start + 8) bss_end (write_u64 m bss_start 0)
        = Some (\<lambda>x. if cleared (bss_start + 8) bss_end x then 0 else write_u64 m bss_start 0 x)"
      by (rule less.hyps) (use False u less.prems in auto)
    have w: "write_u64 m bss_start 0 x = (if unat bss_start \<le> unat x \<and> unat x < unat bss_start + 8 then 0 else m x)" for x
    proof -
      have "x - bss_start < 8 \<longleftrightarrow> unat bss_start \<le> unat x \<and> unat x < unat bss_start + 8"
        using u False less.prems unat_usize_less [of x] unat_usize_less [of bss_start]
        by (auto simp: word_less_nat_alt unat_sub_if_size word_size)
      then show ?thesis by (simp add: write_u64_def)
    qed
    have "8 * ((n + 7) div 8) = 8 + 8 * ((n - 8 + 7) div 8)" if "0 < n" for n :: nat
    proof (cases "8 \<le> n")
      case True
      then obtain k where "n = 8 + k" by (auto simp: le_iff_add)
      moreover have "(8 + (k + 7)) div 8 = (k + 7) div 8 + 1" by (rule div_add_self1) simp
      ultimately show ?thesis by (simp add: add.assoc)
    next
      case False
      then have "(n + 7) div 8 = 1" using that by (intro div_nat_eqI) simp_all
      then show ?thesis using False by simp
    qed
    from this [of "unat bss_end - unat bss_start"]
    have d: "8 * ((unat bss_end - unat bss_start + 7) div 8) = 8 + 8 * ((unat bss_end - unat (bss_start + 8) + 7) div 8)"
      using u False by simp
    have "cleared (bss_start + 8) bss_end x \<or> unat bss_start \<le> unat x \<and> unat x < unat bss_start + 8 \<longleftrightarrow> cleared bss_start bss_end x" for x
      unfolding cleared_def d u by auto
    then show ?thesis using ns ih w by (subst zero_bss.simps) (auto simp: fun_eq_iff)
  qed
qed

text \<open>C40. The entry code terminates and clears exactly the uninitialised statics. For any \<open>_bss_start\<close> and
  \<open>_bss_end\<close> below the middle of the address space the loop ends; afterwards every byte between the
  two is zero, and no byte is changed below the start or eight or more bytes past the end.\<close>

theorem zero_bss_terminates:
  assumes "unat bss_start \<le> unat bss_end" and "unat bss_end + 8 \<le> 2 ^ 63"
  shows "\<exists>m'. zero_bss bss_start bss_end m = Some m' \<and>
    (\<forall>x. unat bss_start \<le> unat x \<and> unat x < unat bss_end \<longrightarrow> m' x = 0) \<and>
    (\<forall>x. unat x < unat bss_start \<or> unat bss_end + 8 \<le> unat x \<longrightarrow> m' x = m x)"
proof -
  let ?n = "unat bss_end - unat bss_start"
  have "8 * ((?n + 7) div 8) + (?n + 7) mod 8 = ?n + 7" by (rule mult_div_mod_eq)
  moreover have "(?n + 7) mod 8 < 8" by simp
  ultimately have "?n \<le> 8 * ((?n + 7) div 8)" "8 * ((?n + 7) div 8) \<le> ?n + 7" by linarith+
  then show ?thesis
    using zero_bss_run [OF assms(2), of bss_start m] assms(1) by (auto simp: cleared_def)
qed

theorem zero_bss_terminates_witness:
  "\<exists>m'. zero_bss 0x80204000 0x80204103 (\<lambda>_. 0xFF) = Some m' \<and> m' 0x80204102 = 0 \<and> m' 0x80203FFF = 0xFF"
  using zero_bss_terminates [of "0x80204000" "0x80204103" "\<lambda>_. 0xFF"] by auto

end
