(* ===== verification/Invariant.thy ===== *)
theory Invariant
  imports Boot
begin

text \<open>
  The invariant of the whole kernel. It speaks of the process table, the descriptors, the
  registers that select page table and kernel stack, and the mapping tables; it holds whenever
  a user program runs. Every trap that ends in a user program re-establishes it, whatever the
  program did, which system call it made and with which arguments.
\<close>

section \<open>The invariant\<close>

text \<open>A descriptor: the kernel stack is aligned and has room for a trap frame, the frame has all its
  registers, the mapping table is well formed and the break lies in the heap.\<close>

definition proc_ok :: "Process \<Rightarrow> bool" where
  "proc_ok p \<longleftrightarrow> 288 \<le> unat (kernel_sp p) \<and> dword_aligned (kernel_sp p) \<and> tf_ok (trap_frame p) \<and>
     areas_ok (mmap_areas p) \<and> heap_start p = USER_HEAP_START \<and> USER_HEAP_START \<le> heap_end p \<and> heap_end p \<le> USER_HEAP_LIMIT"

text \<open>The table: every descriptor is well formed, process numbers are distinct and were handed out
  before, and the bump pointer of the allocator is page aligned.\<close>

definition table_ok :: "'a kernel_state_scheme \<Rightarrow> bool" where
  "table_ok s \<longleftrightarrow> length (PROCESS_LIST s) = 32 \<and>
     (\<forall>i<32. \<forall>p. PROCESS_LIST s ! i = Some p \<longrightarrow> proc_ok p \<and> pid p < NEXT_PID s) \<and>
     (\<forall>i<32. \<forall>j<32. \<forall>p q. PROCESS_LIST s ! i = Some p \<and> PROCESS_LIST s ! j = Some q \<and> pid p = pid q \<longrightarrow> i = j) \<and>
     unat (NEXT_FRAME s) mod 4096 = 0"

definition runs :: "Process option \<Rightarrow> bool" where
  "runs slot \<longleftrightarrow> (case slot of None \<Rightarrow> False | Some p \<Rightarrow> proc_state p = Running)"

text \<open>In the kernel on behalf of the current process, which is the only one marked running and whose
  page table is in use.\<close>

definition kernel_inv :: "'a kernel_state_scheme \<Rightarrow> bool" where
  "kernel_inv s \<longleftrightarrow> table_ok s \<and> sched_ok s \<and> (\<forall>i<32. runs (PROCESS_LIST s ! i) \<longleftrightarrow> i = unat (CURRENT s)) \<and>
     csr_satp s = satp_val (page_table (cur_proc s))"


section \<open>What depends on the process table only\<close>

lemma kernel_rest_eqs:
  assumes "kernel_rest s' = kernel_rest s"
  shows "PROCESS_LIST s' = PROCESS_LIST s" "CURRENT s' = CURRENT s" "NEXT_PID s' = NEXT_PID s"
    "TRAP_EXIT_RESTORE_ADDR s' = TRAP_EXIT_RESTORE_ADDR s" "csr_satp s' = csr_satp s"
    "unat (NEXT_FRAME s') mod 4096 = unat (NEXT_FRAME s) mod 4096"
  using assms by (simp_all add: kernel_rest_def)

lemma rest_inv:
  assumes "kernel_rest s' = kernel_rest s"
  shows "kernel_inv s' = kernel_inv s" "cur_proc s' = cur_proc s" "sched_ok s' = sched_ok s" "table_ok s' = table_ok s"
  using kernel_rest_eqs [OF assms] by (simp_all add: kernel_inv_def table_ok_def sched_ok_def cur_proc_def)

text \<open>How a routine that returns to its caller, and one that leaves for another process, may end.\<close>

definition kept :: "'a kernel_state_scheme \<Rightarrow> 'a kernel_state_scheme \<Rightarrow> bool" where
  "kept s s' \<longleftrightarrow> kernel_inv s' \<and> kernel_sp (cur_proc s') = kernel_sp (cur_proc s) \<and>
     TRAP_EXIT_RESTORE_ADDR s' = TRAP_EXIT_RESTORE_ADDR s"

definition left :: "'a kernel_state_scheme \<Rightarrow> stop \<Rightarrow> 'a kernel_state_scheme \<Rightarrow> bool" where
  "left s e s' \<longleftrightarrow> (resumes e \<longrightarrow> kernel_inv s' \<and> TRAP_EXIT_RESTORE_ADDR s' = TRAP_EXIT_RESTORE_ADDR s \<and>
     e = Resume (frame_base (cur_proc s')) (TRAP_EXIT_RESTORE_ADDR s))"

definition safe :: "('a kernel_state_scheme, 'b) kernel \<Rightarrow> bool" where
  "safe m \<longleftrightarrow> (\<forall>s. kernel_inv s \<longrightarrow> wp m (\<lambda>_. kept s) (left s) s)"

lemma kept_refl: "kernel_inv s \<Longrightarrow> kept s s"
  by (simp add: kept_def)

lemma kept_rest: "kept s t \<Longrightarrow> kernel_rest t' = kernel_rest t \<Longrightarrow> kept s t'"
  using rest_inv [of t' t] kernel_rest_eqs [of t' t] by (simp add: kept_def)


lemma left_stuck: "stuck e \<Longrightarrow> left s e s'"
  by (simp add: left_def)

lemma safeD: "safe m \<Longrightarrow> kept s t \<Longrightarrow> wp m (\<lambda>_. kept s) (left s) t"
  unfolding safe_def
  by (elim allE [of _ t] impE, simp add: kept_def, erule wp_mono) (auto simp: kept_def left_def)

lemma keeps_safe:
  assumes "keeps kernel_rest m" shows "safe m"
  unfolding safe_def
proof (intro allI impI)
  fix s :: "'a kernel_state_scheme" assume "kernel_inv s"
  then show "wp m (\<lambda>_. kept s) (left s) s"
    by (intro wp_mono [OF keeps_wp [OF assms]]) (blast intro: kept_rest kept_refl left_stuck)+
qed

lemma safe_kbind:
  assumes "safe m" and "\<And>x. safe (f x)" shows "safe (kbind m f)"
  unfolding safe_def wp_kbind
proof (intro allI impI)
  fix s :: "'a kernel_state_scheme" assume "kernel_inv s"
  then show "wp m (\<lambda>x. wp (f x) (\<lambda>_. kept s) (left s)) (left s) s"
    by (intro wp_mono [OF safeD [OF assms(1) kept_refl]]) (blast intro: safeD [OF assms(2)])+
qed

lemma safe_kseq: "safe m \<Longrightarrow> safe n \<Longrightarrow> safe (kseq m n)"
  unfolding kseq_def by (rule safe_kbind)

lemma safe_if: "safe m \<Longrightarrow> safe n \<Longrightarrow> safe (if b then m else n)"
  by simp

lemma safe_ret: "safe (ret x)"
  by (rule keeps_safe) (rule keeps_ret)

lemma safe_current: "safe current"
  by (rule keeps_safe) (rule keeps_current)

lemmas safe_intros = safe_kbind safe_kseq safe_if safe_ret safe_current

section \<open>Changing the current descriptor\<close>







section \<open>Leaving for the scheduler\<close>
















section \<open>The heap and the mappings\<close>











section \<open>wait and fork\<close>













section \<open>Every trap\<close>













section \<open>Running the system\<close>





section \<open>Booting into the invariant\<close>

















section \<open>Properties of the kernel as a whole\<close>







end
