(* ===== verification/UserProg.thy ===== *)
theory UserProg
  imports Invariant
begin

text \<open>
  The built-in user program: the assembly between \<open>user_prog_start\<close> and \<open>user_prog_end\<close> in
  \<open>main.rs\<close>, which the kernel starts as its first process and which tests the kernel from user
  mode. The program is a list of labelled blocks of instructions; the hart executes them in user
  mode, through the translation of \<open>UserMem\<close>, and an \<open>ecall\<close> or a fault enters the kernel by
  \<open>trap_entry\<close>. Where the assembler puts each instruction is a parameter (\<open>addr\<close>, the address
  of the \<open>n\<close>-th): it expands \<open>li\<close> and may compress, and of its work only this is used, that an
  \<open>ecall\<close> takes four bytes and that different instructions have different addresses.
\<close>

section \<open>Instructions\<close>

text \<open>Registers are numbers; these are their names.\<close>

abbreviation (input) sp :: nat where "sp \<equiv> 2"
abbreviation (input) gp :: nat where "gp \<equiv> 3"
abbreviation (input) tp :: nat where "tp \<equiv> 4"
abbreviation (input) t0 :: nat where "t0 \<equiv> 5"
abbreviation (input) t1 :: nat where "t1 \<equiv> 6"
abbreviation (input) t2 :: nat where "t2 \<equiv> 7"
abbreviation (input) s0 :: nat where "s0 \<equiv> 8"
abbreviation (input) s1 :: nat where "s1 \<equiv> 9"
abbreviation (input) a0 :: nat where "a0 \<equiv> 10"
abbreviation (input) a1 :: nat where "a1 \<equiv> 11"
abbreviation (input) a2 :: nat where "a2 \<equiv> 12"
abbreviation (input) a3 :: nat where "a3 \<equiv> 13"
abbreviation (input) a4 :: nat where "a4 \<equiv> 14"
abbreviation (input) a5 :: nat where "a5 \<equiv> 15"
abbreviation (input) a6 :: nat where "a6 \<equiv> 16"
abbreviation (input) a7 :: nat where "a7 \<equiv> 17"
abbreviation (input) s2 :: nat where "s2 \<equiv> 18"
abbreviation (input) s3 :: nat where "s3 \<equiv> 19"
abbreviation (input) s4 :: nat where "s4 \<equiv> 20"
abbreviation (input) s5 :: nat where "s5 \<equiv> 21"
abbreviation (input) s6 :: nat where "s6 \<equiv> 22"
abbreviation (input) s7 :: nat where "s7 \<equiv> 23"
abbreviation (input) s8 :: nat where "s8 \<equiv> 24"
abbreviation (input) s9 :: nat where "s9 \<equiv> 25"
abbreviation (input) s10 :: nat where "s10 \<equiv> 26"
abbreviation (input) s11 :: nat where "s11 \<equiv> 27"
abbreviation (input) t3 :: nat where "t3 \<equiv> 28"
abbreviation (input) t4 :: nat where "t4 \<equiv> 29"
abbreviation (input) t5 :: nat where "t5 \<equiv> 30"
abbreviation (input) t6 :: nat where "t6 \<equiv> 31"

datatype label = User_prog_start | Parent | Child | Sys_fail | Reg_fail

text \<open>Loads and stores have the data register, the offset and the base register, as in \<open>sb rs, off(rb)\<close>.\<close>

datatype instr = LI nat usize | MV nat nat | ADDI nat nat usize | ADD nat nat nat
  | LB nat usize nat | SB nat usize nat | SD nat usize nat
  | BNE nat nat label | BNEZ nat label | BEQZ nat label | ECALL

section \<open>The program\<close>

text \<open>Register preservation across \<open>getpid\<close>.\<close>

definition reg_setup :: "instr list" where
  "reg_setup = [LI gp 0x3333, LI tp 0x4444, LI t0 0x1005, LI t1 0x1006, LI t2 0x1007, LI s0 0x1008, LI s1 0x1009,
    LI a1 0x200b, LI a2 0x200c, LI a3 0x200d, LI a4 0x200e, LI a5 0x200f, LI a6 0x2010, LI s2 0x1012,
    LI s3 0x1013, LI s4 0x1014, LI s5 0x1015, LI s6 0x1016, LI s7 0x1017, LI s8 0x1018, LI s9 0x1019,
    LI s10 0x101a, LI s11 0x101b, LI t3 0x101c, LI t4 0x101d, LI t5 0x101e, LI t6 0x101f, LI a7 172]"

definition reg_check :: "instr list" where
  "reg_check = [ECALL,
    LI a0 0x3333, BNE gp a0 Reg_fail, LI a0 0x4444, BNE tp a0 Reg_fail, LI a0 0x1005, BNE t0 a0 Reg_fail,
    LI a0 0x1006, BNE t1 a0 Reg_fail, LI a0 0x1007, BNE t2 a0 Reg_fail, LI a0 0x1008, BNE s0 a0 Reg_fail,
    LI a0 0x1009, BNE s1 a0 Reg_fail, LI a0 0x200b, BNE a1 a0 Reg_fail, LI a0 0x200c, BNE a2 a0 Reg_fail,
    LI a0 0x200d, BNE a3 a0 Reg_fail, LI a0 0x200e, BNE a4 a0 Reg_fail, LI a0 0x200f, BNE a5 a0 Reg_fail,
    LI a0 0x2010, BNE a6 a0 Reg_fail, LI a0 0x1012, BNE s2 a0 Reg_fail, LI a0 0x1013, BNE s3 a0 Reg_fail,
    LI a0 0x1014, BNE s4 a0 Reg_fail, LI a0 0x1015, BNE s5 a0 Reg_fail, LI a0 0x1016, BNE s6 a0 Reg_fail,
    LI a0 0x1017, BNE s7 a0 Reg_fail, LI a0 0x1018, BNE s8 a0 Reg_fail, LI a0 0x1019, BNE s9 a0 Reg_fail,
    LI a0 0x101a, BNE s10 a0 Reg_fail, LI a0 0x101b, BNE s11 a0 Reg_fail, LI a0 0x101c, BNE t3 a0 Reg_fail,
    LI a0 0x101d, BNE t4 a0 Reg_fail, LI a0 0x101e, BNE t5 a0 Reg_fail, LI a0 0x101f, BNE t6 a0 Reg_fail]"

definition greeting :: "instr list" where
  "greeting = [ADDI sp sp (- 16), LI t0 0x0a4b4f, SD t0 0 sp, LI a7 64, LI a0 1, MV a1 sp, LI a2 3, ECALL, ADDI sp sp 16]"

text \<open>The system calls one after the other.\<close>

definition uname_test :: "instr list" where
  "uname_test = [LI a7 160, MV a0 sp, ECALL, BNEZ a0 Sys_fail]"

definition cwd_test :: "instr list" where
  "cwd_test = [LI a7 17, MV a0 sp, LI a1 16, ECALL, LI t0 2, BNE a0 t0 Sys_fail, LB t0 0 sp, LI t1 47,
    BNE t0 t1 Sys_fail, LB t0 1 sp, BNEZ t0 Sys_fail]"

definition id_test :: "instr list" where
  "id_test = [LI a7 173, ECALL, BNEZ a0 Sys_fail,
    LI a7 178, ECALL, LI t0 1, BNE a0 t0 Sys_fail,
    LI a7 174, ECALL, BNEZ a0 Sys_fail,
    LI a7 64, LI a0 9, MV a1 sp, LI a2 1, ECALL, LI t0 (- 9), BNE a0 t0 Sys_fail,
    LI a7 9999, ECALL, LI t0 (- 38), BNE a0 t0 Sys_fail]"

definition brk_test :: "instr list" where
  "brk_test = [LI a7 214, LI a0 0, ECALL, LI t0 0x20000, BNE a0 t0 Sys_fail,
    LI a7 214, LI a0 0x20008, ECALL, LI t0 0x20008, BNE a0 t0 Sys_fail, LI t0 0x20000, LI t1 0x5a,
    SB t1 0 t0, LB t2 0 t0, BNE t1 t2 Sys_fail,
    LI a7 214, LI a0 0x22000, ECALL, LI t0 0x22000, BNE a0 t0 Sys_fail, LI t0 0x21000, LI t1 0x33,
    SB t1 0 t0, LB t2 0 t0, BNE t1 t2 Sys_fail,
    LI a7 214, LI a0 0x20000, ECALL, LI t0 0x20000, BNE a0 t0 Sys_fail,
    LI a7 214, LI a0 0x3f000000, ECALL, LI t0 0x20000, BNE a0 t0 Sys_fail]"

definition mmap_test :: "instr list" where
  "mmap_test = [LI a7 222, LI a0 0, LI a1 8192, LI a2 3, LI a3 0x22, LI a4 (- 1), LI a5 0, ECALL, LI t0 0x3e000000,
    BNE a0 t0 Sys_fail, MV s0 a0, LI t1 0x66, SB t1 0 s0, LB t2 0 s0, BNE t1 t2 Sys_fail, LI t1 0x77,
    LI t0 4096, ADD t0 s0 t0, SB t1 0 t0, LB t2 0 t0, BNE t1 t2 Sys_fail,
    LI a7 215, MV a0 s0, LI a1 4096, ECALL, BNEZ a0 Sys_fail, LI t0 4096, ADD t0 s0 t0, LI t1 0x55,
    SB t1 0 t0, LB t2 0 t0, BNE t1 t2 Sys_fail,
    LI a7 215, LI t0 4096, ADD a0 s0 t0, LI a1 4096, ECALL, BNEZ a0 Sys_fail,
    LI a7 215, ADDI a0 s0 1, LI a1 4096, ECALL, LI t0 (- 22), BNE a0 t0 Sys_fail,
    LI a7 222, LI a0 0, LI a1 4096, LI a2 3, LI a3 0x2, LI a4 (- 1), LI a5 0, ECALL, LI t0 (- 38),
    BNE a0 t0 Sys_fail]"

definition sys_test :: "instr list" where
  "sys_test = [ADDI sp sp (- 512)] @ uname_test @ cwd_test @ id_test @ brk_test @ mmap_test @ [ADDI sp sp 512]"

definition fork_test :: "instr list" where
  "fork_test = [LI a7 220, ECALL,
    BEQZ a0 Child]"

definition parent_code :: "instr list" where
  "parent_code = [ADDI sp sp (- 16), LI a7 260, MV a0 sp, ECALL,
    LI a7 93, LI a0 0, ECALL]"

definition child_code :: "instr list" where
  "child_code = [LI a7 93, LI a0 42, ECALL]"

definition sys_fail_code :: "instr list" where
  "sys_fail_code = [ADDI sp sp 512, ADDI sp sp (- 16), LI t0 0x0a4653, SD t0 0 sp, LI a7 64, LI a0 1, MV a1 sp, LI a2 3,
    ECALL, ADDI sp sp 16, LI a7 93, LI a0 1, ECALL]"

definition reg_fail_code :: "instr list" where
  "reg_fail_code = [ADDI sp sp (- 16), LI t0 0x0a4652, SD t0 0 sp, LI a7 64, LI a0 1, MV a1 sp, LI a2 3, ECALL,
    ADDI sp sp 16, LI a7 93, LI a0 1, ECALL]"

definition user_prog :: "(label \<times> instr list) list" where
  "user_prog = [(User_prog_start, reg_setup @ reg_check @ greeting @ sys_test @ fork_test), (Parent, parent_code), (Child, child_code),
     (Sys_fail, sys_fail_code), (Reg_fail, reg_fail_code)]"

definition user_code :: "instr list" where
  "user_code = concat (map snd user_prog)"

text \<open>The position of a label: the instructions of the blocks before it.\<close>

definition label_pos :: "label \<Rightarrow> nat" where
  "label_pos l = length (concat (map snd (takeWhile (\<lambda>b. fst b \<noteq> l) user_prog)))"

section \<open>Execution in user mode\<close>

definition get_reg :: "program \<Rightarrow> nat \<Rightarrow> usize" where
  "get_reg prog r = gpr prog ! r"

definition set_reg :: "nat \<Rightarrow> usize \<Rightarrow> program \<Rightarrow> program" where
  "set_reg r v prog = (if r = 0 then prog else prog\<lparr>gpr := (gpr prog)[r := v]\<rparr>)"

definition user_trap :: "usize \<Rightarrow> usize \<Rightarrow> program \<Rightarrow> ('a kernel_state_scheme, program) kernel" where
  "user_trap cause tval prog = kbind (gets TRAP_EXIT_RESTORE_ADDR) (\<lambda>restore. trap_entry restore prog cause tval)"

text \<open>An access to memory: the physical address, or the trap of that kind of access.\<close>

definition user_mem :: "access \<Rightarrow> usize \<Rightarrow> program \<Rightarrow> (PhysAddr \<Rightarrow> ('a kernel_state_scheme, program) kernel) \<Rightarrow> ('a kernel_state_scheme, program) kernel" where
  "user_mem acc a prog f = kbind (gets (hw_translate User acc a)) (\<lambda>r.
     case r of None \<Rightarrow> user_trap (case acc of Fetch \<Rightarrow> 12 | Load \<Rightarrow> 13 | Store \<Rightarrow> 15) a prog | Some pa \<Rightarrow> f pa)"

fun exec_instr :: "(nat \<Rightarrow> usize) \<Rightarrow> nat \<Rightarrow> instr \<Rightarrow> program \<Rightarrow> ('a kernel_state_scheme, program) kernel" where
  "exec_instr addr n (LI rd v) prog = ret (set_reg rd v prog\<lparr>pc := addr (Suc n)\<rparr>)"
| "exec_instr addr n (MV rd rs) prog = ret (set_reg rd (get_reg prog rs) prog\<lparr>pc := addr (Suc n)\<rparr>)"
| "exec_instr addr n (ADDI rd rs v) prog = ret (set_reg rd (get_reg prog rs + v) prog\<lparr>pc := addr (Suc n)\<rparr>)"
| "exec_instr addr n (ADD rd r1 r2) prog = ret (set_reg rd (get_reg prog r1 + get_reg prog r2) prog\<lparr>pc := addr (Suc n)\<rparr>)"
| "exec_instr addr n (LB rd off rb) prog = user_mem Load (get_reg prog rb + off) prog (\<lambda>pa.
     kbind (gets (\<lambda>s. mem s pa)) (\<lambda>b. ret (set_reg rd (scast b) prog\<lparr>pc := addr (Suc n)\<rparr>)))"
| "exec_instr addr n (SB rs off rb) prog = user_mem Store (get_reg prog rb + off) prog (\<lambda>pa.
     kseq (modify (\<lambda>s. s\<lparr>mem := (mem s)(pa := ucast (get_reg prog rs))\<rparr>)) (ret (prog\<lparr>pc := addr (Suc n)\<rparr>)))"
| "exec_instr addr n (SD rs off rb) prog = (let a = get_reg prog rb + off in
     if \<not> dword_aligned a then user_trap 6 a prog
     else user_mem Store a prog (\<lambda>pa. kseq (store64 pa (get_reg prog rs)) (ret (prog\<lparr>pc := addr (Suc n)\<rparr>))))"
| "exec_instr addr n (BNE r1 r2 l) prog = ret (prog\<lparr>pc := addr (if get_reg prog r1 \<noteq> get_reg prog r2 then label_pos l else Suc n)\<rparr>)"
| "exec_instr addr n (BNEZ r l) prog = ret (prog\<lparr>pc := addr (if get_reg prog r \<noteq> 0 then label_pos l else Suc n)\<rparr>)"
| "exec_instr addr n (BEQZ r l) prog = ret (prog\<lparr>pc := addr (if get_reg prog r = 0 then label_pos l else Suc n)\<rparr>)"
| "exec_instr addr n ECALL prog = user_trap 8 0 prog"

text \<open>One instruction: it has to be fetched, and outside the program there is none.\<close>

definition user_step :: "(nat \<Rightarrow> usize) \<Rightarrow> program \<Rightarrow> ('a kernel_state_scheme, program) kernel" where
  "user_step addr prog = user_mem Fetch (pc prog) prog (\<lambda>_.
     case position (\<lambda>n. addr n = pc prog) [0..<length user_code] of
       None \<Rightarrow> user_trap 2 0 prog
     | Some n \<Rightarrow> exec_instr addr n (user_code ! n) prog)"

primrec user_run :: "(nat \<Rightarrow> usize) \<Rightarrow> nat \<Rightarrow> program \<Rightarrow> ('a kernel_state_scheme, program) kernel" where
  "user_run addr 0 prog = ret prog"
| "user_run addr (Suc k) prog = kbind (user_step addr prog) (user_run addr k)"

text \<open>What is used of the assembler.\<close>

definition layout_ok :: "(nat \<Rightarrow> usize) \<Rightarrow> bool" where
  "layout_ok addr \<longleftrightarrow> inj_on addr {..length user_code} \<and> addr 0 = USER_CODE_BASE \<and>
     (\<forall>n < length user_code. user_code ! n = ECALL \<longrightarrow> addr (Suc n) = addr n + 4)"

end
