(* ===== verification/Buffers.thy ===== *)
theory Buffers
  imports Syscall
begin

text \<open>
  Specifications of the calls that pass buffers (\<open>syscall.rs\<close>): \<open>write\<close> transmits the bytes that the
  program sees in its buffer, \<open>getcwd\<close> and \<open>uname\<close> change the buffer and nothing else.
\<close>

section \<open>The check of a range without copying\<close>

text \<open>On behalf of a program: its page table is in use.\<close>

definition in_call :: "PhysAddr set \<Rightarrow> 'a kernel_state_scheme \<Rightarrow> bool" where
  "in_call R s \<longleftrightarrow> sched_ok s \<and> world_ok s R \<and> cur_root s \<in> R \<and> csr_satp s = satp_val (page_table (cur_proc s))"

lemma in_callD:
  assumes "in_call R s"
  shows "sched_ok s" "world_ok s R" "cur_root s \<in> R" "csr_satp s = satp_val (page_table (cur_proc s))" "space_ok s (cur_root s)"
  using assms world_space by (auto simp: in_call_def)

lemma ensure_page_accepts:
  assumes ok: "sched_ok s" and p: "user_page_ok wr (pte_of (tables s) (cur_root s) page)"
  shows "ensure_page wr page s = (Val (Inr ()), s)"
proof -
  obtain ea where ea: "lookup_addr (tables s) (cur_root s) page = Some ea" using p by (auto simp: user_page_ok_def pte_of_def split: option.splits)
  then have "user_page_ok wr (tables s ea)" using p by (simp add: pte_of_def)
  then have "wp (ensure_page wr page) (\<lambda>r t. r = Inr () \<and> t = s) (\<lambda>_ _. False) s"
    by (auto simp: ensure_page_def wp_simps wp_current [OF ok] lookup_def ea user_page_ok_def)
  from wp_returns [OF this] show ?thesis by simp
qed

lemma ensure_loop_accepts:
  assumes ok: "sched_ok s" and "page_aligned page" and "page \<le> page_of fin"
    and "\<forall>pg. page_aligned pg \<and> page \<le> pg \<and> pg \<le> page_of fin \<longrightarrow> user_page_ok wr (pte_of (tables s) (cur_root s) pg)"
  shows "ensure_loop wr fin page s = (Val (Inr ()), s)"
  using assms(2-)
proof (induction page rule: page_loop_induct)
  case (1 page)
  have run: "ensure_page wr page s = (Val (Inr ()), s)" by (rule ensure_page_accepts [OF ok]) (use "1.prems" in simp)
  show ?case
  proof (cases "page_of fin \<le> page")
    case False
    have al: "4096 dvd unat page" "4096 dvd unat (page_of fin)" "unat page < unat (page_of fin)"
      using False "1.prems"(1) page_aligned_page_of [of fin] by (auto simp: page_aligned_iff_dvd word_le_nat_alt)
    then have gap: "unat page + 4096 \<le> unat (page_of fin)" by (auto elim!: dvdE)
    then have nov: "\<not> add_overflows page 4096"
      using unat_usize_less [of "page_of fin"] by (simp add: add_overflows_def)
    then have nx: "unat (page + 4096) = unat page + 4096" by (simp add: unat_add_no_overflow)
    have "ensure_loop wr fin (page + 4096) s = (Val (Inr ()), s)"
    proof (rule "1.IH" [OF nov])
      show "page_aligned (page + 4096)" "page + 4096 \<le> page_of fin" using gap nx al(1) by (simp_all add: page_aligned_iff_dvd word_le_nat_alt)
      have "page \<le> page + 4096" by (simp add: word_le_nat_alt nx)
      then show "\<forall>pg. page_aligned pg \<and> page + 4096 \<le> pg \<and> pg \<le> page_of fin \<longrightarrow> user_page_ok wr (pte_of (tables s) (cur_root s) pg)"
        using "1.prems"(3) by (meson order_trans)
    qed
    then show ?thesis using False nov run by (simp add: ensure_loop.simps [of wr fin page s])
  qed (use run in \<open>simp add: ensure_loop.simps [of wr fin page s]\<close>)
qed

text \<open>The bytes of a buffer.\<close>

definition within :: "VirtAddr \<Rightarrow> usize \<Rightarrow> VirtAddr set" where
  "within buf len = {a. unat buf \<le> unat a \<and> unat a < unat buf + unat len}"

definition buffer_ok :: "bool \<Rightarrow> VirtAddr \<Rightarrow> usize \<Rightarrow> 'a kernel_state_scheme \<Rightarrow> bool" where
  "buffer_ok wr buf len s \<longleftrightarrow> len = 0 \<or> buf \<noteq> 0 \<and> unat buf + unat len \<le> 2 ^ 64 \<and>
     (\<forall>a\<in>within buf len. user_page_ok wr (pte_of (tables s) (cur_root s) a))"

lemma ensure_user_range_accepts:
  assumes ok: "sched_ok s" and b: "buffer_ok wr buf len s"
  shows "ensure_user_range buf len wr s = (Val (Inr ()), s)"
proof (cases "len = 0")
  case False
  then have b: "buf \<noteq> 0" "unat buf + unat len \<le> 2 ^ 64" "\<And>a. a \<in> within buf len \<Longrightarrow> user_page_ok wr (pte_of (tables s) (cur_root s) a)"
    using b by (simp_all add: buffer_ok_def)
  have l1: "unat (len - 1) = unat len - 1" "0 < unat len" "\<not> len < 1"
    using False by (auto simp: unat_sub word_le_nat_alt word_less_nat_alt unat_eq_0 [symmetric] Suc_le_eq)
  have nov: "\<not> add_overflows buf (len - 1)" using b(2) l1 by (simp add: add_overflows_def)
  let ?fin = "buf + (len - 1)"
  have uf: "unat ?fin + 1 = unat buf + unat len" using unat_add_no_overflow [OF nov] l1 by simp
  have "ensure_loop wr ?fin (page_of buf) s = (Val (Inr ()), s)"
  proof (rule ensure_loop_accepts [OF ok page_aligned_page_of])
    show "page_of buf \<le> page_of ?fin" using uf l1 by (simp add: word_le_nat_alt unat_page_of div_le_mono)
    show "\<forall>pg. page_aligned pg \<and> page_of buf \<le> pg \<and> pg \<le> page_of ?fin \<longrightarrow> user_page_ok wr (pte_of (tables s) (cur_root s) pg)"
    proof (intro allI impI)
      fix pg assume pg: "page_aligned pg \<and> page_of buf \<le> pg \<and> pg \<le> page_of ?fin"
      show "user_page_ok wr (pte_of (tables s) (cur_root s) pg)"
      proof (cases "pg \<le> buf")
        case True
        then have "page_of buf = pg" using pg by (auto simp: word_le_nat_alt unat_page_of word_unat_eq_iff page_aligned_iff_dvd elim!: dvdE)
        then have "same_page buf pg" using vpn_same_page_of [of buf pg] pg by (simp add: page_of_id)
        moreover have "user_page_ok wr (pte_of (tables s) (cur_root s) buf)" using l1 by (intro b(3)) (simp add: within_def)
        ultimately show ?thesis using pte_same_page [of buf pg] by simp
      next
        case False
        have "unat pg \<le> unat ?fin div 4096 * 4096" using pg by (simp only: word_le_nat_alt unat_page_of)
        also have "\<dots> \<le> unat ?fin" by (rule div_times_less_eq_dividend)
        finally have "unat pg \<le> unat ?fin" .
        then show ?thesis using False uf by (intro b(3)) (simp add: within_def word_le_nat_alt)
      qed
    qed
  qed
  then show ?thesis
    using False b(1) l1(3) nov by (simp add: ensure_user_range_def kbind_def usub_def ret_def checked_add_def)
qed (simp add: ensure_user_range_def ret_def)

section \<open>Access to user memory\<close>

text \<open>With \<open>sstatus.SUM\<close> set the kernel reaches what the program reaches, at the same place.\<close>

lemma translate_super:
  assumes "in_call R s" and "acc \<noteq> Fetch" and "hw_translate User acc a s = Some pa"
  shows "hw_translate (Supervisor True) acc a s = Some pa" "is_u (pte_of (tables s) (cur_root s) a)"
    "pa = ppn_to_addr (pte_of (tables s) (cur_root s) a) + (a - page_of a)" "canonical a"
    "access_ok acc (pte_of (tables s) (cur_root s) a)" "view (mem s) (cur_root s) a = Some (mem s pa)"
proof -
  note tr = hw_translate_pte [OF in_callD(2-4) [OF assms(1)], where acc = acc and va = a]
  show "hw_translate (Supervisor True) acc a s = Some pa" and u: "is_u (pte_of (tables s) (cur_root s) a)"
    and pa: "pa = ppn_to_addr (pte_of (tables s) (cur_root s) a) + (a - page_of a)" and "canonical a"
    and "access_ok acc (pte_of (tables s) (cur_root s) a)"
    using assms(2,3) by (auto simp: tr hw_leaf_def leaf_ok_def split: if_splits)
  show "view (mem s) (cur_root s) a = Some (mem s pa)" using u pa by (simp add: view_def Let_def)
qed

lemma sum_set: "(x OR SSTATUS_SUM) AND SSTATUS_SUM \<noteq> 0"
proof
  assume "(x OR SSTATUS_SUM) AND SSTATUS_SUM = 0"
  then have "\<not> bit ((x OR SSTATUS_SUM) AND SSTATUS_SUM) 18" by simp
  then show False by (simp add: SSTATUS_SUM_def bit_simps)
qed

lemma wp_with_user_access:
  "wp (with_user_access m) Q E s = wp m (\<lambda>x t. Q x (t\<lparr>csr_sstatus := csr_sstatus t AND NOT SSTATUS_SUM\<rparr>)) E
    (s\<lparr>csr_sstatus := csr_sstatus s OR SSTATUS_SUM\<rparr>)"
proof -
  have "wp (kseq (modify (\<lambda>s. s\<lparr>csr_sstatus := csr_sstatus s AND NOT SSTATUS_SUM\<rparr>)) (ret x)) Q E =
      (\<lambda>t. Q x (t\<lparr>csr_sstatus := csr_sstatus t AND NOT SSTATUS_SUM\<rparr>))" for x by (rule ext) (simp add: wp_simps)
  then show ?thesis unfolding with_user_access_def wp_kseq [of "modify _"] wp_kbind wp_modify by simp
qed

text \<open>The status register afterwards.\<close>

definition access_over :: "'a kernel_state_scheme \<Rightarrow> 'a kernel_state_scheme \<Rightarrow> 'a kernel_state_scheme" where
  "access_over s t = t\<lparr>csr_sstatus := csr_sstatus s AND NOT SSTATUS_SUM\<rparr>"

lemma sum_cleared: "(x OR SSTATUS_SUM) AND NOT SSTATUS_SUM = x AND NOT SSTATUS_SUM"
  by (intro bit_word_eqI) (auto simp: bit_simps)

text \<open>The bytes a program sees in a buffer.\<close>

definition seen :: "'a kernel_state_scheme \<Rightarrow> VirtAddr \<Rightarrow> nat \<Rightarrow> u8 list" where
  "seen s buf n = map (\<lambda>i. the (view (mem s) (cur_root s) (buf + of_nat i))) [0..<n]"

lemma unat_in_buffer: "unat buf + unat len \<le> 2 ^ 64 \<Longrightarrow> i < unat len \<Longrightarrow> unat (buf + of_nat i) = unat buf + i" for buf len :: usize
  by (simp add: unat_word_ariths unat_of_nat)

lemma buffer_index:
  assumes "unat buf + unat len \<le> 2 ^ 64" and "a \<in> within buf len"
  obtains i where "i < unat len" "a = buf + of_nat i"
proof
  show "unat a - unat buf < unat len" using assms(2) by (auto simp: within_def)
  then show "a = buf + of_nat (unat a - unat buf)"
    using assms unat_in_buffer [OF assms(1)] by (simp add: word_unat_eq_iff within_def)
qed

lemma reachable_buffer:
  assumes c: "in_call R s" and b: "buf \<noteq> 0" "unat buf + unat len \<le> 2 ^ 64" and acc: "acc = (if wr then Store else Load)"
    and tr: "\<forall>i < unat len. hw_translate User acc (buf + of_nat i) s \<noteq> None"
  shows "buffer_ok wr buf len s"
  unfolding buffer_ok_def
proof (intro disjI2 conjI ballI b)
  fix a assume "a \<in> within buf len"
  then obtain i where i: "i < unat len" "a = buf + of_nat i" by (rule buffer_index [OF b(2)])
  then obtain pa where "hw_translate User acc a s = Some pa" using tr by blast
  from translate_super(2,5) [OF c _ this] show "user_page_ok wr (pte_of (tables s) (cur_root s) a)"
    by (cases wr) (simp_all add: acc user_page_ok_def)
qed

section \<open>write\<close>

lemma sent_mem:
  assumes "sent bs s t"
  shows "mem t = mem s"
proof -
  obtain i ou where "t = s\<lparr>uart_in := i, uart_out := ou\<rparr>" using assms unfolding sent_def uart_only_def by blast
  then show ?thesis by simp
qed

lemma write_loop_wp:
  assumes c: "in_call R s" and tr: "\<forall>i<n. hw_translate User Load (buf + of_nat i) s \<noteq> None"
  shows "wp (with_user_access (for_each [0..<n] (\<lambda>i. kbind (user_load (buf + of_nat i)) putchar)))
    (\<lambda>_ t. \<exists>t'. sent (seen s buf n) s t' \<and> t = access_over s t')
    (\<lambda>e t. e = Device_wait \<and> mem t = mem s \<and> tx_ready s < n) s"
  unfolding wp_with_user_access
proof -
  let ?s = "s\<lparr>csr_sstatus := csr_sstatus s OR SSTATUS_SUM\<rparr>"
  let ?I = "\<lambda>i t. sent (seen s buf i) ?s t \<and> (n \<le> tx_ready s \<longrightarrow> tx_ready s = i + tx_ready t)"
  have step: "wp (kbind (user_load (buf + of_nat i)) putchar) (\<lambda>_. ?I (Suc i)) (\<lambda>e t. e = Device_wait \<and> mem t = mem s \<and> tx_ready s < n) t"
    if i: "i < n" and I: "?I i t" for i t
  proof -
    have t: "sent (seen s buf i) ?s t" using I by blast
    let ?a = "buf + of_nat i"
    obtain pa where pa: "hw_translate User Load ?a s = Some pa" using tr i by blast
    note sup = translate_super [OF c _ pa]
    have "uart_only ?s t" using t by (simp add: sent_def)
    then have tt: "t = ?s\<lparr>uart_in := uart_in t, uart_out := uart_out t\<rparr>" unfolding uart_only_def .
    have same: "mem t = mem s" "csr_satp t = csr_satp s" "svpbmt t = svpbmt s" "csr_sstatus t = csr_sstatus s OR SSTATUS_SUM"
      by (subst tt; simp)+
    have "kernel_mode t = Supervisor True" unfolding kernel_mode_def same(4) using sum_set [of "csr_sstatus s"] by simp
    moreover have "hw_translate (Supervisor True) Load ?a t = Some pa" using sup(1) [simplified] unfolding hw_translate_def same .
    ultimately have ld: "wp (user_load ?a) Q E t = Q (mem s pa) t" for Q E
      by (simp add: user_load_def wp_simps same)
    have snoc: "seen s buf (Suc i) = seen s buf i @ [mem s pa]" using sup(6) by (simp add: seen_def)
    have sent': "sent (seen s buf (Suc i)) ?s u" if "sent [mem s pa] t u" for u using sent_trans [OF t that] snoc by simp
    show ?thesis
    proof (cases "n \<le> tx_ready s")
      case True
      then have "1 \<le> tx_ready t" using I i by linarith
      from wp_conj [OF emitsD [OF emits_putchar, where s = t] deliversD [OF delivers_putchar [folded putchar_def] this]] show ?thesis
        unfolding wp_kbind ld by (rule wp_mono) (use sent' I True in auto)
    next
      case False
      show ?thesis
        unfolding wp_kbind ld by (rule wp_mono [OF emitsD [OF emits_putchar]]) (use sent' False same(1) in \<open>auto dest!: sent_mem\<close>)
    qed
  qed
  have "wp (for_each [0..<n] (\<lambda>i. kbind (user_load (buf + of_nat i)) putchar)) (\<lambda>_. ?I n) (\<lambda>e t. e = Device_wait \<and> mem t = mem s \<and> tx_ready s < n) ?s"
  proof (rule wp_for_upt [where I = ?I])
    show "?I 0 ?s" by (simp add: seen_def sent_Nil tx_ready_def)
  qed (use step in auto)
  then show "wp (for_each [0..<n] (\<lambda>i. kbind (user_load (buf + of_nat i)) putchar))
      (\<lambda>_ t. \<exists>t'. sent (seen s buf n) s t' \<and> t\<lparr>csr_sstatus := csr_sstatus t AND NOT SSTATUS_SUM\<rparr> = access_over s t')
      (\<lambda>e t. e = Device_wait \<and> mem t = mem s \<and> tx_ready s < n) ?s"
  proof (rule wp_mono)
    fix t assume "?I n t"
    then have t: "sent (seen s buf n) ?s t" by blast
    then have "uart_only ?s t" by (simp add: sent_def)
    then have tt: "t = ?s\<lparr>uart_in := uart_in t, uart_out := uart_out t\<rparr>" unfolding uart_only_def .
    let ?t = "t\<lparr>csr_sstatus := csr_sstatus s\<rparr>"
    have "?t = s\<lparr>uart_in := uart_in ?t, uart_out := uart_out ?t\<rparr>" by (subst tt) simp
    then have "sent (seen s buf n) s ?t" using t unfolding sent_def uart_only_def by simp
    moreover have "csr_sstatus t = csr_sstatus s OR SSTATUS_SUM" by (subst tt) simp
    ultimately show "\<exists>t'. sent (seen s buf n) s t' \<and> t\<lparr>csr_sstatus := csr_sstatus t AND NOT SSTATUS_SUM\<rparr> = access_over s t'"
      by (intro exI [of _ ?t]) (simp add: access_over_def sum_cleared)
  qed
qed

lemma sys_write_wp:
  assumes c: "in_call R s" and fd: "fd = 1 \<or> fd = 2" and b: "len = 0 \<or> buf \<noteq> 0" "unat buf + unat len \<le> 2 ^ 64"
    and tr: "\<forall>i < unat len. hw_translate User Load (buf + of_nat i) s \<noteq> None"
  shows "wp (sys_write fd buf len) (\<lambda>v t. v = len \<and> (\<exists>t'. sent (seen s buf (unat len)) s t' \<and> t = access_over s t'))
    (\<lambda>e t. e = Device_wait \<and> mem t = mem s \<and> tx_ready s < unat len) s"
proof -
  have "buffer_ok False buf len s" using reachable_buffer [OF c _ b(2), of Load False] b(1) tr by (cases "len = 0") (auto simp: buffer_ok_def)
  note acc = ensure_user_range_accepts [OF in_callD(1) [OF c] this]
  show ?thesis
    unfolding sys_write_def using fd
    by (auto simp: wp_kbind [of "ensure_user_range _ _ _"] wp_def [of "ensure_user_range _ _ _"] acc wp_kseq wp_ret intro!: wp_mono [OF write_loop_wp [OF c tr]])
qed

section \<open>Filling a buffer\<close>

text \<open>The buffer at \<open>buf\<close> of the current program holds \<open>bs\<close>, and nothing else that any program sees,
  and no page of the kernel, has changed.\<close>

definition stored :: "PhysAddr set \<Rightarrow> VirtAddr \<Rightarrow> u8 list \<Rightarrow> 'a kernel_state_scheme \<Rightarrow> 'a kernel_state_scheme \<Rightarrow> bool" where
  "stored R buf bs s t \<longleftrightarrow> (\<exists>m. t = s\<lparr>mem := m\<rparr>) \<and> world_ok t R \<and> kernel_kept R s t \<and> (\<forall>n. frames_has n s \<longrightarrow> frames_has n t) \<and>
     (\<forall>r\<in>R. \<forall>a. pte_of (tables t) r a = pte_of (tables s) r a) \<and>
     (\<forall>r\<in>R. \<forall>a. canonical a \<longrightarrow> view (mem t) r a =
        (if r = cur_root s \<and> unat (a - buf) < length bs then Some (bs ! unat (a - buf)) else view (mem s) r a))"

lemma cur_mem [simp]: "cur_proc (s\<lparr>mem := m\<rparr>) = cur_proc s" "sched_ok (s\<lparr>mem := m\<rparr>) = sched_ok s"
  by (simp_all add: cur_proc_def sched_ok_def)

lemma stored_in_call:
  assumes "in_call R s" and "stored R buf bs s t"
  shows "in_call R t" "cur_proc t = cur_proc s" "csr_sstatus t = csr_sstatus s" "hw_translate mode acc a t = hw_translate mode acc a s"
proof -
  obtain m where t: "t = s\<lparr>mem := m\<rparr>" using assms(2) by (auto simp: stored_def)
  show c: "in_call R t" using assms by (auto simp: in_call_def stored_def)
  show "cur_proc t = cur_proc s" "csr_sstatus t = csr_sstatus s" by (simp_all add: t)
  have "pte_of (tables t) (cur_root s) a = pte_of (tables s) (cur_root s) a" using assms by (simp add: stored_def in_call_def)
  then show "hw_translate mode acc a t = hw_translate mode acc a s"
    using hw_translate_pte [OF in_callD(2-4) [OF assms(1)], of mode acc a] hw_translate_pte [OF in_callD(2-4) [OF c], of mode acc a]
    by (simp add: t)
qed

lemma stored_Nil: "in_call R s \<Longrightarrow> stored R buf [] s s"
  by (auto simp: stored_def in_call_def kernel_kept_refl intro: exI [of _ "mem s"])

lemma user_byte:
  assumes c: "in_call R s" and tr: "hw_translate User Store a s = Some pa"
  shows "stored R a [b] s (s\<lparr>mem := (mem s)(pa := b)\<rparr>)"
proof -
  let ?e = "pte_of (tables s) (cur_root s) a" and ?m = "(mem s)(pa := b)"
  note k = in_callD [OF c] and sup = translate_super [OF c _ tr]
  have u: "is_u ?e" "is_w ?e" and pa: "pa = ppn_to_addr ?e + (a - page_of a)" and can: "canonical a" using sup by simp_all
  note uw = user_write [OF k(2,3) u, of ?m b, unfolded pa [symmetric], OF refl]
  have pg: "page_of pa = ppn_to_addr ?e" unfolding pa by (rule page_of_mapped)
  have lf: "live s (ppn_to_addr ?e)" "\<And>r. r \<in> R \<Longrightarrow> \<not> is_table (tables s) r (ppn_to_addr ?e)" using world_leaf(3,4) [OF k(2,3) u(1)] by auto
  have out: "?m x = mem s x" if "page_of x \<noteq> ppn_to_addr ?e" for x using that pg by auto
  note pw = page_write_world [OF k(2) lf out]
  have "kernel_kept R s (s\<lparr>mem := ?m\<rparr>)"
    unfolding kernel_kept_def
  proof (intro allI impI conjI)
    fix q assume q: "kernel_page s R q"
    have "live (s\<lparr>mem := ?m\<rparr>) = live s" by (simp add: live_def fun_eq_iff)
    then show "kernel_page (s\<lparr>mem := ?m\<rparr>) R q" using q by (simp add: kernel_page_def pw(2,3))
    fix x assume "page_of x = q"
    moreover have "ppn_to_addr ?e \<noteq> q" using q u(1) k(3) unfolding kernel_page_def by blast
    ultimately have "x \<noteq> pa" using pg by auto
    then show "mem (s\<lparr>mem := ?m\<rparr>) x = mem s x" by simp
  qed
  moreover have "frames_has n (s\<lparr>mem := ?m\<rparr>)" if "frames_has n s" for n
    by (rule kcount.has_write [OF that]) (use lf(1) pg in auto)
  moreover have "view ?m r x = (if r = cur_root s \<and> unat (x - a) < length [b] then Some ([b] ! unat (x - a)) else view (mem s) r x)"
    if "r \<in> R" "canonical x" for r x
    using uw(3) [OF that(1), of x] canonical_inj [OF that(2) can] by (auto simp: same_page_def unat_eq_0)
  ultimately show ?thesis using uw(1,2) unfolding stored_def by auto
qed

lemma wp_user_store:
  assumes "in_call R s" and "csr_sstatus s AND SSTATUS_SUM \<noteq> 0" and "hw_translate User Store a s = Some pa"
  shows "wp (user_store a b) Q E s = Q () (s\<lparr>mem := (mem s)(pa := b)\<rparr>)"
  using translate_super(1) [OF assms(1) _ assms(3)] assms(2) by (simp add: user_store_def wp_simps kernel_mode_def)

text \<open>Writing part of a buffer again.\<close>

definition patch :: "nat \<Rightarrow> u8 list \<Rightarrow> u8 list \<Rightarrow> u8 list" where
  "patch off ys xs = take off xs @ ys @ drop (off + length ys) xs"

lemma length_patch: "off + length ys \<le> length xs \<Longrightarrow> length (patch off ys xs) = length xs"
  by (simp add: patch_def)

lemma nth_patch: "off + length ys \<le> length xs \<Longrightarrow> i < length xs \<Longrightarrow>
    patch off ys xs ! i = (if off \<le> i \<and> i < off + length ys then ys ! (i - off) else xs ! i)"
  by (auto simp: patch_def nth_append)

lemma unat_off: "off \<le> unat d \<Longrightarrow> unat (d - of_nat off) = unat d - off" for d :: usize
  using unat_sub [of "of_nat off" d] unat_usize_less [of d] by (simp add: word_le_nat_alt unat_of_nat)

lemma unat_before: "unat d < off \<Longrightarrow> off + n \<le> 2 ^ 64 \<Longrightarrow> n \<le> unat (d - of_nat off)" for d :: usize
proof -
  assume d: "unat d < off" "off + n \<le> 2 ^ 64"
  show ?thesis
  proof (cases "off < 2 ^ 64")
    case True
    then have "unat (d - of_nat off) = (2 ^ 64 - off) + unat d" using d(1) by (simp add: unat_sub_if' unat_of_nat)
    then show ?thesis using d by simp
  qed (use d in simp)
qed

lemma stored_trans:
  assumes s: "stored R buf xs s t" and t: "stored R (buf + of_nat off) ys t u" and le: "length xs < 2 ^ 64" "off \<le> length xs"
  shows "off + length ys \<le> length xs \<Longrightarrow> stored R buf (patch off ys xs) s u"
    and "off = length xs \<Longrightarrow> length xs + length ys \<le> 2 ^ 64 \<Longrightarrow> stored R buf (xs @ ys) s u"
proof -
  have c: "cur_root t = cur_root s" using s by (auto simp: stored_def)
  obtain m m' where "t = s\<lparr>mem := m\<rparr>" "u = t\<lparr>mem := m'\<rparr>" using s t unfolding stored_def by blast
  then have u: "\<exists>m. u = s\<lparr>mem := m\<rparr>" by (intro exI [of _ m']) simp
  have base: "world_ok u R \<and> kernel_kept R s u \<and> (\<forall>n. frames_has n s \<longrightarrow> frames_has n u) \<and> (\<forall>r\<in>R. \<forall>a. pte_of (tables u) r a = pte_of (tables s) r a)"
    using s t kernel_kept_trans unfolding stored_def by metis
  have off: "a - (buf + of_nat off) = (a - buf) - of_nat off" for a by simp
  have v: "view (mem u) r a = (if r = cur_root s then
      (if unat (a - (buf + of_nat off)) < length ys then Some (ys ! unat (a - (buf + of_nat off)))
       else if unat (a - buf) < length xs then Some (xs ! unat (a - buf)) else view (mem s) r a) else view (mem s) r a)"
    if "r \<in> R" "canonical a" for r a
    using s t that unfolding stored_def c by auto
  show "stored R buf (patch off ys xs) s u" if o: "off + length ys \<le> length xs"
  proof -
    have "view (mem u) r a = (if r = cur_root s \<and> unat (a - buf) < length (patch off ys xs) then Some (patch off ys xs ! unat (a - buf)) else view (mem s) r a)"
      if ra: "r \<in> R" "canonical a" for r a
    proof (cases "off \<le> unat (a - buf)")
      case True
      then show ?thesis using v [OF ra] o unat_off [OF True] unfolding off by (auto simp: length_patch nth_patch)
    next
      case False
      then have "length ys \<le> unat (a - buf - of_nat off)" using o le by (intro unat_before) auto
      then show ?thesis using v [OF ra] o False unfolding off by (auto simp: length_patch nth_patch)
    qed
    then show ?thesis using u base unfolding stored_def by blast
  qed
  show "stored R buf (xs @ ys) s u" if o: "off = length xs" "length xs + length ys \<le> 2 ^ 64"
  proof -
    have "view (mem u) r a = (if r = cur_root s \<and> unat (a - buf) < length (xs @ ys) then Some ((xs @ ys) ! unat (a - buf)) else view (mem s) r a)"
      if ra: "r \<in> R" "canonical a" for r a
    proof (cases "off \<le> unat (a - buf)")
      case True
      then show ?thesis using v [OF ra] o unat_off [OF True] unfolding off by (auto simp: nth_append)
    next
      case False
      then have "length ys \<le> unat (a - buf - of_nat off)" using o by (intro unat_before) auto
      then show ?thesis using v [OF ra] o False unfolding off by (auto simp: nth_append)
    qed
    then show ?thesis using u base unfolding stored_def by blast
  qed
qed

lemma user_copy_wp:
  assumes c: "in_call R s" and sum: "csr_sstatus s AND SSTATUS_SUM \<noteq> 0" and len: "length bs < 2 ^ 64"
    and tr: "\<forall>i < length bs. hw_translate User Store (buf + of_nat i) s \<noteq> None"
  shows "wp (user_copy bs buf) (\<lambda>_. stored R buf bs s) (\<lambda>_ _. False) s"
proof -
  have "wp (user_copy bs buf) (\<lambda>_. stored R buf (take (length bs) bs) s) (\<lambda>_ _. False) s"
    unfolding user_copy_def
  proof (rule wp_for_upt)
    show "stored R buf (take 0 bs) s s" using stored_Nil [OF c] by simp
    fix i t assume i: "i < length bs" and t: "stored R buf (take i bs) s t"
    note tc = stored_in_call [OF c t]
    obtain pa where pa: "hw_translate User Store (buf + of_nat i) t = Some pa" using tr i tc(4) by auto
    have "take (Suc i) bs = take i bs @ [bs ! i]" using i by (rule take_Suc_conv_app_nth)
    then have "stored R buf (take (Suc i) bs) s (t\<lparr>mem := (mem t)(pa := bs ! i)\<rparr>)"
      using stored_trans(2) [OF t user_byte [OF tc(1) pa]] i len by simp
    then show "wp (user_store (buf + of_nat i) (bs ! i)) (\<lambda>_. stored R buf (take (Suc i) bs) s) (\<lambda>_ _. False) t"
      using wp_user_store [OF tc(1) _ pa] sum tc(3) by simp
  qed simp
  then show ?thesis by simp
qed

text \<open>Bytes stored side by side.\<close>

definition put_bytes :: "memory \<Rightarrow> PhysAddr \<Rightarrow> u8 list \<Rightarrow> memory" where
  "put_bytes m pa bs = (\<lambda>x. if unat (x - pa) < length bs then bs ! unat (x - pa) else m x)"

definition dword_bytes :: "u64 \<Rightarrow> u8 list" where
  "dword_bytes v = map (\<lambda>i. ucast (drop_bit (8 * i) v)) [0..<8]"

lemma put_bytes_snoc:
  assumes "length bs < 2 ^ 64"
  shows "put_bytes m pa (bs @ [b]) = (put_bytes m pa bs)(pa + of_nat (length bs) := b)"
proof
  fix x
  have "x = pa + of_nat (length bs) \<longleftrightarrow> unat (x - pa) = length bs"
  proof
    assume "unat (x - pa) = length bs"
    then have "x - pa = of_nat (length bs)" using assms by (simp add: word_unat_eq_iff unat_of_nat)
    then show "x = pa + of_nat (length bs)" by (simp add: algebra_simps)
  qed (use assms in \<open>simp add: unat_of_nat\<close>)
  then show "put_bytes m pa (bs @ [b]) x = ((put_bytes m pa bs)(pa + of_nat (length bs) := b)) x"
    by (auto simp: put_bytes_def nth_append)
qed

lemma write_u64_bytes: "write_u64 m pa v = put_bytes m pa (dword_bytes v)"
  by (auto simp: write_u64_def put_bytes_def dword_bytes_def word_less_nat_alt fun_eq_iff)

lemma stored_bytes:
  assumes c: "in_call R s" and len: "length bs < 2 ^ 64"
    and tr: "\<forall>i<length bs. hw_translate User Store (a + of_nat i) s = Some (pa + of_nat i)"
  shows "stored R a bs s (s\<lparr>mem := put_bytes (mem s) pa bs\<rparr>)"
  using len tr
proof (induction bs rule: rev_induct)
  case Nil
  then show ?case using stored_Nil [OF c] by (simp add: put_bytes_def)
next
  case (snoc b bs)
  let ?t = "s\<lparr>mem := put_bytes (mem s) pa bs\<rparr>"
  have t: "stored R a bs s ?t" using snoc by simp
  note tc = stored_in_call [OF c t]
  have "hw_translate User Store (a + of_nat (length bs)) ?t = Some (pa + of_nat (length bs))" using snoc.prems(2) tc(4) by simp
  from stored_trans(2) [OF t user_byte [OF tc(1) this, of b]] show ?case
    using snoc.prems(1) put_bytes_snoc [of bs "mem s" pa b] by (simp del: fun_upd_apply)
qed

text \<open>An aligned double word lies in one page.\<close>

lemma translate_dword:
  assumes c: "in_call R s" and tr: "hw_translate User Store a s = Some pa" and al: "dword_aligned a" and i: "i < 8"
  shows "hw_translate User Store (a + of_nat i) s = Some (pa + of_nat i)"
proof -
  let ?b = "a + of_nat i"
  note sup = translate_super [OF c _ tr] and hw = hw_translate_pte [OF in_callD(2-4) [OF c], where mode = User and acc = Store]
  have pg: "page_of ?b = page_of a" using al i by (intro dword_page) (simp_all add: word_less_nat_alt unat_of_nat)
  then have "same_page a ?b" by (intro vpn_same_page_of) simp
  then have pte: "pte_of (tables s) (cur_root s) ?b = pte_of (tables s) (cur_root s) a" by (metis pte_same_page)
  have "canonical x \<longleftrightarrow> unat x div 4096 < 2 ^ 26 \<or> 2 ^ 52 - 2 ^ 26 \<le> unat x div 4096" for x
    by (simp add: canonical_def div_less_iff_less_mult less_eq_div_iff_mult_less_eq)
  then have "canonical ?b" using sup(4) pg [unfolded page_of_eq_iff] by simp
  moreover have "hw_leaf (svpbmt s) User Store (pte_of (tables s) (cur_root s) a)" using tr by (simp add: hw split: if_splits)
  ultimately show ?thesis using sup(3) by (simp add: hw pte pg algebra_simps)
qed

section \<open>getcwd and uname\<close>

lemma status_world:
  "world_ok (s\<lparr>csr_sstatus := v\<rparr>) R = world_ok s R" "kernel_page (s\<lparr>csr_sstatus := v\<rparr>) R k = kernel_page s R k"
  "cur_proc (s\<lparr>csr_sstatus := v\<rparr>) = cur_proc s" "in_call R (s\<lparr>csr_sstatus := v\<rparr>) = in_call R s"
  "hw_translate mode acc a (s\<lparr>csr_sstatus := v\<rparr>) = hw_translate mode acc a s" "frames_has n (s\<lparr>csr_sstatus := v\<rparr>) = frames_has n s"
proof -
  have fe: "frames_eq s (s\<lparr>csr_sstatus := v\<rparr>)" by (simp add: frames_eq_def)
  show w: "world_ok (s\<lparr>csr_sstatus := v\<rparr>) R = world_ok s R" "kernel_page (s\<lparr>csr_sstatus := v\<rparr>) R k = kernel_page s R k"
    using world_eq(4,5) [OF fe] by auto
  show c: "cur_proc (s\<lparr>csr_sstatus := v\<rparr>) = cur_proc s" by (simp add: cur_proc_def)
  show "in_call R (s\<lparr>csr_sstatus := v\<rparr>) = in_call R s" by (simp add: in_call_def w c) (simp add: sched_ok_def)
  show "hw_translate mode acc a (s\<lparr>csr_sstatus := v\<rparr>) = hw_translate mode acc a s" by (simp add: hw_translate_def)
  show "frames_has n (s\<lparr>csr_sstatus := v\<rparr>) = frames_has n s"
    unfolding frames_has_def frames_inv_def world_eq(1) [OF fe] by simp
qed

lemma stored_access:
  assumes "stored R buf bs (s\<lparr>csr_sstatus := csr_sstatus s OR SSTATUS_SUM\<rparr>) t"
  shows "\<exists>t'. stored R buf bs s t' \<and> t\<lparr>csr_sstatus := csr_sstatus t AND NOT SSTATUS_SUM\<rparr> = access_over s t'"
proof -
  obtain m where t: "t = s\<lparr>csr_sstatus := csr_sstatus s OR SSTATUS_SUM, mem := m\<rparr>" using assms by (auto simp: stored_def)
  let ?t = "s\<lparr>mem := m\<rparr>"
  have tt: "t = ?t\<lparr>csr_sstatus := csr_sstatus s OR SSTATUS_SUM\<rparr>" by (simp add: t)
  have "t\<lparr>csr_sstatus := csr_sstatus t AND NOT SSTATUS_SUM\<rparr> = access_over s ?t" by (simp add: t access_over_def sum_cleared)
  moreover have "stored R buf bs s ?t" using assms unfolding stored_def kernel_kept_def tt status_world by auto
  ultimately show ?thesis by blast
qed

lemma buffer_call_wp:
  assumes c: "in_call R s" and b: "buffer_ok True buf len s"
    and m: "wp m (\<lambda>_. stored R buf bs (s\<lparr>csr_sstatus := csr_sstatus s OR SSTATUS_SUM\<rparr>)) (\<lambda>_ _. False) (s\<lparr>csr_sstatus := csr_sstatus s OR SSTATUS_SUM\<rparr>)"
  shows "wp (kbind (ensure_user_range buf len True) (\<lambda>r. case r of Inl errno \<Rightarrow> ret errno | Inr _ \<Rightarrow> kseq (with_user_access m) (ret v)))
    (\<lambda>w t. w = v \<and> (\<exists>t'. stored R buf bs s t' \<and> t = access_over s t')) (\<lambda>_ _. False) s"
proof -
  have "wp (with_user_access m) (\<lambda>_ t. \<exists>t'. stored R buf bs s t' \<and> t = access_over s t') (\<lambda>_ _. False) s"
    unfolding wp_with_user_access by (rule wp_mono [OF m]) (simp_all add: stored_access)
  moreover have "wp (ret v) Q E = Q v" for Q :: "usize \<Rightarrow> 'a kernel_state_scheme \<Rightarrow> bool" and E by (rule ext) (rule wp_ret)
  ultimately show ?thesis
    by (simp add: wp_kbind [of "ensure_user_range _ _ _"] wp_def [of "ensure_user_range _ _ _"] ensure_user_range_accepts [OF in_callD(1) [OF c] b] wp_kseq)
qed

definition writable :: "VirtAddr \<Rightarrow> nat \<Rightarrow> 'a kernel_state_scheme \<Rightarrow> bool" where
  "writable buf n s \<longleftrightarrow> buf \<noteq> 0 \<and> unat buf + n \<le> 2 ^ 64 \<and> (\<forall>i<n. hw_translate User Store (buf + of_nat i) s \<noteq> None)"

lemma writable_buffer: "in_call R s \<Longrightarrow> writable buf (unat len) s \<Longrightarrow> buffer_ok True buf len s"
  using reachable_buffer [of R s buf len Store True] by (simp add: writable_def)

lemma sys_getcwd_wp:
  assumes c: "in_call R s" and w: "writable buf 2 s" and n: "2 \<le> unat n"
  shows "wp (sys_getcwd buf n) (\<lambda>v t. v = 2 \<and> (\<exists>t'. stored R buf [47, 0] s t' \<and> t = access_over s t')) (\<lambda>_ _. False) s"
proof -
  let ?s = "s\<lparr>csr_sstatus := csr_sstatus s OR SSTATUS_SUM\<rparr>"
  have cwd: "CWD = [47, 0]" by (simp add: CWD_def bytes_of_def)
  have "wp (user_copy CWD buf) (\<lambda>_. stored R buf CWD ?s) (\<lambda>_ _. False) ?s"
    by (rule user_copy_wp) (use c w sum_set in \<open>simp_all add: cwd status_world writable_def\<close>)
  from buffer_call_wp [OF c _ this, of 2 2] show ?thesis
    using writable_buffer [OF c, of buf 2] w n by (simp add: sys_getcwd_def cwd)
qed

text \<open>The structure that \<open>uname\<close> returns: six fields of 65 bytes, each a string filled up with zeros.\<close>

definition uts_strings :: "string list" where
  "uts_strings = [''Unit00'', ''unit00'', ''0.1.0'', ''oskernel-2026 stage-1'', ''riscv64'', ''localdomain'']"

definition uts_field :: "string \<Rightarrow> u8 list" where
  "uts_field str = bytes_of str @ replicate (65 - length str) 0"

definition uts_image :: "u8 list" where
  "uts_image = concat (map uts_field uts_strings)"

lemma for_each_cong: "(\<And>i. i \<in> set is \<Longrightarrow> f i = g i) \<Longrightarrow> for_each is f = for_each is g"
  by (induction "is") auto

lemma user_fill_copy: "user_fill buf b n = user_copy (replicate (unat n) b) buf"
  unfolding user_fill_def user_copy_def length_replicate by (rule for_each_cong) simp

text \<open>A field that fits is written at its place.\<close>

lemma write_uts_field_wp:
  assumes c: "in_call R s" and sum: "csr_sstatus s AND SSTATUS_SUM \<noteq> 0" and w: "writable buf 390 s"
    and t: "stored R buf xs s t" "length xs = 390" and i: "unat i < 6" and v: "length val \<le> 64"
  shows "wp (write_uts_field buf i val) (\<lambda>_. stored R buf (patch (65 * unat i) val xs) s) (\<lambda>_ _. False) t"
proof -
  note tc = stored_in_call [OF c t(1)]
  let ?off = "65 * unat i"
  have off: "i * UTS_FIELD_LEN = of_nat ?off" by (simp add: UTS_FIELD_LEN_def)
  have "wp (user_copy val (buf + of_nat ?off)) (\<lambda>_. stored R (buf + of_nat ?off) val t) (\<lambda>_ _. False) t"
  proof (rule user_copy_wp [OF tc(1)])
    show "\<forall>k<length val. hw_translate User Store (buf + of_nat ?off + of_nat k) t \<noteq> None"
    proof (intro allI impI)
      fix k assume "k < length val"
      then have "?off + k < 390" using i v by simp
      then have "hw_translate User Store (buf + of_nat (?off + k)) s \<noteq> None" using w unfolding writable_def by blast
      then show "hw_translate User Store (buf + of_nat ?off + of_nat k) t \<noteq> None" by (simp add: tc(4) add.assoc)
    qed
  qed (use sum tc(3) v in simp_all)
  then have "wp (user_copy val (buf + of_nat ?off)) (\<lambda>_. stored R buf (patch ?off val xs) s) (\<lambda>_ _. False) t"
    by (rule wp_mono) (use stored_trans(1) [OF t(1)] t(2) i v in simp_all)
  moreover have "unat i * unat UTS_FIELD_LEN < 2 ^ 64" using i by (simp add: UTS_FIELD_LEN_def)
  ultimately show ?thesis
    using v by (simp add: write_uts_field_def Let_def wp_kbind umul_def wp_ret off) (simp add: UTS_FIELD_LEN_def)
qed

lemma uts_patched:
  "patch 325 (bytes_of ''localdomain'') (patch 260 (bytes_of ''riscv64'') (patch 195 (bytes_of ''oskernel-2026 stage-1'')
     (patch 130 (bytes_of ''0.1.0'') (patch 65 (bytes_of ''unit00'') (patch 0 (bytes_of ''Unit00'') (replicate 390 0)))))) = uts_image"
  by code_simp

lemma sys_uname_wp:
  assumes c: "in_call R s" and w: "writable buf 390 s"
  shows "wp (sys_uname buf) (\<lambda>v t. v = 0 \<and> (\<exists>t'. stored R buf uts_image s t' \<and> t = access_over s t')) (\<lambda>_ _. False) s"
proof -
  let ?s = "s\<lparr>csr_sstatus := csr_sstatus s OR SSTATUS_SUM\<rparr>"
  have c': "in_call R ?s" "writable buf 390 ?s" using c w by (simp_all add: status_world writable_def)
  have sum: "csr_sstatus ?s AND SSTATUS_SUM \<noteq> 0" using sum_set by simp
  have size: "UTS_SIZE = 390" by (simp add: UTS_SIZE_def UTS_FIELD_LEN_def UTS_FIELDS_def)
  have fill: "wp (user_fill buf 0 UTS_SIZE) (\<lambda>_. stored R buf (replicate 390 0) ?s) (\<lambda>_ _. False) ?s"
    unfolding user_fill_copy size by (rule wp_mono [OF user_copy_wp [OF c'(1) sum]]) (use c'(2) in \<open>simp_all add: writable_def\<close>)
  have field: "wp (kseq (write_uts_field buf i (bytes_of str)) m) Q (\<lambda>_ _. False) t"
    if "stored R buf xs ?s t" "length xs = 390" "unat i < 6" "length str \<le> 64"
      "\<And>u. stored R buf (patch (65 * unat i) (bytes_of str) xs) ?s u \<Longrightarrow> wp m Q (\<lambda>_ _. False) u" for t i str xs m Q
    unfolding wp_kseq
    by (rule wp_mono [OF write_uts_field_wp [OF c'(1) sum c'(2) that(1-3)]]) (use that(4,5) in \<open>simp_all add: bytes_of_def\<close>)
  have "wp (kseq (user_fill buf 0 UTS_SIZE) (kseq (write_uts_field buf 0 (bytes_of ''Unit00'')) (kseq (write_uts_field buf 1 (bytes_of ''unit00''))
      (kseq (write_uts_field buf 2 (bytes_of ''0.1.0'')) (kseq (write_uts_field buf 3 (bytes_of ''oskernel-2026 stage-1''))
      (kseq (write_uts_field buf 4 (bytes_of ''riscv64'')) (write_uts_field buf 5 (bytes_of ''localdomain''))))))))
      (\<lambda>_. stored R buf uts_image ?s) (\<lambda>_ _. False) ?s"
    unfolding wp_kseq [of "user_fill _ _ _"]
  proof (rule wp_mono [OF fill])
    fix t assume "stored R buf (replicate 390 0) ?s t"
    then show "wp (kseq (write_uts_field buf 0 (bytes_of ''Unit00'')) (kseq (write_uts_field buf 1 (bytes_of ''unit00''))
      (kseq (write_uts_field buf 2 (bytes_of ''0.1.0'')) (kseq (write_uts_field buf 3 (bytes_of ''oskernel-2026 stage-1''))
      (kseq (write_uts_field buf 4 (bytes_of ''riscv64'')) (write_uts_field buf 5 (bytes_of ''localdomain'')))))))
      (\<lambda>_. stored R buf uts_image ?s) (\<lambda>_ _. False) t"
      by - ((rule field, assumption, simp add: length_patch bytes_of_def, simp, simp)+,
        rule wp_mono [OF write_uts_field_wp [OF c'(1) sum c'(2)]], assumption, simp add: length_patch bytes_of_def,
        simp, simp add: bytes_of_def, simp add: uts_patched, simp)
  qed simp
  then show ?thesis
    unfolding sys_uname_def using writable_buffer [OF c, of buf UTS_SIZE] w by (intro buffer_call_wp [OF c]) (simp_all add: size)
qed

section \<open>A mapped page\<close>

lemma in_call_only:
  assumes "in_call R s" and "only R (cur_root s) A s t"
  shows "in_call R t" "cur_proc t = cur_proc s"
proof -
  note k = only_kernel [OF assms(2) in_callD(1) [OF assms(1)]]
  have "above_frames t = above_frames s" using assms(2) by (simp add: only_def)
  then show "in_call R t" "cur_proc t = cur_proc s" using assms(1) k above_frames_kernel(6) [of t s] by (auto simp: in_call_def)
qed

lemma zeroed_translates:
  assumes c: "in_call R s" and z: "zeroed (cur_root s) A (PTEFlags_new r w x True) s" and a: "a \<in> A" "canonical a"
    and acc: "case acc of Fetch \<Rightarrow> x | Load \<Rightarrow> r | Store \<Rightarrow> r \<and> w" "r \<or> x" "w \<longrightarrow> r"
  shows "hw_translate User acc a s \<noteq> None"
proof -
  obtain p where p: "frame_ok p" "pte_of (tables s) (cur_root s) a = new_leaf p (PTEFlags_new r w x True)"
    using z a(1) by (auto simp: zeroed_def)
  have "hw_leaf (svpbmt s) User acc (new_leaf p (PTEFlags_new r w x True))"
    using new_leaf_reserved [OF p(1)] new_leaf_reads [of p r w x True] p(1) acc
    by (auto simp: hw_leaf_def leaf_ok_def frame_ok_def is_managed_unat split: access.splits)
  then show ?thesis using a(2) p(2) hw_translate_pte [OF in_callD(2-4) [OF c], of User acc a] by simp
qed

lemma maps_page:
  assumes c: "in_call R s" and va: "page_aligned va" "unat va < 2 ^ 31" and h: "frames_has (k + 3) s"
    and none: "pte_of (tables s) (cur_root s) va = 0" and perm: "r \<or> x" "w \<longrightarrow> r"
  obtains t where "in_call R t" "only R (cur_root s) {a. same_page va a} s t" "cur_proc t = cur_proc s"
    "zeroed (cur_root s) {a. same_page va a} (PTEFlags_new r w x True) t" "frames_has k t"
proof -
  have v: "unat va < 2 ^ 39" using va(2) by simp
  from wp_returns [OF wp_mono [OF wp_conj [OF map_zeroed_step_wp [OF in_callD(1-3) [OF c] va(1) v user_half [OF va(2)] perm]
      map_zeroed_step_has [OF in_callD(1-3) [OF c] h none]]]]
  obtain t where "only R (cur_root s) {a. same_page va a} s t" "zeroed (cur_root s) {a. same_page va a} (PTEFlags_new r w x True) t" "frames_has k t"
    by force
  with in_call_only [OF c this(1)] show ?thesis using that by blast
qed

text \<open>A program with one page at \<open>0x20000\<close>, for the witnesses.\<close>

lemma buffer_state:
  obtains s :: kernel_state where "in_call {root pt1} s" "cur_root s = root pt1" "tx_ready s = 10"
    "\<And>a acc. unat a div 4096 = 0x20 \<Longrightarrow> acc \<noteq> Fetch \<Longrightarrow> hw_translate User acc a s \<noteq> None"
    "\<And>a. unat a div 4096 = 0x20 \<Longrightarrow> view (mem s) (root pt1) a = Some 0"
proof -
  let ?s = "blank_state\<lparr>csr_satp := satp_val pt1\<rparr>" and ?A = "{a. same_page 0x20000 a}"
  have fe: "frames_eq blank_state ?s" by (simp add: frames_eq_def)
  have p: "page_table proc0 = pt1" by (simp add: proc0_def)
  have cp: "cur_proc ?s = proc0" using blank_facts(2) by (simp add: cur_proc_def)
  then have c: "in_call {root pt1} ?s"
    using blank_facts(1) blank_world world_eq(4) [OF fe] by (simp add: in_call_def p) (simp add: sched_ok_def)
  have h: "frames_has (47 + 3) ?s" using blank_facts(4) unfolding frames_has_def frames_inv_def world_eq(1) [OF fe] by simp
  obtain t where t: "in_call {root pt1} t" "only {root pt1} (root pt1) ?A ?s t" "cur_proc t = proc0"
    "zeroed (root pt1) ?A (PTEFlags_new True True False True) t" "frames_has 47 t"
    by (rule maps_page [OF c _ _ h, where va = "0x20000" and r = True and w = True and x = False]) (simp_all add: page_aligned_def p cp blank_pte)
  let ?t = "t\<lparr>uart_in := (\<lambda>_. replicate 10 0x20)\<rparr>"
  have ft: "frames_eq t ?t" by (simp add: frames_eq_def)
  have ct: "in_call {root pt1} ?t" using t(1) world_eq(4) [OF ft] by (simp add: in_call_def cur_proc_def sched_ok_def)
  have rt: "cur_root ?t = root pt1" using t(3) by (simp add: cur_proc_def p)
  have z: "zeroed (cur_root ?t) ?A (PTEFlags_new True True False True) ?t" using t(4) unfolding rt by (simp add: zeroed_def)
  have A: "a \<in> ?A" "canonical a" if "unat a div 4096 = 0x20" for a
  proof -
    have b: "0x20000 \<le> unat a" "unat a < 0x21000" using that by auto
    then show "canonical a" by (simp add: canonical_def)
    show "a \<in> ?A" using same_page_range [of "0x20000" a] b by (simp add: page_aligned_def)
  qed
  show ?thesis
  proof (rule that [OF ct rt])
    show "tx_ready ?t = 10" by (simp add: tx_ready_def)
    show "hw_translate User acc a ?t \<noteq> None" if "unat a div 4096 = 0x20" "acc \<noteq> Fetch" for a acc
      by (rule zeroed_translates [OF ct z A [OF that(1)]]) (use that(2) in \<open>cases acc; simp\<close>)+
    show "view (mem ?t) (root pt1) a = Some 0" if "unat a div 4096 = 0x20" for a
      using z A(1) [OF that] unfolding rt by (simp add: zeroed_def)
  qed
qed

section \<open>Properties of the buffer calls\<close>

text \<open>C12. Output. For a buffer that the program itself can read, \<open>write\<close> to the console returns its length,
  and the device has received exactly the bytes that the program sees in the buffer, in their
  order; memory is unchanged. The call returns if the device has room for the bytes and can
  otherwise only wait for it. On any other file descriptor it returns \<open>EBADF\<close> and changes nothing.\<close>

theorem write_transmits:
  assumes "in_call R s" and "len = 0 \<or> buf \<noteq> 0" and "unat buf + unat len \<le> 2 ^ 64"
    and "\<forall>i < unat len. hw_translate User Load (buf + of_nat i) s \<noteq> None"
  shows "if fd \<noteq> 1 \<and> fd \<noteq> 2 then sys_write fd buf len s = (Val (linux_error EBADF), s)
    else case sys_write fd buf len s of
        (Val v, t) \<Rightarrow> v = len \<and> mem t = mem s \<and> uart_out t = uart_out s @ map (Pair UART0) (seen s buf (unat len)) \<and> PROCESS_LIST t = PROCESS_LIST s
      | (Exit e, t) \<Rightarrow> e = Device_wait \<and> mem t = mem s \<and> tx_ready s < unat len"
proof (cases "fd \<noteq> 1 \<and> fd \<noteq> 2")
  case False
  have q: "mem t = mem s \<and> uart_out t = uart_out s @ map (Pair UART0) bs \<and> PROCESS_LIST t = PROCESS_LIST s"
    if s: "sent bs s t'" "t = access_over s t'" for bs t t'
  proof -
    obtain i ou where "t' = s\<lparr>uart_in := i, uart_out := ou\<rparr>" using s(1) unfolding sent_def uart_only_def by blast
    then show ?thesis using s by (simp add: access_over_def sent_def)
  qed
  have "wp (sys_write fd buf len) (\<lambda>v t. v = len \<and> mem t = mem s \<and> uart_out t = uart_out s @ map (Pair UART0) (seen s buf (unat len)) \<and>
      PROCESS_LIST t = PROCESS_LIST s) (\<lambda>e t. e = Device_wait \<and> mem t = mem s \<and> tx_ready s < unat len) s"
    by (rule wp_mono [OF sys_write_wp [OF assms(1) _ assms(2-4)]]) (use False q in auto)
  then show ?thesis using False unfolding wp_def by auto
qed (simp add: sys_write_def ret_def)

theorem write_transmits_witness:
  "\<exists>s t :: kernel_state. sys_write 1 0x20000 3 s = (Val 3, t) \<and> uart_out t = uart_out s @ map (Pair UART0) [0, 0, 0] \<and> mem t = mem s"
proof -
  obtain s :: kernel_state where s: "in_call {root pt1} s" "cur_root s = root pt1" "tx_ready s = 10"
    "\<And>a acc. unat a div 4096 = 0x20 \<Longrightarrow> acc \<noteq> Fetch \<Longrightarrow> hw_translate User acc a s \<noteq> None"
    "\<And>a. unat a div 4096 = 0x20 \<Longrightarrow> view (mem s) (root pt1) a = Some 0" by (rule buffer_state) blast
  have a: "unat (0x20000 + of_nat i :: usize) div 4096 = 0x20" if "i < 3" for i using that by (simp add: unat_word_ariths unat_of_nat)
  have "seen s 0x20000 3 = [0, 0, 0]"
    using s(5) [OF a, of 0] s(5) [OF a, of 1] s(5) [OF a, of 2] by (simp add: seen_def s(2) upt_rec)
  moreover have "\<forall>i < unat (3 :: usize). hw_translate User Load (0x20000 + of_nat i) s \<noteq> None" using s(4) [OF a] by simp
  ultimately show ?thesis
    using write_transmits [OF s(1), of 3 "0x20000" 1] s(3) by (auto split: prod.splits outcome.splits)
qed

text \<open>C13. Calls that fill a buffer. For a buffer that the program itself can write, \<open>uname\<close> returns 0 and
  \<open>getcwd\<close>, if the buffer has room, returns 2, and afterwards the program sees there the six
  zero-padded fields of the system description, or the path \<open>/\<close> with its zero byte. No other byte
  that this or any other program sees has changed, no page of the kernel has, and the address
  spaces are well formed.\<close>

theorem buffer_calls_fill:
  assumes "in_call R s"
  shows "(writable buf 390 s \<longrightarrow> (\<exists>t. sys_uname buf s = (Val 0, access_over s t) \<and> stored R buf uts_image s t)) \<and>
    (writable buf 2 s \<and> 2 \<le> unat n \<longrightarrow> (\<exists>t. sys_getcwd buf n s = (Val 2, access_over s t) \<and> stored R buf [47, 0] s t))"
  using wp_returns [OF sys_uname_wp [OF assms]] wp_returns [OF sys_getcwd_wp [OF assms]] by fastforce

theorem buffer_calls_fill_witness:
  "\<exists>s t :: kernel_state. sys_uname 0x20000 s = (Val 0, access_over s t) \<and> view (mem s) (root pt1) 0x20002 = Some 0 \<and>
     view (mem t) (root pt1) 0x20002 = Some 105"
proof -
  obtain s :: kernel_state where s: "in_call {root pt1} s" "cur_root s = root pt1"
    "\<And>a acc. unat a div 4096 = 0x20 \<Longrightarrow> acc \<noteq> Fetch \<Longrightarrow> hw_translate User acc a s \<noteq> None"
    "\<And>a. unat a div 4096 = 0x20 \<Longrightarrow> view (mem s) (root pt1) a = Some 0" by (rule buffer_state) blast
  have a: "unat (0x20000 + of_nat i :: usize) div 4096 = 0x20" if "i < 390" for i using that by (simp add: unat_word_ariths unat_of_nat)
  have "writable 0x20000 390 s" using s(3) [OF a] by (simp add: writable_def)
  with buffer_calls_fill [OF s(1)] obtain t where t: "sys_uname 0x20000 s = (Val 0, access_over s t)" "stored {root pt1} 0x20000 uts_image s t" by blast
  have "uts_image ! 2 = 105" "length uts_image = 390" by code_simp+
  moreover have "canonical 0x20002" by (simp add: canonical_def)
  ultimately have "view (mem t) (root pt1) 0x20002 = Some 105" using t(2) unfolding stored_def by (simp add: s(2))
  with t(1) s(4) [of "0x20002"] show ?thesis by auto
qed

end
