(* ===== verification/ProgRun.thy ===== *)
theory ProgRun
  imports UserProg Buffers LifeSpec
begin

text \<open>
  The kernel and its built-in user program together: straight-line code is executed block by block
  (\<open>block\<close>), an \<open>ecall\<close> goes through the trap entry, the dispatch and the trap exit, and what the
  program does next depends on the values the kernel has put in its registers.
\<close>

section \<open>Running a program\<close>

text \<open>A program runs: its kernel stack is in place and is a page of the kernel, and the hart uses its page table.\<close>

definition running :: "PhysAddr set \<Rightarrow> 'a kernel_state_scheme \<Rightarrow> bool" where
  "running R s \<longleftrightarrow> stack_ready s \<and> world_ok s R \<and> kernel_page s R (stack_page (cur_proc s)) \<and>
     cur_root s \<in> R \<and> csr_satp s = satp_val (page_table (cur_proc s))"

text \<open>Every instruction lies in a page that may be executed.\<close>

definition fetchable :: "(nat \<Rightarrow> usize) \<Rightarrow> 'a kernel_state_scheme \<Rightarrow> bool" where
  "fetchable addr s \<longleftrightarrow> (\<forall>n < length user_code. hw_translate User Fetch (addr n) s \<noteq> None)"

text \<open>The program has \<open>code\<close> from its \<open>n\<close>-th instruction on.\<close>

definition code_at :: "nat \<Rightarrow> instr list \<Rightarrow> bool" where
  "code_at n code \<longleftrightarrow> (\<exists>pre post. user_code = pre @ code @ post \<and> length pre = n)"

lemma code_at_Cons:
  assumes "code_at n (i # code)"
  shows "n < length user_code" "user_code ! n = i" "code_at (Suc n) code"
proof -
  obtain pre post where u: "user_code = pre @ (i # code) @ post" "length pre = n" using assms by (auto simp: code_at_def)
  show "n < length user_code" "user_code ! n = i" using u(2) by (auto simp: u(1))
  have "user_code = (pre @ [i]) @ code @ post" "length (pre @ [i]) = Suc n" by (simp_all add: u)
  then show "code_at (Suc n) code" unfolding code_at_def by blast
qed

lemma code_at_append:
  assumes "code_at n (xs @ ys)"
  shows "code_at n xs" "code_at (n + length xs) ys"
proof -
  obtain pre post where u: "user_code = pre @ (xs @ ys) @ post" "length pre = n" using assms by (auto simp: code_at_def)
  then have "user_code = pre @ xs @ (ys @ post)" "user_code = (pre @ xs) @ ys @ post" "length (pre @ xs) = n + length xs" by simp_all
  then show "code_at n xs" "code_at (n + length xs) ys" unfolding code_at_def using u(2) by blast+
qed

lemma layout_position:
  assumes "layout_ok addr" and "n < length user_code"
  shows "position (\<lambda>k. addr k = addr n) [0..<length user_code] = Some n"
proof -
  have "addr k \<noteq> addr n" if "k < n" for k using assms that by (auto simp: layout_ok_def dest: inj_onD)
  then show ?thesis using assms(2) by (simp add: position_Some)
qed

lemma wp_user_step:
  assumes "layout_ok addr" and "fetchable addr s" and "code_at n (i # code)"
  shows "wp (user_step addr (prog\<lparr>pc := addr n\<rparr>)) Q E s = wp (exec_instr addr n i (prog\<lparr>pc := addr n\<rparr>)) Q E s"
proof -
  note c = code_at_Cons [OF assms(3)]
  obtain pa where "hw_translate User Fetch (addr n) s = Some pa" using assms(2) c(1) by (auto simp: fetchable_def)
  then show ?thesis using layout_position [OF assms(1) c(1)] by (simp add: user_step_def user_mem_def wp_simps c(2))
qed

text \<open>Executing the block \<open>code\<close>, which the program has at position \<open>n\<close>, to its end.\<close>

definition block :: "(nat \<Rightarrow> usize) \<Rightarrow> nat \<Rightarrow> instr list \<Rightarrow> program \<Rightarrow> (program \<Rightarrow> 'a kernel_state_scheme \<Rightarrow> bool) \<Rightarrow>
    (stop \<Rightarrow> 'a kernel_state_scheme \<Rightarrow> bool) \<Rightarrow> 'a kernel_state_scheme \<Rightarrow> bool" where
  "block addr n code prog Q E s \<longleftrightarrow> (code_at n code \<longrightarrow>
     wp (user_run addr (length code) (prog\<lparr>pc := addr n\<rparr>)) (\<lambda>p t. pc p = addr (n + length code) \<and> Q p t) E s)"

lemma set_reg_pc [simp]: "set_reg r v (p\<lparr>pc := a\<rparr>) = (set_reg r v p)\<lparr>pc := a\<rparr>" "get_reg (p\<lparr>pc := a\<rparr>) r = get_reg p r"
  by (simp_all add: set_reg_def get_reg_def)

lemma get_set_reg [simp]:
  "program_ok p \<Longrightarrow> r \<noteq> 0 \<Longrightarrow> r < 32 \<Longrightarrow> get_reg (set_reg r v p) r' = (if r' = r then v else get_reg p r')"
  by (simp add: set_reg_def get_reg_def program_ok_def)

lemma set_reg_ok [simp]: "program_ok p \<Longrightarrow> program_ok (set_reg r v p)" "program_ok p \<Longrightarrow> program_ok (p\<lparr>pc := a\<rparr>)"
  by (simp_all add: set_reg_def program_ok_def)

lemma block_Nil: "Q (prog\<lparr>pc := addr n\<rparr>) s \<Longrightarrow> block addr n [] prog Q E s"
  by (simp add: block_def wp_simps)

lemma block_pc [simp]: "block addr n code (prog\<lparr>pc := a\<rparr>) Q E s = block addr n code prog Q E s"
  by (simp add: block_def)

lemma block_step:
  assumes "layout_ok addr" and "fetchable addr s"
    and "code_at n (i # code) \<Longrightarrow> code_at (Suc n) code \<Longrightarrow> wp (exec_instr addr n i (prog\<lparr>pc := addr n\<rparr>))
    (\<lambda>p. wp (user_run addr (length code) p) (\<lambda>p t. pc p = addr (Suc n + length code) \<and> Q p t) E) E s"
  shows "block addr n (i # code) prog Q E s"
  using assms(3) code_at_Cons(3) by (simp add: block_def wp_kbind wp_user_step [OF assms(1,2)])

lemma block_rules:
  assumes "layout_ok addr" and "fetchable addr s"
  shows "block addr (Suc n) code (set_reg rd v prog) Q E s \<Longrightarrow> block addr n (LI rd v # code) prog Q E s"
    and "block addr (Suc n) code (set_reg rd (get_reg prog rs) prog) Q E s \<Longrightarrow> block addr n (MV rd rs # code) prog Q E s"
    and "block addr (Suc n) code (set_reg rd (get_reg prog rs + v) prog) Q E s \<Longrightarrow> block addr n (ADDI rd rs v # code) prog Q E s"
    and "block addr (Suc n) code (set_reg rd (get_reg prog r1 + get_reg prog r2) prog) Q E s \<Longrightarrow> block addr n (ADD rd r1 r2 # code) prog Q E s"
    and "get_reg prog r1 = get_reg prog r2 \<Longrightarrow> block addr (Suc n) code prog Q E s \<Longrightarrow> block addr n (BNE r1 r2 l # code) prog Q E s"
    and "get_reg prog r = 0 \<Longrightarrow> block addr (Suc n) code prog Q E s \<Longrightarrow> block addr n (BNEZ r l # code) prog Q E s"
    and "get_reg prog r \<noteq> 0 \<Longrightarrow> block addr (Suc n) code prog Q E s \<Longrightarrow> block addr n (BEQZ r l # code) prog Q E s"
  by (rule block_step [OF assms]; simp add: block_def wp_ret)+

lemma user_run_add:
  "wp (user_run addr (j + k) prog) Q E = wp (user_run addr j prog) (\<lambda>p. wp (user_run addr k p) Q E) E"
proof (induction j arbitrary: prog)
  case (Suc j)
  show ?case unfolding add_Suc user_run.simps by (rule ext) (simp only: wp_kbind Suc.IH)
qed (simp add: wp_ret fun_eq_iff)

lemma block_append:
  assumes "block addr n xs prog (\<lambda>p. block addr (n + length xs) ys p Q E) E s"
  shows "block addr n (xs @ ys) prog Q E s"
  unfolding block_def
proof
  assume "code_at n (xs @ ys)"
  note c = code_at_append [OF this]
  have at: "pc p = a \<Longrightarrow> p\<lparr>pc := a\<rparr> = p" for p :: program and a by simp
  show "wp (user_run addr (length (xs @ ys)) (prog\<lparr>pc := addr n\<rparr>)) (\<lambda>p t. pc p = addr (n + length (xs @ ys)) \<and> Q p t) E s"
    unfolding length_append user_run_add
    by (rule wp_mono [OF assms [unfolded block_def, rule_format, OF c(1)]]) (use c(2) in \<open>auto simp: at add.assoc\<close>)
qed

lemma block_mono:
  assumes "block addr n code prog Q E s" and "\<And>p t. Q p t \<Longrightarrow> Q' p t" and "\<And>e t. E e t \<Longrightarrow> E' e t"
  shows "block addr n code prog Q' E' s"
  unfolding block_def by (intro impI wp_mono [OF assms(1) [unfolded block_def, rule_format]]) (use assms(2,3) in auto)

section \<open>System calls\<close>

text \<open>Writing a trap frame is invisible to programs.\<close>

lemma stack_write:
  assumes W: "world_ok s R" and k: "kernel_page s R (stack_page p)" and m: "\<And>x. 288 \<le> unat (x - frame_base p) \<Longrightarrow> m x = mem s x"
  shows "world_ok (s\<lparr>mem := m\<rparr>) R" and "kernel_page (s\<lparr>mem := m\<rparr>) R q = kernel_page s R q"
    and "r \<in> R \<Longrightarrow> view m r a = view (mem s) r a" and "r \<in> R \<Longrightarrow> pte_of (read_u64 m) r a = pte_of (tables s) r a"
    and "frames_has n s \<Longrightarrow> frames_has n (s\<lparr>mem := m\<rparr>)"
proof -
  have al: "page_aligned (stack_page p)" using k live_aligned by (auto simp: kernel_page_def)
  have out: "m x = mem s x" if "page_of x \<noteq> stack_page p" for x by (rule m [OF frame_in_stack [OF al that]])
  have kp: "live s (stack_page p)" "\<And>r. r \<in> R \<Longrightarrow> \<not> is_table (tables s) r (stack_page p)" using k by (auto simp: kernel_page_def)
  show "r \<in> R \<Longrightarrow> pte_of (read_u64 m) r a = pte_of (tables s) r a" by (rule page_write_world(2) [OF W kp out])
  show "frames_has n s \<Longrightarrow> frames_has n (s\<lparr>mem := m\<rparr>)" by (erule kcount.has_write) (use kp(1) out in metis)
  from kernel_write [OF W k out] show "world_ok (s\<lparr>mem := m\<rparr>) R" "kernel_page (s\<lparr>mem := m\<rparr>) R q = kernel_page s R q"
    "r \<in> R \<Longrightarrow> view m r a = view (mem s) r a" by blast+
qed

text \<open>Two states that differ in what user programs cannot see: trap frames and the registers of the trap path.\<close>

definition alike :: "PhysAddr set \<Rightarrow> 'a kernel_state_scheme \<Rightarrow> 'a kernel_state_scheme \<Rightarrow> bool" where
  "alike R s t \<longleftrightarrow> (\<forall>r\<in>R. \<forall>a. pte_of (tables t) r a = pte_of (tables s) r a \<and> view (mem t) r a = view (mem s) r a) \<and>
     (\<forall>k. kernel_page t R k = kernel_page s R k) \<and> (\<forall>p. frame_ref t p = frame_ref s p) \<and> (\<forall>n. frames_has n s \<longrightarrow> frames_has n t) \<and>
     svpbmt t = svpbmt s \<and> csr_satp t = csr_satp s \<and> CURRENT t = CURRENT s \<and> NEXT_PID t = NEXT_PID s \<and> uart_out t = uart_out s \<and>
     uart_in t = uart_in s \<and> TRAP_EXIT_RESTORE_ADDR t = TRAP_EXIT_RESTORE_ADDR s"

lemma frames_has_eq: "frames_eq s t \<Longrightarrow> frames_has n t = frames_has n s"
  unfolding frames_has_def frames_inv_def world_eq(1) by (simp add: frames_eq_def)

lemma entered_alike:
  assumes "running R s" and "program_ok prog"
  shows "world_ok (entered prog c v s) R" and "alike R s (entered prog c v s)"
proof -
  let ?tf = "frame_of prog c v"
  let ?m = "write_dwords (mem s) (frame_base (cur_proc s)) (tf_dwords ?tf)"
  have r: "world_ok s R" "kernel_page s R (stack_page (cur_proc s))" using assms(1) by (auto simp: running_def)
  note sw = stack_write [OF r, of ?m]
  have out: "?m x = mem s x" if "288 \<le> unat (x - frame_base (cur_proc s))" for x
    using that write_dwords_outside [of "tf_dwords ?tf" x] length_tf_dwords [OF tf_ok_frame_of [OF assms(2)], of c v] by simp
  let ?e = "entered prog c v s"
  have fe: "frames_eq (s\<lparr>mem := ?m\<rparr>) ?e" by (simp add: frames_eq_def entered_def update_slot_def)
  show "world_ok ?e R" using sw(1) out world_eq(4) [OF fe] by simp
  show "alike R s ?e" using sw(2-5) out world_eq(1,5) [OF fe] frames_has_eq [OF fe] by (simp add: alike_def) (simp add: entered_def update_slot_def)
qed


text \<open>What a system call has to keep for its caller to continue: the world, the kernel stacks and the
  registers of the current process.\<close>

definition serves :: "PhysAddr set \<Rightarrow> 'a kernel_state_scheme \<Rightarrow> 'a kernel_state_scheme \<Rightarrow> bool" where
  "serves R s t \<longleftrightarrow> world_ok t R \<and> sched_ok t \<and> kernel_kept R s t \<and> csr_satp t = csr_satp s \<and>
     kernel_sp (cur_proc t) = kernel_sp (cur_proc s) \<and> page_table (cur_proc t) = page_table (cur_proc s)"

lemma in_frame:
  assumes "x - (a + of_nat k) < (8 :: usize)" and "k \<le> 280"
  shows "unat (x - a) < 288"
proof -
  have "x - a = (x - (a + of_nat k)) + of_nat k" by simp
  moreover have "unat (p + q) \<le> unat p + unat q" for p q :: usize by (simp add: unat_word_ariths)
  ultimately have "unat (x - a) \<le> unat (x - (a + of_nat k)) + unat (of_nat k :: usize)" by metis
  moreover have "unat (of_nat k :: usize) = k" using assms(2) by (simp add: unat_of_nat)
  ultimately show ?thesis using assms by (simp add: word_less_nat_alt)
qed

lemma leave_wp:
  assumes R: "running R s" and p: "program_ok prog" and t: "serves R (entered prog 8 0 s) t"
  shows "wp (leave (frame_base (cur_proc s)) v) (\<lambda>p u. p = (set_reg 10 v prog)\<lparr>pc := pc prog + 4\<rparr> \<and> running R u \<and> alike R t u \<and>
    PROCESS_LIST u = PROCESS_LIST t) E t"
proof -
  let ?e = "entered prog 8 0 s" and ?sp = "frame_base (cur_proc s)"
  have r: "stack_ready s" "world_ok s R" "kernel_page s R (stack_page (cur_proc s))" "cur_root s \<in> R" "csr_satp s = satp_val (page_table (cur_proc s))"
    using R by (auto simp: running_def)
  have ok: "sched_ok s" "dword_aligned ?sp" using r(1) by (simp_all add: stack_ready_def frame_base_aligned)
  note ea = entered_alike [OF R p, of 8 0] and ec = entered_cur [OF ok(1), of prog 8 0]
  have d: "world_ok t R" "sched_ok t" "kernel_kept R ?e t" "csr_satp t = csr_satp s" "kernel_sp (cur_proc t) = kernel_sp (cur_proc s)"
    "page_table (cur_proc t) = page_table (cur_proc s)"
    using t ea(2) ec by (simp_all add: serves_def alike_def)
  have kp: "kernel_page ?e R (stack_page (cur_proc s))" using r(3) ea(2) by (simp add: alike_def)
  have st: "stack_page (cur_proc t) = stack_page (cur_proc s)" "frame_base (cur_proc t) = ?sp" by (simp_all add: stack_page_def frame_base_def d(5))
  have kt: "kernel_page t R (stack_page (cur_proc t))" using kp d(3) st by (auto simp: kernel_kept_def)
  have al: "page_aligned (stack_page (cur_proc s))" using r(3) live_aligned by (auto simp: kernel_page_def)
  have same: "mem t x = mem ?e x" if "unat (x - ?sp) < 288" for x
  proof -
    have "page_of x = stack_page (cur_proc s)" using that frame_in_stack [OF al, of x] by linarith
    then show ?thesis using d(3) kp by (auto simp: kernel_kept_def)
  qed
  have "stack_frame (mem t) ?sp = stack_frame (mem ?e) ?sp" by (rule stack_frame_cong) (rule same)
  then have fr: "stack_frame (mem t) ?sp = frame_of prog 8 0" using entered_frame [OF r(1) p] by simp
  let ?m = "write_u64 (write_u64 (mem t) (?sp + 80) v) (?sp + 264) (pc prog + 4)"
  let ?u = "t\<lparr>mem := ?m, csr_sstatus := status prog, csr_sscratch := ?sp + 288\<rparr>"
  have "?m x = mem t x" if "288 \<le> unat (x - frame_base (cur_proc t))" for x
    using that in_frame [of x ?sp 80] in_frame [of x ?sp 264] unfolding st(2) by (auto simp: write_u64_def)
  note sw = stack_write [OF d(1) kt this]
  have fe: "frames_eq (t\<lparr>mem := ?m\<rparr>) ?u" by (simp add: frames_eq_def)
  have ua: "alike R t ?u" using sw(2-5) world_eq(1,5) [OF fe] frames_has_eq [OF fe] by (simp add: alike_def)
  have "sched_ok ?u" "cur_proc ?u = cur_proc t" using d(2) by (simp_all add: sched_ok_def cur_proc_def)
  moreover have "?sp + 288 = kernel_sp (cur_proc s)" by (simp add: frame_base_def TrapFrame_SIZE_def)
  ultimately have "running R ?u"
    using r(1,4,5) d kt sw(1) world_eq(4,5) [OF fe] sw(2) by (simp add: running_def stack_ready_def)
  moreover have "program_of ((frame_of prog 8 0)\<lparr>regs := (regs (frame_of prog 8 0))[10 := v], sepc := pc prog + 4\<rparr>)
      = (set_reg 10 v prog)\<lparr>pc := pc prog + 4\<rparr>"
  proof -
    have "(gpr prog)[0 := 0] = gpr prog" using p by (auto simp: program_ok_def list_update_same_conv)
    then show ?thesis using list_update_swap [of 10 0 "gpr prog" v 0] by (simp add: program_of_def frame_of_def set_reg_def)
  qed
  ultimately show ?thesis using ua by (simp add: wp_leave [OF ok(2)] fr Let_def) (simp add: frame_of_def)
qed

lemma alike_refl: "alike R s s"
  by (simp add: alike_def)

lemma alike_trans: "alike R s t \<Longrightarrow> alike R t u \<Longrightarrow> alike R s u"
  by (simp add: alike_def)

lemma translate_alike:
  assumes "running R s" and "world_ok t R" and "alike R s t"
  shows "hw_translate mode acc a t = hw_translate mode acc a s"
proof -
  let ?pt = "page_table (cur_proc s)"
  have r: "world_ok s R" "root ?pt \<in> R" "csr_satp s = satp_val ?pt" "csr_satp t = satp_val ?pt"
    using assms(1,3) by (auto simp: running_def alike_def)
  show ?thesis
    using assms(3) r(2) hw_translate_pte [OF r(1-3)] hw_translate_pte [OF assms(2) r(2,4)] by (simp add: alike_def)
qed

lemma fetchable_alike: "running R s \<Longrightarrow> world_ok t R \<Longrightarrow> alike R s t \<Longrightarrow> fetchable addr t = fetchable addr s"
  by (simp add: fetchable_def translate_alike)

text \<open>Inside a system call: the state of the caller, with its registers saved.\<close>

definition inside :: "PhysAddr set \<Rightarrow> 'a kernel_state_scheme \<Rightarrow> 'a kernel_state_scheme \<Rightarrow> bool" where
  "inside R s e \<longleftrightarrow> world_ok e R \<and> alike R s e \<and> sched_ok e \<and> (\<exists>tf. cur_proc e = (cur_proc s)\<lparr>trap_frame := tf\<rparr>)"

lemma block_ECALL:
  assumes L: "layout_ok addr" "fetchable addr s" and R: "running R s" and p: "program_ok prog"
    and D: "\<And>e. inside R s e \<Longrightarrow> wp (dispatch (get_reg prog 17) [get_reg prog 10, get_reg prog 11, get_reg prog 12, get_reg prog 13,
        get_reg prog 14, get_reg prog 15]) (\<lambda>v t. serves R e t \<and> P v t) (\<lambda>x t. \<not> resumes x \<and> E x t) e"
    and K: "\<And>v t u. P v t \<Longrightarrow> running R u \<Longrightarrow> alike R t u \<Longrightarrow> PROCESS_LIST u = PROCESS_LIST t \<Longrightarrow>
        block addr (Suc n) code (set_reg 10 v prog) Q E u"
  shows "block addr n (ECALL # code) prog Q E s"
proof (rule block_step [OF L])
  assume C: "code_at n (ECALL # code)" "code_at (Suc n) code"
  let ?p = "prog\<lparr>pc := addr n\<rparr>"
  let ?e = "entered ?p 8 0 s"
  let ?Q = "\<lambda>p. wp (user_run addr (length code) p) (\<lambda>p t. pc p = addr (Suc n + length code) \<and> Q p t) E"
  have ok: "stack_ready s" "sched_ok s" "program_ok ?p" using R p by (simp_all add: running_def stack_ready_def)
  have four: "addr n + 4 = addr (Suc n)" using L(1) code_at_Cons(1,2) [OF C(1)] by (simp add: layout_ok_def)
  have ins: "inside R s ?e"
    using entered_alike [OF R ok(3), of 8 0] entered_sched [of ?p 8 0 s] ok(2) entered_cur [OF ok(2), of ?p 8 0] by (auto simp: inside_def)
  have cur: "wp current Q' E' ?e = Q' ((cur_proc s)\<lparr>trap_frame := frame_of ?p 8 0\<rparr>) ?e" for Q' E'
    using wp_current [of ?e] entered_sched [of ?p 8 0 s] entered_cur [OF ok(2)] ok(2) by simp
  have lv: "wp (leave (frame_base (cur_proc s)) v) ?Q E' t" if t: "serves R ?e t \<and> P v t" for v t E'
  proof (rule wp_mono [OF leave_wp [OF R ok(3), of t v]])
    fix q u assume "q = (set_reg 10 v ?p)\<lparr>pc := pc ?p + 4\<rparr> \<and> running R u \<and> alike R t u \<and> PROCESS_LIST u = PROCESS_LIST t"
    then show "?Q q u" using K [of v t u] t C(2) by (simp add: block_def four)
  qed (use t in auto)
  have reg0: "regs (frame_of ?p 8 0) ! k = get_reg prog k" if "k \<noteq> 0" for k using that by (simp add: frame_of_def get_reg_def)
  have pre: "wp (handle_trap 8 0) Q' E' ?e = wp (dispatch (get_reg prog 17) [get_reg prog 10, get_reg prog 11, get_reg prog 12,
      get_reg prog 13, get_reg prog 14, get_reg prog 15]) Q' E' ?e" for Q' E'
    by (simp add: handle_trap_def wp_kbind cur Let_def reg0)
  have "wp (trap_entry label ?p 8 0) ?Q E s" for label
    unfolding wp_trap_entry [OF ok(1,3)] wp_resume wp_kbind pre
    by (rule wp_mono [OF D [OF ins] lv], assumption, auto simp: resumes_def split: stop.splits)
  then show "wp (exec_instr addr n ECALL ?p) ?Q E s" by (simp add: user_trap_def wp_kbind wp_gets)
qed

text \<open>Back from a call without effect.\<close>

definition steady :: "PhysAddr set \<Rightarrow> 'a kernel_state_scheme \<Rightarrow> 'a kernel_state_scheme \<Rightarrow> bool" where
  "steady R s u \<longleftrightarrow> running R u \<and> alike R s u \<and> (\<exists>tf. cur_proc u = (cur_proc s)\<lparr>trap_frame := tf\<rparr>)"

lemma steady_refl: "running R s \<Longrightarrow> steady R s s"
  unfolding steady_def using alike_refl by (auto intro: exI [of _ "trap_frame (cur_proc s)"])

lemma steady_trans: "steady R s t \<Longrightarrow> steady R t u \<Longrightarrow> steady R s u"
  unfolding steady_def using alike_trans by fastforce

lemma block_quiet:
  assumes L: "layout_ok addr" "fetchable addr s" and R: "running R s" and p: "program_ok prog"
    and D: "\<And>e. inside R s e \<Longrightarrow> dispatch (get_reg prog 17) [get_reg prog 10, get_reg prog 11, get_reg prog 12, get_reg prog 13,
        get_reg prog 14, get_reg prog 15] e = (Val v, e)"
    and K: "\<And>u. steady R s u \<Longrightarrow> fetchable addr u \<Longrightarrow>
        block addr (Suc n) code (set_reg 10 v prog) Q E u"
  shows "block addr n (ECALL # code) prog Q E s"
proof (rule block_ECALL [OF L R p, where P = "\<lambda>w t. w = v \<and> inside R s t"])
  fix e assume e: "inside R s e"
  then have "serves R e e" by (simp add: inside_def serves_def kernel_kept_refl)
  then show "wp (dispatch (get_reg prog 17) [get_reg prog 10, get_reg prog 11, get_reg prog 12, get_reg prog 13,
        get_reg prog 14, get_reg prog 15]) (\<lambda>w t. serves R e t \<and> (w = v \<and> inside R s t)) (\<lambda>x t. \<not> resumes x \<and> E x t) e"
    using e by (simp add: wp_def D [OF e])
next
  fix w t u assume t: "w = v \<and> inside R s t" and u: "running R u" "alike R t u" "PROCESS_LIST u = PROCESS_LIST t"
  have a: "alike R s u" using t u(2) by (auto simp: inside_def intro: alike_trans)
  have "cur_proc u = cur_proc t" using u(2,3) by (simp add: cur_proc_def alike_def)
  then show "block addr (Suc n) code (set_reg 10 w prog) Q E u"
    using K [of u] a t u(1) L(2) fetchable_alike [OF R _ a] by (auto simp: inside_def running_def steady_def)
qed

section \<open>The register test\<close>

definition test_regs :: "(nat \<times> usize) list" where
  "test_regs = [(3, 0x3333), (4, 0x4444), (5, 0x1005), (6, 0x1006), (7, 0x1007), (8, 0x1008), (9, 0x1009), (11, 0x200b), (12, 0x200c),
    (13, 0x200d), (14, 0x200e), (15, 0x200f), (16, 0x2010), (18, 0x1012), (19, 0x1013), (20, 0x1014), (21, 0x1015), (22, 0x1016),
    (23, 0x1017), (24, 0x1018), (25, 0x1019), (26, 0x101a), (27, 0x101b), (28, 0x101c), (29, 0x101d), (30, 0x101e), (31, 0x101f)]"

lemma reg_setup_regs: "reg_setup = map (\<lambda>(r, v). LI r v) (test_regs @ [(17, 172)])"
  by (simp add: reg_setup_def test_regs_def)

lemma reg_check_regs: "reg_check = ECALL # concat (map (\<lambda>(r, v). [LI a0 v, BNE r a0 Reg_fail]) test_regs)"
  by (simp add: reg_check_def test_regs_def)

definition set_regs :: "(nat \<times> usize) list \<Rightarrow> program \<Rightarrow> program" where
  "set_regs rs prog = fold (\<lambda>(r, v). set_reg r v) rs prog"

lemma block_setup:
  assumes "layout_ok addr" and "fetchable addr s" and "Q ((set_regs rs prog)\<lparr>pc := addr (n + length rs)\<rparr>) s"
  shows "block addr n (map (\<lambda>(r, v). LI r v) rs) prog Q E s"
  using assms(3)
proof (induction rs arbitrary: n prog)
  case (Cons a rs)
  obtain r v where a: "a = (r, v)" by fastforce
  have "block addr (Suc n) (map (\<lambda>(r, v). LI r v) rs) (set_reg r v prog) Q E s"
    by (rule Cons.IH) (use Cons.prems in \<open>simp add: a set_regs_def\<close>)
  then show ?case by (simp add: a block_rules [OF assms(1,2)])
qed (simp add: set_regs_def block_Nil)

lemma set_regs_ok [simp]: "program_ok prog \<Longrightarrow> program_ok (set_regs rs prog)"
  by (induction rs arbitrary: prog) (auto simp: set_regs_def)

lemma get_set_regs:
  assumes "program_ok prog" and "\<forall>(r, v)\<in>set rs. r \<noteq> 0 \<and> r < 32" and "distinct (map fst rs)"
  shows "(r, v) \<in> set rs \<Longrightarrow> get_reg (set_regs rs prog) r = v" and "r \<notin> fst ` set rs \<Longrightarrow> get_reg (set_regs rs prog) r = get_reg prog r"
proof -
  have other: "get_reg (set_regs rs prog) r = get_reg prog r" if "r \<notin> fst ` set rs" "program_ok prog" "\<forall>(r, v)\<in>set rs. r \<noteq> 0 \<and> r < 32" for rs prog
    using that by (induction rs arbitrary: prog) (auto simp: set_regs_def)
  show "r \<notin> fst ` set rs \<Longrightarrow> get_reg (set_regs rs prog) r = get_reg prog r" using other assms by blast
  show "(r, v) \<in> set rs \<Longrightarrow> get_reg (set_regs rs prog) r = v"
    using assms
  proof (induction rs arbitrary: prog)
    case (Cons a rs)
    then show ?case using other [of rs "set_reg (fst a) (snd a) prog"] by (auto simp: set_regs_def)
  qed simp
qed

lemma block_check:
  assumes L: "layout_ok addr" "fetchable addr s" and "program_ok prog" and "\<forall>(r, v)\<in>set rs. get_reg prog r = v \<and> r \<noteq> 10"
  shows "block addr n (concat (map (\<lambda>(r, v). [LI a0 v, BNE r a0 Reg_fail]) rs)) prog (\<lambda>p t. t = s \<and> program_ok p \<and> (\<forall>r. r \<noteq> 10 \<longrightarrow> get_reg p r = get_reg prog r)) E s"
  using assms(3-)
proof (induction rs arbitrary: n prog)
  case (Cons a rs)
  obtain r v where a: "a = (r, v)" by fastforce
  let ?rest = "concat (map (\<lambda>(r, v). [LI a0 v, BNE r a0 Reg_fail]) rs)"
  have "block addr (Suc (Suc n)) ?rest (set_reg a0 v prog)
      (\<lambda>p t. t = s \<and> program_ok p \<and> (\<forall>r. r \<noteq> 10 \<longrightarrow> get_reg p r = get_reg (set_reg a0 v prog) r)) E s"
    by (rule Cons.IH) (use Cons.prems in auto)
  then show ?case
    using Cons.prems by (simp add: a block_rules [OF L])
qed (simp add: block_Nil)

lemmas dispatch_defs = dispatch_def Let_def SYS_GETCWD_def SYS_READ_def SYS_WRITE_def SYS_EXIT_def SYS_EXIT_GROUP_def SYS_UNAME_def
  SYS_MUNMAP_def SYS_GETPID_def SYS_GETPPID_def SYS_GETUID_def SYS_GETEUID_def SYS_GETGID_def SYS_GETEGID_def SYS_GETTID_def
  SYS_BRK_def SYS_MMAP_def SYS_FORK_def SYS_EXEC_def SYS_WAIT_def

lemma dispatch_quiet:
  "sched_ok e \<Longrightarrow> dispatch 172 args e = (Val (pid (cur_proc e)), e)" "sched_ok e \<Longrightarrow> dispatch 173 args e = (Val (parent_pid (cur_proc e)), e)"
  "sched_ok e \<Longrightarrow> dispatch 178 args e = (Val (pid (cur_proc e)), e)" "dispatch 174 args e = (Val 0, e)"
  "args ! 0 = 9 \<Longrightarrow> dispatch 64 args e = (Val (- 9), e)" "dispatch 9999 args e = (Val (- 38), e)"
  by (simp_all add: dispatch_defs current_run kbind_def ret_def sys_write_def linux_error_def EBADF_def ENOSYS_def)

lemma user_code_parts:
  "code_at 0 (reg_setup @ reg_check @ greeting @ sys_test @ fork_test)"
  unfolding code_at_def user_code_def user_prog_def by (intro exI [of _ "[]"] exI [of _ "concat [parent_code, child_code, sys_fail_code, reg_fail_code]"]) simp

lemma register_test:
  assumes L: "layout_ok addr" "fetchable addr s" and R: "running R s" and p: "program_ok prog"
  shows "block addr 0 (reg_setup @ reg_check) prog (\<lambda>q u. program_ok q \<and> get_reg q sp = get_reg prog sp \<and> steady R s u) E s"
proof -
  let ?chk = "concat (map (\<lambda>(r, v). [LI a0 v, BNE r a0 Reg_fail]) test_regs)" and ?rs = "test_regs @ [(17, 172)]"
  let ?q = "set_regs ?rs prog"
  have rs: "\<forall>(r, v)\<in>set ?rs. r \<noteq> 0 \<and> r < 32" "distinct (map fst ?rs)" by (simp_all add: test_regs_def)
  note g = get_set_regs [OF p rs]
  have keep: "r \<noteq> 10" if "(r, v) \<in> set test_regs" for r v using that by (auto simp: test_regs_def)
  have "block addr (0 + length reg_setup) (ECALL # ?chk) ?q (\<lambda>q u. program_ok q \<and> get_reg q sp = get_reg prog sp \<and> steady R s u) E s"
  proof (rule block_quiet [OF L R set_regs_ok [OF p], where v = "pid (cur_proc s)"])
    fix e assume "inside R s e"
    then show "dispatch (get_reg ?q 17) [get_reg ?q 10, get_reg ?q 11, get_reg ?q 12, get_reg ?q 13, get_reg ?q 14, get_reg ?q 15] e =
        (Val (pid (cur_proc s)), e)" using g(1) [of 17 172] by (auto simp: inside_def dispatch_quiet)
  next
    fix u assume u: "steady R s u" "fetchable addr u"
    let ?v = "set_reg 10 (pid (cur_proc s)) ?q"
    have v: "program_ok ?v" "\<forall>(r, v)\<in>set test_regs. get_reg ?v r = v \<and> r \<noteq> 10" using g(1) keep p by auto
    have "get_reg ?v sp = get_reg prog sp" using g(2) [of 2] p by (simp add: test_regs_def)
    then show "block addr (Suc (0 + length reg_setup)) ?chk ?v (\<lambda>q u. program_ok q \<and> get_reg q sp = get_reg prog sp \<and> steady R s u) E u"
      by (intro block_mono [OF block_check [OF L(1) u(2) v]]) (use u in auto)
  qed
  then show ?thesis
    unfolding reg_setup_regs reg_check_regs by (intro block_append block_setup [OF L]) simp
qed

section \<open>The calls without effect\<close>

lemma steady_cur: "steady R s u \<Longrightarrow> running R u \<and> pid (cur_proc u) = pid (cur_proc s) \<and> parent_pid (cur_proc u) = parent_pid (cur_proc s)"
  by (auto simp: steady_def)

text \<open>The results of the calls without effect.\<close>

definition quiet_val :: "usize \<Rightarrow> Process \<Rightarrow> usize" where
  "quiet_val nr p = (if nr = 172 \<or> nr = 178 then pid p else if nr = 173 then parent_pid p else if nr = 174 then 0 else if nr = 64 then - 9 else - 38)"

lemma dispatch_quiet_val:
  assumes "sched_ok e" and "nr \<in> {172, 173, 174, 178, 9999} \<or> nr = 64 \<and> args ! 0 = 9"
  shows "dispatch nr args e = (Val (quiet_val nr (cur_proc e)), e)"
  using assms by (auto simp: quiet_val_def dispatch_quiet)

lemma block_call:
  assumes L: "layout_ok addr" and t: "fetchable addr t" "steady R s t" and p: "program_ok prog"
    and nr: "get_reg prog 17 \<in> {172, 173, 174, 178, 9999} \<or> get_reg prog 17 = 64 \<and> get_reg prog 10 = 9"
    and K: "\<And>u. fetchable addr u \<Longrightarrow> steady R s u \<Longrightarrow> block addr (Suc n) code (set_reg 10 (quiet_val (get_reg prog 17) (cur_proc s)) prog) Q E u"
  shows "block addr n (ECALL # code) prog Q E t"
proof (rule block_quiet [OF L t(1) _ p, of R])
  show "running R t" using steady_cur [OF t(2)] by blast
  show "dispatch (get_reg prog 17) [get_reg prog 10, get_reg prog 11, get_reg prog 12, get_reg prog 13, get_reg prog 14, get_reg prog 15] e =
      (Val (quiet_val (get_reg prog 17) (cur_proc s)), e)" if "inside R t e" for e
    using that steady_cur [OF t(2)] nr by (subst dispatch_quiet_val) (auto simp: inside_def quiet_val_def)
  show "block addr (Suc n) code (set_reg 10 (quiet_val (get_reg prog 17) (cur_proc s)) prog) Q E u" if "steady R t u" "fetchable addr u" for u
    by (rule K [OF that(2) steady_trans [OF t(2) that(1)]])
qed

lemma id_test_runs:
  assumes L: "layout_ok addr" and t: "fetchable addr t" "steady R s t" and p: "program_ok prog"
    and i: "pid (cur_proc s) = 1" "parent_pid (cur_proc s) = 0"
  shows "block addr n id_test prog (\<lambda>q u. program_ok q \<and> get_reg q sp = get_reg prog sp \<and> fetchable addr u \<and> steady R s u) E t"
  unfolding id_test_def
  by (insert t p i, (rule block_rules [OF L] block_call [OF L] block_Nil | assumption | (simp add: quiet_val_def; fail))+)

section \<open>A state in which the program runs\<close>

lemma running_only:
  assumes "running R s" and "only R (cur_root s) A s t"
  shows "running R t" "cur_proc t = cur_proc s"
proof -
  have r: "sched_ok s" using assms(1) by (simp add: running_def stack_ready_def)
  note k = only_kernel [OF assms(2) r]
  have "above_frames t = above_frames s" "kernel_kept R s t" using assms(2) by (simp_all add: only_def)
  note a = above_frames_kernel [OF this(1)] and kk = this(2)
  show "cur_proc t = cur_proc s" by (rule k(3))
  show "running R t" using assms(1) k a kk by (simp add: running_def stack_ready_def kernel_kept_def)
qed

lemma running_in_call: "running R s \<Longrightarrow> in_call R s"
  by (simp add: running_def in_call_def stack_ready_def)

definition layout4 :: "nat \<Rightarrow> usize" where
  "layout4 n = USER_CODE_BASE + of_nat (4 * n)"

lemma length_user_code: "length user_code = 257"
  by (simp add: user_code_def user_prog_def reg_setup_def reg_check_def greeting_def sys_test_def uname_test_def cwd_test_def id_test_def
      brk_test_def mmap_test_def fork_test_def parent_code_def child_code_def sys_fail_code_def reg_fail_code_def)

lemma unat_layout4: "n \<le> 1000 \<Longrightarrow> unat (layout4 n) = 0x10000 + 4 * n"
  by (simp add: layout4_def USER_CODE_BASE_def unat_word_ariths unat_of_nat)

lemma layout4_ok: "layout_ok layout4"
  unfolding layout_ok_def
proof (intro conjI allI impI)
  show "inj_on layout4 {..length user_code}"
  proof (rule inj_onI)
    fix x y assume x: "x \<in> {..length user_code}" "y \<in> {..length user_code}" and e: "layout4 x = layout4 y"
    have "x \<le> 1000" "y \<le> 1000" using x by (simp_all add: length_user_code)
    then have "0x10000 + 4 * x = 0x10000 + 4 * y" using arg_cong [OF e, of unat] by (simp only: unat_layout4)
    then show "x = y" by simp
  qed
qed (simp_all add: layout4_def)

definition boot_proc_state :: kernel_state where
  "boot_proc_state = lone_state\<lparr>csr_sscratch := 0x80302000, csr_satp := satp_val pt1\<rparr>"

lemma test_state:
  obtains s :: kernel_state where "running {root pt1} s" "cur_proc s = lone_proc" "fetchable layout4 s" "frames_has 44 s"
    "zeroed (root pt1) {a. same_page 0x3F000000 a} (PTEFlags_new True True False True) s"
    "\<And>a. \<not> same_page 0x10000 a \<Longrightarrow> \<not> same_page 0x3F000000 a \<Longrightarrow> pte_of (tables s) (root pt1) a = 0"
proof -
  let ?s = boot_proc_state
  have fe: "frames_eq lone_state ?s" by (simp add: frames_eq_def boot_proc_state_def)
  have c: "cur_proc ?s = lone_proc" "sched_ok ?s"
    using lone_facts(1,2) by (simp_all add: boot_proc_state_def cur_proc_def sched_ok_def)
  have "PROCESS_LIST lone_state ! 0 = Some lone_proc" by (simp add: lone_state_def on_frames2_def)
  moreover have "length (PROCESS_LIST lone_state) = 32" using lone_facts(1) by (simp add: sched_ok_def)
  ultimately have "Some lone_proc \<in> set (PROCESS_LIST lone_state)" by (metis nth_mem zero_less_numeral)
  then have "kernel_page ?s {root pt1} (stack_page lone_proc)"
    using lone_facts(5,7) world_eq(5) [OF fe] by (simp add: stacks_apart_def)
  then have R: "running {root pt1} ?s"
    using lone_facts(4,6) world_eq(4) [OF fe] c
    by (simp add: running_def stack_ready_def) (simp add: boot_proc_state_def lone_proc_def dword_aligned_def)
  have "mem ?s = mem blank_state" by (simp add: boot_proc_state_def lone_state_def blank_state_def on_frames2_def)
  then have z: "pte_of (tables ?s) r a = 0" for r a using blank_pte by simp
  have "frames_has 50 lone_state" by (simp add: lone_state_def on_frames2_facts(5))
  then have "frames_has 50 ?s" using frames_has_eq [OF fe] by simp
  then have h: "frames_has (47 + 3) ?s" by simp
  have root: "cur_root ?s = root pt1" by (simp add: c lone_facts(6))
  obtain t where t: "in_call {root pt1} t" "only {root pt1} (root pt1) {a. same_page 0x10000 a} ?s t" "cur_proc t = lone_proc"
    "zeroed (root pt1) {a. same_page 0x10000 a} (PTEFlags_new True False True True) t" "frames_has 47 t"
    by (rule maps_page [OF running_in_call [OF R] _ _ h z, of "0x10000" True True False]) (simp_all add: page_aligned_def c lone_facts(6))
  have Rt: "running {root pt1} t" using running_only(1) [OF R] t(2) root by simp
  have rt: "cur_root t = root pt1" by (simp add: t(3) lone_facts(6))
  have np: "\<not> same_page 0x10000 (0x3F000000 :: usize)" by (simp add: same_page_def vpn_def)
  have zt: "pte_of (tables t) (root pt1) a = 0" if "\<not> same_page 0x10000 a" for a using onlyD(1) [OF t(2), of "root pt1" a] that z by simp
  have ht: "frames_has (44 + 3) t" using t(5) by simp
  obtain u where u: "in_call {root pt1} u" "only {root pt1} (root pt1) {a. same_page 0x3F000000 a} t u" "cur_proc u = lone_proc"
    "zeroed (root pt1) {a. same_page 0x3F000000 a} (PTEFlags_new True True False True) u" "frames_has 44 u"
    by (rule maps_page [OF t(1) _ _ ht, of "0x3F000000" True False True]) (simp_all add: page_aligned_def t(3) lone_facts(6) zt [OF np])
  have Ru: "running {root pt1} u" using running_only(1) [OF Rt] u(2) rt by simp
  show ?thesis
  proof (rule that [OF Ru u(3) _ u(5,4)])
    show "pte_of (tables u) (root pt1) a = 0" if "\<not> same_page 0x10000 a" "\<not> same_page 0x3F000000 a" for a
      using onlyD(1) [OF u(2), of "root pt1" a] that zt by simp
    have ru: "cur_root u = root pt1" by (simp add: u(3) lone_facts(6))
    show "fetchable layout4 u"
      unfolding fetchable_def
    proof (intro allI impI)
      fix n assume n: "n < length user_code"
      have un: "unat (layout4 n) = 0x10000 + 4 * n" using n by (simp add: length_user_code unat_layout4)
      have sp: "same_page 0x10000 (layout4 n)"
        using same_page_range [of "0x10000" "layout4 n"] un n by (simp add: page_aligned_def length_user_code)
      have "\<not> same_page 0x3F000000 (layout4 n)" using sp np by (auto simp: same_page_def)
      then have "zeroed (cur_root u) {layout4 n} (PTEFlags_new True False True True) u"
        using t(4) sp onlyD [OF u(2), of "root pt1" "layout4 n"] unfolding zeroed_def by (simp add: ru)
      then show "hw_translate User Fetch (layout4 n) u \<noteq> None"
        by (rule zeroed_translates [OF u(1)]) (use un n in \<open>simp_all add: canonical_def length_user_code\<close>)
    qed
  qed
qed

end
