(* ===== verification/ProgCalls.thy ===== *)
theory ProgCalls
  imports ProgRun
begin

text \<open>
  Programs and their memory: the instructions that load and store, and the calls that pass buffers,
  as steps of a run. Below them the parts of the built-in program that print a greeting and that
  test \<open>uname\<close> and \<open>getcwd\<close>.
\<close>

section \<open>Memory of the program\<close>

text \<open>Back in the program, which has changed its memory at the addresses \<open>A\<close> only.\<close>

definition touched :: "PhysAddr set \<Rightarrow> VirtAddr set \<Rightarrow> 'a kernel_state_scheme \<Rightarrow> 'a kernel_state_scheme \<Rightarrow> bool" where
  "touched R A s u \<longleftrightarrow> running R u \<and> (\<exists>tf. cur_proc u = (cur_proc s)\<lparr>trap_frame := tf\<rparr>) \<and> svpbmt u = svpbmt s \<and>
     (\<forall>n. frames_has n s \<longrightarrow> frames_has n u) \<and> (\<forall>r\<in>R. \<forall>a. pte_of (tables u) r a = pte_of (tables s) r a) \<and>
     (\<forall>r\<in>R. \<forall>a. canonical a \<and> (r \<noteq> cur_root s \<or> a \<notin> A) \<longrightarrow> view (mem u) r a = view (mem s) r a)"

lemma touched_cur:
  assumes "touched R A s u"
  shows "running R u" "cur_root u = cur_root s" "pid (cur_proc u) = pid (cur_proc s)" "parent_pid (cur_proc u) = parent_pid (cur_proc s)"
    "heap_start (cur_proc u) = heap_start (cur_proc s)" "heap_end (cur_proc u) = heap_end (cur_proc s)" "mmap_areas (cur_proc u) = mmap_areas (cur_proc s)"
  using assms by (auto simp: touched_def)

lemma touched_steady: "steady R s u \<Longrightarrow> touched R A s u"
  by (auto simp: touched_def steady_def alike_def)

lemma touched_refl: "running R s \<Longrightarrow> touched R A s s"
  by (rule touched_steady [OF steady_refl])

lemma touched_trans:
  assumes "touched R A s t" and "touched R A t u"
  shows "touched R A s u"
proof -
  have "cur_root t = cur_root s" by (rule touched_cur [OF assms(1)])
  then show ?thesis using assms unfolding touched_def by fastforce
qed

lemma touched_mono: "touched R A s u \<Longrightarrow> A \<subseteq> B \<Longrightarrow> touched R B s u"
  unfolding touched_def by blast

lemma touched_translate:
  assumes "running R s" and "touched R A s u"
  shows "hw_translate mode acc a u = hw_translate mode acc a s"
proof -
  have "pte_of (tables u) (cur_root s) a = pte_of (tables s) (cur_root s) a" "svpbmt u = svpbmt s"
    using assms by (simp_all add: touched_def running_def)
  then show ?thesis
    using hw_translate_pte [OF in_callD(2-4) [OF running_in_call [OF assms(1)]], of mode acc a]
      hw_translate_pte [OF in_callD(2-4) [OF running_in_call [OF touched_cur(1) [OF assms(2)]]], of mode acc a] touched_cur(2) [OF assms(2)]
    by simp
qed

lemma touched_fetchable: "running R s \<Longrightarrow> touched R A s u \<Longrightarrow> fetchable addr u = fetchable addr s"
  by (simp add: fetchable_def touched_translate)

text \<open>The addresses of a buffer, and that it holds \<open>bs\<close>.\<close>

abbreviation span :: "VirtAddr \<Rightarrow> nat \<Rightarrow> VirtAddr set" where
  "span buf n \<equiv> {a. unat (a - buf) < n}"

definition holds :: "VirtAddr \<Rightarrow> u8 list \<Rightarrow> 'a kernel_state_scheme \<Rightarrow> bool" where
  "holds buf bs s \<longleftrightarrow> (\<forall>a\<in>span buf (length bs). canonical a \<longrightarrow> view (mem s) (cur_root s) a = Some (bs ! unat (a - buf)))"

lemma stored_touched:
  assumes R: "running R s" and t: "stored R buf bs s t"
  shows "touched R (span buf (length bs)) s t" "holds buf bs t"
proof -
  obtain m where m: "t = s\<lparr>mem := m\<rparr>" using t by (auto simp: stored_def)
  have "running R t" using R t unfolding running_def stored_def stack_ready_def kernel_kept_def by (auto simp: m)
  moreover have "\<exists>tf. cur_proc t = (cur_proc s)\<lparr>trap_frame := tf\<rparr>" by (intro exI [of _ "trap_frame (cur_proc s)"]) (simp add: m)
  ultimately show "touched R (span buf (length bs)) s t" using t unfolding touched_def stored_def by (auto simp: m)
  have "cur_root s \<in> R" "cur_root t = cur_root s" using R by (simp_all add: running_def m)
  then show "holds buf bs t" using t by (simp add: holds_def stored_def)
qed

text \<open>A call that fills a buffer.\<close>

lemma filled_touched:
  assumes R: "running R s" and e: "inside R s e" and t: "stored R buf bs e t'" "t = access_over e t'"
    and u: "running R u" "alike R t u" "PROCESS_LIST u = PROCESS_LIST t"
  shows "touched R (span buf (length bs)) s u" "holds buf bs u"
proof -
  obtain m where m: "t' = e\<lparr>mem := m\<rparr>" using t by (auto simp: stored_def)
  have tm: "mem t = m" "frames_eq t' t" by (simp_all add: t(2) m access_over_def frames_eq_def)
  have cu: "cur_proc u = cur_proc e" using u(2,3) by (simp add: cur_proc_def alike_def) (simp add: t(2) m access_over_def)
  obtain tf where tf: "cur_proc e = (cur_proc s)\<lparr>trap_frame := tf\<rparr>" using e by (auto simp: inside_def)
  have root: "cur_root e = cur_root s" by (simp add: tf)
  have pte: "pte_of (tables u) r a = pte_of (tables s) r a" if "r \<in> R" for r a
    using that e u(2) t(1) by (simp add: inside_def alike_def tm(1)) (simp add: stored_def m)
  have view: "view (mem u) r a = (if r = cur_root s \<and> unat (a - buf) < length bs then Some (bs ! unat (a - buf)) else view (mem s) r a)"
    if "r \<in> R" "canonical a" for r a
  proof -
    have "view (mem u) r a = view m r a" using that(1) u(2) by (simp add: alike_def tm(1))
    also have "\<dots> = (if r = cur_root s \<and> unat (a - buf) < length bs then Some (bs ! unat (a - buf)) else view (mem e) r a)"
      using t(1) that unfolding stored_def root by (simp add: m)
    finally show ?thesis using e that(1) by (simp add: inside_def alike_def)
  qed
  have has: "frames_has n u" if "frames_has n s" for n
    using that e t(1) u(2) frames_has_eq [OF tm(2)] by (simp add: inside_def alike_def stored_def)
  have "svpbmt u = svpbmt s" using u(2) e by (simp add: alike_def inside_def) (simp add: t(2) m access_over_def)
  then show "touched R (span buf (length bs)) s u"
    unfolding touched_def using u(1) pte view has by (auto simp: cu tf)
  have "cur_root s \<in> R" using R by (simp add: running_def)
  then show "holds buf bs u" using view by (simp add: holds_def cu root)
qed

section \<open>Instructions that use memory\<close>

lemma block_SD:
  assumes L: "layout_ok addr" "fetchable addr s" and R: "running R s" and a: "a = get_reg prog rb + off" "dword_aligned a"
    and tr: "hw_translate User Store a s \<noteq> None"
    and K: "\<And>u. fetchable addr u \<Longrightarrow> touched R (span a 8) s u \<Longrightarrow> holds a (dword_bytes (get_reg prog rs)) u \<Longrightarrow>
      uart_out u = uart_out s \<Longrightarrow> uart_in u = uart_in s \<Longrightarrow> block addr (Suc n) code prog Q E u"
  shows "block addr n (SD rs off rb # code) prog Q E s"
proof (rule block_step [OF L])
  assume C: "code_at (Suc n) code"
  obtain pa where pa: "hw_translate User Store a s = Some pa" using tr by blast
  note c = running_in_call [OF R]
  let ?bs = "dword_bytes (get_reg prog rs)"
  let ?u = "s\<lparr>mem := put_bytes (mem s) pa ?bs\<rparr>"
  have len: "length ?bs = 8" by (simp add: dword_bytes_def)
  have "stored R a ?bs s ?u" by (rule stored_bytes [OF c]) (use translate_dword [OF c pa a(2)] len in simp_all)
  note t = stored_touched [OF R this, unfolded len]
  have "block addr (Suc n) code prog Q E ?u" by (rule K) (use t L(2) touched_fetchable [OF R t(1)] in simp_all)
  then show "wp (exec_instr addr n (SD rs off rb) (prog\<lparr>pc := addr n\<rparr>))
      (\<lambda>p. wp (user_run addr (length code) p) (\<lambda>p t. pc p = addr (Suc n + length code) \<and> Q p t) E) E s"
    using C a(2) pa by (simp add: block_def user_mem_def wp_simps a(1) Let_def write_u64_bytes)
qed

lemma block_SB:
  assumes L: "layout_ok addr" "fetchable addr s" and R: "running R s" and a: "a = get_reg prog rb + off"
    and tr: "hw_translate User Store a s \<noteq> None"
    and K: "\<And>u. fetchable addr u \<Longrightarrow> touched R {a} s u \<Longrightarrow> view (mem u) (cur_root u) a = Some (ucast (get_reg prog rs)) \<Longrightarrow> block addr (Suc n) code prog Q E u"
  shows "block addr n (SB rs off rb # code) prog Q E s"
proof (rule block_step [OF L])
  assume C: "code_at (Suc n) code"
  obtain pa where pa: "hw_translate User Store a s = Some pa" using tr by blast
  note c = running_in_call [OF R]
  let ?u = "s\<lparr>mem := (mem s)(pa := ucast (get_reg prog rs))\<rparr>"
  note t = stored_touched [OF R user_byte [OF c pa, of "ucast (get_reg prog rs)"]]
  have sp: "span a (length [ucast (get_reg prog rs) :: u8]) = {a}" by (auto simp: unat_eq_0)
  have "view (mem ?u) (cur_root ?u) a = Some (ucast (get_reg prog rs))"
    using t(2) translate_super(4) [OF c _ pa] by (simp add: holds_def)
  then have "block addr (Suc n) code prog Q E ?u" by (intro K) (use t [unfolded sp] L(2) touched_fetchable [OF R t(1)] in simp_all)
  then show "wp (exec_instr addr n (SB rs off rb) (prog\<lparr>pc := addr n\<rparr>))
      (\<lambda>p. wp (user_run addr (length code) p) (\<lambda>p t. pc p = addr (Suc n + length code) \<and> Q p t) E) E s"
    using C pa by (simp add: block_def user_mem_def wp_simps a(1) Let_def)
qed

lemma block_LB:
  assumes L: "layout_ok addr" "fetchable addr s" and R: "running R s" and tr: "hw_translate User Load (get_reg prog rb + off) s \<noteq> None"
    and v: "view (mem s) (cur_root s) (get_reg prog rb + off) = Some b"
    and K: "block addr (Suc n) code (set_reg rd (scast b) prog) Q E s"
  shows "block addr n (LB rd off rb # code) prog Q E s"
proof (rule block_step [OF L])
  assume C: "code_at (Suc n) code"
  obtain pa where pa: "hw_translate User Load (get_reg prog rb + off) s = Some pa" using tr by blast
  have "mem s pa = b" using translate_super(6) [OF running_in_call [OF R] _ pa] v by simp
  then show "wp (exec_instr addr n (LB rd off rb) (prog\<lparr>pc := addr n\<rparr>))
      (\<lambda>p. wp (user_run addr (length code) p) (\<lambda>p t. pc p = addr (Suc n + length code) \<and> Q p t) E) E s"
    using C pa K by (simp add: block_def user_mem_def wp_simps)
qed

section \<open>Calls that use memory\<close>

lemma inside_call:
  assumes "running R s" and "inside R s e"
  shows "in_call R e" "hw_translate mode acc a e = hw_translate mode acc a s" "writable buf k e = writable buf k s"
    "cur_root e = cur_root s" "seen e buf k = seen s buf k"
proof -
  show "in_call R e" using assms by (auto simp: inside_def alike_def in_call_def running_def)
  have tr: "hw_translate mode acc a e = hw_translate mode acc a s" for mode acc a
    using assms translate_alike by (auto simp: inside_def)
  then show "hw_translate mode acc a e = hw_translate mode acc a s" "writable buf k e = writable buf k s" by (auto simp: writable_def)
  show r: "cur_root e = cur_root s" using assms(2) by (auto simp: inside_def)
  then show "seen e buf k = seen s buf k" using assms by (simp add: seen_def inside_def alike_def running_def)
qed

lemma filled_serves:
  assumes "in_call R e" and "stored R buf bs e t'"
  shows "serves R e (access_over e t')"
proof -
  have t: "\<exists>m. t' = e\<lparr>mem := m\<rparr>" "world_ok t' R" "kernel_kept R e t'" using assms(2) by (simp_all add: stored_def)
  have fe: "frames_eq t' (access_over e t')" by (simp add: frames_eq_def access_over_def)
  have "cur_proc (access_over e t') = cur_proc e" "sched_ok (access_over e t') = sched_ok e" "csr_satp (access_over e t') = csr_satp e"
    using t(1) by (auto simp: access_over_def cur_proc_def sched_ok_def)
  moreover have "kernel_kept R e (access_over e t')" using t(3) world_eq(5) [OF fe] fe by (simp add: kernel_kept_def frames_eq_def)
  ultimately show ?thesis using t(2) world_eq(4) [OF fe] in_callD(1) [OF assms(1)] by (simp add: serves_def)
qed

lemma block_fill:
  assumes L: "layout_ok addr" "fetchable addr s" and R: "running R s" and p: "program_ok prog"
    and D: "\<And>e. inside R s e \<Longrightarrow> wp (dispatch (get_reg prog 17) [get_reg prog 10, get_reg prog 11, get_reg prog 12, get_reg prog 13,
        get_reg prog 14, get_reg prog 15]) (\<lambda>w t. w = v \<and> (\<exists>t'. stored R buf bs e t' \<and> t = access_over e t')) (\<lambda>_ _. False) e"
    and K: "\<And>u. fetchable addr u \<Longrightarrow> touched R (span buf (length bs)) s u \<Longrightarrow> holds buf bs u \<Longrightarrow> block addr (Suc n) code (set_reg 10 v prog) Q E u"
  shows "block addr n (ECALL # code) prog Q E s"
proof (rule block_ECALL [OF L R p, where P = "\<lambda>w t. w = v \<and> (\<exists>e t'. inside R s e \<and> stored R buf bs e t' \<and> t = access_over e t')"])
  fix e assume e: "inside R s e"
  show "wp (dispatch (get_reg prog 17) [get_reg prog 10, get_reg prog 11, get_reg prog 12, get_reg prog 13, get_reg prog 14, get_reg prog 15])
      (\<lambda>w t. serves R e t \<and> (w = v \<and> (\<exists>e t'. inside R s e \<and> stored R buf bs e t' \<and> t = access_over e t'))) (\<lambda>x t. \<not> resumes x \<and> E x t) e"
    by (rule wp_mono [OF D [OF e]]) (use e filled_serves [OF inside_call(1) [OF R e]] in auto)
next
  fix w t u assume t: "w = v \<and> (\<exists>e t'. inside R s e \<and> stored R buf bs e t' \<and> t = access_over e t')"
    and u: "running R u" "alike R t u" "PROCESS_LIST u = PROCESS_LIST t"
  then obtain e t' where e: "inside R s e" "stored R buf bs e t'" "t = access_over e t'" by blast
  note f = filled_touched [OF R e u]
  show "block addr (Suc n) code (set_reg 10 w prog) Q E u" using K [OF _ f] t L(2) touched_fetchable [OF R f(1)] by simp
qed

lemma block_uname:
  assumes L: "layout_ok addr" "fetchable addr s" and R: "running R s" and p: "program_ok prog"
    and nr: "get_reg prog 17 = 160" and w: "writable (get_reg prog 10) 390 s"
    and K: "\<And>u. fetchable addr u \<Longrightarrow> touched R (span (get_reg prog 10) 390) s u \<Longrightarrow> block addr (Suc n) code (set_reg 10 0 prog) Q E u"
  shows "block addr n (ECALL # code) prog Q E s"
proof (rule block_fill [OF L R p, where v = 0 and bs = uts_image and buf = "get_reg prog 10"])
  fix e assume e: "inside R s e"
  note c = inside_call [OF R e]
  show "wp (dispatch (get_reg prog 17) [get_reg prog 10, get_reg prog 11, get_reg prog 12, get_reg prog 13, get_reg prog 14, get_reg prog 15])
      (\<lambda>w t. w = 0 \<and> (\<exists>t'. stored R (get_reg prog 10) uts_image e t' \<and> t = access_over e t')) (\<lambda>_ _. False) e"
    using sys_uname_wp [OF c(1), of "get_reg prog 10"] w by (simp add: nr dispatch_defs c(3))
next
  have "length uts_image = 390" by code_simp
  then show "block addr (Suc n) code (set_reg 10 0 prog) Q E u" if "fetchable addr u" "touched R (span (get_reg prog 10) (length uts_image)) s u" for u
    using K that by simp
qed

lemma block_getcwd:
  assumes L: "layout_ok addr" "fetchable addr s" and R: "running R s" and p: "program_ok prog"
    and nr: "get_reg prog 17 = 17" and w: "writable (get_reg prog 10) 2 s" "2 \<le> unat (get_reg prog 11)"
    and K: "\<And>u. fetchable addr u \<Longrightarrow> touched R (span (get_reg prog 10) 2) s u \<Longrightarrow> holds (get_reg prog 10) [47, 0] u \<Longrightarrow>
      block addr (Suc n) code (set_reg 10 2 prog) Q E u"
  shows "block addr n (ECALL # code) prog Q E s"
proof (rule block_fill [OF L R p, where v = 2 and bs = "[47, 0]" and buf = "get_reg prog 10"])
  fix e assume e: "inside R s e"
  note c = inside_call [OF R e]
  show "wp (dispatch (get_reg prog 17) [get_reg prog 10, get_reg prog 11, get_reg prog 12, get_reg prog 13, get_reg prog 14, get_reg prog 15])
      (\<lambda>w t. w = 2 \<and> (\<exists>t'. stored R (get_reg prog 10) [47, 0] e t' \<and> t = access_over e t')) (\<lambda>_ _. False) e"
    using sys_getcwd_wp [OF c(1), of "get_reg prog 10" "get_reg prog 11"] w by (simp add: nr dispatch_defs c(3))
qed (use K in \<open>simp add: numeral_2_eq_2\<close>)

lemma block_write:
  assumes L: "layout_ok addr" "fetchable addr s" and R: "running R s" and p: "program_ok prog"
    and nr: "get_reg prog 17 = 64" "get_reg prog 10 = 1"
    and b: "get_reg prog 11 \<noteq> 0" "unat (get_reg prog 11) + unat (get_reg prog 12) \<le> 2 ^ 64"
      "\<forall>i < unat (get_reg prog 12). hw_translate User Load (get_reg prog 11 + of_nat i) s \<noteq> None"
    and E: "\<And>t. tx_ready s < unat (get_reg prog 12) \<Longrightarrow> E Device_wait t"
    and K: "\<And>u. fetchable addr u \<Longrightarrow> touched R A s u \<Longrightarrow>
      uart_out u = uart_out s @ map (Pair UART0) (seen s (get_reg prog 11) (unat (get_reg prog 12))) \<Longrightarrow>
      block addr (Suc n) code (set_reg 10 (get_reg prog 12) prog) Q E u"
  shows "block addr n (ECALL # code) prog Q E s"
proof -
  let ?buf = "get_reg prog 11" and ?len = "get_reg prog 12"
  let ?P = "\<lambda>w t. w = ?len \<and> (\<exists>e t'. inside R s e \<and> sent (seen s ?buf (unat ?len)) e t' \<and> t = access_over e t')"
  show ?thesis
  proof (rule block_ECALL [OF L R p, where P = ?P])
    fix e assume e: "inside R s e"
    note c = inside_call [OF R e]
    have sv: "serves R e (access_over e t')" if st: "sent bs e t'" for bs t'
    proof -
      obtain i ou where t': "t' = e\<lparr>uart_in := i, uart_out := ou\<rparr>" using st unfolding sent_def uart_only_def by blast
      have fe: "frames_eq e (access_over e t')" by (simp add: frames_eq_def access_over_def t')
      show ?thesis
        using in_callD(1,2) [OF c(1)] world_eq(4,5) [OF fe]
        by (simp add: serves_def kernel_kept_def) (simp add: t' access_over_def cur_proc_def sched_ok_def)
    qed
    have tx: "tx_ready e = tx_ready s" using e by (simp add: inside_def alike_def tx_ready_def)
    have "wp (sys_write 1 ?buf ?len) (\<lambda>w t. serves R e t \<and> ?P w t) (\<lambda>x t. \<not> resumes x \<and> E x t) e"
      by (rule wp_mono [OF sys_write_wp [OF c(1)]]) (use b c(2,5) e sv E in \<open>auto simp: resumes_def tx\<close>)
    then show "wp (dispatch (get_reg prog 17) [get_reg prog 10, get_reg prog 11, get_reg prog 12, get_reg prog 13, get_reg prog 14, get_reg prog 15])
        (\<lambda>w t. serves R e t \<and> ?P w t) (\<lambda>x t. \<not> resumes x \<and> E x t) e"
      by (simp add: nr dispatch_defs)
  next
    fix w t u assume t: "?P w t" and u: "running R u" "alike R t u" "PROCESS_LIST u = PROCESS_LIST t"
    then obtain e t' where e: "inside R s e" "sent (seen s ?buf (unat ?len)) e t'" "t = access_over e t'" by blast
    obtain i ou where t': "t' = e\<lparr>uart_in := i, uart_out := ou\<rparr>" using e(2) unfolding sent_def uart_only_def by blast
    have tt: "t = e\<lparr>uart_in := i, uart_out := ou, csr_sstatus := csr_sstatus e AND NOT SSTATUS_SUM\<rparr>" by (simp add: e(3) t' access_over_def)
    have fe: "frames_eq e t" by (simp add: tt frames_eq_def)
    have "cur_proc u = cur_proc e" using u(2,3) by (simp add: cur_proc_def alike_def tt)
    moreover have "mem t = mem e" "svpbmt t = svpbmt e" by (simp_all add: tt)
    ultimately have T: "touched R A s u"
      using e(1) u(1,2) frames_has_eq [OF fe] unfolding touched_def by (auto simp: inside_def alike_def)
    have "uart_out u = uart_out t" "uart_out e = uart_out s" using u(2) e(1) by (simp_all add: alike_def inside_def)
    then have "uart_out u = uart_out s @ map (Pair UART0) (seen s ?buf (unat ?len))" using e(2) by (simp add: sent_def tt t')
    with T show "block addr (Suc n) code (set_reg 10 w prog) Q E u"
      using K [of u] t L(2) touched_fetchable [OF R T] by simp
  qed
qed

section \<open>Output and buffers\<close>

text \<open>The area below the stack pointer that the program uses.\<close>

definition below :: "VirtAddr \<Rightarrow> VirtAddr set" where
  "below a = {x. unat x < unat a \<and> unat a \<le> unat x + 1024}"

definition stack_mapped :: "VirtAddr \<Rightarrow> 'a kernel_state_scheme \<Rightarrow> bool" where
  "stack_mapped a s \<longleftrightarrow> dword_aligned a \<and> 1024 < unat a \<and> (\<forall>x\<in>below a. \<forall>acc. acc \<noteq> Fetch \<longrightarrow> hw_translate User acc x s \<noteq> None)"

lemma below_range:
  assumes "1024 < unat a" and "k \<le> 1024" and "i < k"
  shows "unat (a - of_nat k + of_nat i) = unat a - k + i" "a - of_nat k + of_nat i \<in> below a" "unat (a - of_nat k) = unat a - k" "a - of_nat k \<noteq> 0"
proof -
  have u: "unat (of_nat k :: usize) = k" using assms(2) by (simp add: unat_of_nat)
  show k: "unat (a - of_nat k) = unat a - k" using assms(1,2) by (simp add: unat_sub word_le_nat_alt u)
  then show "a - of_nat k \<noteq> 0" using assms(1,2) by auto
  have "unat (of_nat i :: usize) = i" using assms by (simp add: unat_of_nat)
  then show i: "unat (a - of_nat k + of_nat i) = unat a - k + i"
    using k assms unat_usize_less [of a] by (subst unat_add_no_overflow) (simp_all add: add_overflows_def)
  show "a - of_nat k + of_nat i \<in> below a" unfolding below_def mem_Collect_eq i using assms by linarith
qed

lemma span_below:
  assumes "1024 < unat a" and "k \<le> 1024" and "n \<le> k"
  shows "span (a - of_nat k) n \<subseteq> below a"
proof
  fix x assume "x \<in> span (a - of_nat k) n"
  then have d: "unat (x - (a - of_nat k)) < k" using assms(3) by simp
  have "x = a - of_nat k + of_nat (unat (x - (a - of_nat k)))" by simp
  then show "x \<in> below a" using below_range(2) [OF assms(1,2) d] by metis
qed

lemma stack_buffer:
  assumes "stack_mapped a s" and "k \<le> 1024" and "n \<le> k"
  shows "writable (a - of_nat k) n s" "unat (a - of_nat k) + n \<le> 2 ^ 64" "a - of_nat k \<noteq> 0 \<or> k = 0"
    "i < n \<Longrightarrow> acc \<noteq> Fetch \<Longrightarrow> hw_translate User acc (a - of_nat k + of_nat i) s \<noteq> None"
proof -
  have a: "1024 < unat a" using assms(1) by (simp add: stack_mapped_def)
  show tr: "hw_translate User acc (a - of_nat k + of_nat i) s \<noteq> None" if "i < n" "acc \<noteq> Fetch" for i acc
  proof -
    have "a - of_nat k + of_nat i \<in> below a" using below_range(2) [OF a assms(2), of i] that(1) assms(3) by simp
    then show ?thesis using assms(1) that(2) unfolding stack_mapped_def by blast
  qed
  show nz: "a - of_nat k \<noteq> 0 \<or> k = 0" using below_range(4) [OF a assms(2), of 0] by (cases k) simp_all
  have u: "unat (a - of_nat k) = unat a - k" using below_range(3) [OF a assms(2), of 0] by (cases k) simp_all
  show "unat (a - of_nat k) + n \<le> 2 ^ 64" using u a assms(2,3) unat_usize_less [of a] by linarith
  moreover have "a - of_nat k \<noteq> 0" using u a assms(2) by auto
  ultimately show "writable (a - of_nat k) n s" using tr by (simp add: writable_def)
qed

lemma stack_touched: "running R s \<Longrightarrow> touched R A s u \<Longrightarrow> stack_mapped a u = stack_mapped a s"
  by (simp add: stack_mapped_def touched_translate)

lemma holds_seen:
  assumes "running R s" and "holds buf bs s" and "k \<le> length bs" and "length bs < 2 ^ 64"
    and "\<And>i. i < k \<Longrightarrow> hw_translate User Load (buf + of_nat i) s \<noteq> None"
  shows "seen s buf k = take k bs"
proof (rule nth_equalityI)
  show "length (seen s buf k) = length (take k bs)" using assms(3) by (simp add: seen_def)
  fix i assume i: "i < length (seen s buf k)"
  then have i': "i < k" by (simp add: seen_def)
  obtain pa where "hw_translate User Load (buf + of_nat i) s = Some pa" using assms(5) [OF i'] by blast
  note can = translate_super(4) [OF running_in_call [OF assms(1)] _ this]
  have "unat (of_nat i :: usize) = i" using i' assms(3,4) by (simp add: unat_of_nat)
  then have "view (mem s) (cur_root s) (buf + of_nat i) = Some (bs ! i)" using assms(2,3) i' can by (simp add: holds_def)
  then show "seen s buf k ! i = take k bs ! i" using i' by (simp add: seen_def)
qed

lemma greeting_runs:
  assumes L: "layout_ok addr" "fetchable addr s" and R: "running R s" and p: "program_ok prog" and st: "stack_mapped (get_reg prog sp) s"
    and E: "\<And>t. tx_ready s < 3 \<Longrightarrow> E Device_wait t"
  shows "block addr n greeting prog (\<lambda>q u. program_ok q \<and> get_reg q sp = get_reg prog sp \<and> touched R (below (get_reg prog sp)) s u \<and>
    uart_out u = uart_out s @ map (Pair UART0) [0x4f, 0x4b, 0x0a]) E s"
proof -
  let ?a = "get_reg prog sp"
  let ?b = "?a - 16"
  have a: "1024 < unat ?a" "dword_aligned ?a" using st by (simp_all add: stack_mapped_def)
  note sb = stack_buffer [OF st, of 16, simplified]
  have al: "dword_aligned ?b"
    using a below_range(3) [OF a(1), of 16 0] by (simp add: dword_aligned_iff_dvd dvd_diff_nat)
  have sp8: "span ?b 8 \<subseteq> below ?a" using span_below [OF a(1), of 16 8] by simp
  let ?q = "set_reg 12 3 (set_reg 11 ?b (set_reg 10 1 (set_reg 17 64 (set_reg 5 0x0a4b4f (set_reg 2 ?b prog)))))"
  have bytes: "take 3 (dword_bytes 0x0a4b4f) = [0x4f, 0x4b, 0x0a]" "length (dword_bytes 0x0a4b4f) = 8" by code_simp+
  have rest: "block addr m [ECALL, ADDI sp sp 16] ?q (\<lambda>q u. program_ok q \<and> get_reg q sp = ?a \<and> touched R (below ?a) s u \<and>
    uart_out u = uart_out s @ map (Pair UART0) [0x4f, 0x4b, 0x0a]) E t" if F: "fetchable addr t" and t: "touched R (span ?b 8) s t" and h: "holds ?b (dword_bytes 0x0a4b4f) t" 
      and uo: "uart_out t = uart_out s" "uart_in t = uart_in s" for t m
  proof -
    have rt: "running R t" by (rule touched_cur [OF t])
    have ld: "hw_translate User Load (?b + of_nat i) t \<noteq> None" if "i < 3" for i using sb(4) [of 3 i Load] that touched_translate [OF R t] by simp
    have seen: "seen t ?b 3 = [0x4f, 0x4b, 0x0a]" using holds_seen [OF rt h, of 3] ld bytes by simp
    have tx: "tx_ready t = tx_ready s" using uo(2) by (simp add: tx_ready_def)
    show ?thesis
      by (rule block_write [OF L(1) F rt, where A = "below ?a"])
        (use p sb(2,3) [of 3] ld E seen uo(1) tx t in \<open>auto simp: intro!: block_rules [OF L(1)] block_Nil intro: touched_trans [OF touched_mono [OF t sp8]]\<close>)
  qed
  have mid: "block addr m [LI a7 64, LI a0 1, MV a1 sp, LI a2 3, ECALL, ADDI sp sp 16] (set_reg 5 0x0a4b4f (set_reg 2 ?b prog))
      (\<lambda>q u. program_ok q \<and> get_reg q sp = ?a \<and> touched R (below ?a) s u \<and>
    uart_out u = uart_out s @ map (Pair UART0) [0x4f, 0x4b, 0x0a]) E t"
    if "fetchable addr t" "touched R (span ?b 8) s t" "holds ?b (dword_bytes 0x0a4b4f) t" "uart_out t = uart_out s" "uart_in t = uart_in s" for t m
    by (rule block_rules [OF L(1) that(1)])+ (use rest [OF that] p in simp)
  show ?thesis
    unfolding greeting_def
    by (rule block_rules [OF L])+ (rule block_SD [OF L R, where a = ?b]; use p al sb(4) [of 1 0 Store] mid in simp)
qed

lemma uname_runs:
  assumes L: "layout_ok addr" "fetchable addr s" and R: "running R s" and p: "program_ok prog"
    and st: "stack_mapped a s" "get_reg prog sp = a - 512"
  shows "block addr n uname_test prog (\<lambda>q u. program_ok q \<and> get_reg q sp = get_reg prog sp \<and> touched R (below a) s u) E s"
proof -
  have w: "writable (a - 512) 390 s" using stack_buffer(1) [OF st(1), of 512 390] by simp
  have "span (a - 512) 390 \<subseteq> below a" using span_below [of a 512 390] st(1) by (simp add: stack_mapped_def)
  then have mono: "touched R (below a) s u" if "touched R (span (a - 512) 390) s u" for u by (rule touched_mono [OF that])
  show ?thesis
    unfolding uname_test_def
    by (rule block_rules [OF L])+ (rule block_uname [OF L R]; use p w st(2) mono in \<open>simp add: block_rules [OF L(1)] block_Nil\<close>)
qed

lemma cwd_runs:
  assumes L: "layout_ok addr" "fetchable addr s" and R: "running R s" and p: "program_ok prog"
    and st: "stack_mapped a s" "get_reg prog sp = a - 512"
  shows "block addr n cwd_test prog (\<lambda>q u. program_ok q \<and> get_reg q sp = get_reg prog sp \<and> touched R (below a) s u) E s"
proof -
  let ?b = "a - 512"
  have w: "writable ?b 2 s" using stack_buffer(1) [OF st(1), of 512 2] by simp
  have "span ?b 2 \<subseteq> below a" using span_below [of a 512 2] st(1) by (simp add: stack_mapped_def)
  note mono = touched_mono [OF _ this]
  have rest: "block addr m [LI t0 2, BNE a0 t0 Sys_fail, LB t0 0 sp, LI t1 47, BNE t0 t1 Sys_fail, LB t0 1 sp, BNEZ t0 Sys_fail]
      (set_reg 10 2 (set_reg 11 16 (set_reg 10 ?b (set_reg 17 17 prog))))
      (\<lambda>q u. program_ok q \<and> get_reg q sp = get_reg prog sp \<and> touched R (below a) s u) E t"
    if F: "fetchable addr t" and t: "touched R (span ?b 2) s t" and h: "holds ?b [47, 0] t" for t m
  proof -
    have rt: "running R t" by (rule touched_cur [OF t])
    have ld: "hw_translate User Load (?b + of_nat i) t \<noteq> None" if "i < 2" for i
      using stack_buffer(4) [OF st(1), of 512 2 i Load] that touched_translate [OF R t] by simp
    have "seen t ?b 2 = [47, 0]" using holds_seen [OF rt h, of 2] ld by simp
    then have v: "the (view (mem t) (cur_root t) ?b) = 47" "the (view (mem t) (cur_root t) (?b + 1)) = 0" by (simp_all add: seen_def upt_rec)
    have s: "view (mem t) (cur_root t) (?b + of_nat i) \<noteq> None" if "i < 2" for i
      using translate_super(6) [OF running_in_call [OF rt], of Load "?b + of_nat i"] ld [OF that] by auto
    have v': "view (mem t) (cur_root t) ?b = Some 47" "view (mem t) (cur_root t) (?b + 1) = Some 0" using v s [of 0] s [of 1] by auto
    note rules = block_rules [OF L(1) F] block_LB [OF L(1) F rt] block_Nil
    show ?thesis
      by (rule block_rules [OF L(1) F])+ (use p st(2) ld [of 0] ld [of 1] v' mono [OF t] in \<open>simp_all add: rules\<close>)
  qed
  show ?thesis
    unfolding cwd_test_def
    by (rule block_rules [OF L])+ (rule block_getcwd [OF L R]; use p w st(2) rest in simp)
qed

end
