(* ===== verification/ProgHeap.thy ===== *)
theory ProgHeap
  imports ProgCalls
begin

text \<open>The part of the self test of the built-in program (\<open>src/kernel/src/main.rs\<close>) that grows and
  shrinks its heap. A call that maps or unmaps pages runs inside a trap (\<open>block_only\<close>): the program
  resumes with the call's result, its page table differs at the pages of the call only, and its code is
  still mapped. A \<open>window\<close> of pages is followed through such calls, and \<open>brk_runs\<close> walks through the
  whole of the heap test.\<close>

section \<open>Calls that change the address space\<close>

text \<open>Back in the program, whose page table has changed at the addresses \<open>A\<close> and whose descriptor by \<open>f\<close>.\<close>

definition moved :: "PhysAddr set \<Rightarrow> VirtAddr set \<Rightarrow> (Process \<Rightarrow> Process) \<Rightarrow> 'a kernel_state_scheme \<Rightarrow> 'a kernel_state_scheme \<Rightarrow> bool" where
  "moved R A f s u \<longleftrightarrow> running R u \<and> (\<exists>tf. cur_proc u = f ((cur_proc s)\<lparr>trap_frame := tf\<rparr>)) \<and> svpbmt u = svpbmt s \<and>
     (\<forall>r\<in>R. \<forall>a. r \<noteq> cur_root s \<or> a \<notin> A \<longrightarrow> pte_of (tables u) r a = pte_of (tables s) r a \<and> view (mem u) r a = view (mem s) r a)"

text \<open>What programs see of two states is the same.\<close>

definition same_spaces :: "PhysAddr set \<Rightarrow> 'a kernel_state_scheme \<Rightarrow> 'a kernel_state_scheme \<Rightarrow> bool" where
  "same_spaces R t u \<longleftrightarrow> (\<forall>r\<in>R. \<forall>a. pte_of (tables u) r a = pte_of (tables t) r a \<and> view (mem u) r a = view (mem t) r a) \<and>
     (\<forall>n. frames_has n t \<longrightarrow> frames_has n u)"

lemma frames_has_slot: "frames_has n (update_slot i f s) = frames_has n s"
  by (rule frames_has_eq) (simp add: frames_eq_def update_slot_def)

lemma block_change:
  assumes L: "layout_ok addr" "fetchable addr s" and R: "running R s" and p: "program_ok prog"
    and f: "\<And>c p. kernel_sp (f c p) = kernel_sp p \<and> page_table (f c p) = page_table p"
    and D: "\<And>e. inside R s e \<Longrightarrow> wp (dispatch (get_reg prog 17) [get_reg prog 10, get_reg prog 11, get_reg prog 12, get_reg prog 13,
        get_reg prog 14, get_reg prog 15]) (\<lambda>w t. w = v \<and> (\<exists>c t'. only R (cur_root s) A e t' \<and> P c t' \<and> t = update_slot (unat (CURRENT t')) (f c) t')) (\<lambda>_ _. False) e"
    and A: "\<And>n. n < length user_code \<Longrightarrow> addr n \<notin> A"
    and K: "\<And>c t u. P c t \<Longrightarrow> same_spaces R t u \<Longrightarrow> moved R A (f c) s u \<Longrightarrow> fetchable addr u \<Longrightarrow> block addr (Suc n) code (set_reg 10 v prog) Q E u"
  shows "block addr n (ECALL # code) prog Q E s"
proof -
  let ?P = "\<lambda>w t. w = v \<and> (\<exists>e c t'. inside R s e \<and> only R (cur_root s) A e t' \<and> P c t' \<and> t = update_slot (unat (CURRENT t')) (f c) t')"
  show ?thesis
  proof (rule block_ECALL [OF L R p, where P = ?P])
    fix e assume e: "inside R s e"
    note c = inside_call [OF R e]
    have sv: "serves R e (update_slot (unat (CURRENT t')) (f c) t')" if o: "only R (cur_root s) A e t'" for c t'
    proof -
      note k = only_kernel [OF o in_callD(1) [OF c(1)]]
      have "above_frames t' = above_frames e" "kernel_kept R e t'" using o by (simp_all add: only_def)
      then have "csr_satp t' = csr_satp e" "kernel_kept R e (update_slot (unat (CURRENT t')) (f c) t')"
        using above_frames_kernel(6) [of t' e] by (simp_all add: kernel_kept_def kernel_page_def)
      moreover have "csr_satp (update_slot (unat (CURRENT t')) (f c) t') = csr_satp t'" by (simp add: update_slot_def)
      ultimately show ?thesis using k f by (simp add: serves_def cur_proc_update)
    qed
    show "wp (dispatch (get_reg prog 17) [get_reg prog 10, get_reg prog 11, get_reg prog 12, get_reg prog 13, get_reg prog 14, get_reg prog 15])
        (\<lambda>w t. serves R e t \<and> ?P w t) (\<lambda>x t. \<not> resumes x \<and> E x t) e"
      by (rule wp_mono [OF D [OF e]]) (use e sv in auto)
  next
    fix w t u assume t: "?P w t" and u: "running R u" "alike R t u" "PROCESS_LIST u = PROCESS_LIST t"
    then obtain e c t' where e: "inside R s e" "only R (cur_root s) A e t'" "P c t'" "t = update_slot (unat (CURRENT t')) (f c) t'" by blast
    note ic = inside_call [OF R e(1)]
    note k = only_kernel [OF e(2) in_callD(1) [OF ic(1)]]
    have sm: "same_spaces R t' u" using u(2) frames_has_slot [of _ "unat (CURRENT t')" "f c" t'] by (simp add: same_spaces_def alike_def e(4))
    obtain tf where tf: "cur_proc e = (cur_proc s)\<lparr>trap_frame := tf\<rparr>" using e(1) by (auto simp: inside_def)
    have "cur_proc u = cur_proc t" using u(2,3) by (simp add: cur_proc_def alike_def)
    then have cu: "cur_proc u = f c ((cur_proc s)\<lparr>trap_frame := tf\<rparr>)" using cur_proc_update [OF k(2)] k(3) tf by (simp add: e(4))
    have "svpbmt t' = svpbmt e" "svpbmt t = svpbmt t'" using e(2) above_frames_kernel(8) [of t' e] by (simp_all add: only_def e(4) update_slot_def)
    then have pb: "svpbmt u = svpbmt s" using u(2) e(1) by (simp add: alike_def inside_def)
    have "pte_of (tables u) r a = pte_of (tables s) r a \<and> view (mem u) r a = view (mem s) r a" if "r \<in> R" "r \<noteq> cur_root s \<or> a \<notin> A" for r a
      using onlyD [OF e(2) that] sm e(1) that(1) by (simp add: same_spaces_def inside_def alike_def)
    then have mv: "moved R A (f c) s u" unfolding moved_def using u(1) cu pb by blast
    have "hw_translate User Fetch (addr m) u = hw_translate User Fetch (addr m) s" if "m < length user_code" for m
    proof -
      have ru: "cur_root u = cur_root s" by (simp add: cu f)
      have "pte_of (tables u) (cur_root s) (addr m) = pte_of (tables s) (cur_root s) (addr m)"
        using mv A [OF that] R by (simp add: moved_def running_def)
      then show ?thesis
        using hw_translate_pte [OF in_callD(2-4) [OF running_in_call [OF R]], of User Fetch "addr m"]
          hw_translate_pte [OF in_callD(2-4) [OF running_in_call [OF u(1)]], of User Fetch "addr m"] ru pb by simp
    qed
    then have "fetchable addr u" using L(2) by (simp add: fetchable_def)
    then show "block addr (Suc n) code (set_reg 10 w prog) Q E u" using K [OF e(3) sm mv] t by simp
  qed
qed

lemma block_only:
  assumes L: "layout_ok addr" "fetchable addr s" and R: "running R s" and p: "program_ok prog"
    and f: "\<And>p. kernel_sp (f p) = kernel_sp p \<and> page_table (f p) = page_table p"
    and D: "\<And>e. inside R s e \<Longrightarrow> wp (dispatch (get_reg prog 17) [get_reg prog 10, get_reg prog 11, get_reg prog 12, get_reg prog 13,
        get_reg prog 14, get_reg prog 15]) (\<lambda>w t. w = v \<and> (\<exists>t'. only R (cur_root s) A e t' \<and> P t' \<and> t = update_slot (unat (CURRENT t')) f t')) (\<lambda>_ _. False) e"
    and A: "\<And>n. n < length user_code \<Longrightarrow> addr n \<notin> A"
    and K: "\<And>t u. P t \<Longrightarrow> same_spaces R t u \<Longrightarrow> moved R A f s u \<Longrightarrow> fetchable addr u \<Longrightarrow> block addr (Suc n) code (set_reg 10 v prog) Q E u"
  shows "block addr n (ECALL # code) prog Q E s"
  by (rule block_change [OF L R p, where f = "\<lambda>_ :: unit. f" and P = "\<lambda>_. P" and v = v and A = A]) (use f D A K in auto)

section \<open>A window of memory that comes and goes\<close>

text \<open>Of the pages \<open>H\<close> of the program exactly those in \<open>B\<close> are mapped, for reading and writing; the rest
  of what programs see is as in \<open>s\<close>, and there are \<open>k\<close> frames left.\<close>

abbreviation rw :: PTEFlags where
  "rw \<equiv> PTEFlags_new True True False True"

definition window :: "PhysAddr set \<Rightarrow> 'a kernel_state_scheme \<Rightarrow> VirtAddr set \<Rightarrow> VirtAddr set \<Rightarrow> nat \<Rightarrow> 'a kernel_state_scheme \<Rightarrow> bool" where
  "window R s H B k u \<longleftrightarrow> running R u \<and> cur_root u = cur_root s \<and> svpbmt u = svpbmt s \<and> frames_has k u \<and>
     pid (cur_proc u) = pid (cur_proc s) \<and> parent_pid (cur_proc u) = parent_pid (cur_proc s) \<and>
     (\<forall>r\<in>R. \<forall>a. r \<noteq> cur_root s \<or> a \<notin> H \<longrightarrow> pte_of (tables u) r a = pte_of (tables s) r a \<and> (canonical a \<longrightarrow> view (mem u) r a = view (mem s) r a)) \<and>
     (\<forall>a\<in>H. if a \<in> B then \<exists>p. frame_ok p \<and> pte_of (tables u) (cur_root s) a = new_leaf p rw else pte_of (tables u) (cur_root s) a = 0)"

lemma window_leaf:
  "window R s H B k u \<Longrightarrow> a \<in> H \<Longrightarrow> a \<in> B \<Longrightarrow> \<exists>p. frame_ok p \<and> pte_of (tables u) (cur_root s) a = new_leaf p rw"
  unfolding window_def by metis

lemma windowD:
  assumes "window R s H B k u"
  shows "running R u" "cur_root u = cur_root s" "frames_has k u" "a \<in> H \<Longrightarrow> a \<notin> B \<Longrightarrow> pte_of (tables u) (cur_root s) a = 0"
    "a \<in> H \<Longrightarrow> a \<in> B \<Longrightarrow> is_u (pte_of (tables u) (cur_root s) a)" "cur_root s \<in> R"
proof -
  show "running R u" "cur_root u = cur_root s" "frames_has k u" using assms by (simp_all add: window_def)
  then show "cur_root s \<in> R" by (metis running_def)
  show "pte_of (tables u) (cur_root s) a = 0" if "a \<in> H" "a \<notin> B" using assms that by (simp add: window_def)
  show "is_u (pte_of (tables u) (cur_root s) a)" if "a \<in> H" "a \<in> B"
    using window_leaf [OF assms that] new_leaf_reads(7) [of _ True True False True] by (auto simp: frame_ok_def is_managed_unat)
qed

lemma window_start:
  assumes "running R s" and "frames_has k s" and "\<And>a. a \<in> H \<Longrightarrow> pte_of (tables s) (cur_root s) a = 0"
  shows "window R s H {} k s"
  using assms by (simp add: window_def)

lemma window_translate:
  assumes "window R s H B k u" and "a \<in> H" "a \<in> B" "canonical a" and "acc \<noteq> Fetch"
  shows "hw_translate User acc a u \<noteq> None"
proof -
  obtain p where p: "frame_ok p" "pte_of (tables u) (cur_root u) a = new_leaf p rw" using window_leaf [OF assms(1-3)] windowD(2) [OF assms(1)] by auto
  have "hw_leaf (svpbmt u) User acc (new_leaf p rw)"
    using new_leaf_reserved [OF p(1)] new_leaf_reads [of p True True False True] p(1) assms(5)
    by (cases acc) (simp_all add: hw_leaf_def leaf_ok_def frame_ok_def is_managed_unat)
  then show ?thesis
    using assms(4) p(2) hw_translate_pte [OF in_callD(2-4) [OF running_in_call [OF windowD(1) [OF assms(1)]]], of User acc a] by simp
qed

lemma window_touched:
  assumes w: "window R s H B k t" and t: "touched R A t u" and A: "A \<subseteq> H"
  shows "window R s H B k u"
proof -
  have r: "cur_root t = cur_root s" by (rule windowD [OF w])
  have "pte_of (tables u) r a = pte_of (tables t) r a" "canonical a \<Longrightarrow> r \<noteq> cur_root s \<or> a \<notin> H \<Longrightarrow> view (mem u) r a = view (mem t) r a"
    if "r \<in> R" for r a using t that A unfolding touched_def r by blast+
  then show ?thesis using w t touched_cur [OF t] windowD(6) [OF w] unfolding window_def touched_def by simp
qed

text \<open>A byte stored in the window is read back.\<close>

lemma block_probe:
  assumes L: "layout_ok addr" "fetchable addr t" and w: "window R s H B k t" and p: "program_ok prog"
    and a: "a = get_reg prog rb + off" "a \<in> H" "a \<in> B" "canonical a" and r: "r1 < 32" "r1 \<noteq> 0" "rb \<noteq> 0"
    and K: "\<And>u. fetchable addr u \<Longrightarrow> window R s H B k u \<Longrightarrow> cur_proc u = (cur_proc t)\<lparr>trap_frame := trap_frame (cur_proc u)\<rparr> \<Longrightarrow>
      block addr (Suc (Suc n)) code (set_reg r1 (scast (ucast (get_reg prog rs) :: u8)) prog) Q E u"
  shows "block addr n (SB rs off rb # LB r1 off rb # code) prog Q E t"
proof (rule block_SB [OF L windowD(1) [OF w] a(1)])
  show "hw_translate User Store a t \<noteq> None" by (rule window_translate [OF w a(2-4)]) simp
  fix u assume u: "fetchable addr u" "touched R {a} t u" "view (mem u) (cur_root u) a = Some (ucast (get_reg prog rs))"
  have wu: "window R s H B k u" by (rule window_touched [OF w u(2)]) (use a(2) in simp)
  have cu: "cur_proc u = (cur_proc t)\<lparr>trap_frame := trap_frame (cur_proc u)\<rparr>" using u(2) by (auto simp: touched_def)
  show "block addr (Suc n) (LB r1 off rb # code) prog Q E u"
    by (rule block_LB [OF L(1) u(1) windowD(1) [OF wu]])
      (use window_translate [OF wu a(2-4), of Load] u(3) K [OF u(1) wu cu] in \<open>simp_all add: a(1) [symmetric]\<close>)
qed

text \<open>The window after a change of the address space.\<close>

lemma window_moved:
  assumes w: "window R s H B k' t" and m: "moved R C f t u" and C: "C \<subseteq> H" and h: "frames_has k u"
    and f: "\<And>p. pid (f p) = pid p \<and> parent_pid (f p) = parent_pid p \<and> page_table (f p) = page_table p"
    and new: "\<And>a. a \<in> C \<Longrightarrow> if a \<in> B' then \<exists>p. frame_ok p \<and> pte_of (tables u) (cur_root s) a = new_leaf p rw else pte_of (tables u) (cur_root s) a = 0"
    and old: "\<And>a. a \<in> H \<Longrightarrow> a \<notin> C \<Longrightarrow> a \<in> B' \<longleftrightarrow> a \<in> B"
  shows "window R s H B' k u"
proof -
  have r: "cur_root t = cur_root s" by (rule windowD [OF w])
  obtain tf where tf: "cur_proc u = f ((cur_proc t)\<lparr>trap_frame := tf\<rparr>)" using m by (auto simp: moved_def)
  have same: "pte_of (tables u) r a = pte_of (tables t) r a" "view (mem u) r a = view (mem t) r a"
    if "r \<in> R" "r \<noteq> cur_root s \<or> a \<notin> C" for r a using m that by (auto simp: moved_def r)
  have "if a \<in> B' then \<exists>p. frame_ok p \<and> pte_of (tables u) (cur_root s) a = new_leaf p rw else pte_of (tables u) (cur_root s) a = 0" if "a \<in> H" for a
  proof (cases "a \<in> C")
    case False
    then show ?thesis using same(1) [OF windowD(6) [OF w], of a] old [OF that False] w that by (simp add: window_def)
  qed (rule new)
  moreover have "pte_of (tables u) r a = pte_of (tables s) r a \<and> (canonical a \<longrightarrow> view (mem u) r a = view (mem s) r a)"
    if "r \<in> R" "r \<noteq> cur_root s \<or> a \<notin> H" for r a
  proof -
    have "r \<noteq> cur_root s \<or> a \<notin> C" using that C by blast
    then show ?thesis using same [OF that(1), of a] w that by (simp add: window_def)
  qed
  ultimately show ?thesis using w m h f unfolding window_def by (simp add: moved_def tf)
qed

section \<open>The heap test\<close>

definition low_code :: "(nat \<Rightarrow> usize) \<Rightarrow> bool" where
  "low_code addr \<longleftrightarrow> (\<forall>n < length user_code. unat (addr n) < 0x20000)"

lemma low_code_out: "low_code addr \<Longrightarrow> n < length user_code \<Longrightarrow> 0x20000 \<le> unat st \<Longrightarrow> addr n \<notin> in_pages st fin"
  by (fastforce simp: low_code_def in_pages_def)

abbreviation heap2 :: "VirtAddr set" where
  "heap2 \<equiv> in_pages 0x20000 0x22000"

definition heap_at :: "PhysAddr set \<Rightarrow> 'a kernel_state_scheme \<Rightarrow> usize \<Rightarrow> nat \<Rightarrow> 'a kernel_state_scheme \<Rightarrow> bool" where
  "heap_at R s h k u \<longleftrightarrow> window R s heap2 (in_pages 0x20000 (page_up h)) k u \<and> heap_start (cur_proc u) = USER_HEAP_START \<and>
     heap_end (cur_proc u) = h \<and> mmap_areas (cur_proc u) = mmap_areas (cur_proc s)"

lemma page_up_values: "page_up 0x20000 = 0x20000" "page_up 0x20008 = 0x21000" "page_up 0x22000 = 0x22000"
  by (simp_all add: page_up_def page_of_def)

lemma heap_pages:
  assumes "0x20000 \<le> h" and "h \<le> 0x22000"
  shows "0x20000 \<le> unat (page_up h)" "unat (page_up h) \<le> 0x22000" "heap_start p = USER_HEAP_START \<Longrightarrow> heap_end p = h \<Longrightarrow> heap_bounds p"
proof -
  have "unat h + 4096 < 2 ^ 64" "unat (0x22000 :: usize) + 4096 < 2 ^ 64" using assms(2) by (simp_all add: word_le_nat_alt)
  then have "page_up 0x20000 \<le> page_up h" "page_up h \<le> page_up 0x22000" using page_up_mono assms by blast+
  then show "0x20000 \<le> unat (page_up h)" "unat (page_up h) \<le> 0x22000" by (simp_all add: page_up_values word_le_nat_alt)
  show "heap_start p = USER_HEAP_START \<Longrightarrow> heap_end p = h \<Longrightarrow> heap_bounds p"
    using assms by (simp add: heap_bounds_def USER_HEAP_START_def USER_HEAP_LIMIT_def word_le_nat_alt)
qed

lemma block_brk_grow:
  assumes L: "layout_ok addr" "fetchable addr t" "low_code addr" and p: "program_ok prog" "get_reg prog 17 = 214" "get_reg prog 10 = n"
    and t: "heap_at R s h (k + 3 * ((unat (page_up n) - unat (page_up h)) div 4096)) t" and n: "0x20000 \<le> h" "h < n" "n \<le> 0x22000"
    and K: "\<And>u. fetchable addr u \<Longrightarrow> heap_at R s n k u \<Longrightarrow> block addr (Suc m) code (set_reg 10 n prog) Q E u"
  shows "block addr m (ECALL # code) prog Q E t"
proof -
  let ?A = "in_pages (page_up h) (page_up n)"
  have w: "window R s heap2 (in_pages 0x20000 (page_up h)) (k + 3 * ((unat (page_up n) - unat (page_up h)) div 4096)) t"
    and ht: "heap_start (cur_proc t) = USER_HEAP_START" "heap_end (cur_proc t) = h" "mmap_areas (cur_proc t) = mmap_areas (cur_proc s)"
    using t by (simp_all add: heap_at_def)
  have hn: "0x20000 \<le> n" "h \<le> 0x22000" using n by auto
  note ph = heap_pages [OF n(1) hn(2)] and pn = heap_pages [OF hn(1) n(3)]
  have "unat n + 4096 < 2 ^ 64" "h \<le> n" using n by (simp_all add: word_le_nat_alt word_less_nat_alt)
  then have le: "unat (page_up h) \<le> unat (page_up n)" using page_up_mono by (simp add: word_le_nat_alt)
  have A: "?A \<subseteq> heap2" using ph pn by (auto simp: in_pages_def)
  have A0: "a \<notin> in_pages 0x20000 (page_up h)" if "a \<in> ?A" for a using that by (auto simp: in_pages_def)
  note R = windowD(1) [OF w]
  show ?thesis
  proof (rule block_only [OF L(1,2) R p(1), where f = "\<lambda>p. p\<lparr>heap_end := n\<rparr>" and A = ?A and v = n and
        P = "\<lambda>t'. zeroed (cur_root t) ?A rw t' \<and> frames_has k t'"])
    fix e assume e: "inside R t e"
    note c = inside_call [OF R e]
    obtain tf where tf: "cur_proc e = (cur_proc t)\<lparr>trap_frame := tf\<rparr>" using e by (auto simp: inside_def)
    have "wp (sys_brk n) (\<lambda>v u. v = n \<and> (\<exists>t'. mapped_to R (cur_root e) rw (page_up (heap_end (cur_proc e))) (page_up n) e t' \<and>
      frames_has k t' \<and> u = update_slot (unat (CURRENT t')) (\<lambda>p. p\<lparr>heap_end := n\<rparr>) t')) (\<lambda>_ _. False) e"
    proof (rule sys_brk_moves(1) [OF in_callD(1-3) [OF c(1)]])
      show "heap_bounds (cur_proc e)" using ph(3) [of "cur_proc e"] ht by (simp add: tf)
      show "frames_has (k + 3 * ((unat (page_up n) - unat (page_up (heap_end (cur_proc e)))) div 4096)) e"
        using windowD(3) [OF w] e ht(2) by (simp add: inside_def alike_def tf)
      show "\<forall>a\<in>in_pages (page_up (heap_end (cur_proc e))) (page_up n). pte_of (tables e) (cur_root e) a = 0"
        using windowD(4) [OF w] A A0 e ht(2) R windowD(2) [OF w] unfolding inside_def alike_def running_def by (auto simp: tf)
    qed (use n hn ht(2) in \<open>simp_all add: tf USER_HEAP_START_def USER_HEAP_LIMIT_def word_le_nat_alt\<close>)
    then show "wp (dispatch (get_reg prog 17) [get_reg prog 10, get_reg prog 11, get_reg prog 12, get_reg prog 13, get_reg prog 14, get_reg prog 15])
        (\<lambda>w u. w = n \<and> (\<exists>t'. only R (cur_root t) ?A e t' \<and> (zeroed (cur_root t) ?A rw t' \<and> frames_has k t') \<and>
           u = update_slot (unat (CURRENT t')) (\<lambda>p. p\<lparr>heap_end := n\<rparr>) t')) (\<lambda>_ _. False) e"
      unfolding mapped_to_def c(4) by (simp add: p(2,3) dispatch_defs tf ht(2)) (erule wp_mono, auto)
  next
    fix t' u assume P: "zeroed (cur_root t) ?A rw t' \<and> frames_has k t'" and u: "same_spaces R t' u" "moved R ?A (\<lambda>p. p\<lparr>heap_end := n\<rparr>) t u" "fetchable addr u"
    have "window R s heap2 (in_pages 0x20000 (page_up n)) k u"
    proof (rule window_moved [OF w u(2) A])
      show "frames_has k u" using P u(1) by (simp add: same_spaces_def)
      fix a
      show "if a \<in> in_pages 0x20000 (page_up n) then \<exists>p. frame_ok p \<and> pte_of (tables u) (cur_root s) a = new_leaf p rw else pte_of (tables u) (cur_root s) a = 0"
        if "a \<in> ?A"
        using that P u(1) ph windowD(2,6) [OF w] by (auto simp: in_pages_def zeroed_def same_spaces_def)
      show "a \<in> in_pages 0x20000 (page_up n) \<longleftrightarrow> a \<in> in_pages 0x20000 (page_up h)" if "a \<in> heap2" "a \<notin> ?A"
        using that le by (auto simp: in_pages_def)
    qed simp
    moreover obtain tf where "cur_proc u = ((cur_proc t)\<lparr>trap_frame := tf\<rparr>)\<lparr>heap_end := n\<rparr>" using u(2) by (auto simp: moved_def)
    ultimately have "heap_at R s n k u" using ht by (simp add: heap_at_def)
    then show "block addr (Suc m) code (set_reg 10 n prog) Q E u" by (rule K [OF u(3)])
  qed (use low_code_out [OF L(3) _ ph(1)] ht in auto)
qed

lemma block_brk_shrink:
  assumes L: "layout_ok addr" "fetchable addr t" "low_code addr" and p: "program_ok prog" "get_reg prog 17 = 214" "get_reg prog 10 = 0x20000"
    and t: "heap_at R s h k t" and n: "0x20000 < h" "h \<le> 0x22000"
    and K: "\<And>u. fetchable addr u \<Longrightarrow> heap_at R s 0x20000 k u \<Longrightarrow> block addr (Suc m) code (set_reg 10 0x20000 prog) Q E u"
  shows "block addr m (ECALL # code) prog Q E t"
proof -
  let ?A = "in_pages 0x20000 (page_up h)"
  have w: "window R s heap2 ?A k t"
    and ht: "heap_start (cur_proc t) = USER_HEAP_START" "heap_end (cur_proc t) = h" "mmap_areas (cur_proc t) = mmap_areas (cur_proc s)"
    using t by (simp_all add: heap_at_def)
  have n': "0x20000 \<le> h" using n by simp
  note ph = heap_pages [OF n' n(2)] and R = windowD(1) [OF w]
  have A: "?A \<subseteq> heap2" using ph by (auto simp: in_pages_def)
  show ?thesis
  proof (rule block_only [OF L(1,2) R p(1), where f = "\<lambda>p. p\<lparr>heap_end := 0x20000\<rparr>" and A = ?A and v = "0x20000" and
        P = "\<lambda>t'. (\<forall>a\<in>?A. pte_of (tables t') (cur_root s) a = 0) \<and> frames_has k t'"])
    fix e assume e: "inside R t e"
    note c = inside_call [OF R e]
    obtain tf where tf: "cur_proc e = (cur_proc t)\<lparr>trap_frame := tf\<rparr>" using e by (auto simp: inside_def)
    have pte: "pte_of (tables e) (cur_root s) a = pte_of (tables t) (cur_root s) a" for a
      using e windowD(6) [OF w] by (simp add: inside_def alike_def)
    have "wp (sys_brk 0x20000) (\<lambda>v u. v = 0x20000 \<and> (\<exists>t'. only R (cur_root e) (in_pages (page_up 0x20000) (page_up (heap_end (cur_proc e)))) e t' \<and>
      unmapped (cur_root e) (in_pages (page_up 0x20000) (page_up (heap_end (cur_proc e)))) (tables e) (tables t') \<and>
      frames_has k t' \<and> u = update_slot (unat (CURRENT t')) (\<lambda>p. p\<lparr>heap_end := 0x20000\<rparr>) t')) (\<lambda>_ _. False) e"
    proof (rule sys_brk_moves(2) [OF in_callD(1-3) [OF c(1)]])
      show "heap_bounds (cur_proc e)" using ph(3) [of "cur_proc e"] ht by (simp add: tf)
      show "frames_has k e" using windowD(3) [OF w] e by (simp add: inside_def alike_def)
    qed (use n ht(2) in \<open>simp_all add: tf USER_HEAP_START_def USER_HEAP_LIMIT_def word_le_nat_alt\<close>)
    then show "wp (dispatch (get_reg prog 17) [get_reg prog 10, get_reg prog 11, get_reg prog 12, get_reg prog 13, get_reg prog 14, get_reg prog 15])
        (\<lambda>w u. w = 0x20000 \<and> (\<exists>t'. only R (cur_root t) ?A e t' \<and> ((\<forall>a\<in>?A. pte_of (tables t') (cur_root s) a = 0) \<and> frames_has k t') \<and>
           u = update_slot (unat (CURRENT t')) (\<lambda>p. p\<lparr>heap_end := 0x20000\<rparr>) t')) (\<lambda>_ _. False) e"
      unfolding c(4) page_up_values
    proof (simp add: p(2,3) dispatch_defs tf ht(2), elim wp_mono)
      fix v u
      assume "v = 0x20000 \<and> (\<exists>t'. only R (cur_root t) ?A e t' \<and> unmapped (cur_root t) ?A (tables e) (tables t') \<and> frames_has k t' \<and>
        u = update_slot (unat (CURRENT t')) (heap_end_update (\<lambda>_. 0x20000)) t')"
      moreover have "is_u (pte_of (tables e) (cur_root t) a)" if "a \<in> ?A" for a
        using windowD(5) [OF w _ that] A that pte windowD(2) [OF w] by auto
      ultimately show "v = 0x20000 \<and> (\<exists>t'. only R (cur_root t) ?A e t' \<and> (\<forall>a\<in>?A. pte_of (tables t') (cur_root s) a = 0) \<and> frames_has k t' \<and>
        u = update_slot (unat (CURRENT t')) (heap_end_update (\<lambda>_. 0x20000)) t')"
        using windowD(2) [OF w] unfolding unmapped_def by auto
    qed simp
  next
    fix t' u assume P: "(\<forall>a\<in>?A. pte_of (tables t') (cur_root s) a = 0) \<and> frames_has k t'" and
      u: "same_spaces R t' u" "moved R ?A (\<lambda>p. p\<lparr>heap_end := 0x20000\<rparr>) t u" "fetchable addr u"
    have none: "in_pages 0x20000 (page_up 0x20000) = {}" by (simp add: page_up_values in_pages_empty)
    have "window R s heap2 {} k u"
      by (rule window_moved [OF w u(2) A]) (use P u(1) windowD(6) [OF w] in \<open>auto simp: same_spaces_def\<close>)
    moreover obtain tf where "cur_proc u = ((cur_proc t)\<lparr>trap_frame := tf\<rparr>)\<lparr>heap_end := 0x20000\<rparr>" using u(2) by (auto simp: moved_def)
    ultimately have "heap_at R s 0x20000 k u" using ht by (simp add: heap_at_def none)
    then show "block addr (Suc m) code (set_reg 10 0x20000 prog) Q E u" by (rule K [OF u(3)])
  qed (use low_code_out [OF L(3)] ht in auto)
qed

lemma heap_touched:
  assumes "heap_at R s h k t" and "touched R A t u" and "A \<subseteq> heap2"
  shows "heap_at R s h k u"
  using assms window_touched [OF _ assms(2,3)] touched_cur [OF assms(2)] by (simp add: heap_at_def)

text \<open>A break outside the heap window leaves everything as it is.\<close>

lemma block_brk_query:
  assumes L: "layout_ok addr" "fetchable addr t" and p: "program_ok prog" "get_reg prog 17 = 214" "get_reg prog 10 = 0 \<or> 0x3e000000 < get_reg prog 10"
    and t: "heap_at R s h k t"
    and K: "\<And>u. fetchable addr u \<Longrightarrow> heap_at R s h k u \<Longrightarrow> block addr (Suc m) code (set_reg 10 h prog) Q E u"
  shows "block addr m (ECALL # code) prog Q E t"
proof (rule block_quiet [OF L _ p(1), of R])
  show "running R t" using t windowD(1) by (auto simp: heap_at_def)
  fix e assume e: "inside R t e"
  then have "sched_ok e" "heap_end (cur_proc e) = h" "heap_start (cur_proc e) = USER_HEAP_START" using t by (auto simp: inside_def heap_at_def)
  then show "dispatch (get_reg prog 17) [get_reg prog 10, get_reg prog 11, get_reg prog 12, get_reg prog 13, get_reg prog 14, get_reg prog 15] e = (Val h, e)"
    using p(3) by (auto simp: p(2) dispatch_defs sys_brk_def kbind_def current_run ret_def USER_HEAP_LIMIT_def)
next
  fix u assume "steady R t u" "fetchable addr u"
  then show "block addr (Suc m) code (set_reg 10 h prog) Q E u" using K heap_touched [OF t touched_steady, of u "{}"] by simp
qed

text \<open>A byte stored in the heap is read back.\<close>

lemma block_heap_probe:
  assumes L: "layout_ok addr" "fetchable addr t" and t: "heap_at R s h k t" and p: "program_ok prog"
    and a: "0x20000 \<le> unat (get_reg prog rb)" "unat (get_reg prog rb) < unat (page_up h)" "h \<le> 0x22000" "0x20000 \<le> h" and r: "r1 < 32" "r1 \<noteq> 0" "rb \<noteq> 0"
    and K: "\<And>u. fetchable addr u \<Longrightarrow> heap_at R s h k u \<Longrightarrow> block addr (Suc (Suc n)) code (set_reg r1 (scast (ucast (get_reg prog rs) :: u8)) prog) Q E u"
  shows "block addr n (SB rs 0 rb # LB r1 0 rb # code) prog Q E t"
proof -
  note hp = heap_pages(2) [OF a(4,3)]
  let ?a = "get_reg prog rb"
  have w: "window R s heap2 (in_pages 0x20000 (page_up h)) k t" using t by (simp add: heap_at_def)
  have in2: "?a \<in> heap2" "?a \<in> in_pages 0x20000 (page_up h)" "canonical ?a" using a hp by (auto simp: in_pages_def canonical_def)
  show ?thesis
  proof (rule block_probe [OF L w p, where a = ?a])
    fix u assume u: "fetchable addr u" "window R s heap2 (in_pages 0x20000 (page_up h)) k u" "cur_proc u = (cur_proc t)\<lparr>trap_frame := trap_frame (cur_proc u)\<rparr>"
    have "heap_end (cur_proc u) = heap_end (cur_proc t) \<and> heap_start (cur_proc u) = heap_start (cur_proc t) \<and> mmap_areas (cur_proc u) = mmap_areas (cur_proc t)"
      by (subst (1 2 3) u(3)) simp
    then have "heap_at R s h k u" using t u(2) by (simp add: heap_at_def)
    then show "block addr (Suc (Suc n)) code (set_reg r1 (scast (ucast (get_reg prog rs) :: u8)) prog) Q E u" by (rule K [OF u(1)])
  qed (use in2 r in auto)
qed

lemma brk_runs:
  assumes L: "layout_ok addr" "fetchable addr t" "low_code addr" and p: "program_ok prog" and t: "heap_at R s 0x20000 (k + 6) t"
  shows "block addr n brk_test prog (\<lambda>q u. program_ok q \<and> get_reg q sp = get_reg prog sp \<and> fetchable addr u \<and> heap_at R s 0x20000 k u) E t"
proof -
  note rules = block_rules [OF L(1)] block_Nil
  have grow1: "block addr m (ECALL # code) prog Q E t" if "fetchable addr t" "heap_at R s 0x20000 (k + 6) t" "program_ok prog"
      "get_reg prog 17 = 214" "get_reg prog 10 = 0x20008"
      "\<And>u. fetchable addr u \<Longrightarrow> heap_at R s 0x20008 (k + 3) u \<Longrightarrow> block addr (Suc m) code (set_reg 10 0x20008 prog) Q E u" for m code prog Q E t
    by (rule block_brk_grow [OF L(1) that(1) L(3) that(3-5), where h = "0x20000" and k = "k + 3"]) (use that in \<open>simp_all add: page_up_values add.commute [of k 6] add.commute [of k 3]\<close>)
  have grow2: "block addr m (ECALL # code) prog Q E t" if "fetchable addr t" "heap_at R s 0x20008 (k + 3) t" "program_ok prog"
      "get_reg prog 17 = 214" "get_reg prog 10 = 0x22000"
      "\<And>u. fetchable addr u \<Longrightarrow> heap_at R s 0x22000 k u \<Longrightarrow> block addr (Suc m) code (set_reg 10 0x22000 prog) Q E u" for m code prog Q E t
    by (rule block_brk_grow [OF L(1) that(1) L(3) that(3-5), where h = "0x20008" and k = k]) (use that in \<open>simp_all add: page_up_values add.commute [of k 6] add.commute [of k 3]\<close>)
  have probe: "block addr m (SB rs 0 rb # LB r1 0 rb # code) prog Q E t"
    if "fetchable addr t" "heap_at R s h c t" "program_ok prog" "0x20000 \<le> unat (get_reg prog rb)" "unat (get_reg prog rb) < unat (page_up h)"
      "h = 0x20008 \<or> h = 0x22000" "r1 < 32" "r1 \<noteq> 0" "rb \<noteq> 0"
      "\<And>u. fetchable addr u \<Longrightarrow> heap_at R s h c u \<Longrightarrow> block addr (Suc (Suc m)) code (set_reg r1 (scast (ucast (get_reg prog rs) :: u8)) prog) Q E u"
      for m rs rb r1 h c code prog Q E t
    by (rule block_heap_probe [OF L(1) that(1-5)]) (use that(6-) in auto)
  have query: "block addr m (ECALL # code) prog Q E t" if "fetchable addr t" "heap_at R s 0x20000 c t" "program_ok prog"
      "get_reg prog 17 = 214" "get_reg prog 10 = 0 \<or> 0x3e000000 < get_reg prog 10"
      "\<And>u. fetchable addr u \<Longrightarrow> heap_at R s 0x20000 c u \<Longrightarrow> block addr (Suc m) code (set_reg 10 0x20000 prog) Q E u" for m c code prog Q E t
    by (rule block_brk_query [OF L(1) that(1) that(3-5) that(2)]) (rule that(6))
  have shrink: "block addr m (ECALL # code) prog Q E t" if "fetchable addr t" "heap_at R s 0x22000 c t" "program_ok prog"
      "get_reg prog 17 = 214" "get_reg prog 10 = 0x20000"
      "\<And>u. fetchable addr u \<Longrightarrow> heap_at R s 0x20000 c u \<Longrightarrow> block addr (Suc m) code (set_reg 10 0x20000 prog) Q E u" for m c code prog Q E t
    by (rule block_brk_shrink [OF L(1) that(1) L(3) that(3-5) that(2)]) (use that(6) in simp_all)
  show ?thesis
    unfolding brk_test_def
    by (insert L(2) p t, (rule rules probe | (rule query grow1 grow2 shrink, assumption, assumption) | assumption | (simp add: page_up_values; fail))+)
qed

end
