(* ===== verification/ProgMap.thy ===== *)
theory ProgMap
  imports ProgHeap
begin

text \<open>The part of the self test of the built-in program (\<open>src/kernel/src/main.rs\<close>) that maps two pages,
  uses them, unmaps them one after the other and makes two requests that the kernel has to turn down.
  \<open>map_at\<close> follows the page table and the table of mappings together; \<open>mmap_runs\<close> walks through the
  whole of the mapping test.\<close>

section \<open>The mapping test\<close>

abbreviation maps2 :: "VirtAddr set" where
  "maps2 \<equiv> in_pages 0x3e000000 0x3e002000"

text \<open>The pages from \<open>st\<close> up to \<open>0x3e002000\<close> are mapped, and the table records them and no others.\<close>

definition map_at :: "PhysAddr set \<Rightarrow> 'a kernel_state_scheme \<Rightarrow> usize \<Rightarrow> nat \<Rightarrow> 'a kernel_state_scheme \<Rightarrow> bool" where
  "map_at R s st k u \<longleftrightarrow> window R s maps2 (in_pages st 0x3e002000) k u \<and> areas_ok (mmap_areas (cur_proc u)) \<and>
     (\<forall>x. area_at (mmap_areas (cur_proc u)) x = (if unat st \<le> x \<and> x < 0x3e002000 then Some (3, 0x22) else None))"

lemma low_code_map: "low_code addr \<Longrightarrow> n < length user_code \<Longrightarrow> 0x3e000000 \<le> unat st \<Longrightarrow> addr n \<notin> in_pages st fin"
  by (rule low_code_out) simp_all

text \<open>A table without mappings has all of the window free.\<close>

lemma no_areas:
  assumes as: "areas_ok as" and none: "\<forall>x. area_at as x = None"
  shows "a \<in> set as \<Longrightarrow> \<not> area_used a" "free_at as n g \<longleftrightarrow> 0x3e000000 \<le> g \<and> g + n \<le> 0x3f000000" "\<exists>a\<in>set as. \<not> area_used a"
proof -
  show u: "\<not> area_used a" if "a \<in> set as" for a
  proof
    assume "area_used a"
    then have "in_area a (lo a)" using as that fin_of(4) [of a] by (auto simp: areas_ok_def in_area_def)
    then show False using none that by (auto simp: area_at_None)
  qed
  then show "free_at as n g \<longleftrightarrow> 0x3e000000 \<le> g \<and> g + n \<le> 0x3f000000" by (auto simp: free_at_def)
  have "length as = 32" using as by (simp add: areas_ok_def)
  then have "as ! 0 \<in> set as" by simp
  then show "\<exists>a\<in>set as. \<not> area_used a" using u by blast
qed

lemma mmap2_request: "mmap_request 8192 3 0x22 0 = Inr (8192, rw)" "mmap_request 4096 3 2 0 = Inl ENOSYS"
proof -
  have "page_up 8192 = 8192" "page_up 4096 = 4096" by (simp_all add: page_up_def page_of_def)
  then show "mmap_request 8192 3 0x22 0 = Inr (8192, rw)" "mmap_request 4096 3 2 0 = Inl ENOSYS"
    by (simp_all add: mmap_request_def pte_flags_from_prot_def PROT_READ_def PROT_WRITE_def PROT_EXEC_def MAP_PRIVATE_def MAP_ANONYMOUS_def page_aligned_def)
qed

text \<open>The first mapping lands at the start of the window.\<close>

lemma first_mapping:
  assumes ok: "sched_ok s" "world_ok s R" "cur_root s \<in> R" and as: "areas_ok (mmap_areas (cur_proc s))"
    and none: "\<forall>x. area_at (mmap_areas (cur_proc s)) x = None" and tr: "window_tracked s" and h: "frames_has (k + 6) s"
  shows "wp (sys_mmap 0 8192 3 0x22 fd 0) (\<lambda>v t. v = 0x3e000000 \<and> (\<exists>bs t'. only R (cur_root s) maps2 s t' \<and>
      (zeroed (cur_root s) maps2 rw t' \<and> frames_has k t' \<and> areas_ok bs \<and>
        (\<forall>x. area_at bs x = (if 0x3e000000 \<le> x \<and> x < 0x3e002000 then Some (3, 0x22) else None))) \<and>
      t = update_slot (unat (CURRENT t')) (\<lambda>p. p\<lparr>mmap_areas := bs\<rparr>) t')) (\<lambda>_ _. False) s"
proof -
  let ?as = "mmap_areas (cur_proc s)"
  note fr = no_areas [OF as none]
  have n: "page_aligned (8192 :: usize)" "unat (8192 :: usize) = 8192" by (simp_all add: page_aligned_def)
  have g: "\<exists>g. free_at ?as (unat (8192 :: usize)) g" unfolding fr(2) by (intro exI [of _ "0x3e000000"]) simp
  have h': "frames_has (k + 3 * (unat (8192 :: usize) div 4096)) s" using h by simp
  have perm: "True \<or> False" "True \<longrightarrow> True" by simp_all
  have "wp (mmap_place 0 8192 3 0x22 rw) (\<lambda>v t. v = 0x3e000000 \<and> (\<exists>bs t'. only R (cur_root s) maps2 s t' \<and>
      (zeroed (cur_root s) maps2 rw t' \<and> frames_has k t' \<and> areas_ok bs \<and>
        (\<forall>x. area_at bs x = (if 0x3e000000 \<le> x \<and> x < 0x3e002000 then Some (3, 0x22) else None))) \<and>
      t = update_slot (unat (CURRENT t')) (\<lambda>p. p\<lparr>mmap_areas := bs\<rparr>) t')) (\<lambda>_ _. False) s"
  proof (rule wp_mono [OF mmap_place_has [OF ok as n(1) g fr(3) tr h' perm]], goal_cases)
    case (1 v t)
    then have v: "0x3e000000 \<le> unat v" "\<forall>h. free_at ?as 8192 h \<longrightarrow> unat v \<le> h" by (simp_all add: fr(2))
    have "unat v \<le> 0x3e000000" using v(2) fr(2) [of 8192 "0x3e000000"] by simp
    then have ve: "v = 0x3e000000" using v(1) by (simp add: word_unat_eq_iff)
    obtain t' slot where t': "mapped_to R (cur_root s) rw v (v + 8192) s t'" "frames_has k t'" "slot < 32" "\<not> area_used (?as ! slot)"
      "t = with_areas (?as[slot := \<lparr>area_start = v, area_len = 8192, area_prot = 3, area_flags = 0x22, area_used = True\<rparr>]) t'" using 1 by blast
    let ?a = "\<lparr>area_start = 0x3e000000, area_len = 8192, area_prot = 3, area_flags = 0x22, area_used = True\<rparr> :: MmapArea"
    have a: "area_used ?a" "area_ok ?a" "free_at ?as (unat (area_len ?a)) (lo ?a)"
      by (simp_all add: area_ok_def fr(2) lo_def hi_def page_aligned_def)
    note ins = area_at_insert [OF as t'(3,4) a]
    have "only R (cur_root s) maps2 s t'" "zeroed (cur_root s) maps2 rw t'" using t'(1) by (simp_all add: mapped_to_def ve)
    moreover have "area_at (?as[slot := ?a]) x = (if 0x3e000000 \<le> x \<and> x < 0x3e002000 then Some (3, 0x22) else None)" for x
      using ins(2) [of x] none by (simp add: lo_def hi_def)
    ultimately show ?case using ve t'(2,5) ins(1) unfolding with_areas_def by blast
  qed simp
  then show ?thesis by (simp add: sys_mmap_cases mmap2_request)
qed

lemma block_mmap:
  assumes L: "layout_ok addr" "fetchable addr t" "low_code addr" and R: "running R t" and p: "program_ok prog" "get_reg prog 17 = 222"
      "get_reg prog 10 = 0" "get_reg prog 11 = 8192" "get_reg prog 12 = 3" "get_reg prog 13 = 0x22" "get_reg prog 15 = 0"
    and t: "areas_ok (mmap_areas (cur_proc t))" "\<forall>x. area_at (mmap_areas (cur_proc t)) x = None" "window_tracked t" "frames_has (k + 6) t"
    and K: "\<And>u. fetchable addr u \<Longrightarrow> map_at R t 0x3e000000 k u \<Longrightarrow> block addr (Suc m) code (set_reg 10 0x3e000000 prog) Q E u"
  shows "block addr m (ECALL # code) prog Q E t"
proof (rule block_change [OF L(1,2) R p(1), where f = "\<lambda>bs p. p\<lparr>mmap_areas := bs\<rparr>" and A = maps2 and v = "0x3e000000" and
      P = "\<lambda>bs t'. zeroed (cur_root t) maps2 rw t' \<and> frames_has k t' \<and> areas_ok bs \<and>
        (\<forall>x. area_at bs x = (if 0x3e000000 \<le> x \<and> x < 0x3e002000 then Some (3, 0x22) else None))"])
  fix e assume e: "inside R t e"
  note c = inside_call [OF R e]
  obtain tf where tf: "cur_proc e = (cur_proc t)\<lparr>trap_frame := tf\<rparr>" using e by (auto simp: inside_def)
  have pte: "pte_of (tables e) (cur_root t) a = pte_of (tables t) (cur_root t) a" for a using e R by (simp add: inside_def alike_def running_def)
  have "window_tracked e" using t(3) by (simp add: window_tracked_def tf pte)
  moreover have "frames_has (k + 6) e" using t(4) e by (simp add: inside_def alike_def)
  ultimately show "wp (dispatch (get_reg prog 17) [get_reg prog 10, get_reg prog 11, get_reg prog 12, get_reg prog 13, get_reg prog 14, get_reg prog 15])
      (\<lambda>w u. w = 0x3e000000 \<and> (\<exists>bs t'. only R (cur_root t) maps2 e t' \<and> (zeroed (cur_root t) maps2 rw t' \<and> frames_has k t' \<and> areas_ok bs \<and>
          (\<forall>x. area_at bs x = (if 0x3e000000 \<le> x \<and> x < 0x3e002000 then Some (3, 0x22) else None))) \<and>
        u = update_slot (unat (CURRENT t')) (\<lambda>p. p\<lparr>mmap_areas := bs\<rparr>) t')) (\<lambda>_ _. False) e"
    using first_mapping [OF in_callD(1-3) [OF c(1)], where k = k and fd = "get_reg prog 14"] t(1,2) unfolding c(4)
    by (simp only: p(2-)) (simp add: dispatch_defs tf)
next
  fix bs t' u assume P: "zeroed (cur_root t) maps2 rw t' \<and> frames_has k t' \<and> areas_ok bs \<and>
      (\<forall>x. area_at bs x = (if 0x3e000000 \<le> x \<and> x < 0x3e002000 then Some (3, 0x22) else None))"
    and u: "same_spaces R t' u" "moved R maps2 (\<lambda>p. p\<lparr>mmap_areas := bs\<rparr>) t u" "fetchable addr u"
  have z: "pte_of (tables t) (cur_root t) a = 0" if "a \<in> maps2" for a
    using t(2,3) that by (simp add: window_tracked_def in_pages_def Let_def)
  have w: "window R t maps2 {} (k + 6) t" by (rule window_start [OF R t(4) z])
  have "window R t maps2 maps2 k u"
    by (rule window_moved [OF w u(2)]) (use P u(1) windowD(6) [OF w] in \<open>auto simp: zeroed_def same_spaces_def\<close>)
  moreover obtain tf where "cur_proc u = ((cur_proc t)\<lparr>trap_frame := tf\<rparr>)\<lparr>mmap_areas := bs\<rparr>" using u(2) by (auto simp: moved_def)
  ultimately have "map_at R t 0x3e000000 k u" using P by (simp add: map_at_def)
  then show "block addr (Suc m) code (set_reg 10 0x3e000000 prog) Q E u" by (rule K [OF u(3)])
qed (use low_code_map [OF L(3)] in auto)

text \<open>One page is unmapped from the front of the mapping.\<close>

lemma front_splittable:
  assumes t: "map_at R s st k t" and st: "0 < unat st" "unat st \<le> unat fin"
  shows "splittable st fin (mmap_areas (cur_proc t))"
proof -
  have "area_at (mmap_areas (cur_proc t)) (unat st - 1) = None" using t st(1) by (auto simp: map_at_def)
  then have "\<not> splits st fin a" if "a \<in> set (mmap_areas (cur_proc t))" for a
    using that st by (fastforce simp: area_at_None splits_def in_area_def)
  then have "filter (splits st fin) (mmap_areas (cur_proc t)) = []" by (simp add: filter_empty_conv)
  then show ?thesis by (simp add: splittable_def)
qed

lemma block_munmap:
  assumes L: "layout_ok addr" "fetchable addr t" "low_code addr" and p: "program_ok prog" "get_reg prog 17 = 215"
      "get_reg prog 10 = st" "get_reg prog 11 = 4096"
    and t: "map_at R s st k t" and st: "st = 0x3e000000 \<or> st = 0x3e001000"
    and K: "\<And>u. fetchable addr u \<Longrightarrow> map_at R s (st + 4096) k u \<Longrightarrow> block addr (Suc m) code (set_reg 10 0 prog) Q E u"
  shows "block addr m (ECALL # code) prog Q E t"
proof -
  let ?A = "in_pages st (st + 4096)"
  have w: "window R s maps2 (in_pages st 0x3e002000) k t" using t by (simp add: map_at_def)
  note R = windowD(1) [OF w]
  have A: "?A \<subseteq> maps2" and AB: "?A \<subseteq> in_pages st 0x3e002000" and stu: "0x3e000000 \<le> unat st" "unat (st + 4096) = unat st + 4096"
    using st by (auto simp: in_pages_def)
  have up: "page_up 4096 = 4096" by (simp add: page_up_def page_of_def)
  have ok: "munmap_ok st 4096" using st by (auto simp: munmap_ok_def page_aligned_def)
  let ?P = "\<lambda>bs t'. (\<forall>a\<in>?A. pte_of (tables t') (cur_root s) a = 0) \<and> frames_has k t' \<and> areas_ok bs \<and>
        (\<forall>x. area_at bs x = (if unat (st + 4096) \<le> x \<and> x < 0x3e002000 then Some (3, 0x22) else None))"
  show ?thesis
  proof (rule block_change [OF L(1,2) R p(1), where f = "\<lambda>bs p. p\<lparr>mmap_areas := bs\<rparr>" and A = ?A and v = "0" and P = ?P])
    fix e assume e: "inside R t e"
    note c = inside_call [OF R e]
    obtain tf where tf: "cur_proc e = (cur_proc t)\<lparr>trap_frame := tf\<rparr>" using e by (auto simp: inside_def)
    have pte: "pte_of (tables e) (cur_root s) a = pte_of (tables t) (cur_root s) a" for a
      using e windowD(6) [OF w] by (simp add: inside_def alike_def)
    have fe: "frames_has k e" using windowD(3) [OF w] e by (simp add: inside_def alike_def)
    have as: "areas_ok (mmap_areas (cur_proc e))" "splittable st (st + 4096) (mmap_areas (cur_proc e))"
      "\<And>x. area_at (mmap_areas (cur_proc e)) x = (if unat st \<le> x \<and> x < 0x3e002000 then Some (3, 0x22) else None)"
      using t front_splittable [OF t] stu by (simp_all add: tf map_at_def)
    have u: "is_u (pte_of (tables e) (cur_root s) a)" if "a \<in> ?A" for a using windowD(5) [OF w] A AB that pte by auto
    have r: "cur_root e = cur_root s" using windowD(2) [OF w] by (simp add: tf)
    have "wp (sys_munmap st 4096) (\<lambda>w u. w = 0 \<and> (\<exists>bs t'. only R (cur_root t) ?A e t' \<and> ?P bs t' \<and>
        u = update_slot (unat (CURRENT t')) (\<lambda>p. p\<lparr>mmap_areas := bs\<rparr>) t')) (\<lambda>_ _. False) e"
    proof (rule wp_mono [OF sys_munmap_cut [OF in_callD(1-3) [OF c(1)] as(1), where k = k]], goal_cases)
      case (1 w x)
      then have "w = 0" "munmap_cut R k st (st + 4096) e x" using ok as(2) by (simp_all add: up)
      then obtain t' bs where m: "only R (cur_root s) ?A e t'" "unmapped (cur_root s) ?A (tables e) (tables t')" "frames_has k t'" "x = with_areas bs t'"
        "areas_ok bs" "\<forall>y. area_at bs y = (if unat st \<le> y \<and> y < unat (st + 4096) then None else area_at (mmap_areas (cur_proc e)) y)"
        using fe unfolding munmap_cut_def r by blast
      have "area_at bs y = (if unat (st + 4096) \<le> y \<and> y < 0x3e002000 then Some (3, 0x22) else None)" for y
        using m(6) stu by (simp add: as(3))
      moreover have "\<forall>a\<in>?A. pte_of (tables t') (cur_root s) a = 0" using m(2) u by (simp add: unmapped_def)
      ultimately have "?P bs t'" using m(3,5) by blast
      then show ?case using \<open>w = 0\<close> m(1,4) windowD(2) [OF w] unfolding with_areas_def by (intro conjI exI [of _ bs] exI [of _ t']) simp_all
    qed simp
    then show "wp (dispatch (get_reg prog 17) [get_reg prog 10, get_reg prog 11, get_reg prog 12, get_reg prog 13, get_reg prog 14, get_reg prog 15])
        (\<lambda>w u. w = 0 \<and> (\<exists>bs t'. only R (cur_root t) ?A e t' \<and> ?P bs t' \<and> u = update_slot (unat (CURRENT t')) (\<lambda>p. p\<lparr>mmap_areas := bs\<rparr>) t')) (\<lambda>_ _. False) e"
      by (simp only: p(2-)) (simp add: dispatch_defs)
  next
    fix bs t' u assume P: "?P bs t'" and u: "same_spaces R t' u" "moved R ?A (\<lambda>p. p\<lparr>mmap_areas := bs\<rparr>) t u" "fetchable addr u"
    have "window R s maps2 (in_pages (st + 4096) 0x3e002000) k u"
      by (rule window_moved [OF w u(2) A]) (use P u(1) windowD(6) [OF w] stu in \<open>auto simp: same_spaces_def in_pages_def\<close>)
    moreover obtain tf where "cur_proc u = ((cur_proc t)\<lparr>trap_frame := tf\<rparr>)\<lparr>mmap_areas := bs\<rparr>" using u(2) by (auto simp: moved_def)
    ultimately have "map_at R s (st + 4096) k u" using P by (simp add: map_at_def)
    then show "block addr (Suc m) code (set_reg 10 0 prog) Q E u" by (rule K [OF u(3)])
  qed (use low_code_map [OF L(3) _ stu(1)] in auto)
qed

lemma map_touched:
  assumes "map_at R s st k t" and "touched R A t u" and "A \<subseteq> maps2"
  shows "map_at R s st k u"
  using assms window_touched [OF _ assms(2,3)] touched_cur [OF assms(2)] by (simp add: map_at_def)

text \<open>The requests that the kernel turns down.\<close>

lemma block_turned_down:
  assumes L: "layout_ok addr" "fetchable addr t" and p: "program_ok prog" and t: "map_at R s st k t"
    and c: "get_reg prog 17 = 215 \<and> get_reg prog 10 = 0x3e000001 \<and> v = - 22 \<or>
      get_reg prog 17 = 222 \<and> get_reg prog 11 = 4096 \<and> get_reg prog 12 = 3 \<and> get_reg prog 13 = 2 \<and> get_reg prog 15 = 0 \<and> v = - 38"
    and K: "\<And>u. fetchable addr u \<Longrightarrow> map_at R s st k u \<Longrightarrow> block addr (Suc m) code (set_reg 10 v prog) Q E u"
  shows "block addr m (ECALL # code) prog Q E t"
proof (rule block_quiet [OF L _ p, of R])
  show "running R t" using t windowD(1) by (auto simp: map_at_def)
  fix e
  show "dispatch (get_reg prog 17) [get_reg prog 10, get_reg prog 11, get_reg prog 12, get_reg prog 13, get_reg prog 14, get_reg prog 15] e = (Val v, e)"
    using c by (auto simp: dispatch_defs sys_munmap_cases munmap_ok_def page_aligned_def sys_mmap_cases mmap2_request ret_def linux_error_def EINVAL_def ENOSYS_def)
next
  fix u assume "steady R t u" "fetchable addr u"
  then show "block addr (Suc m) code (set_reg 10 v prog) Q E u" using K map_touched [OF t touched_steady, of u "{}"] by simp
qed

text \<open>A byte stored in the mapping is read back.\<close>

lemma block_map_probe:
  assumes L: "layout_ok addr" "fetchable addr t" and t: "map_at R s st k t" and p: "program_ok prog"
    and a: "unat st \<le> unat (get_reg prog rb)" "unat (get_reg prog rb) < 0x3e002000" "0x3e000000 \<le> unat st" and r: "r1 < 32" "r1 \<noteq> 0" "rb \<noteq> 0"
    and K: "\<And>u. fetchable addr u \<Longrightarrow> map_at R s st k u \<Longrightarrow> block addr (Suc (Suc n)) code (set_reg r1 (scast (ucast (get_reg prog rs) :: u8)) prog) Q E u"
  shows "block addr n (SB rs 0 rb # LB r1 0 rb # code) prog Q E t"
proof -
  let ?a = "get_reg prog rb"
  have w: "window R s maps2 (in_pages st 0x3e002000) k t" using t by (simp add: map_at_def)
  have in2: "?a \<in> maps2" "?a \<in> in_pages st 0x3e002000" "canonical ?a" using a by (auto simp: in_pages_def canonical_def)
  show ?thesis
  proof (rule block_probe [OF L w p, where a = ?a])
    fix u assume u: "fetchable addr u" "window R s maps2 (in_pages st 0x3e002000) k u" "cur_proc u = (cur_proc t)\<lparr>trap_frame := trap_frame (cur_proc u)\<rparr>"
    have "mmap_areas (cur_proc u) = mmap_areas (cur_proc t)" by (subst u(3)) simp
    then have "map_at R s st k u" using t u(2) by (simp add: map_at_def)
    then show "block addr (Suc (Suc n)) code (set_reg r1 (scast (ucast (get_reg prog rs) :: u8)) prog) Q E u" by (rule K [OF u(1)])
  qed (use in2 r in auto)
qed

lemma set_reg_ok_iff: "program_ok (set_reg r v p) \<longleftrightarrow> program_ok p"
  by (simp add: program_ok_def set_reg_def)

lemma mmap_runs:
  assumes L: "layout_ok addr" "fetchable addr t" "low_code addr" and R: "running R t" and p: "program_ok prog"
    and t: "areas_ok (mmap_areas (cur_proc t))" "\<forall>x. area_at (mmap_areas (cur_proc t)) x = None" "window_tracked t" "frames_has (k + 6) t"
  shows "block addr n mmap_test prog (\<lambda>q u. program_ok q \<and> get_reg q sp = get_reg prog sp \<and> fetchable addr u \<and> map_at R t 0x3e002000 k u) E t"
proof -
  have arith: "get_reg prog r1 = x \<Longrightarrow> block addr (Suc m) code (set_reg rd x prog) Q E t \<Longrightarrow> block addr m (MV rd r1 # code) prog Q E t"
    "get_reg prog r1 = x \<Longrightarrow> block addr (Suc m) code (set_reg rd (x + v) prog) Q E t \<Longrightarrow> block addr m (ADDI rd r1 v # code) prog Q E t"
    "get_reg prog r1 = x \<Longrightarrow> get_reg prog r2 = y \<Longrightarrow> block addr (Suc m) code (set_reg rd (x + y) prog) Q E t \<Longrightarrow>
      block addr m (ADD rd r1 r2 # code) prog Q E t" if "fetchable addr t" for prog r1 r2 x y v rd m code Q E t
    using block_rules(2-4) [OF L(1) that] by simp_all
  note rules = arith block_rules(1,5-6) [OF L(1)] block_Nil
  have probe: "block addr m (SB rs 0 rb # LB r1 0 rb # code) prog Q E t"
    if "fetchable addr t" "map_at R s st k t" "program_ok prog" "unat st \<le> unat (get_reg prog rb)" "unat (get_reg prog rb) < 0x3e002000"
      "0x3e000000 \<le> unat st" "get_reg prog rs = x" "r1 < 32" "r1 \<noteq> 0" "rb \<noteq> 0"
      "\<And>u. fetchable addr u \<Longrightarrow> map_at R s st k u \<Longrightarrow> block addr (Suc (Suc m)) code (set_reg r1 (scast (ucast x :: u8)) prog) Q E u"
      for m rs rb r1 st k x code prog Q E s t
    by (rule block_map_probe [OF L(1) that(1-6,8-10)]) (use that(7,11) in simp)
  have unmap1: "block addr m (ECALL # code) prog Q E t" if "fetchable addr t" "map_at R s 0x3e000000 k t" "program_ok prog" "get_reg prog 17 = 215"
      "get_reg prog 10 = 0x3e000000" "get_reg prog 11 = 4096"
      "\<And>u. fetchable addr u \<Longrightarrow> map_at R s 0x3e001000 k u \<Longrightarrow> block addr (Suc m) code (set_reg 10 0 prog) Q E u" for m code prog Q E s t
    by (rule block_munmap [OF L(1) that(1) L(3) that(3-6,2)]) (use that(7) in simp_all)
  have unmap2: "block addr m (ECALL # code) prog Q E t" if "fetchable addr t" "map_at R s 0x3e001000 k t" "program_ok prog" "get_reg prog 17 = 215"
      "get_reg prog 10 = 0x3e001000" "get_reg prog 11 = 4096"
      "\<And>u. fetchable addr u \<Longrightarrow> map_at R s 0x3e002000 k u \<Longrightarrow> block addr (Suc m) code (set_reg 10 0 prog) Q E u" for m code prog Q E s t
    by (rule block_munmap [OF L(1) that(1) L(3) that(3-6,2)]) (use that(7) in simp_all)
  have inval: "block addr m (ECALL # code) prog Q E t" if "fetchable addr t" "map_at R s 0x3e002000 k t" "program_ok prog" "get_reg prog 17 = 215"
      "get_reg prog 10 = 0x3e000001"
      "\<And>u. fetchable addr u \<Longrightarrow> map_at R s 0x3e002000 k u \<Longrightarrow> block addr (Suc m) code (set_reg 10 (- 22) prog) Q E u" for m code prog Q E s t
    by (rule block_turned_down [OF L(1) that(1,3,2)]) (use that(4-) in auto)
  have nosys: "block addr m (ECALL # code) prog Q E t" if "fetchable addr t" "map_at R s 0x3e002000 k t" "program_ok prog" "get_reg prog 17 = 222"
      "get_reg prog 11 = 4096" "get_reg prog 12 = 3" "get_reg prog 13 = 2" "get_reg prog 15 = 0"
      "\<And>u. fetchable addr u \<Longrightarrow> map_at R s 0x3e002000 k u \<Longrightarrow> block addr (Suc m) code (set_reg 10 (- 38) prog) Q E u" for m code prog Q E s t
    by (rule block_turned_down [OF L(1) that(1,3,2)]) (use that(4-) in auto)
  have map: "block addr m (ECALL # code) prog Q E t" if "program_ok prog" "get_reg prog 17 = 222" "get_reg prog 10 = 0" "get_reg prog 11 = 8192"
      "get_reg prog 12 = 3" "get_reg prog 13 = 0x22" "get_reg prog 15 = 0"
      "\<And>u. fetchable addr u \<Longrightarrow> map_at R t 0x3e000000 k u \<Longrightarrow> block addr (Suc m) code (set_reg 10 0x3e000000 prog) Q E u" for m code prog Q E
    by (rule block_mmap [OF L R that(1-7) t]) (rule that(8))
  show ?thesis
    unfolding mmap_test_def
    by (insert L(2) p, (rule rules probe | (rule unmap1 unmap2 inval nosys, assumption, assumption, (simp add: set_reg_ok_iff; fail), (simp add: set_reg_ok_iff; fail)) |
      (rule map, (simp add: set_reg_ok_iff; fail), (simp add: set_reg_ok_iff; fail), (simp add: set_reg_ok_iff; fail), (simp add: set_reg_ok_iff; fail)) | assumption | (simp add: set_reg_ok_iff; fail))+)
qed

end
