(* ===== verification/SelfTest.thy ===== *)
theory SelfTest
  imports ProgMap
begin

text \<open>The self test of the built-in program as a whole: the parts of \<open>ProgRun\<close>, \<open>ProgCalls\<close>, \<open>ProgHeap\<close> and
  \<open>ProgMap\<close> one after the other, from the first instruction to the call of \<open>fork\<close>.\<close>

section \<open>The self test\<close>

text \<open>The built-in program is ready to test the system calls: it is the first process, with an unused
  heap and mapping window, some stack below \<open>a\<close> and memory for twelve frames.\<close>

definition test_ready :: "(nat \<Rightarrow> usize) \<Rightarrow> PhysAddr set \<Rightarrow> usize \<Rightarrow> 'a kernel_state_scheme \<Rightarrow> bool" where
  "test_ready addr R a s \<longleftrightarrow> running R s \<and> fetchable addr s \<and> stack_mapped a s \<and> pid (cur_proc s) = 1 \<and> parent_pid (cur_proc s) = 0 \<and>
     heap_start (cur_proc s) = USER_HEAP_START \<and> heap_end (cur_proc s) = USER_HEAP_START \<and>
     (\<forall>x\<in>heap2. pte_of (tables s) (cur_root s) x = 0) \<and> areas_ok (mmap_areas (cur_proc s)) \<and>
     (\<forall>x. area_at (mmap_areas (cur_proc s)) x = None) \<and> window_tracked s \<and> frames_has 12 s"

lemma ready_touched:
  assumes s: "test_ready addr R a s" and t: "touched R A s u"
  shows "test_ready addr R a u"
proof -
  have R: "running R s" "cur_root s \<in> R" using s by (simp_all add: test_ready_def running_def)
  have "pte_of (tables u) (cur_root s) x = pte_of (tables s) (cur_root s) x" for x using t R(2) by (simp add: touched_def)
  then have "window_tracked u = window_tracked s" by (simp add: window_tracked_def touched_cur [OF t])
  moreover have "frames_has 12 u" using s t by (simp add: test_ready_def touched_def)
  moreover have "\<forall>x\<in>heap2. pte_of (tables u) (cur_root u) x = 0"
    using s t R(2) by (simp add: test_ready_def touched_def touched_cur [OF t])
  ultimately show ?thesis
    using s touched_cur [OF t] touched_fetchable [OF R(1) t] stack_touched [OF R(1) t] by (simp add: test_ready_def)
qed

lemma greeting_after_registers:
  assumes L: "layout_ok addr" and s: "test_ready addr R (get_reg prog sp) s" and p: "program_ok prog" and tx: "3 \<le> tx_ready s"
  shows "block addr 0 ((reg_setup @ reg_check) @ greeting) prog (\<lambda>q u. program_ok q \<and> get_reg q sp = get_reg prog sp \<and>
    touched R (below (get_reg prog sp)) s u \<and> uart_out u = uart_out s @ map (Pair UART0) [0x4f, 0x4b, 0x0a]) (\<lambda>_ _. False) s"
proof -
  have R: "running R s" "fetchable addr s" using s by (simp_all add: test_ready_def)
  show ?thesis
  proof (rule block_append, rule block_mono [OF register_test [OF L R(2,1) p]])
    fix q u assume q: "program_ok q \<and> get_reg q sp = get_reg prog sp \<and> steady R s u"
    then have t: "touched R (below (get_reg prog sp)) s u" by (blast intro: touched_steady)
    note ru = ready_touched [OF s t]
    have u: "uart_out u = uart_out s" "tx_ready u = tx_ready s" using q by (simp_all add: steady_def alike_def tx_ready_def)
    show "block addr (0 + length (reg_setup @ reg_check)) greeting q (\<lambda>q u. program_ok q \<and> get_reg q sp = get_reg prog sp \<and>
      touched R (below (get_reg prog sp)) s u \<and> uart_out u = uart_out s @ map (Pair UART0) [0x4f, 0x4b, 0x0a]) (\<lambda>_ _. False) u"
      by (rule block_mono [OF greeting_runs [OF L, where R = R]])
        (use ru q tx u in \<open>auto simp: test_ready_def intro: touched_trans [OF t]\<close>)
  qed
qed

text \<open>After the calls without lasting effect.\<close>

lemma sys_test_front:
  assumes L: "layout_ok addr" and s: "test_ready addr R a s" and p: "program_ok prog" "get_reg prog sp = a - 512"
  shows "block addr n (uname_test @ cwd_test @ id_test) prog (\<lambda>q u. program_ok q \<and> get_reg q sp = a - 512 \<and> touched R (below a) s u) E s"
proof (rule block_append, rule block_mono [OF uname_runs [OF L _ _ p(1), where R = R and a = a]])
  fix q u assume "program_ok q \<and> get_reg q sp = get_reg prog sp \<and> touched R (below a) s u"
  then have q: "program_ok q" "get_reg q sp = a - 512" "touched R (below a) s u" using p by auto
  note ru = ready_touched [OF s q(3)]
  show "block addr (n + length uname_test) (cwd_test @ id_test) q (\<lambda>q u. program_ok q \<and> get_reg q sp = a - 512 \<and> touched R (below a) s u) E u"
  proof (rule block_append, rule block_mono [OF cwd_runs [OF L _ _ q(1), where R = R and a = a]])
    fix q' u' assume "program_ok q' \<and> get_reg q' sp = get_reg q sp \<and> touched R (below a) u u'"
    then have q': "program_ok q'" "get_reg q' sp = a - 512" "touched R (below a) s u'" using q by (auto intro: touched_trans)
    note ru' = ready_touched [OF s q'(3)]
    have st: "steady R u' u'" using ru' by (auto simp: test_ready_def intro: steady_refl)
    show "block addr (n + length uname_test + length cwd_test) id_test q' (\<lambda>q u. program_ok q \<and> get_reg q sp = a - 512 \<and> touched R (below a) s u) E u'"
      by (rule block_mono [OF id_test_runs [OF L _ st q'(1)]])
        (use ru' q' in \<open>auto simp: test_ready_def intro: touched_trans [OF q'(3)] touched_steady\<close>)
  qed (use ru q in \<open>simp_all add: test_ready_def\<close>)
qed (use s p in \<open>simp_all add: test_ready_def\<close>)

text \<open>The heap and the mappings are given back.\<close>

definition given_back :: "PhysAddr set \<Rightarrow> 'a kernel_state_scheme \<Rightarrow> 'a kernel_state_scheme \<Rightarrow> bool" where
  "given_back R s u \<longleftrightarrow> running R u \<and> cur_root u = cur_root s \<and> (\<forall>x\<in>heap2 \<union> maps2. pte_of (tables u) (cur_root s) x = 0) \<and>
     (\<forall>r\<in>R. \<forall>x. canonical x \<and> (r \<noteq> cur_root s \<or> x \<notin> heap2 \<union> maps2) \<longrightarrow> view (mem u) r x = view (mem s) r x)"

lemma sys_test_back:
  assumes L: "layout_ok addr" "low_code addr" and s: "test_ready addr R a s" and p: "program_ok prog"
  shows "block addr n (brk_test @ mmap_test) prog (\<lambda>q u. program_ok q \<and> get_reg q sp = get_reg prog sp \<and> fetchable addr u \<and> given_back R s u) E s"
proof -
  have f: "fetchable addr s" using s by (simp add: test_ready_def)
  have none: "in_pages 0x20000 (page_up 0x20000) = {}" "in_pages 0x3e002000 0x3e002000 = {}" by (simp_all add: page_up_values in_pages_empty)
  have dis: "x \<notin> heap2" if "0x3e000000 \<le> unat x mod 2 ^ 39" for x using that by (simp add: in_pages_def)
  have h: "heap_at R s 0x20000 (6 + 6) s"
    using s window_start [of R s 12 heap2] by (simp add: test_ready_def heap_at_def none USER_HEAP_START_def)
  show ?thesis
  proof (rule block_append, rule block_mono [OF brk_runs [OF L(1) f L(2) p h]])
    fix q u assume q: "program_ok q \<and> get_reg q sp = get_reg prog sp \<and> fetchable addr u \<and> heap_at R s 0x20000 6 u"
    then have w: "window R s heap2 {} 6 u" by (simp add: heap_at_def none)
    note wd = windowD [OF w]
    have pu: "pte_of (tables u) (cur_root s) x = pte_of (tables s) (cur_root s) x" if "x \<notin> heap2" for x using w wd(6) that by (simp add: window_def)
    have tr: "window_tracked u"
      using s pu dis q wd(2) unfolding window_tracked_def Let_def by (simp add: test_ready_def window_tracked_def Let_def heap_at_def)
    have as: "areas_ok (mmap_areas (cur_proc u))" "\<forall>x. area_at (mmap_areas (cur_proc u)) x = None" "frames_has (0 + 6) u"
      using s q wd(3) by (simp_all add: test_ready_def heap_at_def)
    have fin: "given_back R s v" if "map_at R u 0x3e002000 0 v" for v
    proof -
      have wv: "window R u maps2 {} 0 v" using that by (simp add: map_at_def none)
      note vd = windowD [OF wv]
      have "pte_of (tables v) (cur_root s) x = 0" if "x \<in> heap2 \<union> maps2" for x
        using that wv vd(4,6) wd(2,4) by (auto simp: window_def)
      moreover have "view (mem v) r x = view (mem s) r x" if "r \<in> R" "canonical x" "r \<noteq> cur_root s \<or> x \<notin> heap2 \<union> maps2" for r x
        using that w wv wd(2) by (simp add: window_def)
      ultimately show ?thesis using vd(1,2) wd(2) by (simp add: given_back_def)
    qed
    show "block addr (n + length brk_test) mmap_test q (\<lambda>q u. program_ok q \<and> get_reg q sp = get_reg prog sp \<and> fetchable addr u \<and> given_back R s u) E u"
      by (rule block_mono [OF mmap_runs [OF L(1) _ L(2) wd(1) _ as(1,2) tr as(3)]]) (use q fin in auto)
  qed
qed

lemma sys_test_runs:
  assumes L: "layout_ok addr" "low_code addr" and s: "test_ready addr R a s" and p: "program_ok prog" "get_reg prog sp = a"
  shows "block addr n sys_test prog (\<lambda>q u. program_ok q \<and> get_reg q sp = a \<and> (\<exists>t. touched R (below a) s t \<and> given_back R t u)) E s"
    (is "block _ _ _ _ ?Q _ _")
proof -
  have f: "fetchable addr s" using s by (simp add: test_ready_def)
  have q: "program_ok (set_reg sp (a - 512) prog)" "get_reg (set_reg sp (a - 512) prog) sp = a - 512" using p by simp_all
  have "block addr (Suc n) ((uname_test @ cwd_test @ id_test) @ (brk_test @ mmap_test) @ [ADDI sp sp 512]) (set_reg sp (a - 512) prog) ?Q E s"
  proof (rule block_append, rule block_mono [OF sys_test_front [OF L(1) s q]])
    fix q u assume u: "program_ok q \<and> get_reg q sp = a - 512 \<and> touched R (below a) s u"
    then have ru: "test_ready addr R a u" by (blast intro: ready_touched [OF s])
    show "block addr (Suc n + length (uname_test @ cwd_test @ id_test)) ((brk_test @ mmap_test) @ [ADDI sp sp 512]) q ?Q E u"
    proof (rule block_append, rule block_mono [OF sys_test_back [OF L ru]])
      fix q' v assume v: "program_ok q' \<and> get_reg q' sp = get_reg q sp \<and> fetchable addr v \<and> given_back R u v"
      then show "block addr (Suc n + length (uname_test @ cwd_test @ id_test) + length (brk_test @ mmap_test)) [ADDI sp sp 512] q' ?Q E v"
        by (intro block_rules(3) [OF L(1)] block_Nil) (use u v in auto)
    qed (use u in auto)
  qed auto
  then show ?thesis unfolding sys_test_def using p block_rules(3) [OF L(1) f, of n _ sp prog sp "- 512"] by simp
qed

text \<open>The process of the witness, with a device that is ready for ten bytes.\<close>

lemma ready_state:
  obtains s :: kernel_state where "test_ready layout4 {root pt1} 0x3F001000 s" "cur_root s = root pt1" "tx_ready s = 10"
proof -
  obtain t :: kernel_state where t: "running {root pt1} t" "cur_proc t = lone_proc" "fetchable layout4 t" "frames_has 44 t"
    "zeroed (root pt1) {a. same_page 0x3F000000 a} rw t"
    "\<And>a. \<not> same_page 0x10000 a \<Longrightarrow> \<not> same_page 0x3F000000 a \<Longrightarrow> pte_of (tables t) (root pt1) a = 0" by (rule test_state) blast
  let ?s = "t\<lparr>uart_in := (\<lambda>_. replicate 10 0x20)\<rparr>"
  have fe: "frames_eq t ?s" by (simp add: frames_eq_def)
  have c: "cur_proc ?s = lone_proc" "cur_root ?s = root pt1" using t(2) by (simp_all add: cur_proc_def lone_facts(6))
  have R: "running {root pt1} ?s"
    using t(1) world_eq(4,5) [OF fe] c(1) t(2) by (simp add: running_def stack_ready_def) (simp add: sched_ok_def)
  have tr: "hw_translate User acc a ?s = hw_translate User acc a t" for acc a
    using hw_translate_pte [OF in_callD(2-4) [OF running_in_call [OF R]], of User acc a]
      hw_translate_pte [OF in_callD(2-4) [OF running_in_call [OF t(1)]], of User acc a] c t(2) by simp
  have pg: "same_page 0x10000 a \<longleftrightarrow> unat a mod 2 ^ 39 div 4096 = 0x10" "same_page 0x3F000000 a \<longleftrightarrow> unat a mod 2 ^ 39 div 4096 = 0x3F000" for a :: usize
    using same_page_range [of "0x10000" a] same_page_range [of "0x3F000000" a] by (auto simp: page_aligned_def)
  have "stack_mapped 0x3F001000 ?s"
    unfolding stack_mapped_def
  proof (intro conjI ballI allI impI)
    fix x acc assume "x \<in> below (0x3F001000 :: usize)" and acc: "acc \<noteq> Fetch"
    then have x: "unat x < 0x3F001000" "0x3F001000 \<le> unat x + 1024" by (simp_all add: below_def)
    then have "unat x mod 2 ^ 39 = unat x" "unat x div 4096 = 0x3F000" by auto
    then have "x \<in> {a. same_page 0x3F000000 a}" "canonical x" using pg(2) x(1) by (simp_all add: canonical_def)
    then have "hw_translate User acc x t \<noteq> None"
      by (rule zeroed_translates [OF running_in_call [OF t(1)] t(5) [folded c(2), unfolded c(1), folded t(2)]]) (use acc in \<open>cases acc; simp\<close>)+
    then show "hw_translate User acc x ?s \<noteq> None" by (simp add: tr)
  qed (simp_all add: dword_aligned_def)
  moreover have z: "pte_of (tables ?s) (root pt1) a = 0" if "0x20000 \<le> unat a mod 2 ^ 39" "unat a mod 2 ^ 39 < 0x3F000000" for a
    using t(6) [of a] that pg by auto
  moreover have "fetchable layout4 ?s" using t(3) by (simp add: fetchable_def tr)
  moreover have "frames_has 12 ?s" using frames_has_eq [OF fe] kcount.has_weaken [OF t(4), of 12] by simp
  moreover have "areas_ok (mmap_areas lone_proc)" "area_at (mmap_areas lone_proc) x = None" for x
    by (simp_all add: lone_proc_def proc0_def areas_ok_def MmapArea_EMPTY_def apart_def area_at_None in_area_def)
  ultimately have "test_ready layout4 {root pt1} 0x3F001000 ?s"
    using R c by (simp add: test_ready_def window_tracked_def Let_def in_pages_def) (simp add: lone_proc_def proc0_def)
  then show ?thesis by (rule that) (use c(2) in \<open>simp_all add: tx_ready_def\<close>)
qed

lemma block_returns:
  assumes "code_at n code" and "block addr n code prog Q (\<lambda>_ _. False) s" and "pc prog = addr n"
  shows "\<exists>p t. user_run addr (length code) prog s = (Val p, t) \<and> pc p = addr (n + length code) \<and> Q p t"
proof -
  have "prog\<lparr>pc := addr n\<rparr> = prog" using assms(3) by simp
  then show ?thesis using assms(1,2) wp_returns unfolding block_def by fastforce
qed

section \<open>The kernel passes the test\<close>

text \<open>C11. The self test of the built-in program. It is started at its first instruction, on any layout that the
  assembler may choose below the heap, as the first process, with some stack, an unused heap and mapping
  window, twelve free frames and a device that takes three bytes. After exactly the instructions of the
  register test and the greeting it has sent \<open>OK\<close> and a newline. Then it runs through the tests of
  \<open>uname\<close>, \<open>getcwd\<close>, \<open>getppid\<close>, \<open>gettid\<close>, \<open>getuid\<close>, \<open>write\<close>, \<open>brk\<close>, \<open>mmap\<close>, \<open>munmap\<close> and of an unknown
  call, and after exactly their instructions it stands at the call of \<open>fork\<close>, so that none of the
  comparisons with the expected results has failed, with its stack pointer where it was. The heap and
  the mappings are gone, and no byte that the program sees has changed but for the 1024 below its stack
  pointer, and none that any other program sees. Every call goes through the trap entry, the dispatch and
  the trap exit of the kernel, and every load and store through the page table.\<close>

theorem self_test_passes:
  assumes "layout_ok addr" and "low_code addr" and "test_ready addr R (get_reg prog sp) s" and "3 \<le> tx_ready s"
    and "program_ok prog" and "pc prog = addr 0"
  shows "\<exists>p1 s1 p2 s2. user_run addr (length (reg_setup @ reg_check @ greeting)) prog s = (Val p1, s1) \<and>
    uart_out s1 = uart_out s @ map (Pair UART0) [0x4f, 0x4b, 0x0a] \<and>
    user_run addr (length sys_test) p1 s1 = (Val p2, s2) \<and>
    pc p2 = addr (length (reg_setup @ reg_check @ greeting @ sys_test)) \<and> get_reg p2 sp = get_reg prog sp \<and> running R s2 \<and>
    (\<forall>x \<in> heap2 \<union> maps2. pte_of (tables s2) (cur_root s) x = 0) \<and>
    (\<forall>r\<in>R. \<forall>x. canonical x \<and> (r = cur_root s \<longrightarrow> x \<notin> below (get_reg prog sp) \<union> heap2 \<union> maps2) \<longrightarrow> view (mem s2) r x = view (mem s) r x)"
proof -
  let ?a = "get_reg prog sp" and ?front = "(reg_setup @ reg_check) @ greeting"
  have c: "code_at 0 (?front @ sys_test)" using code_at_append(1) [of 0 "reg_setup @ reg_check @ greeting @ sys_test" fork_test] user_code_parts by simp
  note c = code_at_append [OF c]
  obtain p1 s1 where 1: "user_run addr (length ?front) prog s = (Val p1, s1)" "pc p1 = addr (0 + length ?front)" "program_ok p1"
    "get_reg p1 sp = ?a" "touched R (below ?a) s s1" "uart_out s1 = uart_out s @ map (Pair UART0) [0x4f, 0x4b, 0x0a]"
    using block_returns [OF c(1) greeting_after_registers [OF assms(1,3,5,4)] assms(6)] by blast
  obtain p2 s2 t where 2: "user_run addr (length sys_test) p1 s1 = (Val p2, s2)" "pc p2 = addr (0 + length ?front + length sys_test)"
    "get_reg p2 sp = ?a" "touched R (below ?a) s1 t" "given_back R t s2"
    using block_returns [OF c(2) sys_test_runs [OF assms(1,2) ready_touched [OF assms(3) 1(5)] 1(3,4)] 1(2)] by blast
  have t: "touched R (below ?a) s t" by (rule touched_trans [OF 1(5) 2(4)])
  have v: "view (mem s2) r x = view (mem s) r x" if "r \<in> R" "canonical x" "r = cur_root s \<longrightarrow> x \<notin> below ?a \<union> heap2 \<union> maps2" for r x
  proof -
    have "view (mem t) r x = view (mem s) r x" using t that unfolding touched_def by blast
    moreover have "view (mem s2) r x = view (mem t) r x" using 2(5) that touched_cur(2) [OF t] unfolding given_back_def by auto
    ultimately show ?thesis by simp
  qed
  show ?thesis
    by (rule exI [of _ p1], rule exI [of _ s1], rule exI [of _ p2], rule exI [of _ s2])
      (use 1(1,6) 2(1-3,5) v touched_cur(2) [OF t] in \<open>simp add: given_back_def add.assoc\<close>)
qed

theorem self_test_passes_witness:
  "\<exists>(s :: kernel_state) p1 s1 p2 s2. user_run layout4 92 (program_of (new_user 0x10000 0x3F001000)) s = (Val p1, s1) \<and>
     uart_out s1 = uart_out s @ map (Pair UART0) [0x4f, 0x4b, 0x0a] \<and> user_run layout4 127 p1 s1 = (Val p2, s2) \<and> pc p2 = 0x1036C"
proof -
  obtain s :: kernel_state where s: "test_ready layout4 {root pt1} 0x3F001000 s" "cur_root s = root pt1" "tx_ready s = 10" by (rule ready_state)
  have low: "low_code layout4" by (simp add: low_code_def unat_layout4 length_user_code)
  let ?p = "program_of (new_user 0x10000 0x3F001000)"
  have p: "program_ok ?p" "pc ?p = layout4 0" "get_reg ?p sp = 0x3F001000"
    by (simp_all add: program_of_ok) (simp_all add: program_of_def new_user_def layout4_def USER_CODE_BASE_def get_reg_def REG_SP_def)
  have n: "length (reg_setup @ reg_check @ greeting) = 92" "length sys_test = 127" "length (reg_setup @ reg_check @ greeting @ sys_test) = 219"
    "layout4 219 = 0x1036C"
    by (simp_all add: reg_setup_def reg_check_def greeting_def sys_test_def uname_test_def cwd_test_def id_test_def brk_test_def mmap_test_def
        layout4_def USER_CODE_BASE_def)
  have tx: "3 \<le> tx_ready s" by (simp add: s(3))
  have "test_ready layout4 {root pt1} (get_reg ?p sp) s" unfolding p(3) by (rule s(1))
  from self_test_passes [OF layout4_ok low this tx p(1,2), unfolded n] show ?thesis by blast
qed

end
