(* ===== verification/Spec2Isabelle.thy ===== *)
theory Spec2Isabelle
  imports ForkSpec SelfTest
begin

text \<open>
  Verification of the unit00 kernel (\<open>src/kernel/src\<close>), a RISC-V kernel in Rust with paging,
  copy-on-write \<open>fork\<close>, a round-robin scheduler and a small Linux-like system call interface.

  \<^bold>\<open>The program and its model.\<close> A trap from a user program enters the assembly \<open>trap_entry\<close>
  (\<open>main.rs\<close>), which saves the registers in a trap frame on the kernel stack of the current
  process and calls \<open>trap_handler\<close> (\<open>trap.rs\<close>). That counts timer ticks, resolves copy-on-write
  faults, kills programs that fault, or calls \<open>syscall::dispatch\<close>; it returns through
  \<open>trap_exit_restore\<close>, or through \<open>schedule\<close> into another process. The system calls use the
  process table (\<open>task/\<close>), the frame allocator (\<open>mm/frame.rs\<close>) and the page tables
  (\<open>mm/page_table.rs\<close>); the console, the SBI and the timer are below all of them.

  Every routine is a function of the state monad of \<open>Prelude\<close>: it returns a value, or leaves for
  good by a panic, a power-off, the jump to \<open>trap_exit_restore\<close> (\<open>Resume\<close>), an exception in
  supervisor mode, or by polling a device that never answers. The state is one extensible record
  that grows with the layers: memory, registers, devices (\<open>hart\<close>), the statics of the allocator
  (\<open>frames\<close>), the statics of the scheduler (\<open>kernel_state\<close>). Integers are 64-bit words; \<open>uadd\<close>,
  \<open>usub\<close> and \<open>umul\<close> panic on overflow, as in the debug build, and \<open>wrapping_\<close> and \<open>checked_\<close>
  operations are written out. A pointer is an address in memory, a \<open>&mut PTEntry\<close> the address
  of the entry.

  \<^bold>\<open>The theories.\<close>

  \<^item> \<open>Prelude\<close>: words, outcomes, the monad, the weakest-precondition rules (\<open>wp_simps\<close>) and the rules
    for routines that leave a part of the state alone (\<open>keeps_intros\<close>).
  \<^item> \<open>Memory\<close>: bytes and aligned double words, the contract \<open>dword_store\<close> and its proof for RAM.
  \<^item> \<open>Machine\<close>: the hart; \<open>console.rs\<close>, \<open>sbi.rs\<close>, \<open>timer.rs\<close> and \<open>print_hex\<close> of \<open>trap.rs\<close>. What the
    device receives, and that printing ends when it is ready.
  \<^item> \<open>Frame\<close>: \<open>mm/frame.rs\<close>. The allocator invariant with the free list threaded through memory, the
    contract of every operation, and the contracts for clients: \<open>frame_source\<close> (a frame that is
    handed out was not in use), \<open>counted_frame_source\<close> (as many allocations succeed as there are
    frames) and \<open>state_frame\<close> (nothing above the allocator changes), interpreted on
    \<open>alloc_frame\<close>.
  \<^item> \<open>PTE\<close>, \<open>PageTable\<close>: \<open>mm/page_table.rs\<close>. Entries bit by bit; the tree of tables, its well-formedness
    and its abstraction to a function from addresses to leaf entries, of which \<open>map\<close>, \<open>map_cow\<close>
    and \<open>unmap\<close> are point updates; the identity map that \<open>init_kernel\<close> builds. Proved once in
    the contracts of \<open>Frame\<close>.
  \<^item> \<open>TrapFrame\<close>, \<open>Process\<close>, \<open>Scheduler\<close>: \<open>task/\<close>. Trap frames on a kernel stack, the process table,
    the context switch, fairness of the round robin, waking and reparenting.
  \<^item> \<open>Mmap\<close>: the table of anonymous mappings in \<open>syscall.rs\<close>, as a map from addresses to protections;
    first fit, and cutting a range out.
  \<^item> \<open>UserMem\<close>: user buffers and copy-on-write (\<open>syscall.rs\<close>, \<open>trap.rs\<close>) with the Sv39 translation of
    the hart; address spaces (\<open>space_ok\<close>), what a program sees of memory (\<open>view\<close>).
  \<^item> \<open>Vm\<close>, \<open>Lifecycle\<close>, \<open>Syscall\<close>: \<open>brk\<close>, \<open>mmap\<close>, \<open>munmap\<close>; \<open>fork\<close>, \<open>exit\<close>, \<open>wait\<close>; the buffer calls
    and \<open>dispatch\<close>.
  \<^item> \<open>Space\<close>: the address spaces of all processes together. The invariant \<open>world_ok\<close> relates the page
    tables, the reference counts and the allocator; the update of one page of one space
    (\<open>page_update\<close>) keeps it.
  \<^item> \<open>VmSpec\<close>, \<open>Isolation\<close>, \<open>LifeSpec\<close>, \<open>ForkSpec\<close>: over this invariant, \<open>brk\<close>, \<open>mmap\<close>, \<open>munmap\<close>, \<open>exit\<close>
    and \<open>fork\<close> in terms of what programs see; what the hart lets a program reach; that checking a buffer, copying on
    write and switching processes change nothing that any program sees. A loop over the leaf
    entries of a page table is a loop over pages, once for every callback (\<open>page_visitor\<close>).
  \<^item> \<open>Trap\<close>: \<open>trap.rs\<close> and the assembly of \<open>trap_entry\<close> and \<open>trap_exit_restore\<close>. What a program finds
    in its registers after an interrupt and after a system call.
  \<^item> \<open>Boot\<close>: \<open>_start\<close>, \<open>rust_main\<close> and the panic handler of \<open>main.rs\<close>.
  \<^item> \<open>Invariant\<close>: the invariant of the whole kernel, established by \<open>rust_main\<close> and preserved by every
    trap, and the reachable states of the system.
  \<^item> \<open>Buffers\<close>: what \<open>write\<close> sends and what \<open>getcwd\<close> and \<open>uname\<close> leave in the buffer of the program, byte by
    byte.
  \<^item> \<open>UserProg\<close>: the built-in user program of \<open>main.rs\<close>, instruction by instruction, executed in user mode
    through the translation of the hart, with every \<open>ecall\<close> and fault entering the kernel by \<open>trap_entry\<close>.
  \<^item> \<open>ProgRun\<close>, \<open>ProgCalls\<close>, \<open>ProgHeap\<close>, \<open>ProgMap\<close>, \<open>SelfTest\<close>: the tests that this program makes of the kernel,
    one block of instructions after the other: registers across a call, output and buffers, the
    identity calls, the heap, the mappings; the kernel passes all of them up to the call of \<open>fork\<close>. The rest of
    the program (a child that exits and a parent that waits for it) is executed by the model, and
    \<open>fork\<close>, \<open>exit\<close> and \<open>wait\<close> have their own theorems.

  \<^bold>\<open>Loops.\<close> No definition uses fuel. Loops over ranges are \<open>for_each\<close> over a list; loops that step an
  address by a page are functions with a termination proof, since the address grows or the
  addition panics; \<open>zero_bss\<close>, which compares signed addresses, is a partial function and its
  termination a theorem. The console polls a list of answers of the device, and runs out of it
  only when the device is never ready again.

  \<^bold>\<open>Parameters.\<close> The answers of the UART and of the SBI firmware, the clock, the addresses provided by the
  linker, the addresses the assembler gives to the instructions of the user program, and whether the hart has page-based memory types (\<open>svpbmt\<close>) are inputs of the state or
  arguments.

  \<^bold>\<open>Not modelled.\<close> Translation caches are left out, so \<open>sfence.vma\<close> has no
  effect, and so are the accessed and dirty bits, and what compiled Rust code itself keeps on
  the kernel stack below the trap frame. The unused \<open>trigger_breakpoint\<close>, module lists, linker
  script and build files hold nothing to model.
\<close>

end
